(* ===== verification/Prelude.thy ===== *)
theory Prelude
  imports Main "HOL-Library.Word"
begin

text \<open>
  Shared vocabulary of the development: names for the machine integers of the
  C sources, the little-endian view of the 32-bit words of the Xtensa core as
  bytes, and the lemmas on words that several components use.  The collections
  declared here gather the rewrite rules a component exports to the others:
  \<open>byte_simps\<close> for the byte view of words, \<open>mask_simps\<close> for masking and
  tagging block numbers and \<open>heap_simps\<close> for reading a heap field after a write.
\<close>

unbundle bit_operations_syntax

named_theorems byte_simps
named_theorems mask_simps
named_theorems heap_simps

type_synonym u8 = "8 word"
type_synonym u16 = "16 word"
type_synonym u32 = "32 word"
type_synonym u64 = "64 word"

lemma unat_bound: "unat (w :: 'a::len word) < 2 ^ LENGTH('a)"
  by (rule unsigned_less)

lemma unat_inject: "unat (v :: 'a::len word) = unat w \<Longrightarrow> v = w"
  by (rule unsigned_word_eqI)

lemma unat_of_nat_u32: "n < 2 ^ 32 \<Longrightarrow> unat (of_nat n :: u32) = n"
  by (simp add: unat_of_nat)

lemma unat_of_nat_u16: "n < 0x10000 \<Longrightarrow> unat (of_nat n :: u16) = n"
  by (simp add: unat_of_nat)

lemma and_1_eq_0_iff: "(w :: 'a::len word) AND 1 = 0 \<longleftrightarrow> even (unat w)"
proof -
  have "w AND 1 = 0 \<longleftrightarrow> \<not> bit w 0" using and_exp_eq_0_iff_not_bit [of w 0] by simp
  also have "bit w 0 \<longleftrightarrow> bit (unat w) 0" by (simp only: bit_unsigned_iff) simp
  finally show ?thesis by (simp add: bit_0)
qed

lemma xor_eq_0_word_iff: "(a :: 'a::len word) XOR b = 0 \<longleftrightarrow> a = b"
  by (auto simp: bit_eq_iff bit_xor_iff)

lemma xor_left_cancel_word: "(a :: 'a::len word) XOR b = a XOR c \<longleftrightarrow> b = c"
  by (auto simp: bit_eq_iff bit_xor_iff)

lemma bit_shl1: "bit (push_bit 1 (w :: 'a::len word)) n \<longleftrightarrow> 0 < n \<and> n < LENGTH('a) \<and> bit w (n - 1)"
  by (auto simp only: bit_push_bit_iff possible_bit_word)

lemma and_not_mask_eq: "(w :: 'a::len word) AND NOT (mask n) = push_bit n (drop_bit n w)"
  by (rule bit_word_eqI) (auto simp: bit_simps)

lemma unat_take_bit: "unat (take_bit n (w :: 'a::len word)) = unat w mod 2 ^ n"
  by (simp add: unsigned_take_bit_eq flip: take_bit_eq_mod)

lemma unat_and_not_mask: "unat ((w :: 'a::len word) AND NOT (mask n)) = unat w - unat w mod 2 ^ n"
proof -
  have "push_bit n (drop_bit n w) + take_bit n w = w" by (rule bits_ident)
  then have "w AND NOT (mask n) = w - take_bit n w"
    by (metis and_not_mask_eq add_diff_cancel_right')
  moreover have "take_bit n w \<le> w" by (simp add: word_le_nat_alt unat_take_bit)
  ultimately show ?thesis by (simp add: unat_sub unat_take_bit)
qed

lemma sint_small: "unat (w :: u32) < 2 ^ 31 \<Longrightarrow> sint w = int (unat w)"
proof -
  assume "unat w < 2 ^ 31"
  then have "nat (uint w) < 2 ^ 31" by simp
  then have "uint w < 2 ^ 31" unfolding nat_less_iff [OF uint_ge_0] by simp
  then have "signed_take_bit 31 (uint w) = uint w"
    by (intro signed_take_bit_int_eq_self order_trans [OF _ uint_ge_0]) simp_all
  then show ?thesis by (simp add: sint_uint)
qed

lemma and_ff [simp]: "(0xff :: u8) AND w = w"
proof -
  have "(0xff :: u8) = - 1" by simp
  then show ?thesis by (simp only: and.left_neutral)
qed

section \<open>Words as bytes\<close>

text \<open>
  The core is little-endian: byte \<open>i\<close> of a 32-bit object at an aligned address
  holds bits \<open>8*i .. 8*i+7\<close>.
\<close>

definition byte_of :: "nat \<Rightarrow> u32 \<Rightarrow> u8" where
  "byte_of i w = ucast (drop_bit (8 * i) w)"

definition bytes_of :: "u32 \<Rightarrow> u8 list" where
  "bytes_of w = [byte_of 0 w, byte_of 1 w, byte_of 2 w, byte_of 3 w]"

definition word_of :: "u8 \<Rightarrow> u8 \<Rightarrow> u8 \<Rightarrow> u8 \<Rightarrow> u32" where
  "word_of b0 b1 b2 b3 =
     ucast b0 OR push_bit 8 (ucast b1) OR push_bit 16 (ucast b2) OR push_bit 24 (ucast b3)"

fun words_of :: "u8 list \<Rightarrow> u32 list" where
  "words_of (b0 # b1 # b2 # b3 # bs) = word_of b0 b1 b2 b3 # words_of bs"
| "words_of _ = []"

lemma bit_byte_of [byte_simps]: "bit (byte_of i w) n \<longleftrightarrow> n < 8 \<and> bit w (8 * i + n)"
  by (auto simp: byte_of_def bit_simps)

lemma bit_word_of [byte_simps]:
  "bit (word_of b0 b1 b2 b3) n \<longleftrightarrow>
     n < 32 \<and> (if n < 8 then bit b0 n else if n < 16 then bit b1 (n - 8)
       else if n < 24 then bit b2 (n - 16) else bit b3 (n - 24))"
  by (auto simp: word_of_def bit_simps not_less intro: bit_imp_le_length)
    (auto dest: bit_imp_le_length)

lemma length_bytes_of [simp]: "length (bytes_of w) = 4"
  by (simp add: bytes_of_def)

lemma word_of_bytes [simp]:
  "word_of (byte_of 0 w) (byte_of (Suc 0) w) (byte_of 2 w) (byte_of 3 w) = w"
proof (rule bit_word_eqI)
  fix n :: nat
  assume "n < LENGTH(32)"
  then show "bit (word_of (byte_of 0 w) (byte_of (Suc 0) w) (byte_of 2 w) (byte_of 3 w)) n = bit w n"
    by (auto simp: byte_simps)
qed

lemma byte_of_word_of [simp]:
  "byte_of 0 (word_of b0 b1 b2 b3) = b0"
  "byte_of (Suc 0) (word_of b0 b1 b2 b3) = b1"
  "byte_of 2 (word_of b0 b1 b2 b3) = b2"
  "byte_of 3 (word_of b0 b1 b2 b3) = b3"
  by (auto intro!: bit_word_eqI simp: byte_simps)

lemma byte_of_inject:
  "byte_of 0 v = byte_of 0 w \<Longrightarrow> byte_of (Suc 0) v = byte_of (Suc 0) w \<Longrightarrow> byte_of 2 v = byte_of 2 w \<Longrightarrow>
   byte_of 3 v = byte_of 3 w \<Longrightarrow> v = w"
  by (metis word_of_bytes)

lemma words_of_bytes_of [simp]: "words_of (bytes_of w @ bs) = w # words_of bs"
  by (simp add: bytes_of_def)

lemma words_of_concat [simp]: "words_of (concat (map bytes_of ws)) = ws"
  by (induction ws) simp_all

lemma length_concat_bytes_of [simp]: "length (concat (map bytes_of ws)) = 4 * length ws"
  by (induction ws) simp_all

text \<open>The byte order of the network; \<open>ntohl\<close> is the same function.\<close>

definition htonl :: "u32 \<Rightarrow> u32" where
  "htonl w = word_of (byte_of 3 w) (byte_of 2 w) (byte_of 1 w) (byte_of 0 w)"

lemma htonl_htonl [simp]: "htonl (htonl w) = w"
  by (simp add: htonl_def)

end
