(* ===== verification/Umm_Heap.thy ===== *)
theory Umm_Heap
  imports Prelude
begin

text \<open>
  The heap of \<open>cores/esp8266/umm_malloc/umm_malloc.cpp\<close>: the block record, the
  heap context, the accessor macros, and the heap as bytes for the library
  calls \<open>memcpy\<close>, \<open>memmove\<close> and \<open>memset\<close>.

  A block is eight bytes: two 16-bit block numbers for the list of all blocks
  and, in a free block, two more for the free list; in a used block the second
  half and the blocks behind it are the user's data.  The context record holds
  the fields of \<open>UMM_HEAP_CONTEXT\<close> in the default build (\<open>UMM_STATS\<close>, \<open>UMM_INFO\<close>)
  and, as \<open>blks\<close>, the memory \<open>heap\<close> points to, indexed by block number.
\<close>

section \<open>Block numbers and the free mark\<close>

definition UMM_FREELIST_MASK :: u16 where "UMM_FREELIST_MASK = 0x8000"
definition UMM_BLOCKNO_MASK :: u16 where "UMM_BLOCKNO_MASK = 0x7FFF"

text \<open>The two halves of a tagged block number.\<close>

definition blkno :: "u16 \<Rightarrow> nat" where "blkno w = unat (w AND UMM_BLOCKNO_MASK)"
definition freebit :: "u16 \<Rightarrow> bool" where "freebit w \<longleftrightarrow> w AND UMM_FREELIST_MASK \<noteq> 0"

lemma umm_masks: "UMM_FREELIST_MASK = push_bit 15 1" "UMM_BLOCKNO_MASK = mask 15"
  by (simp_all add: mask_eq_decr_exp UMM_FREELIST_MASK_def UMM_BLOCKNO_MASK_def)

lemma bit_umm_masks:
  "bit UMM_FREELIST_MASK n \<longleftrightarrow> n = 15"
  "bit UMM_BLOCKNO_MASK n \<longleftrightarrow> n < 15"
  unfolding umm_masks bit_push_bit_iff bit_mask_iff bit_1_iff by auto

lemma freebit_bit: "freebit w \<longleftrightarrow> bit w 15"
proof -
  have "w AND UMM_FREELIST_MASK = 0 \<longleftrightarrow> \<not> bit w 15"
    using and_exp_eq_0_iff_not_bit [of w 15] by (simp add: UMM_FREELIST_MASK_def)
  then show ?thesis by (simp add: freebit_def)
qed

lemma blkno_mod: "blkno w = unat w mod 0x8000"
  by (simp add: blkno_def umm_masks unat_take_bit flip: take_bit_eq_mask)

lemma blkno_less [simp]: "blkno w < 0x8000"
  by (simp add: blkno_mod)

lemma and_blockno_cong: "(\<And>n. n < 15 \<Longrightarrow> bit v n = bit w n) \<Longrightarrow> blkno v = blkno w"
  unfolding blkno_def by (rule arg_cong [of _ _ unat], rule bit_word_eqI) (auto simp: bit_and_iff bit_umm_masks)

lemma blkno_masks [simp, mask_simps]:
  "blkno (w AND UMM_BLOCKNO_MASK) = blkno w"
  "blkno (w OR UMM_FREELIST_MASK) = blkno w"
  "blkno (w AND NOT UMM_FREELIST_MASK) = blkno w"
  "blkno 0 = 0" "blkno (w OR 0) = blkno w"
  by (auto intro!: and_blockno_cong simp: bit_and_iff bit_or_iff bit_not_iff bit_umm_masks)
    (simp add: blkno_def)

lemma freebit_masks [simp, mask_simps]:
  "\<not> freebit (w AND UMM_BLOCKNO_MASK)"
  "freebit (w OR UMM_FREELIST_MASK)"
  "\<not> freebit (w AND NOT UMM_FREELIST_MASK)"
  "\<not> freebit 0" "freebit (w OR 0) = freebit w"
  by (auto simp: freebit_bit bit_and_iff bit_or_iff bit_not_iff bit_umm_masks)

lemma blkno_small: "unat w < 0x8000 \<Longrightarrow> blkno w = unat w"
  by (simp add: blkno_mod)

lemma freebit_small: "freebit w \<longleftrightarrow> 0x8000 \<le> unat w"
proof -
  have "freebit w \<longleftrightarrow> bit (unat w) 15" by (simp add: freebit_bit bit_unsigned_iff)
  also have "\<dots> \<longleftrightarrow> odd (unat w div 0x8000)" by (simp add: bit_iff_odd)
  finally have *: "freebit w \<longleftrightarrow> odd (unat w div 0x8000)" .
  show ?thesis
  proof (cases "unat w < 0x8000")
    case False
    then have "unat w div 0x8000 = 1" using unat_bound [of w] by (intro div_nat_eqI) simp_all
    with False * show ?thesis by simp
  qed (simp add: *)
qed

lemma unat_not_free: "\<not> freebit w \<Longrightarrow> unat w = blkno w"
  by (simp add: freebit_small blkno_small)

lemma unat_and_blockno [simp]: "unat (w AND UMM_BLOCKNO_MASK) = blkno w"
  by (simp add: blkno_def)

section \<open>Blocks and the heap context\<close>

record umm_block =
  used_next :: u16
  used_prev :: u16
  free_next :: u16
  free_prev :: u16

record umm_statistics =
  free_blocks :: u32
  oom_count :: u32

record umm_heap_info =
  totalEntries :: u32
  usedEntries :: u32
  freeEntries :: u32
  totalBlocks :: u32
  usedBlocks :: u32
  freeBlocks :: u32
  freeBlocksSquared :: u32
  maxFreeContiguousBlocks :: u32

record umm_heap_context =
  heap :: u32
  heap_end :: u32
  stats :: umm_statistics
  info :: umm_heap_info
  numblocks :: u16
  heap_id :: u8
  blks :: "nat \<Rightarrow> umm_block"

definition umm_block_size :: nat where "umm_block_size = 8"
definition umm_header_size :: nat where "umm_header_size = 4"
definition umm_body_size :: nat where "umm_body_size = 4"

definition UMM_BLOCK_LAST :: "umm_heap_context \<Rightarrow> nat" where
  "UMM_BLOCK_LAST ctx = unat (numblocks ctx) - 1"

definition UMM_NBLOCK :: "umm_heap_context \<Rightarrow> nat \<Rightarrow> u16" where "UMM_NBLOCK ctx b = used_next (blks ctx b)"
definition UMM_PBLOCK :: "umm_heap_context \<Rightarrow> nat \<Rightarrow> u16" where "UMM_PBLOCK ctx b = used_prev (blks ctx b)"
definition UMM_NFREE :: "umm_heap_context \<Rightarrow> nat \<Rightarrow> u16" where "UMM_NFREE ctx b = free_next (blks ctx b)"
definition UMM_PFREE :: "umm_heap_context \<Rightarrow> nat \<Rightarrow> u16" where "UMM_PFREE ctx b = free_prev (blks ctx b)"

definition upd_block :: "nat \<Rightarrow> (umm_block \<Rightarrow> umm_block) \<Rightarrow> umm_heap_context \<Rightarrow> umm_heap_context" where
  "upd_block b g ctx = ctx\<lparr>blks := (blks ctx)(b := g (blks ctx b))\<rparr>"

definition set_NBLOCK :: "nat \<Rightarrow> u16 \<Rightarrow> umm_heap_context \<Rightarrow> umm_heap_context" where
  "set_NBLOCK b v = upd_block b (used_next_update (\<lambda>_. v))"
definition set_PBLOCK :: "nat \<Rightarrow> u16 \<Rightarrow> umm_heap_context \<Rightarrow> umm_heap_context" where
  "set_PBLOCK b v = upd_block b (used_prev_update (\<lambda>_. v))"
definition set_NFREE :: "nat \<Rightarrow> u16 \<Rightarrow> umm_heap_context \<Rightarrow> umm_heap_context" where
  "set_NFREE b v = upd_block b (free_next_update (\<lambda>_. v))"
definition set_PFREE :: "nat \<Rightarrow> u16 \<Rightarrow> umm_heap_context \<Rightarrow> umm_heap_context" where
  "set_PFREE b v = upd_block b (free_prev_update (\<lambda>_. v))"

text \<open>The address of a block and of its data, and the block an address lies in.\<close>

definition UMM_BLOCK_ADDR :: "umm_heap_context \<Rightarrow> nat \<Rightarrow> u32" where
  "UMM_BLOCK_ADDR ctx b = heap ctx + of_nat (b * umm_block_size)"

definition UMM_DATA :: "umm_heap_context \<Rightarrow> nat \<Rightarrow> u32" where
  "UMM_DATA ctx b = heap ctx + of_nat (b * umm_block_size + umm_header_size)"

definition block_of_ptr :: "umm_heap_context \<Rightarrow> u32 \<Rightarrow> u16" where
  "block_of_ptr ctx ptr = of_nat (unat (ptr - heap ctx) div umm_block_size)"

definition STATS__FREE_BLOCKS_UPDATE :: "int \<Rightarrow> umm_heap_context \<Rightarrow> umm_heap_context" where
  "STATS__FREE_BLOCKS_UPDATE s ctx = ctx\<lparr>stats := (stats ctx)\<lparr>free_blocks := free_blocks (stats ctx) + of_int s\<rparr>\<rparr>"

definition STATS__OOM_UPDATE :: "umm_heap_context \<Rightarrow> umm_heap_context" where
  "STATS__OOM_UPDATE ctx = ctx\<lparr>stats := (stats ctx)\<lparr>oom_count := oom_count (stats ctx) + 1\<rparr>\<rparr>"

subsection \<open>Reading after writing\<close>

lemmas field_defs = UMM_NBLOCK_def UMM_PBLOCK_def UMM_NFREE_def UMM_PFREE_def
  set_NBLOCK_def set_PBLOCK_def set_NFREE_def set_PFREE_def upd_block_def

lemma NBLOCK_set [simp, heap_simps]:
  "UMM_NBLOCK (set_NBLOCK b v ctx) x = (if x = b then v else UMM_NBLOCK ctx x)"
  "UMM_NBLOCK (set_PBLOCK b v ctx) x = UMM_NBLOCK ctx x"
  "UMM_NBLOCK (set_NFREE b v ctx) x = UMM_NBLOCK ctx x"
  "UMM_NBLOCK (set_PFREE b v ctx) x = UMM_NBLOCK ctx x"
  by (simp_all add: field_defs)

lemma PBLOCK_set [simp, heap_simps]:
  "UMM_PBLOCK (set_NBLOCK b v ctx) x = UMM_PBLOCK ctx x"
  "UMM_PBLOCK (set_PBLOCK b v ctx) x = (if x = b then v else UMM_PBLOCK ctx x)"
  "UMM_PBLOCK (set_NFREE b v ctx) x = UMM_PBLOCK ctx x"
  "UMM_PBLOCK (set_PFREE b v ctx) x = UMM_PBLOCK ctx x"
  by (simp_all add: field_defs)

lemma NFREE_set [simp, heap_simps]:
  "UMM_NFREE (set_NBLOCK b v ctx) x = UMM_NFREE ctx x"
  "UMM_NFREE (set_PBLOCK b v ctx) x = UMM_NFREE ctx x"
  "UMM_NFREE (set_NFREE b v ctx) x = (if x = b then v else UMM_NFREE ctx x)"
  "UMM_NFREE (set_PFREE b v ctx) x = UMM_NFREE ctx x"
  by (simp_all add: field_defs)

lemma PFREE_set [simp, heap_simps]:
  "UMM_PFREE (set_NBLOCK b v ctx) x = UMM_PFREE ctx x"
  "UMM_PFREE (set_PBLOCK b v ctx) x = UMM_PFREE ctx x"
  "UMM_PFREE (set_NFREE b v ctx) x = UMM_PFREE ctx x"
  "UMM_PFREE (set_PFREE b v ctx) x = (if x = b then v else UMM_PFREE ctx x)"
  by (simp_all add: field_defs)

lemma stats_blocks [simp, heap_simps]:
  "UMM_NBLOCK (STATS__FREE_BLOCKS_UPDATE s ctx) = UMM_NBLOCK ctx" "UMM_PBLOCK (STATS__FREE_BLOCKS_UPDATE s ctx) = UMM_PBLOCK ctx"
  "UMM_NFREE (STATS__FREE_BLOCKS_UPDATE s ctx) = UMM_NFREE ctx" "UMM_PFREE (STATS__FREE_BLOCKS_UPDATE s ctx) = UMM_PFREE ctx"
  "UMM_NBLOCK (STATS__OOM_UPDATE ctx) = UMM_NBLOCK ctx" "UMM_PBLOCK (STATS__OOM_UPDATE ctx) = UMM_PBLOCK ctx"
  "UMM_NFREE (STATS__OOM_UPDATE ctx) = UMM_NFREE ctx" "UMM_PFREE (STATS__OOM_UPDATE ctx) = UMM_PFREE ctx"
  "blks (STATS__FREE_BLOCKS_UPDATE s ctx) = blks ctx" "blks (STATS__OOM_UPDATE ctx) = blks ctx"
  "free_blocks (stats (STATS__FREE_BLOCKS_UPDATE s ctx)) = free_blocks (stats ctx) + of_int s"
  "free_blocks (stats (STATS__OOM_UPDATE ctx)) = free_blocks (stats ctx)"
  by (auto simp: STATS__FREE_BLOCKS_UPDATE_def STATS__OOM_UPDATE_def field_defs)

text \<open>The fields that no write to a block or to the statistics changes.\<close>

definition same_place :: "umm_heap_context \<Rightarrow> umm_heap_context \<Rightarrow> bool" where
  "same_place c c' \<longleftrightarrow> heap c' = heap c \<and> heap_end c' = heap_end c \<and> numblocks c' = numblocks c \<and> heap_id c' = heap_id c"

lemma geometry_set [simp, heap_simps]:
  "numblocks (set_NBLOCK b v ctx) = numblocks ctx" "heap (set_NBLOCK b v ctx) = heap ctx"
  "numblocks (set_PBLOCK b v ctx) = numblocks ctx" "heap (set_PBLOCK b v ctx) = heap ctx"
  "numblocks (set_NFREE b v ctx) = numblocks ctx" "heap (set_NFREE b v ctx) = heap ctx"
  "numblocks (set_PFREE b v ctx) = numblocks ctx" "heap (set_PFREE b v ctx) = heap ctx"
  "numblocks (STATS__FREE_BLOCKS_UPDATE s ctx) = numblocks ctx" "heap (STATS__FREE_BLOCKS_UPDATE s ctx) = heap ctx"
  "numblocks (STATS__OOM_UPDATE ctx) = numblocks ctx" "heap (STATS__OOM_UPDATE ctx) = heap ctx"
  "heap_end (set_NBLOCK b v ctx) = heap_end ctx" "heap_end (set_PBLOCK b v ctx) = heap_end ctx"
  "heap_end (set_NFREE b v ctx) = heap_end ctx" "heap_end (set_PFREE b v ctx) = heap_end ctx"
  "heap_end (STATS__FREE_BLOCKS_UPDATE s ctx) = heap_end ctx" "heap_end (STATS__OOM_UPDATE ctx) = heap_end ctx"
  "heap_id (set_NBLOCK b v ctx) = heap_id ctx" "heap_id (set_PBLOCK b v ctx) = heap_id ctx"
  "heap_id (set_NFREE b v ctx) = heap_id ctx" "heap_id (set_PFREE b v ctx) = heap_id ctx"
  "heap_id (STATS__FREE_BLOCKS_UPDATE s ctx) = heap_id ctx" "heap_id (STATS__OOM_UPDATE ctx) = heap_id ctx"
  "stats (set_NBLOCK b v ctx) = stats ctx" "stats (set_PBLOCK b v ctx) = stats ctx"
  "stats (set_NFREE b v ctx) = stats ctx" "stats (set_PFREE b v ctx) = stats ctx"
  by (simp_all add: field_defs STATS__FREE_BLOCKS_UPDATE_def STATS__OOM_UPDATE_def)

end
