(* ===== verification/Chains.thy ===== *)
theory Chains
  imports Main
begin

text \<open>
  Doubly linked structures in a memory, seen through their link functions: the
  circular free list of the allocator (\<open>ring\<close>), described by the list of its
  members, and the list of all blocks in address order (\<open>bchain\<close>), described by
  the set of its members.  Each is shown to survive the updates the allocator
  makes: removing, replacing and adding a member, splitting and merging blocks.
\<close>

section \<open>Doubly linked chains\<close>

fun dchain :: "('a \<Rightarrow> 'a) \<Rightarrow> ('a \<Rightarrow> 'a) \<Rightarrow> 'a list \<Rightarrow> bool" where
  "dchain n p (a # b # xs) \<longleftrightarrow> n a = b \<and> p b = a \<and> dchain n p (b # xs)"
| "dchain n p _ \<longleftrightarrow> True"

lemma dchain_append:
  "xs \<noteq> [] \<Longrightarrow> ys \<noteq> [] \<Longrightarrow>
   dchain n p (xs @ ys) \<longleftrightarrow> dchain n p xs \<and> dchain n p ys \<and> n (last xs) = hd ys \<and> p (hd ys) = last xs"
proof (induction xs)
  case (Cons x xs)
  then show ?case by (cases xs; cases ys) auto
qed simp

lemma dchain_cong:
  "dchain n p xs \<Longrightarrow> (\<And>x. x \<in> set (butlast xs) \<Longrightarrow> n' x = n x) \<Longrightarrow> (\<And>x. x \<in> set (tl xs) \<Longrightarrow> p' x = p x) \<Longrightarrow>
   dchain n' p' xs"
proof (induction xs)
  case (Cons x xs)
  then show ?case by (cases xs) auto
qed simp

text \<open>The circular free list: block 0 is its head.\<close>

definition ring :: "(nat \<Rightarrow> nat) \<Rightarrow> (nat \<Rightarrow> nat) \<Rightarrow> nat list \<Rightarrow> bool" where
  "ring n p fs \<longleftrightarrow> distinct fs \<and> 0 \<notin> set fs \<and> dchain n p (0 # fs @ [0])"

lemma ring_split:
  "ring n p (xs @ c # ys) \<longleftrightarrow> distinct (xs @ c # ys) \<and> 0 \<notin> set (xs @ c # ys) \<and>
     dchain n p (0 # xs) \<and> dchain n p (ys @ [0]) \<and> n (last (0 # xs)) = c \<and> p c = last (0 # xs) \<and>
     n c = hd (ys @ [0]) \<and> p (hd (ys @ [0])) = c"
  using dchain_append [of "0 # xs" "c # ys @ [0]" n p] dchain_append [of "[c]" "ys @ [0]" n p]
  by (auto simp: ring_def)

lemma ring_join:
  "ring n p (xs @ ys) \<longleftrightarrow> distinct (xs @ ys) \<and> 0 \<notin> set (xs @ ys) \<and>
     dchain n p (0 # xs) \<and> dchain n p (ys @ [0]) \<and> n (last (0 # xs)) = hd (ys @ [0]) \<and>
     p (hd (ys @ [0])) = last (0 # xs)"
  using dchain_append [of "0 # xs" "ys @ [0]" n p] by (auto simp: ring_def)

lemma last_front: "last (0 # xs) \<in> insert 0 (set xs)"
  by (auto simp: last_in_set)

lemma hd_back: "hd (ys @ [0]) \<in> insert 0 (set ys)"
  by (cases ys) auto

text \<open>Links of the two stretches around a place survive new links at that place.\<close>

lemma dchain_front:
  assumes "dchain n p (0 # xs)" and "distinct xs" and "0 \<notin> set xs"
    and "\<And>x. x \<in> insert 0 (set xs) \<Longrightarrow> x \<noteq> last (0 # xs) \<Longrightarrow> n' x = n x"
    and "\<And>x. x \<in> set xs \<Longrightarrow> p' x = p x"
  shows "dchain n' p' (0 # xs)"
proof (rule dchain_cong [OF assms(1)])
  fix x assume x: "x \<in> set (butlast (0 # xs))"
  have "distinct (butlast (0 # xs) @ [last (0 # xs)])"
    using assms(2,3) by (simp only: append_butlast_last_id list.distinct simp_thms distinct.simps)
  then have "x \<noteq> last (0 # xs)" using x by auto
  then show "n' x = n x" using x assms(4) by (metis in_set_butlastD list.simps(15))
qed (use assms(5) in auto)

lemma dchain_back:
  assumes "dchain n p (ys @ [0])" and "distinct ys" and "0 \<notin> set ys"
    and "\<And>x. x \<in> set ys \<Longrightarrow> n' x = n x"
    and "\<And>x. x \<in> insert 0 (set ys) \<Longrightarrow> x \<noteq> hd (ys @ [0]) \<Longrightarrow> p' x = p x"
  shows "dchain n' p' (ys @ [0])"
proof (rule dchain_cong [OF assms(1)])
  fix x assume x: "x \<in> set (tl (ys @ [0]))"
  then have "x \<noteq> hd (ys @ [0])" using assms(2,3) by (cases ys) auto
  then show "p' x = p x" using x assms(5) by (cases ys) auto
qed (use assms(4) in auto)

lemma ring_remove:
  assumes "ring n p (xs @ c # ys)"
    and n': "\<And>x. x \<in> insert 0 (set (xs @ ys)) \<Longrightarrow> n' x = (if x = p c then n c else n x)"
    and p': "\<And>x. x \<in> insert 0 (set (xs @ ys)) \<Longrightarrow> p' x = (if x = n c then p c else p x)"
  shows "ring n' p' (xs @ ys)"
proof -
  have r: "distinct (xs @ c # ys)" "0 \<notin> set (xs @ c # ys)" "dchain n p (0 # xs)" "dchain n p (ys @ [0])"
    "p c = last (0 # xs)" "n c = hd (ys @ [0])"
    using assms(1) unfolding ring_split by blast+
  define a d where a: "a = last (0 # xs)" and d: "d = hd (ys @ [0])"
  have ad: "a \<in> insert 0 (set xs)" "d \<in> insert 0 (set ys)" unfolding a d by (rule last_front hd_back)+
  note pc = r(5) [folded a] and nc = r(6) [folded d]
  have old: "n' x = n x" if "x \<in> insert 0 (set (xs @ ys))" "x \<noteq> a" for x
    using n' [of x] that pc by auto
  have old': "p' x = p x" if "x \<in> insert 0 (set (xs @ ys))" "x \<noteq> d" for x
    using p' [of x] that nc by auto
  have out: "a \<notin> set ys" "d \<notin> set xs" using ad r(1,2) by auto
  have "dchain n' p' (0 # xs)"
    by (rule dchain_front [OF r(3)]) (use r(1,2) old old' out in \<open>unfold a d, auto\<close>)
  moreover have "dchain n' p' (ys @ [0])"
    by (rule dchain_back [OF r(4)]) (use r(1,2) old old' out in \<open>unfold a d, auto\<close>)
  moreover have "n' a = d" "p' d = a"
    using n' [of a] p' [of d] pc nc ad by auto
  ultimately show ?thesis using r(1,2) unfolding ring_join a d by auto
qed

lemma ring_replace:
  assumes "ring n p (xs @ c # ys)" and c': "c' \<notin> insert 0 (set (xs @ ys))"
    and n': "\<And>x. x \<in> insert 0 (set (xs @ c' # ys)) \<Longrightarrow> n' x = (if x = p c then c' else if x = c' then n c else n x)"
    and p': "\<And>x. x \<in> insert 0 (set (xs @ c' # ys)) \<Longrightarrow> p' x = (if x = n c then c' else if x = c' then p c else p x)"
  shows "ring n' p' (xs @ c' # ys)"
proof -
  have r: "distinct (xs @ c # ys)" "0 \<notin> set (xs @ c # ys)" "dchain n p (0 # xs)" "dchain n p (ys @ [0])"
    "p c = last (0 # xs)" "n c = hd (ys @ [0])"
    using assms(1) unfolding ring_split by blast+
  define a d where a: "a = last (0 # xs)" and d: "d = hd (ys @ [0])"
  have ad: "a \<in> insert 0 (set xs)" "d \<in> insert 0 (set ys)" unfolding a d by (rule last_front hd_back)+
  note pc = r(5) [folded a] and nc = r(6) [folded d]
  have old: "n' x = n x" if "x \<in> insert 0 (set (xs @ ys))" "x \<noteq> a" for x
    using n' [of x] that c' pc by auto
  have old': "p' x = p x" if "x \<in> insert 0 (set (xs @ ys))" "x \<noteq> d" for x
    using p' [of x] that c' nc by auto
  have out: "a \<notin> set ys" "d \<notin> set xs" using ad r(1,2) by auto
  have "dchain n' p' (0 # xs)"
    by (rule dchain_front [OF r(3)]) (use r(1,2) old old' out in \<open>unfold a d, auto\<close>)
  moreover have "dchain n' p' (ys @ [0])"
    by (rule dchain_back [OF r(4)]) (use r(1,2) old old' out in \<open>unfold a d, auto\<close>)
  moreover have "n' a = c'" "p' c' = a" "n' c' = d" "p' d = c'"
    using n' [of a] p' [of c'] n' [of c'] p' [of d] pc nc ad c' r(1,2) by (simp_all, auto)
  ultimately show ?thesis using r(1,2) c' unfolding ring_split a d by auto
qed

lemma ring_cons:
  assumes "ring n p fs" and c: "c \<notin> insert 0 (set fs)"
    and n': "\<And>x. x \<in> insert 0 (set (c # fs)) \<Longrightarrow> n' x = (if x = 0 then c else if x = c then n 0 else n x)"
    and p': "\<And>x. x \<in> insert 0 (set (c # fs)) \<Longrightarrow> p' x = (if x = c then 0 else if x = n 0 then c else p x)"
  shows "ring n' p' (c # fs)"
proof -
  have r: "distinct fs" "0 \<notin> set fs" "dchain n p (fs @ [0])" "n 0 = hd (fs @ [0])"
    using assms(1) ring_join [of n p "[]" fs] by auto
  have d: "n 0 \<in> insert 0 (set fs)" unfolding r(4) by (rule hd_back)
  have "dchain n' p' (fs @ [0])"
    by (rule dchain_back [OF r(3)]) (use r c n' p' in auto)
  moreover have "n' 0 = c" "p' c = 0" "n' c = n 0" "p' (n 0) = c"
    using n' [of 0] n' [of c] p' [of c] p' [of "n 0"] c d by auto
  ultimately show ?thesis
    using r(1,2) c ring_split [of n' p' "[]" c fs] unfolding r(4) by auto
qed

lemma ring_next_0: "ring n p fs \<Longrightarrow> n 0 = hd (fs @ [0])"
  using ring_join [of n p "[]" fs] by simp

lemma ring_neighbours: "ring n p fs \<Longrightarrow> c \<in> set fs \<Longrightarrow> n c \<in> insert 0 (set fs) - {c} \<and> p c \<in> insert 0 (set fs) - {c}"
proof -
  assume r: "ring n p fs" and "c \<in> set fs"
  then obtain xs ys where fs: "fs = xs @ c # ys" by (auto simp: in_set_conv_decomp)
  show ?thesis using r last_front [of xs] hd_back [of ys] unfolding fs ring_split by auto
qed

section \<open>The list of all blocks\<close>

text \<open>
  \<open>B\<close> holds the starts of the blocks; the next block of \<open>b\<close> is the least start
  above \<open>b\<close>, and the back links agree.
\<close>

definition bchain :: "(nat \<Rightarrow> nat) \<Rightarrow> (nat \<Rightarrow> nat) \<Rightarrow> nat \<Rightarrow> nat set \<Rightarrow> bool" where
  "bchain nx pv l B \<longleftrightarrow> 0 \<in> B \<and> l \<in> B \<and> B \<subseteq> {..l} \<and>
     (\<forall>b\<in>B. b \<noteq> l \<longrightarrow> nx b \<in> B \<and> b < nx b \<and> pv (nx b) = b \<and> (\<forall>x\<in>B. x \<le> b \<or> nx b \<le> x))"

lemma bchain_next:
  "bchain nx pv l B \<Longrightarrow> b \<in> B \<Longrightarrow> b \<noteq> l \<Longrightarrow> nx b \<in> B \<and> b < nx b \<and> nx b \<le> l \<and> pv (nx b) = b"
  by (auto simp: bchain_def)

lemma bchain_gap: "bchain nx pv l B \<Longrightarrow> b \<in> B \<Longrightarrow> b \<noteq> l \<Longrightarrow> x \<in> B \<Longrightarrow> x \<le> b \<or> nx b \<le> x"
  by (auto simp: bchain_def)

lemma bchain_from:
  "bchain nx pv l B \<Longrightarrow> b \<in> B \<Longrightarrow> b \<noteq> l \<Longrightarrow> x \<in> B \<Longrightarrow> b \<le> x \<and> x \<noteq> l \<longleftrightarrow> x = b \<or> nx b \<le> x \<and> x \<noteq> l"
  using bchain_gap [of nx pv l B b x] bchain_next [of nx pv l B b] by auto

lemma bchain_le: "bchain nx pv l B \<Longrightarrow> b \<in> B \<Longrightarrow> b \<le> l"
  by (auto simp: bchain_def)

lemma bchain_finite: "bchain nx pv l B \<Longrightarrow> finite B"
  by (auto simp: bchain_def intro: finite_subset)

lemma bchain_prev:
  assumes ch: "bchain nx pv l B" and b: "b \<in> B" "b \<noteq> 0"
  shows "pv b \<in> B \<and> pv b < b \<and> nx (pv b) = b"
proof -
  let ?S = "{x \<in> B. x < b}" and ?a = "Max {x \<in> B. x < b}"
  have "finite ?S" using bchain_finite [OF ch] by simp
  moreover have "0 \<in> ?S" using ch b by (auto simp: bchain_def)
  ultimately have a: "?a \<in> ?S" and ub: "\<And>x. x \<in> ?S \<Longrightarrow> x \<le> ?a"
    using Max_in [of ?S] Max_ge [of ?S] by blast+
  then have "?a \<noteq> l" using bchain_le [OF ch b(1)] by auto
  with a have n: "nx ?a \<in> B" "?a < nx ?a" "pv (nx ?a) = ?a" using bchain_next [OF ch, of ?a] by auto
  have "nx ?a \<le> b" using bchain_gap [OF ch _ \<open>?a \<noteq> l\<close> b(1)] a by auto
  moreover have "b \<le> nx ?a"
  proof (rule ccontr)
    assume "\<not> b \<le> nx ?a"
    with n(1) have "nx ?a \<in> ?S" by simp
    from ub [OF this] n(2) show False by simp
  qed
  ultimately have "nx ?a = b" by simp
  then show ?thesis using n a by auto
qed

lemma bchain_inj: "bchain nx pv l B \<Longrightarrow> a \<in> B \<Longrightarrow> b \<in> B \<Longrightarrow> a \<noteq> l \<Longrightarrow> b \<noteq> l \<Longrightarrow> nx a = nx b \<Longrightarrow> a = b"
  by (metis bchain_next)

lemma bchain_insert:
  assumes ch: "bchain nx pv l B" and c: "c \<in> B" "c \<noteq> l" and m: "c < m" "m < nx c"
    and n': "\<And>x. x \<in> insert m B \<Longrightarrow> x \<noteq> l \<Longrightarrow> nx' x = (if x = m then nx c else if x = c then m else nx x)"
    and p': "\<And>x. x \<in> insert m B \<Longrightarrow> x \<noteq> 0 \<Longrightarrow> pv' x = (if x = nx c then m else if x = m then c else pv x)"
  shows "bchain nx' pv' l (insert m B)"
proof -
  note nc = bchain_next [OF ch c]
  have mB: "m \<notin> B" "m \<noteq> l" using bchain_gap [OF ch c] m nc by fastforce+
  have step: "nx' b \<in> insert m B \<and> b < nx' b \<and> pv' (nx' b) = b \<and> (\<forall>x\<in>insert m B. x \<le> b \<or> nx' b \<le> x)"
    if b: "b \<in> insert m B" "b \<noteq> l" for b
  proof -
    consider "b = m" | "b = c" | "b \<in> B" "b \<noteq> c" "b \<noteq> m" using b by auto
    then show ?thesis
    proof cases
      case 1
      then have "nx' b = nx c" using n' [of b] b by simp
      moreover have "pv' (nx c) = m" using p' [of "nx c"] nc by simp
      moreover have "x \<le> m \<or> nx c \<le> x" if "x \<in> B" for x using bchain_gap [OF ch c that] m by auto
      ultimately show ?thesis using 1 nc m by auto
    next
      case 2
      then have "nx' b = m" using n' [of b] b m by simp
      moreover have "pv' m = c" using p' [of m] m by simp
      moreover have "x \<le> c \<or> m \<le> x" if "x \<in> B" for x using bchain_gap [OF ch c that] m by auto
      ultimately show ?thesis using 2 m by auto
    next
      case 3
      note nb = bchain_next [OF ch 3(1) b(2)]
      have "nx' b = nx b" using n' [of b] b 3 by simp
      moreover have "nx b \<noteq> nx c" using bchain_inj [OF ch 3(1) c(1) b(2) c(2)] 3 by blast
      then have "pv' (nx b) = b" using p' [of "nx b"] nb mB by auto
      moreover have "x \<le> b \<or> nx b \<le> x" if "x \<in> B" for x using bchain_gap [OF ch 3(1) b(2) that] .
      moreover have "m \<le> b \<or> nx b \<le> m"
        using bchain_gap [OF ch 3(1) b(2) c(1)] bchain_gap [OF ch c 3(1)] m 3 by auto
      ultimately show ?thesis using nb by auto
    qed
  qed
  have "0 \<in> B" "l \<in> B" "B \<subseteq> {..l}" using ch by (auto simp: bchain_def)
  then show ?thesis using step m nc by (auto simp: bchain_def)
qed

lemma bchain_merge:
  assumes ch: "bchain nx pv l B" and c: "c \<in> B" "c \<noteq> l" "nx c \<noteq> l"
    and n': "\<And>x. x \<in> B - {nx c} \<Longrightarrow> x \<noteq> l \<Longrightarrow> nx' x = (if x = c then nx (nx c) else nx x)"
    and p': "\<And>x. x \<in> B - {nx c} \<Longrightarrow> x \<noteq> 0 \<Longrightarrow> pv' x = (if x = nx (nx c) then c else pv x)"
  shows "bchain nx' pv' l (B - {nx c})"
proof -
  note nc = bchain_next [OF ch c(1,2)]
  note nd = bchain_next [OF ch conjunct1 [OF nc] c(3)]
  have step: "nx' b \<in> B - {nx c} \<and> b < nx' b \<and> pv' (nx' b) = b \<and> (\<forall>x\<in>B - {nx c}. x \<le> b \<or> nx' b \<le> x)"
    if b: "b \<in> B - {nx c}" "b \<noteq> l" for b
  proof (cases "b = c")
    case True
    then have "nx' b = nx (nx c)" using n' [of b] b by simp
    moreover have "pv' (nx (nx c)) = c" using p' [of "nx (nx c)"] nc nd by auto
    moreover have "x \<le> c \<or> nx (nx c) \<le> x" if "x \<in> B - {nx c}" for x
      using bchain_gap [OF ch c(1,2), of x] bchain_gap [OF ch _ c(3), of x] nc that by auto
    ultimately show ?thesis using True nc nd by auto
  next
    case False
    then have bB: "b \<in> B" and e: "nx' b = nx b" using b n' [of b] by auto
    note nb = bchain_next [OF ch bB b(2)]
    have "nx b \<noteq> nx c" using bchain_inj [OF ch bB c(1) b(2) c(2)] False by blast
    moreover have "nx b \<noteq> nx (nx c)" using bchain_inj [OF ch bB _ b(2) c(3)] nc b by blast
    ultimately have "nx' b \<in> B - {nx c}" "pv' (nx' b) = b" using p' [of "nx b"] nb e by auto
    then show ?thesis using e nb bchain_gap [OF ch bB b(2)] by auto
  qed
  have "0 \<in> B - {nx c}" "l \<in> B - {nx c}" "B - {nx c} \<subseteq> {..l}" using ch nc c by (auto simp: bchain_def)
  then show ?thesis using step unfolding bchain_def by simp
qed

text \<open>The blocks below a start fill the space below it.\<close>

lemma bchain_sum_below:
  assumes ch: "bchain nx pv l B" and "k \<in> B"
  shows "(\<Sum>b\<in>{b \<in> B. b < k}. nx b - b) = k"
  using assms(2)
proof (induction k rule: less_induct)
  case (less k)
  show ?case
  proof (cases "k = 0")
    case False
    note p = bchain_prev [OF ch less.prems False]
    have "b \<le> pv k" if "b \<in> B" "b < k" for b
    proof -
      have "pv k \<noteq> l" using p bchain_le [OF ch less.prems] by auto
      then show ?thesis using bchain_gap [OF ch _ _ that(1), of "pv k"] p that by auto
    qed
    then have "{b \<in> B. b < k} = insert (pv k) {b \<in> B. b < pv k}" using p by force
    moreover have "finite {b \<in> B. b < pv k}" using bchain_finite [OF ch] by simp
    ultimately show ?thesis using less.IH [of "pv k"] p by simp
  qed simp
qed

lemma bchain_sum: "bchain nx pv l B \<Longrightarrow> (\<Sum>b\<in>B - {l}. nx b - b) = l"
proof -
  assume ch: "bchain nx pv l B"
  have "B - {l} = {b \<in> B. b < l}" using bchain_le [OF ch] by force
  then show ?thesis using bchain_sum_below [OF ch, of l] ch by (simp add: bchain_def)
qed

end
