(* ===== verification/Umm_Blocks.thy ===== *)
theory Umm_Blocks
  imports Umm_Heap Chains
begin

text \<open>
  The internal operations of \<open>umm_malloc.cpp\<close> on the list of blocks and the free
  list: sizing a request, splitting a block, unlinking it from the free list,
  merging it with its neighbours, and setting up an empty heap.

  \<open>heap_ok\<close> describes a heap through two ghost values: the set \<open>B\<close> of the numbers
  at which a block starts, and the list \<open>fs\<close> of the free blocks in free-list
  order.  Each operation is shown to keep \<open>heap_ok\<close> for new ghost values that say
  what it did.
\<close>

section \<open>Operations\<close>

definition umm_blocks :: "u32 \<Rightarrow> u16" where
  "umm_blocks sz =
     (if unat sz \<le> umm_body_size then 1
      else let size1 = sz - of_nat umm_body_size;
               blocks = 2 + unat (size1 - 1) div umm_block_size
           in of_nat (if 0x7FFF < blocks then 0x7FFF else blocks))"

definition umm_split_block :: "umm_heap_context \<Rightarrow> u16 \<Rightarrow> u16 \<Rightarrow> u16 \<Rightarrow> umm_heap_context" where
  "umm_split_block ctx c blocks new_freemask =
     (let ctx1 = set_NBLOCK (unat c + unat blocks) ((UMM_NBLOCK ctx (unat c) AND UMM_BLOCKNO_MASK) OR new_freemask) ctx;
          ctx2 = set_PBLOCK (unat c + unat blocks) c ctx1;
          ctx3 = set_PBLOCK (unat (UMM_NBLOCK ctx2 (unat c) AND UMM_BLOCKNO_MASK)) (c + blocks) ctx2
      in set_NBLOCK (unat c) (c + blocks) ctx3)"

definition umm_disconnect_from_free_list :: "umm_heap_context \<Rightarrow> u16 \<Rightarrow> umm_heap_context" where
  "umm_disconnect_from_free_list ctx c =
     (let ctx1 = set_NFREE (unat (UMM_PFREE ctx (unat c))) (UMM_NFREE ctx (unat c)) ctx;
          ctx2 = set_PFREE (unat (UMM_NFREE ctx1 (unat c))) (UMM_PFREE ctx1 (unat c)) ctx1
      in set_NBLOCK (unat c) (UMM_NBLOCK ctx2 (unat c) AND NOT UMM_FREELIST_MASK) ctx2)"

definition umm_assimilate_up :: "umm_heap_context \<Rightarrow> u16 \<Rightarrow> umm_heap_context" where
  "umm_assimilate_up ctx c =
     (if UMM_NBLOCK ctx (unat (UMM_NBLOCK ctx (unat c))) AND UMM_FREELIST_MASK \<noteq> 0
      then let ctx1 = umm_disconnect_from_free_list ctx (UMM_NBLOCK ctx (unat c));
               ctx2 = set_PBLOCK (unat (UMM_NBLOCK ctx1 (unat (UMM_NBLOCK ctx1 (unat c))) AND UMM_BLOCKNO_MASK)) c ctx1
           in set_NBLOCK (unat c) (UMM_NBLOCK ctx2 (unat (UMM_NBLOCK ctx2 (unat c))) AND UMM_BLOCKNO_MASK) ctx2
      else ctx)"

definition umm_assimilate_down :: "umm_heap_context \<Rightarrow> u16 \<Rightarrow> u16 \<Rightarrow> u16 \<times> umm_heap_context" where
  "umm_assimilate_down ctx c freemask =
     (let ctx1 = set_NBLOCK (unat (UMM_PBLOCK ctx (unat c))) (UMM_NBLOCK ctx (unat c) OR freemask) ctx;
          ctx2 = set_PBLOCK (unat (UMM_NBLOCK ctx1 (unat c))) (UMM_PBLOCK ctx1 (unat c)) ctx1
      in (UMM_PBLOCK ctx2 (unat c), ctx2))"

definition umm_push_free :: "umm_heap_context \<Rightarrow> u16 \<Rightarrow> umm_heap_context" where
  "umm_push_free ctx c =
     (let ctx1 = set_PFREE (unat (UMM_NFREE ctx 0)) c ctx;
          ctx2 = set_NFREE (unat c) (UMM_NFREE ctx1 0) ctx1;
          ctx3 = set_PFREE (unat c) 0 ctx2;
          ctx4 = set_NFREE 0 c ctx3
      in set_NBLOCK (unat c) (UMM_NBLOCK ctx4 (unat c) OR UMM_FREELIST_MASK) ctx4)"

definition umm_take_split :: "umm_heap_context \<Rightarrow> u16 \<Rightarrow> u16 \<Rightarrow> umm_heap_context" where
  "umm_take_split ctx cf blocks =
     (let m = unat cf + unat blocks;
          ctx1 = umm_split_block ctx cf blocks UMM_FREELIST_MASK;
          ctx2 = set_NFREE (unat (UMM_PFREE ctx1 (unat cf))) (cf + blocks) ctx1;
          ctx3 = set_PFREE m (UMM_PFREE ctx2 (unat cf)) ctx2;
          ctx4 = set_PFREE (unat (UMM_NFREE ctx3 (unat cf))) (cf + blocks) ctx3
      in set_NFREE m (UMM_NFREE ctx4 (unat cf)) ctx4)"

section \<open>Well-formed heaps\<close>

definition nxt :: "umm_heap_context \<Rightarrow> nat \<Rightarrow> nat" where "nxt ctx b = blkno (UMM_NBLOCK ctx b)"
definition prv :: "umm_heap_context \<Rightarrow> nat \<Rightarrow> nat" where "prv ctx b = unat (UMM_PBLOCK ctx b)"
definition nfr :: "umm_heap_context \<Rightarrow> nat \<Rightarrow> nat" where "nfr ctx b = unat (UMM_NFREE ctx b)"
definition pfr :: "umm_heap_context \<Rightarrow> nat \<Rightarrow> nat" where "pfr ctx b = unat (UMM_PFREE ctx b)"

lemmas link_defs = nxt_def prv_def nfr_def pfr_def

definition heap_ok :: "umm_heap_context \<Rightarrow> nat set \<Rightarrow> nat list \<Rightarrow> bool" where
  "heap_ok ctx B fs \<longleftrightarrow>
     3 \<le> unat (numblocks ctx) \<and> unat (numblocks ctx) \<le> 0x8000 \<and>
     bchain (nxt ctx) (prv ctx) (UMM_BLOCK_LAST ctx) B \<and> nxt ctx (UMM_BLOCK_LAST ctx) = 0 \<and>
     set fs \<subseteq> B - {UMM_BLOCK_LAST ctx} \<and>
     (\<forall>b\<in>B. freebit (UMM_NBLOCK ctx b) \<longleftrightarrow> b \<in> set fs) \<and>
     ring (nfr ctx) (pfr ctx) fs"

lemma heap_okD:
  assumes "heap_ok ctx B fs"
  shows "bchain (nxt ctx) (prv ctx) (UMM_BLOCK_LAST ctx) B" and "ring (nfr ctx) (pfr ctx) fs"
    and "nxt ctx (UMM_BLOCK_LAST ctx) = 0"
    and "b \<in> B \<Longrightarrow> freebit (UMM_NBLOCK ctx b) \<longleftrightarrow> b \<in> set fs"
    and "b \<in> set fs \<Longrightarrow> b \<in> B" and "b \<in> set fs \<Longrightarrow> b \<noteq> 0" and "b \<in> set fs \<Longrightarrow> b \<noteq> UMM_BLOCK_LAST ctx"
    and "distinct fs" and "b \<in> B \<Longrightarrow> b < 0x8000" and "0 \<in> B" and "UMM_BLOCK_LAST ctx \<in> B"
    and "UMM_BLOCK_LAST ctx \<noteq> 0"
proof -
  have "UMM_BLOCK_LAST ctx < 0x8000" "UMM_BLOCK_LAST ctx \<noteq> 0" using assms by (auto simp: heap_ok_def UMM_BLOCK_LAST_def)
  then show "b \<in> B \<Longrightarrow> b < 0x8000" "UMM_BLOCK_LAST ctx \<noteq> 0"
    using assms bchain_le [of "nxt ctx" "prv ctx" "UMM_BLOCK_LAST ctx" B b] by (auto simp: heap_ok_def)
qed (use assms in \<open>auto simp: heap_ok_def ring_def bchain_def\<close>)

lemma heap_okI:
  assumes "heap_ok ctx B0 fs0" and nb: "numblocks ctx' = numblocks ctx"
    and "bchain (nxt ctx') (prv ctx') (UMM_BLOCK_LAST ctx) B" and "nxt ctx' (UMM_BLOCK_LAST ctx) = 0"
    and "\<And>b. b \<in> set fs \<Longrightarrow> b \<in> B" and "UMM_BLOCK_LAST ctx \<notin> set fs"
    and "\<And>b. b \<in> B \<Longrightarrow> freebit (UMM_NBLOCK ctx' b) \<longleftrightarrow> b \<in> set fs"
    and "ring (nfr ctx') (pfr ctx') fs"
  shows "heap_ok ctx' B fs"
proof -
  have "UMM_BLOCK_LAST ctx' = UMM_BLOCK_LAST ctx" by (simp add: UMM_BLOCK_LAST_def nb)
  then show ?thesis using assms unfolding heap_ok_def by auto
qed

lemma last_set [simp, heap_simps]:
  "UMM_BLOCK_LAST (set_NBLOCK b v ctx) = UMM_BLOCK_LAST ctx" "UMM_BLOCK_LAST (set_PBLOCK b v ctx) = UMM_BLOCK_LAST ctx"
  "UMM_BLOCK_LAST (set_NFREE b v ctx) = UMM_BLOCK_LAST ctx" "UMM_BLOCK_LAST (set_PFREE b v ctx) = UMM_BLOCK_LAST ctx"
  "UMM_BLOCK_LAST (STATS__FREE_BLOCKS_UPDATE s ctx) = UMM_BLOCK_LAST ctx" "UMM_BLOCK_LAST (STATS__OOM_UPDATE ctx) = UMM_BLOCK_LAST ctx"
  by (simp_all add: UMM_BLOCK_LAST_def)

lemma link_stats [simp, heap_simps]:
  "nxt (STATS__FREE_BLOCKS_UPDATE s ctx) = nxt ctx" "prv (STATS__FREE_BLOCKS_UPDATE s ctx) = prv ctx"
  "nxt (STATS__OOM_UPDATE ctx) = nxt ctx" "prv (STATS__OOM_UPDATE ctx) = prv ctx"
  by (simp_all add: nxt_def [abs_def] prv_def [abs_def])

lemma heap_ok_stats [simp]:
  "heap_ok (STATS__FREE_BLOCKS_UPDATE s ctx) B fs = heap_ok ctx B fs" "heap_ok (STATS__OOM_UPDATE ctx) B fs = heap_ok ctx B fs"
  by (simp_all add: heap_ok_def link_defs [abs_def])

text \<open>The next block number of a used block carries no mark.\<close>

lemma used_next_unat:
  "heap_ok ctx B fs \<Longrightarrow> c \<in> B \<Longrightarrow> c \<notin> set fs \<Longrightarrow> unat (UMM_NBLOCK ctx c) = nxt ctx c"
  by (simp add: nxt_def unat_not_free heap_okD(4))

lemma disconnect_ok:
  assumes ok: "heap_ok ctx B (xs @ unat c # ys)"
  shows "heap_ok (umm_disconnect_from_free_list ctx c) B (xs @ ys)"
proof -
  let ?ctx = "umm_disconnect_from_free_list ctx c"
  note r = heap_okD(2) [OF ok]
  have "pfr ctx (unat c) \<noteq> unat c" using ring_neighbours [OF r, of "unat c"] by simp
  then have e: "?ctx = set_NBLOCK (unat c) (UMM_NBLOCK ctx (unat c) AND NOT UMM_FREELIST_MASK)
      (set_PFREE (nfr ctx (unat c)) (UMM_PFREE ctx (unat c)) (set_NFREE (pfr ctx (unat c)) (UMM_NFREE ctx (unat c)) ctx))"
    by (auto simp: umm_disconnect_from_free_list_def Let_def link_defs)
  have "nxt ?ctx = nxt ctx" "prv ?ctx = prv ctx" by (auto simp: e link_defs)
  moreover have "ring (nfr ?ctx) (pfr ?ctx) (xs @ ys)"
    by (rule ring_remove [OF r]) (auto simp: e link_defs)
  moreover have "freebit (UMM_NBLOCK ?ctx b) \<longleftrightarrow> b \<in> set (xs @ ys)" if "b \<in> B" for b
    using heap_okD(4,8) [OF ok] that by (auto simp: e)
  moreover have "numblocks ?ctx = numblocks ctx" by (simp add: e)
  ultimately show ?thesis
    using heap_okD(1,3,5,7) [OF ok] by (intro heap_okI [OF ok]) auto
qed

lemma merge_ok:
  assumes ok: "heap_ok ctx B fs" and c: "c \<in> B" "c \<noteq> UMM_BLOCK_LAST ctx" and d: "nxt ctx c \<noteq> UMM_BLOCK_LAST ctx" "nxt ctx c \<notin> set fs"
    and n: "\<And>x. x \<in> B - {nxt ctx c} \<Longrightarrow> UMM_NBLOCK ctx' x = (if x = c then v else UMM_NBLOCK ctx x)"
    and v: "blkno v = nxt ctx (nxt ctx c)" "freebit v \<longleftrightarrow> c \<in> set fs"
    and p: "\<And>x. x \<in> B - {nxt ctx c} \<Longrightarrow> prv ctx' x = (if x = nxt ctx (nxt ctx c) then c else prv ctx x)"
    and rest: "numblocks ctx' = numblocks ctx" "nfr ctx' = nfr ctx" "pfr ctx' = pfr ctx"
  shows "heap_ok ctx' (B - {nxt ctx c}) fs"
proof -
  have "bchain (nxt ctx') (prv ctx') (UMM_BLOCK_LAST ctx) (B - {nxt ctx c})"
    by (rule bchain_merge [OF heap_okD(1) [OF ok] c d(1)]) (auto simp: nxt_def n v(1) p)
  moreover have "UMM_BLOCK_LAST ctx \<in> B - {nxt ctx c}" using heap_okD(11) [OF ok] d by auto
  then have "nxt ctx' (UMM_BLOCK_LAST ctx) = 0"
    using n [of "UMM_BLOCK_LAST ctx"] c(2) heap_okD(3) [OF ok] by (simp add: nxt_def)
  moreover have "freebit (UMM_NBLOCK ctx' b) \<longleftrightarrow> b \<in> set fs" if "b \<in> B - {nxt ctx c}" for b
    using n [OF that] v(2) heap_okD(4) [OF ok, of b] that by simp
  moreover have "ring (nfr ctx') (pfr ctx') fs" using heap_okD(2) [OF ok] rest by simp
  moreover have "b \<in> B - {nxt ctx c}" if "b \<in> set fs" for b using heap_okD(5) [OF ok that] that d(2) by blast
  ultimately show ?thesis
    using heap_okD(7) [OF ok] rest(1) by (intro heap_okI [OF ok]) blast+
qed

lemma split_ok:
  assumes ok: "heap_ok ctx B fs" and c: "c \<in> B" "c \<noteq> UMM_BLOCK_LAST ctx" and m: "c < m" "m < nxt ctx c"
    and n: "\<And>x. x \<in> insert m B \<Longrightarrow> UMM_NBLOCK ctx' x = (if x = m then v else if x = c then w else UMM_NBLOCK ctx x)"
    and v: "blkno v = nxt ctx c" "freebit v \<longleftrightarrow> m \<in> set fs'" "blkno w = m" "freebit w \<longleftrightarrow> c \<in> set fs'"
    and p: "\<And>x. x \<in> insert m B \<Longrightarrow> prv ctx' x = (if x = nxt ctx c then m else if x = m then c else prv ctx x)"
    and fs': "set fs' - {c, m} = set fs - {c, m}" "ring (nfr ctx') (pfr ctx') fs'"
    and rest: "numblocks ctx' = numblocks ctx"
  shows "heap_ok ctx' (insert m B) fs'"
proof -
  note ch = heap_okD(1) [OF ok]
  have mB: "m \<notin> B" using bchain_gap [OF ch c] m by fastforce
  have "bchain (nxt ctx') (prv ctx') (UMM_BLOCK_LAST ctx) (insert m B)"
    by (rule bchain_insert [OF ch c m]) (use m in \<open>auto simp: nxt_def n v p\<close>)
  moreover have "nxt ctx' (UMM_BLOCK_LAST ctx) = 0"
    using n [of "UMM_BLOCK_LAST ctx"] c(2) heap_okD(3,11) [OF ok] mB by (auto simp: nxt_def)
  moreover have "freebit (UMM_NBLOCK ctx' b) \<longleftrightarrow> b \<in> set fs'" if bm: "b \<in> insert m B" for b
  proof -
    consider "b = m" | "b = c" "b \<noteq> m" | "b \<noteq> c" "b \<noteq> m" "b \<in> B" using bm by blast
    then show ?thesis
    proof cases
      case 3
      then have "b \<in> set fs' \<longleftrightarrow> b \<in> set fs" using fs'(1) by blast
      with 3 n [OF bm] heap_okD(4) [OF ok, of b] show ?thesis by simp
    qed (use n [OF bm] v(2,4) in simp_all)
  qed
  moreover have "b \<in> insert m B" "b \<noteq> UMM_BLOCK_LAST ctx" if "b \<in> set fs'" for b
  proof -
    have "b = c \<or> b = m \<or> b \<in> set fs" using that fs'(1) by blast
    then show "b \<in> insert m B" "b \<noteq> UMM_BLOCK_LAST ctx"
      using heap_okD(5,7,11) [OF ok] c mB by auto
  qed
  ultimately show ?thesis using rest fs'(2) by (intro heap_okI [OF ok]) auto
qed

section \<open>What each operation does to a well-formed heap\<close>

lemma assimilate_up_ok:
  assumes ok: "heap_ok ctx B (xs @ nxt ctx (unat c) # ys)" and c: "unat c \<in> B" "unat c \<notin> set (xs @ ys)"
    "unat c \<noteq> nxt ctx (unat c)" "unat c \<noteq> UMM_BLOCK_LAST ctx"
  shows "heap_ok (umm_assimilate_up ctx c) (B - {nxt ctx (unat c)}) (xs @ ys)"
proof -
  let ?d = "nxt ctx (unat c)"
  have cu: "unat (UMM_NBLOCK ctx (unat c)) = ?d" using used_next_unat [OF ok c(1)] c by simp
  define ctx1 where "ctx1 = umm_disconnect_from_free_list ctx (UMM_NBLOCK ctx (unat c))"
  have ok1: "heap_ok ctx1 B (xs @ ys)"
    unfolding ctx1_def by (rule disconnect_ok) (simp add: cu ok)
  have same: "nxt ctx1 = nxt ctx" "UMM_BLOCK_LAST ctx1 = UMM_BLOCK_LAST ctx" "UMM_NBLOCK ctx1 (unat c) = UMM_NBLOCK ctx (unat c)"
    using c(3) by (auto simp: ctx1_def umm_disconnect_from_free_list_def Let_def cu fun_eq_iff nxt_def)
  have d: "?d \<noteq> UMM_BLOCK_LAST ctx" "?d \<notin> set (xs @ ys)" using heap_okD(7,8) [OF ok] by auto
  have "freebit (UMM_NBLOCK ctx ?d)" using heap_okD(4,5) [OF ok] by auto
  then have e: "umm_assimilate_up ctx c = set_NBLOCK (unat c) (UMM_NBLOCK ctx1 ?d AND UMM_BLOCKNO_MASK)
      (set_PBLOCK (nxt ctx1 ?d) c ctx1)"
    unfolding umm_assimilate_up_def Let_def ctx1_def [symmetric]
    by (simp add: cu same(3) freebit_def nxt_def)
  show ?thesis unfolding same(1) [symmetric, THEN fun_cong] e
    by (rule merge_ok [OF ok1, where c = "unat c" and v = "UMM_NBLOCK ctx1 ?d AND UMM_BLOCKNO_MASK"])
      (use c d same heap_okD(4) [OF ok1 c(1)] in \<open>auto simp: nxt_def prv_def nfr_def pfr_def fun_eq_iff\<close>)
qed

lemma assimilate_up_used:
  "heap_ok ctx B fs \<Longrightarrow> unat c \<in> B \<Longrightarrow> unat c \<notin> set fs \<Longrightarrow> unat c \<noteq> UMM_BLOCK_LAST ctx \<Longrightarrow>
   nxt ctx (unat c) \<notin> set fs \<Longrightarrow> umm_assimilate_up ctx c = ctx"
  using heap_okD(4) [of ctx B fs "nxt ctx (unat c)"] bchain_next [OF heap_okD(1)]
  by (auto simp: umm_assimilate_up_def used_next_unat freebit_def)

lemma assimilate_down_ok:
  assumes ok: "heap_ok ctx B fs" and c: "unat c \<in> B" "unat c \<notin> set fs" "unat c \<noteq> 0" "unat c \<noteq> UMM_BLOCK_LAST ctx"
    and mask: "freemask = (if prv ctx (unat c) \<in> set fs then UMM_FREELIST_MASK else 0)"
    and res: "umm_assimilate_down ctx c freemask = (c', ctx')"
  shows "unat c' = prv ctx (unat c) \<and> heap_ok ctx' (B - {unat c}) fs"
proof -
  let ?p = "prv ctx (unat c)"
  note ch = heap_okD(1) [OF ok]
  have p: "?p \<in> B" "?p < unat c" "nxt ctx ?p = unat c" using bchain_prev [OF ch c(1,3)] by auto
  have pl: "?p \<noteq> UMM_BLOCK_LAST ctx" using bchain_le [OF ch c(1)] p by simp
  note cu = used_next_unat [OF ok c(1,2)]
  have cn: "unat c < nxt ctx (unat c)" using bchain_next [OF ch c(1,4)] by auto
  have e: "ctx' = set_PBLOCK (nxt ctx (unat c)) (UMM_PBLOCK ctx (unat c)) (set_NBLOCK ?p (UMM_NBLOCK ctx (unat c) OR freemask) ctx)"
    "c' = UMM_PBLOCK ctx (unat c)"
    using res p cn by (auto simp: umm_assimilate_down_def Let_def cu prv_def [symmetric])
  have nf: "\<not> freebit (UMM_NBLOCK ctx (unat c))" using heap_okD(4) [OF ok c(1)] c(2) by simp
  have "heap_ok ctx' (B - {nxt ctx ?p}) fs"
    by (rule merge_ok [OF ok, where c = ?p and v = "UMM_NBLOCK ctx (unat c) OR freemask"])
      (use p pl c mask nf e in \<open>auto simp: nfr_def pfr_def nxt_def fun_eq_iff prv_def\<close>)
  then show ?thesis using p e by (simp add: prv_def)
qed

lemma unat_add_u16: "unat (c :: u16) + unat d < 0x10000 \<Longrightarrow> unat (c + d) = unat c + unat d"
  by (simp add: unat_word_ariths)

lemma split_block_eq:
  assumes ok: "heap_ok ctx B fs" and c: "unat c \<in> B" "unat c \<noteq> UMM_BLOCK_LAST ctx"
    and b: "0 < unat blocks" "unat c + unat blocks < nxt ctx (unat c)"
  shows "umm_split_block ctx c blocks m =
    set_NBLOCK (unat c) (c + blocks) (set_PBLOCK (nxt ctx (unat c)) (c + blocks)
      (set_PBLOCK (unat c + unat blocks) c
        (set_NBLOCK (unat c + unat blocks) ((UMM_NBLOCK ctx (unat c) AND UMM_BLOCKNO_MASK) OR m) ctx)))"
  using b by (simp add: umm_split_block_def Let_def nxt_def)

lemma split_block_ok:
  assumes ok: "heap_ok ctx B fs" and c: "unat c \<in> B" "unat c \<notin> set fs" "unat c \<noteq> UMM_BLOCK_LAST ctx"
    and b: "0 < unat blocks" "unat c + unat blocks < nxt ctx (unat c)"
  shows "heap_ok (umm_split_block ctx c blocks 0) (insert (unat c + unat blocks) B) fs"
proof -
  let ?m = "unat c + unat blocks"
  note ch = heap_okD(1) [OF ok]
  have n: "nxt ctx (unat c) < 0x8000" by (simp add: nxt_def)
  have u: "unat (c + blocks) = ?m" using b n by (intro unat_add_u16) simp
  have w: "blkno (c + blocks) = ?m" "\<not> freebit (c + blocks)" using u b n by (simp_all add: blkno_small freebit_small)
  have mB: "?m \<notin> B" using bchain_gap [OF ch c(1,3)] b by fastforce
  show ?thesis unfolding split_block_eq [OF ok c(1,3) b]
    by (rule split_ok [OF ok c(1,3), where v = "(UMM_NBLOCK ctx (unat c) AND UMM_BLOCKNO_MASK) OR 0" and w = "c + blocks"])
      (use b c mB heap_okD(2,5) [OF ok] u w in \<open>auto simp: link_defs [abs_def]\<close>)
qed

lemma take_split_ok:
  assumes ok: "heap_ok ctx B (xs @ unat c # ys)"
    and b: "0 < unat blocks" "unat c + unat blocks < nxt ctx (unat c)"
  shows "heap_ok (umm_take_split ctx c blocks) (insert (unat c + unat blocks) B) (xs @ (unat c + unat blocks) # ys)"
proof -
  let ?m = "unat c + unat blocks" and ?fs = "xs @ unat c # ys"
  note ch = heap_okD(1) [OF ok] and r = heap_okD(2) [OF ok]
  have c: "unat c \<in> B" "unat c \<noteq> UMM_BLOCK_LAST ctx" using heap_okD(5,7) [OF ok] by auto
  have n: "nxt ctx (unat c) < 0x8000" by (simp add: nxt_def)
  have u: "unat (c + blocks) = ?m" using b n by (intro unat_add_u16) simp
  have w: "blkno (c + blocks) = ?m" "\<not> freebit (c + blocks)" using u b n by (simp_all add: blkno_small freebit_small)
  have mB: "?m \<notin> B" using bchain_gap [OF ch c] b by fastforce
  have nb: "nfr ctx (unat c) \<in> insert 0 (set ?fs) - {unat c}" "pfr ctx (unat c) \<in> insert 0 (set ?fs) - {unat c}"
    using ring_neighbours [OF r, of "unat c"] by auto
  then have nbB: "nfr ctx (unat c) \<in> B" "pfr ctx (unat c) \<in> B" using heap_okD(5,10) [OF ok] by auto
  then have ne: "?m \<noteq> nfr ctx (unat c)" "?m \<noteq> pfr ctx (unat c)" "unat c \<noteq> nfr ctx (unat c)" "unat c \<noteq> pfr ctx (unat c)"
    using mB nb by auto
  have e: "umm_take_split ctx c blocks =
    set_NFREE ?m (UMM_NFREE ctx (unat c)) (set_PFREE (nfr ctx (unat c)) (c + blocks)
      (set_PFREE ?m (UMM_PFREE ctx (unat c)) (set_NFREE (pfr ctx (unat c)) (c + blocks)
        (umm_split_block ctx c blocks UMM_FREELIST_MASK))))"
    using ne b by (simp add: umm_take_split_def Let_def split_block_eq [OF ok c b] nfr_def pfr_def)
  have rg: "ring (nfr (umm_take_split ctx c blocks)) (pfr (umm_take_split ctx c blocks)) (xs @ ?m # ys)"
  proof (rule ring_replace [OF r])
    show "?m \<notin> insert 0 (set (xs @ ys))" using mB heap_okD(5,10) [OF ok] by auto
  qed (use ne b u in \<open>auto simp: e split_block_eq [OF ok c b] nfr_def pfr_def\<close>)
  have fs: "set (xs @ ?m # ys) - {unat c, ?m} = set ?fs - {unat c, ?m}" by auto
  have mem: "unat c \<notin> set (xs @ ?m # ys)" using heap_okD(8) [OF ok] b by auto
  show ?thesis
    by (rule split_ok [OF ok c _ _ _ _ _ _ _ _ fs rg,
          where v = "(UMM_NBLOCK ctx (unat c) AND UMM_BLOCKNO_MASK) OR UMM_FREELIST_MASK" and w = "c + blocks"])
      (use b c mB u w mem in \<open>auto simp: e split_block_eq [OF ok c b] nxt_def prv_def\<close>)
qed

lemma push_free_ok:
  assumes ok: "heap_ok ctx B fs" and c: "unat c \<in> B" "unat c \<notin> set fs" "unat c \<noteq> 0" "unat c \<noteq> UMM_BLOCK_LAST ctx"
  shows "heap_ok (umm_push_free ctx c) B (unat c # fs)"
proof -
  let ?ctx = "umm_push_free ctx c"
  note ch = heap_okD(1) [OF ok] and r = heap_okD(2) [OF ok]
  have e: "?ctx = set_NBLOCK (unat c) (UMM_NBLOCK ctx (unat c) OR UMM_FREELIST_MASK) (set_NFREE 0 c
      (set_PFREE (unat c) 0 (set_NFREE (unat c) (UMM_NFREE ctx 0) (set_PFREE (nfr ctx 0) c ctx))))"
    by (simp add: umm_push_free_def Let_def nfr_def)
  have "nfr ctx 0 \<in> insert 0 (set fs)" using ring_next_0 [OF r] hd_back [of fs] by simp
  then have "nfr ctx 0 \<noteq> unat c" using c by auto
  have "nxt ?ctx = nxt ctx" "prv ?ctx = prv ctx" by (auto simp: e nxt_def prv_def)
  moreover have "ring (nfr ?ctx) (pfr ?ctx) (unat c # fs)"
    by (rule ring_cons [OF r]) (use c \<open>nfr ctx 0 \<noteq> unat c\<close> in \<open>auto simp: e nfr_def pfr_def\<close>)
  moreover have "freebit (UMM_NBLOCK ?ctx b) \<longleftrightarrow> b \<in> set (unat c # fs)" if "b \<in> B" for b
    using heap_okD(4) [OF ok that] by (simp add: e)
  moreover have "numblocks ?ctx = numblocks ctx" by (simp add: e)
  ultimately show ?thesis
    using heap_okD(1,3,5,7) [OF ok] c by (intro heap_okI [OF ok]) auto
qed

section \<open>What each operation leaves alone\<close>

text \<open>
  \<open>frame ctx ctx' H F\<close>: of the heap, only headers of the blocks in \<open>H\<close> and free
  links (the first four data bytes) of the blocks in \<open>F\<close> may differ.
\<close>

definition frame :: "umm_heap_context \<Rightarrow> umm_heap_context \<Rightarrow> nat set \<Rightarrow> nat set \<Rightarrow> bool" where
  "frame ctx ctx' H F \<longleftrightarrow> same_place ctx ctx' \<and>
     (\<forall>j. j \<notin> H \<longrightarrow> UMM_NBLOCK ctx' j = UMM_NBLOCK ctx j \<and> UMM_PBLOCK ctx' j = UMM_PBLOCK ctx j) \<and>
     (\<forall>j. j \<notin> F \<longrightarrow> UMM_NFREE ctx' j = UMM_NFREE ctx j \<and> UMM_PFREE ctx' j = UMM_PFREE ctx j)"

lemma frame_refl [simp]: "frame ctx ctx H F"
  by (simp add: frame_def same_place_def)

lemma frame_stats [simp]:
  "frame ctx (STATS__FREE_BLOCKS_UPDATE s ctx') H F = frame ctx ctx' H F" "frame ctx (STATS__OOM_UPDATE ctx') H F = frame ctx ctx' H F"
  "frame (STATS__FREE_BLOCKS_UPDATE s ctx) ctx' H F = frame ctx ctx' H F"
  by (auto simp: frame_def same_place_def)

lemma frame_trans: "frame a b H F \<Longrightarrow> frame b c H F \<Longrightarrow> frame a c H F"
  by (auto simp: frame_def same_place_def)

lemma frame_mono: "frame a b H F \<Longrightarrow> H \<subseteq> H' \<Longrightarrow> F \<subseteq> F' \<Longrightarrow> frame a b H' F'"
  unfolding frame_def by blast

lemma frame_set:
  "b \<in> H \<Longrightarrow> frame ctx (set_NBLOCK b v ctx') H F = frame ctx ctx' H F"
  "b \<in> H \<Longrightarrow> frame ctx (set_PBLOCK b v ctx') H F = frame ctx ctx' H F"
  "b \<in> F \<Longrightarrow> frame ctx (set_NFREE b v ctx') H F = frame ctx ctx' H F"
  "b \<in> F \<Longrightarrow> frame ctx (set_PFREE b v ctx') H F = frame ctx ctx' H F"
  by (auto simp: frame_def same_place_def)

lemma frame_block:
  "frame ctx ctx' H F \<Longrightarrow> j \<notin> H \<Longrightarrow> j \<notin> F \<Longrightarrow> blks ctx' j = blks ctx j"
  by (auto simp: frame_def field_defs)

lemma frame_last: "frame ctx ctx' H F \<Longrightarrow> UMM_BLOCK_LAST ctx' = UMM_BLOCK_LAST ctx"
  by (simp add: frame_def same_place_def UMM_BLOCK_LAST_def)

lemma disconnect_nxt [simp]: "nxt (umm_disconnect_from_free_list ctx c) = nxt ctx"
  "prv (umm_disconnect_from_free_list ctx c) = prv ctx" "numblocks (umm_disconnect_from_free_list ctx c) = numblocks ctx"
  "stats (umm_disconnect_from_free_list ctx c) = stats ctx"
  by (auto simp: umm_disconnect_from_free_list_def Let_def nxt_def prv_def)

lemma disconnect_frame:
  assumes ok: "heap_ok ctx B fs" and c: "unat c \<in> set fs"
  shows "frame ctx (umm_disconnect_from_free_list ctx c) B (insert 0 (set fs))"
proof -
  note nb = ring_neighbours [OF heap_okD(2) [OF ok] c]
  then have "unat (UMM_PFREE ctx (unat c)) \<noteq> unat c" by (simp add: pfr_def)
  then show ?thesis using nb heap_okD(5) [OF ok c]
    by (simp add: umm_disconnect_from_free_list_def Let_def frame_set nfr_def pfr_def)
qed

lemma assimilate_up_eq:
  assumes ok: "heap_ok ctx B fs" and c: "unat c \<in> B" "unat c \<notin> set fs" and d: "nxt ctx (unat c) \<in> set fs"
  shows "umm_assimilate_up ctx c =
    (let d = UMM_NBLOCK ctx (unat c); ctx1 = umm_disconnect_from_free_list ctx d
     in set_NBLOCK (unat c) (UMM_NBLOCK ctx1 (unat d) AND UMM_BLOCKNO_MASK) (set_PBLOCK (nxt ctx (unat d)) c ctx1))"
proof -
  have cu: "unat (UMM_NBLOCK ctx (unat c)) = nxt ctx (unat c)" using used_next_unat [OF ok c] .
  have ne: "unat c \<noteq> nxt ctx (unat c)" using c d by auto
  define ctx1 where "ctx1 = umm_disconnect_from_free_list ctx (UMM_NBLOCK ctx (unat c))"
  have same: "nxt ctx1 = nxt ctx" "UMM_NBLOCK ctx1 (unat c) = UMM_NBLOCK ctx (unat c)"
    using ne by (auto simp: ctx1_def umm_disconnect_from_free_list_def Let_def cu fun_eq_iff nxt_def)
  have "freebit (UMM_NBLOCK ctx (nxt ctx (unat c)))" using heap_okD(4,5) [OF ok] d by auto
  then show ?thesis
    unfolding umm_assimilate_up_def Let_def ctx1_def [symmetric]
    using same(1) [unfolded nxt_def fun_eq_iff] by (simp add: cu same(2) freebit_def nxt_def)
qed

lemma assimilate_up_nxt:
  assumes "heap_ok ctx B fs" and "unat c \<in> B" "unat c \<notin> set fs" and "nxt ctx (unat c) \<in> set fs"
  shows "nxt (umm_assimilate_up ctx c) = (nxt ctx)(unat c := nxt ctx (nxt ctx (unat c)))"
  unfolding assimilate_up_eq [OF assms] Let_def
  using disconnect_nxt(1) [unfolded nxt_def fun_eq_iff] used_next_unat [OF assms(1-3)]
  by (auto simp: nxt_def fun_eq_iff)

lemma assimilate_up_stats [simp]: "stats (umm_assimilate_up ctx c) = stats ctx"
  by (simp add: umm_assimilate_up_def Let_def)

lemma assimilate_up_frame:
  assumes ok: "heap_ok ctx B fs" and c: "unat c \<in> B" "unat c \<notin> set fs" "unat c \<noteq> UMM_BLOCK_LAST ctx"
  shows "frame ctx (umm_assimilate_up ctx c) B (insert 0 (set fs))"
proof (cases "nxt ctx (unat c) \<in> set fs")
  case True
  have cu: "unat (UMM_NBLOCK ctx (unat c)) = nxt ctx (unat c)" using used_next_unat [OF ok c(1,2)] .
  have "nxt ctx (nxt ctx (unat c)) \<in> B"
    using bchain_next [OF heap_okD(1) [OF ok]] heap_okD(5,7) [OF ok True] by simp
  then show ?thesis unfolding assimilate_up_eq [OF ok c(1,2) True]
    using disconnect_frame [OF ok, of "UMM_NBLOCK ctx (unat c)"] True c(1) by (simp add: Let_def frame_set cu)
next
  case False
  then show ?thesis using assimilate_up_used [OF ok c] by simp
qed

lemma assimilate_down_eq:
  assumes ok: "heap_ok ctx B fs" and c: "unat c \<in> B" "unat c \<notin> set fs" "unat c \<noteq> 0" "unat c \<noteq> UMM_BLOCK_LAST ctx"
  shows "umm_assimilate_down ctx c freemask = (UMM_PBLOCK ctx (unat c),
    set_PBLOCK (nxt ctx (unat c)) (UMM_PBLOCK ctx (unat c))
      (set_NBLOCK (prv ctx (unat c)) (UMM_NBLOCK ctx (unat c) OR freemask) ctx))"
proof -
  have "prv ctx (unat c) < unat c" using bchain_prev [OF heap_okD(1) [OF ok] c(1,3)] by auto
  moreover have "unat c < nxt ctx (unat c)" using bchain_next [OF heap_okD(1) [OF ok] c(1,4)] by auto
  ultimately show ?thesis
    by (auto simp: umm_assimilate_down_def Let_def used_next_unat [OF ok c(1,2)] prv_def [symmetric])
qed

lemma assimilate_down_nxt:
  assumes "heap_ok ctx B fs" and "unat c \<in> B" "unat c \<notin> set fs" "unat c \<noteq> 0" "unat c \<noteq> UMM_BLOCK_LAST ctx"
    and "freemask = UMM_FREELIST_MASK \<or> freemask = 0"
  shows "nxt (snd (umm_assimilate_down ctx c freemask)) = (nxt ctx)(prv ctx (unat c) := nxt ctx (unat c))"
  unfolding assimilate_down_eq [OF assms(1-5)] using assms(6) by (auto simp: nxt_def fun_eq_iff)

lemma assimilate_down_frame:
  assumes ok: "heap_ok ctx B fs" and c: "unat c \<in> B" "unat c \<notin> set fs" "unat c \<noteq> 0" "unat c \<noteq> UMM_BLOCK_LAST ctx"
  shows "frame ctx (snd (umm_assimilate_down ctx c freemask)) B F"
  using bchain_prev [OF heap_okD(1) [OF ok] c(1,3)] bchain_next [OF heap_okD(1) [OF ok] c(1,4)]
  unfolding assimilate_down_eq [OF assms] by (simp add: frame_set)

lemma assimilate_down_stats [simp]: "stats (snd (umm_assimilate_down ctx c freemask)) = stats ctx"
  by (simp add: umm_assimilate_down_def Let_def)

lemma split_block_nxt:
  assumes ok: "heap_ok ctx B fs" and c: "unat c \<in> B" "unat c \<noteq> UMM_BLOCK_LAST ctx"
    and b: "0 < unat blocks" "unat c + unat blocks < nxt ctx (unat c)" and m: "m = UMM_FREELIST_MASK \<or> m = 0"
  shows "nxt (umm_split_block ctx c blocks m) =
    (nxt ctx)(unat c + unat blocks := nxt ctx (unat c), unat c := unat c + unat blocks)"
proof -
  have n: "nxt ctx (unat c) < 0x8000" by (simp add: nxt_def)
  have "unat (c + blocks) = unat c + unat blocks" using b n by (intro unat_add_u16) simp
  then have "blkno (c + blocks) = unat c + unat blocks" using b n by (simp add: blkno_small)
  then show ?thesis unfolding split_block_eq [OF ok c b] using m b by (auto simp: nxt_def fun_eq_iff)
qed

lemma split_block_frame:
  assumes ok: "heap_ok ctx B fs" and c: "unat c \<in> B" "unat c \<noteq> UMM_BLOCK_LAST ctx"
    and b: "0 < unat blocks" "unat c + unat blocks < nxt ctx (unat c)"
  shows "frame ctx (umm_split_block ctx c blocks m) (insert (unat c + unat blocks) B) F"
  using bchain_next [OF heap_okD(1) [OF ok] c] c unfolding split_block_eq [OF assms] by (simp add: frame_set)

lemma split_block_stats [simp]: "stats (umm_split_block ctx c blocks m) = stats ctx"
  by (simp add: umm_split_block_def Let_def)

lemma take_split_nxt:
  assumes "heap_ok ctx B fs" and "unat c \<in> set fs"
    and "0 < unat blocks" "unat c + unat blocks < nxt ctx (unat c)"
  shows "nxt (umm_take_split ctx c blocks) =
    (nxt ctx)(unat c + unat blocks := nxt ctx (unat c), unat c := unat c + unat blocks)"
proof -
  have "nxt (umm_take_split ctx c blocks) = nxt (umm_split_block ctx c blocks UMM_FREELIST_MASK)"
    by (simp add: umm_take_split_def Let_def nxt_def fun_eq_iff)
  then show ?thesis using split_block_nxt assms heap_okD(5,7) [OF assms(1,2)] by simp
qed

lemma take_split_frame:
  assumes ok: "heap_ok ctx B fs" and c: "unat c \<in> set fs"
    and b: "0 < unat blocks" "unat c + unat blocks < nxt ctx (unat c)"
  shows "frame ctx (umm_take_split ctx c blocks) (insert (unat c + unat blocks) B)
    (insert 0 (insert (unat c + unat blocks) (set fs)))"
proof -
  let ?F = "insert 0 (insert (unat c + unat blocks) (set fs))"
  note cB = heap_okD(5,7) [OF ok c] and nb = ring_neighbours [OF heap_okD(2) [OF ok] c]
  have mB: "unat c + unat blocks \<notin> B" using bchain_gap [OF heap_okD(1) [OF ok] cB] b by fastforce
  have "nfr ctx (unat c) \<noteq> unat c + unat blocks" "pfr ctx (unat c) \<noteq> unat c + unat blocks"
    using nb mB heap_okD(5,10) [OF ok] by auto
  then show ?thesis
    using split_block_frame [OF ok cB b, of UMM_FREELIST_MASK ?F] nb b
    unfolding umm_take_split_def Let_def split_block_eq [OF ok cB b]
    by (simp add: frame_set nfr_def pfr_def)
qed

lemma take_split_stats [simp]: "stats (umm_take_split ctx c blocks) = stats ctx"
  by (simp add: umm_take_split_def Let_def)

lemma push_free_nxt [simp]: "nxt (umm_push_free ctx c) = nxt ctx" "stats (umm_push_free ctx c) = stats ctx"
  by (auto simp: umm_push_free_def Let_def nxt_def)

lemma push_free_frame:
  assumes ok: "heap_ok ctx B fs" and c: "unat c \<in> B"
  shows "frame ctx (umm_push_free ctx c) B (insert 0 (insert (unat c) (set fs)))"
proof -
  have "unat (UMM_NFREE ctx 0) \<in> insert 0 (set fs)"
    using ring_next_0 [OF heap_okD(2) [OF ok]] hd_back [of fs] by (simp add: nfr_def)
  then have "unat (UMM_NFREE ctx 0) \<in> insert 0 (insert (unat c) (set fs))" by blast
  then show ?thesis using c by (simp add: umm_push_free_def Let_def frame_set)
qed

end
