(* ===== verification/Umm_Malloc.thy ===== *)
theory Umm_Malloc
  imports Umm_Blocks
begin

text \<open>
  Allocation and release (\<open>umm_malloc.cpp\<close>: \<open>umm_init_heap\<close>, \<open>umm_free_core\<close>,
  \<open>umm_free\<close>, \<open>umm_malloc_core\<close>, \<open>umm_malloc\<close>) in the default build: best fit, a single
  heap, \<open>UMM_STATS\<close>, no poison, no inline metrics.  The critical sections make
  each call atomic and leave no trace in the state.

  The walk of the free list is a \<open>partial_function\<close>: \<open>None\<close> stands for a walk that
  does not end, and the theorems show that it ends on every heap the allocator
  builds.  A pointer outside the heap makes \<open>umm_free\<close> and \<open>umm_realloc\<close> abort, the
  left value of their result.
\<close>

section \<open>Operations\<close>

definition zero_block :: umm_block where
  "zero_block = \<lparr>used_next = 0, used_prev = 0, free_next = 0, free_prev = 0\<rparr>"

definition umm_init_blocks :: "umm_heap_context \<Rightarrow> umm_heap_context" where
  "umm_init_blocks ctx =
     (let last = UMM_BLOCK_LAST ctx;
          ctx1 = ctx\<lparr>stats := (stats ctx)\<lparr>free_blocks := of_int (int (unat (numblocks ctx)) - 2)\<rparr>\<rparr>;
          ctx2 = set_NBLOCK 0 1 ctx1;
          ctx3 = set_NFREE 0 1 ctx2;
          ctx4 = set_PFREE 0 1 ctx3;
          ctx5 = set_NBLOCK 1 (of_nat last OR UMM_FREELIST_MASK) ctx4
      in set_PBLOCK last 1 ctx5)"

definition umm_init_heap :: "u8 \<Rightarrow> u32 \<Rightarrow> u32 \<Rightarrow> bool \<Rightarrow> umm_heap_context \<Rightarrow> umm_heap_context" where
  "umm_init_heap i start_addr sz full_init ctx =
     (if start_addr = 0 \<or> heap ctx \<noteq> 0 then ctx
      else let ctx1 = ctx\<lparr>heap_id := i, heap := start_addr, heap_end := start_addr + sz,
                          numblocks := of_nat (unat sz div umm_block_size)\<rparr>
           in if full_init
              then umm_init_blocks (ctx1\<lparr>blks := (\<lambda>b. if b < unat sz div umm_block_size then zero_block else blks ctx b),
                                         stats := \<lparr>free_blocks = 0, oom_count = 0\<rparr>\<rparr>)
              else ctx1)"

partial_function (option) umm_best_fit ::
    "umm_heap_context \<Rightarrow> u16 \<Rightarrow> u16 \<Rightarrow> u16 \<Rightarrow> u16 \<Rightarrow> u16 \<Rightarrow> (u16 \<times> u16 \<times> u16) option" where
  "umm_best_fit ctx blocks cf bestBlock bestSize blockSize =
     (if cf = 0 then Some (bestBlock, bestSize, blockSize)
      else let blockSize = (UMM_NBLOCK ctx (unat cf) AND UMM_BLOCKNO_MASK) - cf
           in if blocks \<le> blockSize \<and> blockSize < bestSize
              then umm_best_fit ctx blocks (UMM_NFREE ctx (unat cf)) cf blockSize blockSize
              else umm_best_fit ctx blocks (UMM_NFREE ctx (unat cf)) bestBlock bestSize blockSize)"

definition umm_malloc_core :: "umm_heap_context \<Rightarrow> u32 \<Rightarrow> (u32 \<times> umm_heap_context) option" where
  "umm_malloc_core ctx sz =
     (let blocks = umm_blocks sz in
      case umm_best_fit ctx blocks (UMM_NFREE ctx 0) (UMM_NFREE ctx 0) 0x7FFF 0 of
        None \<Rightarrow> None
      | Some (bestBlock, bestSize, lastSize) \<Rightarrow>
          let (cf, blockSize) = (if bestSize \<noteq> 0x7FFF then (bestBlock, bestSize) else (0, lastSize)) in
          if UMM_NBLOCK ctx (unat cf) AND UMM_BLOCKNO_MASK \<noteq> 0 \<and> blocks \<le> blockSize
          then let ctx1 = (if blockSize = blocks then umm_disconnect_from_free_list ctx cf
                           else umm_take_split ctx cf blocks);
                   ctx2 = STATS__FREE_BLOCKS_UPDATE (- int (unat blocks)) ctx1
               in Some (UMM_DATA ctx2 (unat cf), ctx2)
          else Some (0, STATS__OOM_UPDATE ctx))"

definition umm_malloc :: "umm_heap_context \<Rightarrow> u32 \<Rightarrow> (u32 \<times> umm_heap_context) option" where
  "umm_malloc ctx sz = (if sz = 0 then Some (0, ctx) else umm_malloc_core ctx sz)"

definition umm_free_core :: "umm_heap_context \<Rightarrow> u32 \<Rightarrow> umm_heap_context" where
  "umm_free_core ctx ptr =
     (let c = block_of_ptr ctx ptr;
          ctx1 = STATS__FREE_BLOCKS_UPDATE (int (unat (UMM_NBLOCK ctx (unat c))) - int (unat c)) ctx;
          ctx2 = umm_assimilate_up ctx1 c
      in if UMM_NBLOCK ctx2 (unat (UMM_PBLOCK ctx2 (unat c))) AND UMM_FREELIST_MASK \<noteq> 0
         then snd (umm_assimilate_down ctx2 c UMM_FREELIST_MASK)
         else umm_push_free ctx2 c)"

datatype umm_error = NotHeapAddress u32

definition test_ptr_context :: "umm_heap_context \<Rightarrow> u32 \<Rightarrow> bool" where
  "test_ptr_context ctx ptr \<longleftrightarrow> heap ctx \<noteq> 0 \<and> heap ctx \<le> ptr \<and> ptr < heap_end ctx"

definition umm_get_ptr_context :: "umm_heap_context \<Rightarrow> u32 \<Rightarrow> umm_error + umm_heap_context" where
  "umm_get_ptr_context ctx ptr = (if test_ptr_context ctx ptr then Inr ctx else Inl (NotHeapAddress ptr))"

definition umm_free :: "umm_heap_context \<Rightarrow> u32 \<Rightarrow> umm_error + umm_heap_context" where
  "umm_free ctx ptr =
     (if ptr = 0 then Inr ctx
      else case umm_get_ptr_context ctx ptr of
             Inl e \<Rightarrow> Inl e
           | Inr c \<Rightarrow> Inr (umm_free_core c ptr))"

section \<open>The invariant\<close>

definition free_total :: "umm_heap_context \<Rightarrow> nat list \<Rightarrow> nat" where
  "free_total ctx fs = sum_list (map (\<lambda>b. nxt ctx b - b) fs)"

definition placed :: "umm_heap_context \<Rightarrow> bool" where
  "placed ctx \<longleftrightarrow> heap ctx \<noteq> 0 \<and> unat (heap ctx) + unat (numblocks ctx) * umm_block_size \<le> unat (heap_end ctx)"

definition heap_inv :: "umm_heap_context \<Rightarrow> nat set \<Rightarrow> nat list \<Rightarrow> bool" where
  "heap_inv ctx B fs \<longleftrightarrow> heap_ok ctx B fs \<and> 1 \<in> B \<and> placed ctx \<and> (\<forall>b\<in>set fs. nxt ctx b \<notin> set fs) \<and>
     free_blocks (stats ctx) = of_nat (free_total ctx fs)"

definition umm_inv :: "umm_heap_context \<Rightarrow> bool" where
  "umm_inv ctx \<longleftrightarrow> (\<exists>B fs. heap_inv ctx B fs)"

text \<open>The blocks in use, read off the heap itself: first block and end.\<close>

inductive_set starts :: "umm_heap_context \<Rightarrow> nat set" for ctx :: umm_heap_context where
  first: "0 \<in> starts ctx"
| step: "b \<in> starts ctx \<Longrightarrow> nxt ctx b \<in> starts ctx"

definition live :: "umm_heap_context \<Rightarrow> (nat \<times> nat) set" where
  "live ctx = {(b, nxt ctx b) | b. b \<in> starts ctx \<and> \<not> freebit (UMM_NBLOCK ctx b) \<and> b \<noteq> 0 \<and> b \<noteq> UMM_BLOCK_LAST ctx}"

lemma starts_eq: assumes ok: "heap_ok ctx B fs" shows "starts ctx = B"
proof (intro equalityI subsetI)
  fix b assume "b \<in> starts ctx"
  then show "b \<in> B"
  proof induction
    case first
    show ?case by (rule heap_okD(10) [OF ok])
  next
    case (step b)
    then show ?case using bchain_next [OF heap_okD(1) [OF ok], of b] heap_okD(3,10) [OF ok]
      by (cases "b = UMM_BLOCK_LAST ctx") auto
  qed
next
  fix b assume "b \<in> B"
  then show "b \<in> starts ctx"
  proof (induction b rule: less_induct)
    case (less b)
    then show ?case using bchain_prev [OF heap_okD(1) [OF ok], of b] starts.step [of "prv ctx b" ctx]
      by (cases "b = 0") (auto intro: starts.first)
  qed
qed

lemma live_eq:
  "heap_ok ctx B fs \<Longrightarrow> live ctx = {(b, nxt ctx b) | b. b \<in> B \<and> b \<notin> set fs \<and> b \<noteq> 0 \<and> b \<noteq> UMM_BLOCK_LAST ctx}"
  by (auto simp: live_def starts_eq heap_okD(4))

text \<open>The free blocks, read off the heap.\<close>

definition avail :: "umm_heap_context \<Rightarrow> (nat \<times> nat) set" where
  "avail ctx = {(b, nxt ctx b) | b. b \<in> starts ctx \<and> freebit (UMM_NBLOCK ctx b)}"

lemma avail_eq: "heap_ok ctx B fs \<Longrightarrow> avail ctx = {(b, nxt ctx b) | b. b \<in> set fs}"
  using heap_okD(4,5) by (auto simp: avail_def starts_eq)

section \<open>An empty heap\<close>

lemma init_blocks_ok:
  assumes n: "3 \<le> unat (numblocks ctx)" "unat (numblocks ctx) \<le> 0x8000"
    and z: "\<And>b. b < unat (numblocks ctx) \<Longrightarrow> blks ctx b = zero_block"
  shows "heap_ok (umm_init_blocks ctx) {0, 1, UMM_BLOCK_LAST ctx} [1]"
proof -
  let ?l = "UMM_BLOCK_LAST ctx" and ?ctx = "umm_init_blocks ctx"
  have l: "1 < ?l" "?l < 0x8000" using n by (auto simp: UMM_BLOCK_LAST_def)
  have zero: "UMM_NBLOCK ctx b = 0 \<and> UMM_PBLOCK ctx b = 0 \<and> UMM_NFREE ctx b = 0 \<and> UMM_PFREE ctx b = 0" if "b \<le> ?l" for b
    using z [of b] that n by (auto simp: field_defs zero_block_def UMM_BLOCK_LAST_def)
  have [simp]: "UMM_NBLOCK (ctx\<lparr>stats := s\<rparr>) = UMM_NBLOCK ctx" "UMM_PBLOCK (ctx\<lparr>stats := s\<rparr>) = UMM_PBLOCK ctx"
    "UMM_NFREE (ctx\<lparr>stats := s\<rparr>) = UMM_NFREE ctx" "UMM_PFREE (ctx\<lparr>stats := s\<rparr>) = UMM_PFREE ctx"
    "UMM_BLOCK_LAST (ctx\<lparr>stats := s\<rparr>) = ?l" for s
    by (auto simp: field_defs UMM_BLOCK_LAST_def)
  have last: "UMM_BLOCK_LAST ?ctx = ?l" "numblocks ?ctx = numblocks ctx" by (simp_all add: umm_init_blocks_def Let_def)
  have w1: "blkno 1 = 1" "\<not> freebit 1" by (simp_all add: blkno_small freebit_small)
  have wl: "blkno (of_nat ?l) = ?l" using l by (simp add: blkno_mod unat_of_nat)
  have nb: "UMM_NBLOCK ?ctx 0 = 1" "UMM_NBLOCK ?ctx 1 = of_nat ?l OR UMM_FREELIST_MASK" "UMM_NBLOCK ?ctx ?l = 0"
    using l zero [of ?l] by (simp_all add: umm_init_blocks_def Let_def)
  have pb: "UMM_PBLOCK ?ctx 1 = 0" "UMM_PBLOCK ?ctx ?l = 1"
    using l zero [of 1] by (simp_all add: umm_init_blocks_def Let_def)
  have fr: "UMM_NFREE ?ctx 0 = 1" "UMM_PFREE ?ctx 0 = 1" "UMM_NFREE ?ctx 1 = 0" "UMM_PFREE ?ctx 1 = 0"
    using l zero [of 1] by (simp_all add: umm_init_blocks_def Let_def)
  have "bchain (nxt ?ctx) (prv ?ctx) ?l {0, 1, ?l}"
    using l nb pb w1 wl by (auto simp: bchain_def nxt_def prv_def)
  moreover have "ring (nfr ?ctx) (pfr ?ctx) [1]" using fr by (simp add: ring_def nfr_def pfr_def)
  ultimately show ?thesis using n l nb w1 by (auto simp: heap_ok_def last nxt_def)
qed

lemma init_heap_inv:
  assumes "start \<noteq> 0" and "heap ctx = 0" and sz: "24 \<le> unat sz" "unat sz < 0x40008"
    and fits: "unat start + unat sz < 2 ^ 32"
  shows "let ctx' = umm_init_heap i start sz True ctx in
    umm_inv ctx' \<and> live ctx' = {} \<and> avail ctx' = {(1, unat sz div 8 - 1)} \<and>
    unat (free_blocks (stats ctx')) = unat sz div 8 - 2 \<and>
    unat (numblocks ctx') = unat sz div 8"
proof -
  define ctx1 where "ctx1 = ctx\<lparr>heap_id := i, heap := start, heap_end := start + sz,
     numblocks := of_nat (unat sz div umm_block_size),
     blks := (\<lambda>b. if b < unat sz div umm_block_size then zero_block else blks ctx b),
     stats := \<lparr>free_blocks = 0, oom_count = 0\<rparr>\<rparr>"
  have e: "umm_init_heap i start sz True ctx = umm_init_blocks ctx1"
    using assms by (simp add: umm_init_heap_def ctx1_def Let_def)
  have n: "unat (numblocks ctx1) = unat sz div 8" "3 \<le> unat sz div 8" "unat sz div 8 \<le> 0x8000"
    using sz by (auto simp: ctx1_def umm_block_size_def unat_of_nat)
  have ok: "heap_ok (umm_init_blocks ctx1) {0, 1, UMM_BLOCK_LAST ctx1} [1]"
    by (rule init_blocks_ok) (use n in \<open>auto simp: ctx1_def umm_block_size_def\<close>)
  have st: "free_blocks (stats (umm_init_blocks ctx1)) = of_nat (unat sz div 8 - 2)"
    using n by (simp add: umm_init_blocks_def Let_def of_nat_diff)
  have l: "UMM_BLOCK_LAST ctx1 = unat sz div 8 - 1" "1 < UMM_BLOCK_LAST ctx1" "UMM_BLOCK_LAST ctx1 < 0x8000"
    using n by (auto simp: UMM_BLOCK_LAST_def)
  have "blkno (of_nat (UMM_BLOCK_LAST ctx1) OR UMM_FREELIST_MASK) = UMM_BLOCK_LAST ctx1"
    unfolding blkno_masks(2) using l(3) by (simp add: blkno_mod unat_of_nat)
  then have n1: "nxt (umm_init_blocks ctx1) 1 = UMM_BLOCK_LAST ctx1"
    by (simp add: umm_init_blocks_def Let_def nxt_def)
  have "unat (start + sz) = unat start + unat sz" using fits by (simp add: unat_word_ariths)
  then have "placed (umm_init_blocks ctx1)"
    using assms n(1) by (simp add: placed_def umm_init_blocks_def Let_def ctx1_def umm_block_size_def)
  then have "heap_inv (umm_init_blocks ctx1) {0, 1, UMM_BLOCK_LAST ctx1} [1]"
    using ok st n1 l by (simp add: heap_inv_def free_total_def numeral_2_eq_2)
  moreover have "live (umm_init_blocks ctx1) = {}" unfolding live_eq [OF ok]
    by (auto simp: umm_init_blocks_def Let_def) (simp add: UMM_BLOCK_LAST_def)
  moreover have "unat (free_blocks (stats (umm_init_blocks ctx1))) = unat sz div 8 - 2"
    unfolding st by (rule unat_of_nat_u32) (use n in simp)
  moreover have "numblocks (umm_init_blocks ctx1) = numblocks ctx1" by (simp add: umm_init_blocks_def Let_def)
  moreover have "avail (umm_init_blocks ctx1) = {(1, unat sz div 8 - 1)}" unfolding avail_eq [OF ok] using n1 l(1) by auto
  ultimately show ?thesis unfolding Let_def e umm_inv_def using n(1) by auto
qed

section \<open>The best-fit search\<close>

definition bsize :: "umm_heap_context \<Rightarrow> nat \<Rightarrow> nat" where "bsize ctx b = nxt ctx b - b"

text \<open>What the walk over the free blocks \<open>zs\<close> returns, from a best size so far.\<close>

definition best_of :: "umm_heap_context \<Rightarrow> nat \<Rightarrow> nat list \<Rightarrow> u16 \<Rightarrow> u16 \<Rightarrow> u16 \<Rightarrow> u16 \<Rightarrow> bool" where
  "best_of ctx blocks zs bb bs bb' bs' \<longleftrightarrow>
     (if \<exists>z\<in>set zs. blocks \<le> bsize ctx z \<and> bsize ctx z < unat bs
      then unat bb' \<in> set zs \<and> unat bs' = bsize ctx (unat bb') \<and> blocks \<le> unat bs' \<and> unat bs' < unat bs \<and>
           (\<forall>z\<in>set zs. blocks \<le> bsize ctx z \<longrightarrow> unat bs' \<le> bsize ctx z)
      else bb' = bb \<and> bs' = bs)"

lemma best_of_Nil: "best_of ctx blocks [] bb bs bb bs"
  by (simp add: best_of_def)

lemma best_of_better:
  "best_of ctx k zs z' bs1 bb' bs' \<Longrightarrow> unat z' = z \<Longrightarrow> unat bs1 = bsize ctx z \<Longrightarrow> k \<le> bsize ctx z \<Longrightarrow>
   bsize ctx z < unat bs \<Longrightarrow> best_of ctx k (z # zs) bb bs bb' bs'"
  by (auto simp: best_of_def split: if_splits)

lemma best_of_worse:
  "best_of ctx k zs bb bs bb' bs' \<Longrightarrow> \<not> (k \<le> bsize ctx z \<and> bsize ctx z < unat bs) \<Longrightarrow>
   best_of ctx k (z # zs) bb bs bb' bs'"
  by (auto simp: best_of_def split: if_splits)

lemma umm_best_fit_spec:
  assumes "\<And>z. z \<in> set zs \<Longrightarrow> z \<noteq> 0 \<and> z < nxt ctx z" and "dchain (nfr ctx) (pfr ctx) (zs @ [0])"
    and "unat cf = hd (zs @ [0])"
  shows "\<exists>bb' bs' ls'. umm_best_fit ctx blocks cf bb bs ls = Some (bb', bs', ls') \<and>
    best_of ctx (unat blocks) zs bb bs bb' bs' \<and> unat ls' = (if zs = [] then unat ls else bsize ctx (last zs))"
  using assms
proof (induction zs arbitrary: cf bb bs ls)
  case Nil
  then have "cf = 0" by (simp add: unat_eq_0)
  then show ?case by (simp add: umm_best_fit.simps best_of_Nil)
next
  case (Cons z zs)
  have z: "z < nxt ctx z" "z \<noteq> 0" using Cons.prems(1) [of z] by auto
  have cf: "unat cf = z" "cf \<noteq> 0" using Cons.prems(3) z(2) by auto
  let ?bs = "(UMM_NBLOCK ctx (unat cf) AND UMM_BLOCKNO_MASK) - cf"
  have "cf \<le> UMM_NBLOCK ctx (unat cf) AND UMM_BLOCKNO_MASK" using z cf by (simp add: word_le_nat_alt nxt_def)
  then have sz: "unat ?bs = bsize ctx z" by (simp add: unat_sub cf bsize_def nxt_def)
  have ch: "dchain (nfr ctx) (pfr ctx) (zs @ [0])" "unat (UMM_NFREE ctx (unat cf)) = hd (zs @ [0])"
    using Cons.prems(2) dchain_append [of "[z]" "zs @ [0]" "nfr ctx" "pfr ctx"] cf by (auto simp flip: nfr_def)
  note IH = Cons.IH [OF _ ch]
  have last: "(if zs = [] then unat ?bs else bsize ctx (last zs)) = bsize ctx (last (z # zs))" using sz by simp
  show ?case
  proof (cases "blocks \<le> ?bs \<and> ?bs < bs")
    case True
    obtain bb' bs' ls' where r: "umm_best_fit ctx blocks (UMM_NFREE ctx (unat cf)) cf ?bs ?bs = Some (bb', bs', ls')"
      "best_of ctx (unat blocks) zs cf ?bs bb' bs'" "unat ls' = (if zs = [] then unat ?bs else bsize ctx (last zs))"
      using IH [of cf ?bs ?bs] Cons.prems(1) by auto
    have "umm_best_fit ctx blocks cf bb bs ls = Some (bb', bs', ls')"
      using r(1) True cf by (subst umm_best_fit.simps) (simp add: Let_def)
    moreover have "best_of ctx (unat blocks) (z # zs) bb bs bb' bs'"
      using True sz cf by (intro best_of_better [OF r(2)]) (auto simp: word_le_nat_alt word_less_nat_alt)
    ultimately show ?thesis using r(3) last by auto
  next
    case False
    obtain bb' bs' ls' where r: "umm_best_fit ctx blocks (UMM_NFREE ctx (unat cf)) bb bs ?bs = Some (bb', bs', ls')"
      "best_of ctx (unat blocks) zs bb bs bb' bs'" "unat ls' = (if zs = [] then unat ?bs else bsize ctx (last zs))"
      using IH [of bb bs ?bs] Cons.prems(1) by auto
    have "umm_best_fit ctx blocks cf bb bs ls = Some (bb', bs', ls')"
      using r(1) False cf by (subst umm_best_fit.simps) (auto simp: Let_def)
    moreover have "best_of ctx (unat blocks) (z # zs) bb bs bb' bs'"
      using False sz by (intro best_of_worse [OF r(2)]) (auto simp: word_le_nat_alt word_less_nat_alt)
    ultimately show ?thesis using r(3) last by auto
  qed
qed

lemma umm_blocks_pos: "0 < unat (umm_blocks sz)"
proof (cases "unat sz \<le> umm_body_size")
  case True
  then show ?thesis by (simp add: umm_blocks_def)
next
  case False
  define k where "k = 2 + unat (sz - of_nat umm_body_size - 1) div umm_block_size"
  have "umm_blocks sz = of_nat (if 0x7FFF < k then 0x7FFF else k)"
    using False by (simp add: umm_blocks_def k_def Let_def)
  moreover have "0 < k" by (simp add: k_def)
  ultimately show ?thesis by (simp add: unat_of_nat)
qed

text \<open>The result of the search on a well-formed heap.\<close>

lemma malloc_core_cases:
  assumes ok: "heap_ok ctx B fs"
  obtains (fit) c where "unat c \<in> set fs" "unat (umm_blocks sz) \<le> bsize ctx (unat c)"
      "\<forall>z\<in>set fs. unat (umm_blocks sz) \<le> bsize ctx z \<longrightarrow> bsize ctx (unat c) \<le> bsize ctx z"
      "umm_malloc_core ctx sz = Some (let ctx' = STATS__FREE_BLOCKS_UPDATE (- int (unat (umm_blocks sz)))
          (if bsize ctx (unat c) = unat (umm_blocks sz) then umm_disconnect_from_free_list ctx c
           else umm_take_split ctx c (umm_blocks sz)) in (UMM_DATA ctx' (unat c), ctx'))"
    | (oom) "\<forall>z\<in>set fs. bsize ctx z < unat (umm_blocks sz)" "umm_malloc_core ctx sz = Some (0, STATS__OOM_UPDATE ctx)"
proof -
  note ch = heap_okD(1) [OF ok] and r = heap_okD(2) [OF ok]
  let ?k = "umm_blocks sz"
  have zs: "z \<noteq> 0 \<and> z < nxt ctx z" if "z \<in> set fs" for z
    using bchain_next [OF ch] heap_okD(5,6,7) [OF ok that] by auto
  have small: "bsize ctx z < 0x7FFF" if "z \<in> set fs" for z
    using zs [OF that] blkno_less [of "UMM_NBLOCK ctx z"] unfolding bsize_def nxt_def by linarith
  have "dchain (nfr ctx) (pfr ctx) (fs @ [0])" "unat (UMM_NFREE ctx 0) = hd (fs @ [0])"
    using r ring_join [of "nfr ctx" "pfr ctx" "[]" fs] by (auto simp: nfr_def)
  from umm_best_fit_spec [OF zs this, of ?k "UMM_NFREE ctx 0" "0x7FFF" 0] obtain bb bs ls where
    f: "umm_best_fit ctx ?k (UMM_NFREE ctx 0) (UMM_NFREE ctx 0) 0x7FFF 0 = Some (bb, bs, ls)" and
    b: "best_of ctx (unat ?k) fs (UMM_NFREE ctx 0) 0x7FFF bb bs" and
    l: "unat ls = (if fs = [] then 0 else bsize ctx (last fs))" by auto
  show ?thesis
  proof (cases "\<exists>z\<in>set fs. unat ?k \<le> bsize ctx z")
    case True
    then have bb: "unat bb \<in> set fs" "unat bs = bsize ctx (unat bb)" "unat ?k \<le> unat bs" "unat bs < 0x7FFF"
      "\<forall>z\<in>set fs. unat ?k \<le> bsize ctx z \<longrightarrow> unat bs \<le> bsize ctx z"
      using b small by (auto simp: best_of_def split: if_splits)
    have "bs \<noteq> 0x7FFF" using bb(4) by auto
    moreover have "UMM_NBLOCK ctx (unat bb) AND UMM_BLOCKNO_MASK \<noteq> 0"
      using zs [OF bb(1)] by (metis nxt_def blkno_def not_less0 unat_0)
    moreover have "?k \<le> bs" using bb(3) by (simp add: word_le_nat_alt)
    moreover have "bs = ?k \<longleftrightarrow> bsize ctx (unat bb) = unat ?k" using bb(2) by (metis word_unat_eq_iff)
    ultimately have "umm_malloc_core ctx sz = Some (let ctx' = STATS__FREE_BLOCKS_UPDATE (- int (unat ?k))
          (if bsize ctx (unat bb) = unat ?k then umm_disconnect_from_free_list ctx bb
           else umm_take_split ctx bb ?k) in (UMM_DATA ctx' (unat bb), ctx'))"
      by (simp add: umm_malloc_core_def f Let_def)
    with bb show ?thesis by (intro fit [of bb]) auto
  next
    case False
    then have "bs = 0x7FFF" using b by (auto simp: best_of_def split: if_splits)
    moreover have "\<not> ?k \<le> ls" using l False umm_blocks_pos [of sz] by (auto simp: word_le_nat_alt split: if_splits)
    ultimately have "umm_malloc_core ctx sz = Some (0, STATS__OOM_UPDATE ctx)"
      by (simp add: umm_malloc_core_def f Let_def)
    with False show ?thesis by (intro oom) auto
  qed
qed

section \<open>Allocation\<close>

lemma free_total_append: "free_total ctx (xs @ c # ys) = free_total ctx xs + bsize ctx c + free_total ctx ys"
  by (simp add: free_total_def bsize_def)

lemma free_total_Cons: "free_total ctx (c # ys) = bsize ctx c + free_total ctx ys"
  by (simp add: free_total_def bsize_def)

lemma free_total_append2: "free_total ctx (xs @ ys) = free_total ctx xs + free_total ctx ys"
  by (simp add: free_total_def)

lemma free_total_cong: "(\<And>b. b \<in> set fs \<Longrightarrow> nxt ctx' b = nxt ctx b) \<Longrightarrow> free_total ctx' fs = free_total ctx fs"
  unfolding free_total_def by (intro arg_cong [of _ _ sum_list] map_cong) auto

lemma stats_sub: "k \<le> n \<Longrightarrow> (of_nat n :: u32) + of_int (- int k) = of_nat (n - k)"
  by (simp add: of_nat_diff)

lemma placed_frame: "frame ctx ctx' H F \<Longrightarrow> placed ctx \<Longrightarrow> placed ctx'"
  by (simp add: frame_def same_place_def placed_def)

text \<open>
  A change of the heap from \<open>(B, fs)\<close> to \<open>(B', fs')\<close> that touches only headers of
  blocks and links of free blocks.
\<close>

definition moves :: "umm_heap_context \<Rightarrow> nat set \<Rightarrow> nat list \<Rightarrow> umm_heap_context \<Rightarrow> nat set \<Rightarrow> nat list \<Rightarrow> bool" where
  "moves ctx B fs ctx' B' fs' \<longleftrightarrow> heap_inv ctx' B' fs' \<and> frame ctx ctx' (B \<union> B') (insert 0 (set fs \<union> set fs'))"

lemma take_exact_inv:
  assumes inv: "heap_inv ctx B (xs @ unat c # ys)" and k: "bsize ctx (unat c) = k"
  defines "ctx' \<equiv> STATS__FREE_BLOCKS_UPDATE (- int k) (umm_disconnect_from_free_list ctx c)"
  shows "moves ctx B (xs @ unat c # ys) ctx' B (xs @ ys) \<and> live ctx' = insert (unat c, unat c + k) (live ctx)"
proof -
  let ?fs = "xs @ unat c # ys"
  have ok: "heap_ok ctx B ?fs" using inv by (simp add: heap_inv_def)
  have ok': "heap_ok ctx' B (xs @ ys)" unfolding ctx'_def using disconnect_ok [OF ok] by simp
  have nx: "nxt ctx' = nxt ctx" by (simp add: ctx'_def)
  have fr: "frame ctx ctx' B (insert 0 (set ?fs))" unfolding ctx'_def using disconnect_frame [OF ok] by simp
  have c: "unat c \<in> B" "unat c \<noteq> 0" "unat c \<noteq> UMM_BLOCK_LAST ctx" using heap_okD(5,6,7) [OF ok] by auto
  have "unat c + k = nxt ctx (unat c)" using bchain_next [OF heap_okD(1) [OF ok] c(1,3)] k by (auto simp: bsize_def)
  then have "live ctx' = insert (unat c, unat c + k) (live ctx)"
    unfolding live_eq [OF ok] live_eq [OF ok'] nx frame_last [OF fr] using c heap_okD(8) [OF ok] by auto
  moreover have "free_total ctx' (xs @ ys) = free_total ctx ?fs - k" "k \<le> free_total ctx ?fs"
    using free_total_cong [of "xs @ ys" ctx' ctx] k unfolding nx free_total_append by (simp_all add: free_total_append2)
  then have "free_blocks (stats ctx') = of_nat (free_total ctx' (xs @ ys))"
    using inv stats_sub [of k "free_total ctx ?fs"] by (simp add: heap_inv_def ctx'_def)
  moreover have "\<forall>b\<in>set (xs @ ys). nxt ctx' b \<notin> set (xs @ ys)"
    using inv by (auto simp: heap_inv_def nx)
  moreover have "frame ctx ctx' (B \<union> B) (insert 0 (set ?fs \<union> set (xs @ ys)))" by (rule frame_mono [OF fr]) auto
  ultimately show ?thesis using inv ok' placed_frame [OF fr] by (simp add: heap_inv_def moves_def)
qed

lemma take_split_inv:
  assumes inv: "heap_inv ctx B (xs @ unat c # ys)" and k: "0 < unat blocks" "unat blocks < bsize ctx (unat c)"
  defines "ctx' \<equiv> STATS__FREE_BLOCKS_UPDATE (- int (unat blocks)) (umm_take_split ctx c blocks)"
    and "m \<equiv> unat c + unat blocks"
  shows "moves ctx B (xs @ unat c # ys) ctx' (insert m B) (xs @ m # ys) \<and> live ctx' = insert (unat c, m) (live ctx)"
proof -
  let ?fs = "xs @ unat c # ys"
  have ok: "heap_ok ctx B ?fs" using inv by (simp add: heap_inv_def)
  have cfs: "unat c \<in> set ?fs" by simp
  have b: "0 < unat blocks" "unat c + unat blocks < nxt ctx (unat c)" using k by (auto simp: bsize_def)
  have ok': "heap_ok ctx' (insert m B) (xs @ m # ys)" unfolding ctx'_def m_def using take_split_ok [OF ok b] by simp
  have nx: "nxt ctx' = (nxt ctx)(m := nxt ctx (unat c), unat c := m)"
    unfolding ctx'_def m_def take_split_nxt [OF ok cfs b, symmetric] by simp
  have fr: "frame ctx ctx' (insert m B) (insert 0 (insert m (set ?fs)))"
    unfolding ctx'_def m_def using take_split_frame [OF ok cfs b] by simp
  have c: "unat c \<in> B" "unat c \<noteq> 0" "unat c \<noteq> UMM_BLOCK_LAST ctx" using heap_okD(5,6,7) [OF ok] by auto
  have mB: "m \<notin> B" using bchain_gap [OF heap_okD(1) [OF ok] c(1,3)] b unfolding m_def by fastforce
  have mc: "m \<noteq> unat c" "m \<notin> set ?fs" using b mB heap_okD(5) [OF ok, of m] by (auto simp: m_def)
  have dist: "unat c \<notin> set xs" "unat c \<notin> set ys" using heap_okD(8) [OF ok] by auto
  have old: "nxt ctx' b = nxt ctx b" if "b \<in> set xs \<union> set ys" for b using that dist mc by (auto simp: nx)
  have "live ctx' = insert (unat c, m) (live ctx)"
    unfolding live_eq [OF ok] live_eq [OF ok'] frame_last [OF fr] nx using c mc mB dist by auto
  moreover have "bsize ctx' m = bsize ctx (unat c) - unat blocks" using mc by (simp add: bsize_def nx m_def)
  then have "free_total ctx' (xs @ m # ys) = free_total ctx ?fs - unat blocks"
    using k old free_total_cong [of xs ctx' ctx] free_total_cong [of ys ctx' ctx] by (simp add: free_total_append)
  then have "free_blocks (stats ctx') = of_nat (free_total ctx' (xs @ m # ys))"
    using inv stats_sub [of "unat blocks" "free_total ctx ?fs"] k by (simp add: heap_inv_def ctx'_def free_total_append)
  moreover have "nxt ctx' b \<notin> set (xs @ m # ys)" if "b \<in> set (xs @ m # ys)" for b
  proof (cases "b = m")
    case True
    have "nxt ctx (unat c) \<notin> set ?fs" using inv by (auto simp: heap_inv_def)
    moreover have "nxt ctx (unat c) \<noteq> m" using b by (simp add: m_def)
    ultimately show ?thesis using True mc by (auto simp: nx)
  next
    case False
    then have bs: "b \<in> set xs \<union> set ys" using that by auto
    then have "nxt ctx b \<in> B" using bchain_next [OF heap_okD(1) [OF ok]] heap_okD(5,7) [OF ok, of b] by auto
    moreover have "nxt ctx b \<notin> set ?fs" using inv bs by (auto simp: heap_inv_def)
    ultimately show ?thesis using old [OF bs] mB by auto
  qed
  moreover have "frame ctx ctx' (B \<union> insert m B) (insert 0 (set ?fs \<union> set (xs @ m # ys)))"
    by (rule frame_mono [OF fr]) auto
  ultimately show ?thesis using inv ok' placed_frame [OF fr] by (simp add: heap_inv_def moves_def)
qed

text \<open>The data of a block in use.\<close>

definition data_kept :: "umm_heap_context \<Rightarrow> umm_heap_context \<Rightarrow> nat \<Rightarrow> nat \<Rightarrow> bool" where
  "data_kept ctx ctx' b e \<longleftrightarrow> UMM_NFREE ctx' b = UMM_NFREE ctx b \<and> UMM_PFREE ctx' b = UMM_PFREE ctx b \<and>
     (\<forall>j. b < j \<and> j < e \<longrightarrow> blks ctx' j = blks ctx j)"

lemma moves_data:
  assumes mv: "moves ctx B fs ctx' B' fs'" and ok: "heap_ok ctx B fs" and b: "(b, e) \<in> live ctx"
    and "b \<notin> set fs'" and new: "\<And>j. j \<in> B' - B \<Longrightarrow> j \<le> b \<or> e \<le> j"
  shows "data_kept ctx ctx' b e"
proof -
  have b': "b \<in> B" "b \<notin> set fs" "b \<noteq> 0" "b \<noteq> UMM_BLOCK_LAST ctx" "e = nxt ctx b"
    using b unfolding live_eq [OF ok] by auto
  have fr: "frame ctx ctx' (B \<union> B') (insert 0 (set fs \<union> set fs'))" and ok': "heap_ok ctx' B' fs'"
    using mv by (auto simp: moves_def heap_inv_def)
  have "blks ctx' j = blks ctx j" if j: "b < j" "j < e" for j
  proof (rule frame_block [OF fr])
    have "j \<notin> B" using bchain_gap [OF heap_okD(1) [OF ok] b'(1,4), of j] j b'(5) by auto
    moreover have "j \<notin> B'" using new [of j] calculation j by auto
    ultimately show "j \<notin> B \<union> B'" "j \<notin> insert 0 (set fs \<union> set fs')"
      using heap_okD(5) [OF ok] heap_okD(5) [OF ok'] j by auto
  qed
  then show ?thesis using fr assms(4) b' by (simp add: data_kept_def frame_def)
qed

lemma placed_addr:
  assumes "placed ctx" and "c < unat (numblocks ctx)"
  shows "unat (UMM_DATA ctx c) = unat (heap ctx) + c * 8 + 4"
    and "UMM_DATA ctx c \<noteq> 0" and "heap ctx \<le> UMM_DATA ctx c" and "UMM_DATA ctx c < heap_end ctx"
    and "block_of_ptr ctx (UMM_DATA ctx c) = of_nat c" and "test_ptr_context ctx (UMM_DATA ctx c)"
proof -
  have le: "unat (heap ctx) + c * 8 + 8 \<le> unat (heap_end ctx)"
    using assms by (simp add: placed_def umm_block_size_def)
  then have lt: "unat (heap ctx) + c * 8 + 8 < 2 ^ 32" using unat_bound [of "heap_end ctx"] by simp
  have o: "unat (of_nat (c * 8 + 4) :: u32) = c * 8 + 4" by (rule unat_of_nat_u32) (use lt in simp)
  have "unat (heap ctx + of_nat (c * 8 + 4)) = (unat (heap ctx) + (c * 8 + 4)) mod 2 ^ 32"
    using unat_word_ariths(1) [of "heap ctx" "of_nat (c * 8 + 4)"] unfolding o by simp
  then show u: "unat (UMM_DATA ctx c) = unat (heap ctx) + c * 8 + 4"
    using lt unfolding UMM_DATA_def umm_block_size_def umm_header_size_def by simp
  show "UMM_DATA ctx c \<noteq> 0" using u by (metis add_is_0 unat_0 zero_neq_numeral)
  show "heap ctx \<le> UMM_DATA ctx c" "UMM_DATA ctx c < heap_end ctx"
    using u le by (simp_all add: word_le_nat_alt word_less_nat_alt)
  then show "test_ptr_context ctx (UMM_DATA ctx c)" using assms by (simp add: test_ptr_context_def placed_def)
  have "UMM_DATA ctx c - heap ctx = of_nat (c * 8 + 4)"
    by (simp add: UMM_DATA_def umm_block_size_def umm_header_size_def)
  then have "unat (UMM_DATA ctx c - heap ctx) div 8 = c" using o by simp
  then show "block_of_ptr ctx (UMM_DATA ctx c) = of_nat c" by (simp add: block_of_ptr_def umm_block_size_def)
qed

lemma heap_ok_lt: "heap_ok ctx B fs \<Longrightarrow> b \<in> B \<Longrightarrow> b < unat (numblocks ctx)"
  using bchain_le [OF heap_okD(1)] by (fastforce simp: heap_ok_def UMM_BLOCK_LAST_def)

lemma malloc_core_inv:
  assumes inv: "heap_inv ctx B fs" and fit: "(z, e) \<in> avail ctx" "unat (umm_blocks sz) \<le> e - z"
  obtains c ctx' B' fs' where "umm_malloc_core ctx sz = Some (UMM_DATA ctx c, ctx')" and "UMM_DATA ctx c \<noteq> 0"
    and "moves ctx B fs ctx' B' fs'" and "live ctx' = insert (c, c + unat (umm_blocks sz)) (live ctx)"
    and "(c, nxt ctx c) \<in> avail ctx" and "\<forall>(z, e) \<in> avail ctx. unat (umm_blocks sz) \<le> e - z \<longrightarrow> nxt ctx c - c \<le> e - z"
    and "unat (umm_blocks sz) \<le> nxt ctx c - c" and "\<forall>(b, e) \<in> live ctx. data_kept ctx ctx' b e"
proof -
  let ?k = "umm_blocks sz"
  have ok: "heap_ok ctx B fs" and pl: "placed ctx" using inv by (simp_all add: heap_inv_def)
  from fit have zf: "z \<in> set fs" "unat ?k \<le> bsize ctx z" unfolding avail_eq [OF ok] by (auto simp: bsize_def)
  show ?thesis
  proof (rule malloc_core_cases [OF ok, of sz], goal_cases)
    case (1 c)
    note fit = this
    then obtain xs ys where fs: "fs = xs @ unat c # ys" by (auto simp: in_set_conv_decomp)
    define ctx' where "ctx' = STATS__FREE_BLOCKS_UPDATE (- int (unat ?k))
      (if bsize ctx (unat c) = unat ?k then umm_disconnect_from_free_list ctx c else umm_take_split ctx c ?k)"
    let ?m = "unat c + unat ?k"
    obtain B' fs' where mv: "moves ctx B fs ctx' B' fs'" and lv: "live ctx' = insert (unat c, ?m) (live ctx)"
      and B': "B' \<subseteq> insert ?m B" "set fs' \<inter> B \<subseteq> set fs" "?m \<in> B' \<longrightarrow> ?m \<in> B \<or> ?m < nxt ctx (unat c)"
    proof (cases "bsize ctx (unat c) = unat ?k")
      case True
      show ?thesis by (rule that [of B "xs @ ys"]) (use take_exact_inv [OF inv [unfolded fs] True] True in \<open>auto simp: ctx'_def fs\<close>)
    next
      case False
      with fit(2) have lt: "unat ?k < bsize ctx (unat c)" by simp
      then have "?m \<notin> B"
        using bchain_gap [OF heap_okD(1) [OF ok] heap_okD(5,7) [OF ok fit(1)], of ?m] umm_blocks_pos [of sz]
        by (auto simp: bsize_def)
      then show ?thesis by (rule_tac that [of "insert ?m B" "xs @ ?m # ys"])
        (use take_split_inv [OF inv [unfolded fs] umm_blocks_pos lt] False lt in \<open>auto simp: ctx'_def fs bsize_def\<close>)
    qed
    have c: "unat c \<in> B" "unat c \<noteq> UMM_BLOCK_LAST ctx" using heap_okD(5,7) [OF ok fit(1)] by auto
    have "data_kept ctx ctx' b e" if be: "(b, e) \<in> live ctx" for b e
    proof (rule moves_data [OF mv ok be])
      have b: "b \<in> B" "b \<notin> set fs" "b \<noteq> UMM_BLOCK_LAST ctx" "e = nxt ctx b" using be unfolding live_eq [OF ok] by auto
      have mb: "?m \<le> b \<or> e \<le> ?m" if "?m < nxt ctx (unat c)"
        using bchain_gap [OF heap_okD(1) [OF ok] c b(1)] bchain_gap [OF heap_okD(1) [OF ok] b(1,3) c(1)] b that
          umm_blocks_pos [of sz] fit(1) by auto
      then show "j \<le> b \<or> e \<le> j" if "j \<in> B' - B" for j using that B' by auto
      show "b \<notin> set fs'" using B'(2) b by auto
    qed
    moreover have "frame ctx ctx' (B \<union> B') (insert 0 (set fs \<union> set fs'))" using mv by (simp add: moves_def)
    then have "heap ctx' = heap ctx" by (simp add: frame_def same_place_def)
    then have "umm_malloc_core ctx sz = Some (UMM_DATA ctx (unat c), ctx')"
      using fit(4) by (simp add: ctx'_def Let_def UMM_DATA_def)
    moreover have "UMM_DATA ctx (unat c) \<noteq> 0" by (rule placed_addr [OF pl heap_ok_lt [OF ok c(1)]])
    ultimately show ?thesis
      by (rule_tac that [OF _ _ mv lv]) (use fit in \<open>auto simp: avail_eq [OF ok] bsize_def\<close>)
  next
    case 2
    then show ?thesis using zf by auto
  qed
qed

end
