(* ===== verification/Umm_Free.thy ===== *)
theory Umm_Free
  imports Umm_Malloc
begin

text \<open>
  Correctness of allocation and release on well-formed heaps: the effect of
  merging a block with its neighbours and of pushing it on the free list, and
  the contracts of \<open>umm_init_heap\<close>, \<open>umm_malloc\<close> and \<open>umm_free\<close> in terms of the
  blocks in use (\<open>live\<close>), the free blocks (\<open>avail\<close>) and the users' data.
\<close>

section \<open>Release\<close>

text \<open>No two free blocks are neighbours.\<close>

definition coalesced :: "umm_heap_context \<Rightarrow> nat list \<Rightarrow> bool" where
  "coalesced ctx fs \<longleftrightarrow> (\<forall>b\<in>set fs. nxt ctx b \<notin> set fs)"

text \<open>A block in use that the user may hold.\<close>

definition used_block :: "umm_heap_context \<Rightarrow> nat set \<Rightarrow> nat list \<Rightarrow> nat \<Rightarrow> bool" where
  "used_block ctx B fs c \<longleftrightarrow> c \<in> B \<and> c \<notin> set fs \<and> c \<noteq> 0 \<and> c \<noteq> UMM_BLOCK_LAST ctx"

lemma live_used: "heap_ok ctx B fs \<Longrightarrow> (c, e) \<in> live ctx \<longleftrightarrow> used_block ctx B fs c \<and> e = nxt ctx c"
  by (auto simp: live_eq used_block_def)

lemma free_total_change:
  assumes "distinct fs" and "c \<in> set fs" and "\<And>b. b \<in> set fs \<Longrightarrow> b \<noteq> c \<Longrightarrow> nxt ctx' b = nxt ctx b"
  shows "free_total ctx' fs + bsize ctx c = free_total ctx fs + bsize ctx' c"
proof -
  obtain xs ys where fs: "fs = xs @ c # ys" using assms(2) by (auto simp: in_set_conv_decomp)
  have "free_total ctx' xs = free_total ctx xs" "free_total ctx' ys = free_total ctx ys"
    by (rule free_total_cong, use assms fs in auto)+
  then show ?thesis by (simp add: fs free_total_append)
qed

lemma assimilate_up_step:
  assumes ok: "heap_ok ctx B fs" and co: "coalesced ctx fs" and c: "used_block ctx B fs (unat c)"
  defines "ctx' \<equiv> umm_assimilate_up ctx c"
  obtains B' fs' where "heap_ok ctx' B' fs'" and "coalesced ctx' fs'" and "used_block ctx' B' fs' (unat c)"
    and "nxt ctx' (unat c) \<notin> set fs'" and "B' \<subseteq> B" and "set fs' \<subseteq> set fs" and "B - {nxt ctx (unat c)} \<subseteq> B'"
    and "free_total ctx' fs' + bsize ctx' (unat c) = free_total ctx fs + bsize ctx (unat c)"
    and "live ctx' = insert (unat c, nxt ctx' (unat c)) (live ctx - {(unat c, nxt ctx (unat c))})"
    and "frame ctx ctx' B (insert 0 (set fs))" and "prv ctx' (unat c) = prv ctx (unat c)"
    and "bsize ctx' (unat c) = bsize ctx (unat c) +
      (if nxt ctx (unat c) \<in> set fs then bsize ctx (nxt ctx (unat c)) else 0)"
proof (cases "nxt ctx (unat c) \<in> set fs")
  case False
  have cB: "unat c \<in> B" "unat c \<notin> set fs" "unat c \<noteq> UMM_BLOCK_LAST ctx" "unat c \<noteq> 0" using c by (auto simp: used_block_def)
  then have "ctx' = ctx" unfolding ctx'_def using assimilate_up_used [OF ok cB(1-3) False] by simp
  then show ?thesis
    by (rule_tac that [of B fs]) (use ok co c False live_used [OF ok, of "unat c" "nxt ctx (unat c)"] in auto)
next
  case True
  let ?c = "unat c" and ?d = "nxt ctx (unat c)"
  note ch = heap_okD(1) [OF ok]
  have cB: "?c \<in> B" "?c \<notin> set fs" "?c \<noteq> UMM_BLOCK_LAST ctx" "?c \<noteq> 0" using c by (auto simp: used_block_def)
  obtain xs ys where fs: "fs = xs @ ?d # ys" using True by (auto simp: in_set_conv_decomp)
  have d: "?d \<in> B" "?d \<noteq> UMM_BLOCK_LAST ctx" "?d \<noteq> 0" using heap_okD(5,7,6) [OF ok True] by auto
  note nc = bchain_next [OF ch cB(1,3)] and nd = bchain_next [OF ch d(1,2)]
  have ok': "heap_ok ctx' (B - {?d}) (xs @ ys)"
    unfolding ctx'_def by (rule assimilate_up_ok) (use ok fs cB in auto)
  have nx: "nxt ctx' = (nxt ctx)(?c := nxt ctx ?d)" unfolding ctx'_def by (rule assimilate_up_nxt [OF ok cB(1,2) True])
  have fr: "frame ctx ctx' B (insert 0 (set fs))" unfolding ctx'_def by (rule assimilate_up_frame [OF ok cB(1,2,3)])
  have dfs: "nxt ctx ?d \<notin> set fs" "?d \<notin> set (xs @ ys)" using co True heap_okD(8) [OF ok] fs by (auto simp: coalesced_def)
  have used': "used_block ctx' (B - {?d}) (xs @ ys) ?c"
    using cB nc fs frame_last [OF fr] by (auto simp: used_block_def)
  have tot: "free_total ctx' (xs @ ys) = free_total ctx (xs @ ys)"
    by (rule free_total_cong) (use cB fs in \<open>auto simp: nx\<close>)
  have bs: "bsize ctx' ?c = bsize ctx ?c + bsize ctx ?d" using nc nd by (auto simp: bsize_def nx)
  have p: "prv ctx ?c \<in> B" "nxt ctx (prv ctx ?c) = ?c" "prv ctx ?c < ?c" using bchain_prev [OF ch cB(1,4)] by auto
  have "prv ctx ?c \<in> B - {?d}" "prv ctx ?c \<noteq> UMM_BLOCK_LAST ctx'"
    using p nc bchain_le [OF ch cB(1)] cB frame_last [OF fr] by auto
  from bchain_next [OF heap_okD(1) [OF ok'] this] have pv: "prv ctx' ?c = prv ctx ?c" using p by (simp add: nx)
  have lv: "live ctx' = insert (?c, nxt ctx' ?c) (live ctx - {(?c, nxt ctx ?c)})"
    unfolding live_eq [OF ok] live_eq [OF ok'] frame_last [OF fr] nx using cB fs d nc by auto
  show ?thesis
  proof (rule that [OF ok' _ used'])
    show "coalesced ctx' (xs @ ys)" using co fs cB by (auto simp: coalesced_def nx)
    show "nxt ctx' ?c \<notin> set (xs @ ys)" using dfs fs by (simp add: nx)
    show "free_total ctx' (xs @ ys) + bsize ctx' ?c = free_total ctx fs + bsize ctx ?c"
      using tot bs unfolding fs free_total_append free_total_append2 free_total_Cons by simp
  qed (use fs fr lv pv bs True in auto)
qed

lemma assimilate_down_step:
  assumes ok: "heap_ok ctx B fs" and co: "coalesced ctx fs" and c: "used_block ctx B fs (unat c)"
    and n: "nxt ctx (unat c) \<notin> set fs" and p: "prv ctx (unat c) \<in> set fs"
  defines "ctx' \<equiv> snd (umm_assimilate_down ctx c UMM_FREELIST_MASK)"
  shows "heap_ok ctx' (B - {unat c}) fs \<and> coalesced ctx' fs \<and>
    free_total ctx' fs = free_total ctx fs + bsize ctx (unat c) \<and>
    live ctx' = live ctx - {(unat c, nxt ctx (unat c))} \<and> frame ctx ctx' B (insert 0 (set fs))"
proof -
  let ?c = "unat c" and ?p = "prv ctx (unat c)"
  note ch = heap_okD(1) [OF ok]
  have cB: "?c \<in> B" "?c \<notin> set fs" "?c \<noteq> 0" "?c \<noteq> UMM_BLOCK_LAST ctx" using c by (auto simp: used_block_def)
  obtain q where res: "umm_assimilate_down ctx c UMM_FREELIST_MASK = (q, ctx')" by (metis ctx'_def prod.collapse)
  have ok': "heap_ok ctx' (B - {?c}) fs" using assimilate_down_ok [OF ok cB _ res] p by simp
  have nx: "nxt ctx' = (nxt ctx)(?p := nxt ctx ?c)" unfolding ctx'_def by (rule assimilate_down_nxt [OF ok cB]) simp
  have fr: "frame ctx ctx' B (insert 0 (set fs))" unfolding ctx'_def by (rule assimilate_down_frame [OF ok cB])
  have pp: "?p \<in> B" "?p < ?c" "nxt ctx ?p = ?c" using bchain_prev [OF ch cB(1,3)] by auto
  have nc: "?c < nxt ctx ?c" using bchain_next [OF ch cB(1,4)] by auto
  have "coalesced ctx' fs" using co n by (auto simp: coalesced_def nx)
  moreover have "free_total ctx' fs + bsize ctx ?p = free_total ctx fs + bsize ctx' ?p"
    by (rule free_total_change [OF heap_okD(8) [OF ok] p]) (simp add: nx)
  moreover have "bsize ctx' ?p = bsize ctx ?p + bsize ctx ?c" using pp nc by (simp add: bsize_def nx)
  moreover have "x \<in> live ctx' \<longleftrightarrow> x \<in> live ctx - {(?c, nxt ctx ?c)}" for x
    using p by (cases x) (auto simp: live_used [OF ok] live_used [OF ok'] used_block_def frame_last [OF fr] nx)
  then have "live ctx' = live ctx - {(?c, nxt ctx ?c)}" by blast
  ultimately show ?thesis using ok' fr by simp
qed

lemma push_free_step:
  assumes ok: "heap_ok ctx B fs" and co: "coalesced ctx fs" and c: "used_block ctx B fs (unat c)"
    and n: "nxt ctx (unat c) \<notin> set fs" and p: "prv ctx (unat c) \<notin> set fs"
  defines "ctx' \<equiv> umm_push_free ctx c"
  shows "heap_ok ctx' B (unat c # fs) \<and> coalesced ctx' (unat c # fs) \<and>
    free_total ctx' (unat c # fs) = free_total ctx fs + bsize ctx (unat c) \<and>
    live ctx' = live ctx - {(unat c, nxt ctx (unat c))} \<and> frame ctx ctx' B (insert 0 (insert (unat c) (set fs)))"
proof -
  let ?c = "unat c"
  note ch = heap_okD(1) [OF ok]
  have cB: "?c \<in> B" "?c \<notin> set fs" "?c \<noteq> 0" "?c \<noteq> UMM_BLOCK_LAST ctx" using c by (auto simp: used_block_def)
  have ok': "heap_ok ctx' B (?c # fs)" unfolding ctx'_def by (rule push_free_ok [OF ok cB])
  have nx: "nxt ctx' = nxt ctx" by (simp add: ctx'_def)
  have fr: "frame ctx ctx' B (insert 0 (insert ?c (set fs)))" unfolding ctx'_def by (rule push_free_frame [OF ok cB(1)])
  have "nxt ctx b \<noteq> ?c" if "b \<in> set fs" for b
    using bchain_next [OF ch heap_okD(5) [OF ok that] heap_okD(7) [OF ok that]] p that by auto
  moreover have "nxt ctx ?c \<noteq> ?c" using bchain_next [OF ch cB(1,4)] by auto
  ultimately have "coalesced ctx' (?c # fs)" using co n by (auto simp: coalesced_def nx)
  moreover have "free_total ctx' (?c # fs) = free_total ctx fs + bsize ctx ?c"
    by (simp add: free_total_def bsize_def nx)
  moreover have "live ctx' = live ctx - {(?c, nxt ctx ?c)}"
    unfolding live_eq [OF ok] live_eq [OF ok'] frame_last [OF fr] nx by auto
  ultimately show ?thesis using ok' fr by simp
qed

text \<open>\<open>umm_free_core\<close> on a block in use, by its block number.\<close>

lemma free_core_inv:
  assumes inv: "heap_inv ctx B fs" and c: "used_block ctx B fs c"
  obtains B' fs' where "moves ctx B fs (umm_free_core ctx (UMM_DATA ctx c)) B' fs'" and "B' \<subseteq> B"
    and "set fs' \<subseteq> insert c (set fs)"
    and "live (umm_free_core ctx (UMM_DATA ctx c)) = live ctx - {(c, nxt ctx c)}"
proof -
  have ok: "heap_ok ctx B fs" and pl: "placed ctx" and co: "coalesced ctx fs"
    and st: "free_blocks (stats ctx) = of_nat (free_total ctx fs)"
    using inv by (simp_all add: heap_inv_def coalesced_def)
  have cB: "c \<in> B" "c \<notin> set fs" using c by (auto simp: used_block_def)
  define w :: u16 where "w = of_nat c"
  have w: "unat w = c" unfolding w_def using heap_okD(9) [OF ok cB(1)] by (intro unat_of_nat_u16) simp
  have bp: "block_of_ptr ctx (UMM_DATA ctx c) = w"
    unfolding w_def by (rule placed_addr(5) [OF pl heap_ok_lt [OF ok cB(1)]])
  let ?s = "int (unat (UMM_NBLOCK ctx c)) - int c"
  have sz: "?s = int (bsize ctx c)"
    using bchain_next [OF heap_okD(1) [OF ok] cB(1)] c
    by (auto simp: used_next_unat [OF ok cB] bsize_def used_block_def)
  define ctx1 where "ctx1 = STATS__FREE_BLOCKS_UPDATE ?s ctx"
  define ctx2 where "ctx2 = umm_assimilate_up ctx1 w"
  have ok1: "heap_ok ctx1 B fs" "coalesced ctx1 fs" "used_block ctx1 B fs (unat w)"
    using ok co c by (simp_all add: ctx1_def coalesced_def used_block_def w)
  from assimilate_up_step [OF this, folded ctx2_def] obtain B2 fs2 where
    2: "heap_ok ctx2 B2 fs2" "coalesced ctx2 fs2" "used_block ctx2 B2 fs2 c" "nxt ctx2 c \<notin> set fs2"
    "B2 \<subseteq> B" "set fs2 \<subseteq> set fs" "free_total ctx2 fs2 + bsize ctx2 c = free_total ctx1 fs + bsize ctx1 c"
    "live ctx2 = insert (c, nxt ctx2 c) (live ctx1 - {(c, nxt ctx1 c)})" "frame ctx1 ctx2 B (insert 0 (set fs))"
    "B - {nxt ctx1 c} \<subseteq> B2"
    unfolding w by metis
  have fr2: "frame ctx ctx2 B (insert 0 (set fs))" using 2(9) by (simp add: ctx1_def)
  have tot: "free_total ctx2 fs2 + bsize ctx2 c = free_total ctx fs + bsize ctx c"
    using 2(7) by (simp add: ctx1_def free_total_def bsize_def)
  have lv: "live ctx2 - {(c, nxt ctx2 c)} = live ctx - {(c, nxt ctx c)}"
    using 2(8) live_used [OF ok1(1)] live_used [OF ok] by (auto simp: ctx1_def used_block_def)
  have st2: "free_blocks (stats ctx2) = of_nat (free_total ctx fs + bsize ctx c)"
    using st sz by (simp add: ctx2_def ctx1_def)
  have prev: "UMM_NBLOCK ctx2 (unat (UMM_PBLOCK ctx2 (unat w))) AND UMM_FREELIST_MASK \<noteq> 0 \<longleftrightarrow> prv ctx2 c \<in> set fs2"
    using heap_okD(4) [OF 2(1), of "prv ctx2 c"] bchain_prev [OF heap_okD(1) [OF 2(1)], of c] 2(3)
    by (simp add: freebit_def prv_def w used_block_def)
  define r where "r = umm_free_core ctx (UMM_DATA ctx c)"
  have r: "r = (if prv ctx2 c \<in> set fs2 then snd (umm_assimilate_down ctx2 w UMM_FREELIST_MASK) else umm_push_free ctx2 w)"
    unfolding r_def umm_free_core_def Let_def bp prev [symmetric] by (simp add: w ctx2_def ctx1_def)
  note step = 2(1,2) 2(3,4) [folded w]
  have pc: "prv ctx2 c < c" using bchain_prev [OF heap_okD(1) [OF 2(1)], of c] 2(3) by (auto simp: used_block_def)
  have "1 \<in> B" "c \<noteq> 0" "c < nxt ctx c" using inv c bchain_next [OF heap_okD(1) [OF ok] cB(1)] by (auto simp: heap_inv_def used_block_def)
  then have one: "1 \<in> B2" using 2(10) by (auto simp: ctx1_def)
  obtain B' fs' where 3: "heap_ok r B' fs'" "coalesced r fs'" "free_total r fs' = free_total ctx fs + bsize ctx c"
    "live r = live ctx - {(c, nxt ctx c)}" "frame ctx2 r B2 (insert 0 (set fs2 \<union> set fs'))" "B' \<subseteq> B2"
    "set fs' \<subseteq> insert c (set fs2)" "1 \<in> B'"
  proof (cases "prv ctx2 c \<in> set fs2")
    case True
    then have "c \<noteq> 1" using pc heap_okD(6) [OF 2(1) True] by simp
    with True show ?thesis
      by (rule_tac that [of "B2 - {c}" fs2])
        (use assimilate_down_step [OF step] tot lv one in \<open>auto simp: r w\<close>)
  next
    case False
    show ?thesis
      by (rule that [of B2 "c # fs2"]) (use push_free_step [OF step] False tot lv one in \<open>auto simp: r w\<close>)
  qed
  have "stats r = stats ctx2" by (simp add: r)
  then have str: "free_blocks (stats r) = of_nat (free_total r fs')" using st2 3(3) by simp
  have fr: "frame ctx r (B \<union> B') (insert 0 (set fs \<union> set fs'))"
    by (rule frame_trans [OF frame_mono [OF fr2] frame_mono [OF 3(5)]]) (use 2(5,6) in auto)
  then have "moves ctx B fs r B' fs'"
    using 3(1,2,8) str placed_frame [OF fr pl] by (simp add: moves_def heap_inv_def coalesced_def)
  then show ?thesis using that 3(4,6,7) 2(5,6) unfolding r_def by (meson insert_mono order_trans)
qed

section \<open>Contracts\<close>

lemma heap_inv_ok: "heap_inv ctx B fs \<Longrightarrow> heap_ok ctx B fs"
  by (simp add: heap_inv_def)

lemma moves_inv: "moves ctx B fs ctx' B' fs' \<Longrightarrow> umm_inv ctx'"
  by (auto simp: moves_def umm_inv_def)

text \<open>A heap of ten blocks, the concrete instance of the theorems below.\<close>

definition blank_context :: umm_heap_context where
  "blank_context = \<lparr>heap = 0, heap_end = 0, stats = \<lparr>free_blocks = 0, oom_count = 0\<rparr>,
     info = \<lparr>totalEntries = 0, usedEntries = 0, freeEntries = 0, totalBlocks = 0, usedBlocks = 0, freeBlocks = 0,
       freeBlocksSquared = 0, maxFreeContiguousBlocks = 0\<rparr>,
     numblocks = 0, heap_id = 0, blks = (\<lambda>_. zero_block)\<rparr>"

definition heap10 :: umm_heap_context where
  "heap10 = umm_init_heap 0 0x1000 80 True blank_context"

lemma heap10_inv: "umm_inv heap10" "live heap10 = {}" "avail heap10 = {(1, 9)}"
  using init_heap_inv [of "0x1000" blank_context 80 0]
  by (simp_all add: heap10_def [symmetric] Let_def) (simp_all add: blank_context_def)

text \<open>
  a heap set up by \<open>umm_init_heap\<close> over at least three and at most \<open>0x8000\<close>
  blocks satisfies the allocator's invariant, has no block in use, and reports
  all but the two bookkeeping blocks as free.
\<close>

lemma umm_init_heap_inv:
  assumes "start \<noteq> 0" and "heap ctx = 0" and "24 \<le> unat sz" "unat sz < 0x40008"
    and "unat start + unat sz < 2 ^ 32"
  shows "umm_inv (umm_init_heap i start sz True ctx) \<and> live (umm_init_heap i start sz True ctx) = {} \<and>
    unat (free_blocks (stats (umm_init_heap i start sz True ctx))) = unat sz div 8 - 2"
  using init_heap_inv [OF assms] by (simp add: Let_def)

lemma umm_init_heap_inv_witness:
  "umm_inv (umm_init_heap 0 0x1000 80 True blank_context) \<and>
   unat (free_blocks (stats (umm_init_heap 0 0x1000 80 True blank_context))) = 8"
  using umm_init_heap_inv [of "0x1000" blank_context 80 0] by (simp add: blank_context_def)

text \<open>
  C6: when some free block is large enough, \<open>umm_malloc\<close> returns the data
  address of a block of exactly the computed size that was not in use before,
  keeps the invariant, and leaves every block in use where it was with its
  data untouched.
\<close>

theorem umm_malloc_allocates:
  assumes inv: "umm_inv ctx" and "sz \<noteq> 0" and fit: "(z, e) \<in> avail ctx" "unat (umm_blocks sz) \<le> e - z"
  shows "\<exists>c ctx'. umm_malloc ctx sz = Some (UMM_DATA ctx c, ctx') \<and> UMM_DATA ctx c \<noteq> 0 \<and> umm_inv ctx' \<and>
    live ctx' = insert (c, c + unat (umm_blocks sz)) (live ctx) \<and> c \<notin> fst ` live ctx \<and>
    (\<forall>(b, e) \<in> live ctx. data_kept ctx ctx' b e)"
proof -
  obtain B fs where inv': "heap_inv ctx B fs" using inv by (auto simp: umm_inv_def)
  note ok = heap_inv_ok [OF inv']
  obtain c ctx' B' fs' where r: "umm_malloc_core ctx sz = Some (UMM_DATA ctx c, ctx')" "UMM_DATA ctx c \<noteq> 0"
    "moves ctx B fs ctx' B' fs'" "live ctx' = insert (c, c + unat (umm_blocks sz)) (live ctx)"
    "(c, nxt ctx c) \<in> avail ctx" "\<forall>(b, e) \<in> live ctx. data_kept ctx ctx' b e"
    by (rule malloc_core_inv [OF inv' fit])
  have "c \<notin> fst ` live ctx" using r(5) by (auto simp: live_def avail_def)
  then show ?thesis using r assms(2) moves_inv [OF r(3)] by (auto simp: umm_malloc_def)
qed

theorem umm_malloc_allocates_witness:
  "\<exists>c ctx'. umm_malloc heap10 13 = Some (UMM_DATA heap10 c, ctx') \<and> umm_inv ctx' \<and> live ctx' = {(c, c + 3)}"
proof -
  have k: "unat (umm_blocks 13) = 3" by (simp add: umm_blocks_def umm_body_size_def umm_block_size_def)
  have "\<exists>c ctx'. umm_malloc heap10 13 = Some (UMM_DATA heap10 c, ctx') \<and> UMM_DATA heap10 c \<noteq> 0 \<and> umm_inv ctx' \<and>
    live ctx' = insert (c, c + unat (umm_blocks 13)) (live heap10) \<and> c \<notin> fst ` live heap10 \<and>
    (\<forall>(b, e) \<in> live heap10. data_kept heap10 ctx' b e)"
    by (rule umm_malloc_allocates [of heap10 13 1 9]) (simp_all add: heap10_inv k)
  then show ?thesis by (auto simp: heap10_inv k)
qed

text \<open>
  C7: \<open>umm_malloc\<close> is best fit: the block it takes is a free block that is large
  enough and no larger than any other free block that is large enough.
\<close>

theorem umm_malloc_best_fit:
  assumes inv: "umm_inv ctx" and "sz \<noteq> 0" and fit: "(z, e) \<in> avail ctx" "unat (umm_blocks sz) \<le> e - z"
  shows "\<exists>c n ctx'. umm_malloc ctx sz = Some (UMM_DATA ctx c, ctx') \<and> (c, n) \<in> avail ctx \<and>
    unat (umm_blocks sz) \<le> n - c \<and> n - c \<le> e - z"
proof -
  obtain B fs where inv': "heap_inv ctx B fs" using inv by (auto simp: umm_inv_def)
  obtain c ctx' B' fs' where r: "umm_malloc_core ctx sz = Some (UMM_DATA ctx c, ctx')"
    "(c, nxt ctx c) \<in> avail ctx" "unat (umm_blocks sz) \<le> nxt ctx c - c"
    "\<forall>(z, e) \<in> avail ctx. unat (umm_blocks sz) \<le> e - z \<longrightarrow> nxt ctx c - c \<le> e - z"
    by (rule malloc_core_inv [OF inv' fit])
  then show ?thesis using assms(2) fit by (fastforce simp: umm_malloc_def)
qed

theorem umm_malloc_best_fit_witness:
  "\<exists>c n ctx'. umm_malloc heap10 13 = Some (UMM_DATA heap10 c, ctx') \<and> (c, n) \<in> avail heap10 \<and>
    unat (umm_blocks 13) \<le> n - c \<and> n - c \<le> 8"
  using umm_malloc_best_fit [of heap10 13 1 9]
  by (simp add: heap10_inv umm_blocks_def umm_body_size_def umm_block_size_def)

lemma malloc_core_oom:
  assumes ok: "heap_ok ctx B fs" and full: "\<forall>z e. (z, e) \<in> avail ctx \<longrightarrow> e - z < unat (umm_blocks sz)"
  shows "umm_malloc_core ctx sz = Some (0, STATS__OOM_UPDATE ctx)"
proof (rule malloc_core_cases [OF ok, of sz], goal_cases)
  case (1 c)
  then show ?case using full by (force simp: avail_eq [OF ok] bsize_def)
qed

text \<open>
  \<open>umm_malloc\<close> returns \<open>NULL\<close> for a request exactly when no free block is large
  enough; then only the out-of-memory counter changes.
\<close>

lemma umm_malloc_null:
  assumes inv: "umm_inv ctx" and "sz \<noteq> 0"
  shows "((\<exists>ctx'. umm_malloc ctx sz = Some (0, ctx')) \<longleftrightarrow> (\<forall>z e. (z, e) \<in> avail ctx \<longrightarrow> e - z < unat (umm_blocks sz))) \<and>
    ((\<exists>ctx'. umm_malloc ctx sz = Some (0, ctx')) \<longleftrightarrow> umm_malloc ctx sz = Some (0, STATS__OOM_UPDATE ctx))"
proof -
  obtain B fs where inv': "heap_inv ctx B fs" using inv by (auto simp: umm_inv_def)
  note ok = heap_inv_ok [OF inv']
  have "umm_malloc ctx sz = umm_malloc_core ctx sz" using assms(2) by (simp add: umm_malloc_def)
  moreover have "\<exists>p ctx'. umm_malloc_core ctx sz = Some (p, ctx') \<and> p \<noteq> 0" if "(z, e) \<in> avail ctx" "unat (umm_blocks sz) \<le> e - z" for z e
    using malloc_core_inv [OF inv' that] by metis
  moreover have "umm_malloc_core ctx sz = Some (0, STATS__OOM_UPDATE ctx)"
    if "\<forall>z e. (z, e) \<in> avail ctx \<longrightarrow> e - z < unat (umm_blocks sz)"
    by (rule malloc_core_oom [OF ok that])
  ultimately show ?thesis by (metis Pair_inject not_less option.inject)
qed

lemma umm_malloc_null_witness: "umm_malloc heap10 61 = Some (0, STATS__OOM_UPDATE heap10)"
  using umm_malloc_null [of heap10 61]
  by (simp add: heap10_inv umm_blocks_def umm_body_size_def umm_block_size_def) blast

lemma free_spec:
  assumes inv: "umm_inv ctx" and c: "(c, e) \<in> live ctx"
  shows "\<exists>ctx'. umm_free ctx (UMM_DATA ctx c) = Inr ctx' \<and> umm_inv ctx' \<and> live ctx' = live ctx - {(c, e)} \<and>
    (\<forall>(b, e) \<in> live ctx'. data_kept ctx ctx' b e)"
proof -
  obtain B fs where inv': "heap_inv ctx B fs" using inv by (auto simp: umm_inv_def)
  note ok = heap_inv_ok [OF inv']
  have u: "used_block ctx B fs c" "e = nxt ctx c" using c live_used [OF ok] by auto
  obtain B' fs' where r: "moves ctx B fs (umm_free_core ctx (UMM_DATA ctx c)) B' fs'" "B' \<subseteq> B"
    "set fs' \<subseteq> insert c (set fs)" "live (umm_free_core ctx (UMM_DATA ctx c)) = live ctx - {(c, nxt ctx c)}"
    by (rule free_core_inv [OF inv' u(1)])
  have pl: "placed ctx" "c < unat (numblocks ctx)" using inv' u heap_ok_lt [OF ok] by (auto simp: heap_inv_def used_block_def)
  have "umm_free ctx (UMM_DATA ctx c) = Inr (umm_free_core ctx (UMM_DATA ctx c))"
    using placed_addr(2,6) [OF pl] by (simp add: umm_free_def umm_get_ptr_context_def)
  moreover have "data_kept ctx (umm_free_core ctx (UMM_DATA ctx c)) b e'"
    if be: "(b, e') \<in> live (umm_free_core ctx (UMM_DATA ctx c))" for b e'
  proof (rule moves_data [OF r(1) ok])
    show "(b, e') \<in> live ctx" using be r(4) by blast
    then show "b \<notin> set fs'" using be r(3,4) live_used [OF ok] by (auto simp: used_block_def)
  qed (use r(2) in auto)
  ultimately show ?thesis using r(4) u(2) moves_inv [OF r(1)] by blast
qed

text \<open>
  C8: releasing the data pointer of any block in use succeeds, keeps the
  invariant (neighbouring free blocks are merged), removes exactly that block
  from the blocks in use, and leaves the data of all others untouched.
\<close>

theorem umm_free_releases:
  assumes inv: "umm_inv ctx" and c: "(c, e) \<in> live ctx"
  shows "\<exists>ctx'. umm_free ctx (UMM_DATA ctx c) = Inr ctx' \<and> umm_inv ctx' \<and> live ctx' = live ctx - {(c, e)} \<and>
    (\<forall>(b, e) \<in> live ctx'. data_kept ctx ctx' b e)"
  by (rule free_spec [OF assms])

theorem umm_free_releases_witness:
  "\<exists>c ctx ctx'. umm_malloc heap10 13 = Some (UMM_DATA heap10 c, ctx) \<and> umm_free ctx (UMM_DATA ctx c) = Inr ctx' \<and>
    umm_inv ctx' \<and> live ctx' = {}"
proof -
  obtain B fs where inv: "heap_inv heap10 B fs" using heap10_inv(1) by (auto simp: umm_inv_def)
  have "(1, 9) \<in> avail heap10" "unat (umm_blocks 13) \<le> 9 - 1"
    by (simp_all add: heap10_inv umm_blocks_def umm_body_size_def umm_block_size_def)
  from malloc_core_inv [OF inv this] obtain c ctx B' fs' where
    m: "umm_malloc_core heap10 13 = Some (UMM_DATA heap10 c, ctx)" "moves heap10 B fs ctx B' fs'"
    "live ctx = insert (c, c + unat (umm_blocks 13)) (live heap10)" by metis
  then obtain ctx' where "umm_free ctx (UMM_DATA ctx c) = Inr ctx'" "umm_inv ctx'" "live ctx' = {}"
    using umm_free_releases [OF moves_inv [OF m(2)], of c "c + unat (umm_blocks 13)"] by (auto simp: heap10_inv)
  then show ?thesis using m(1) by (auto simp: umm_malloc_def)
qed

text \<open>
  \<open>umm_free\<close> ignores a null pointer and aborts, without touching the heap,
  on an address outside the heap.
\<close>

lemma umm_free_edge_cases:
  "umm_free ctx 0 = Inr ctx \<and>
   (ptr \<noteq> 0 \<and> (heap ctx = 0 \<or> ptr < heap ctx \<or> heap_end ctx \<le> ptr) \<longrightarrow> umm_free ctx ptr = Inl (NotHeapAddress ptr))"
  by (auto simp: umm_free_def umm_get_ptr_context_def test_ptr_context_def)

lemma umm_free_edge_cases_witness: "umm_free heap10 0x800 = Inl (NotHeapAddress 0x800)"
proof -
  have "heap heap10 = 0x1000" by (simp add: heap10_def umm_init_heap_def umm_init_blocks_def blank_context_def Let_def)
  then show ?thesis using umm_free_edge_cases [of heap10 "0x800"] by simp
qed

section \<open>Blocks in use never overlap, and no block is lost\<close>

lemma live_bounds:
  assumes inv: "umm_inv ctx" and "(a, b) \<in> live ctx" and "(c, d) \<in> live ctx"
  shows "0 < a \<and> a < b \<and> b \<le> UMM_BLOCK_LAST ctx \<and> (a = c \<and> b = d \<or> b \<le> c \<or> d \<le> a)"
proof -
  obtain B fs where "heap_inv ctx B fs" using inv by (auto simp: umm_inv_def)
  then have ok: "heap_ok ctx B fs" by (rule heap_inv_ok)
  note ch = heap_okD(1) [OF ok]
  have a: "a \<in> B" "a \<noteq> 0" "a \<noteq> UMM_BLOCK_LAST ctx" "b = nxt ctx a" and c: "c \<in> B" "c \<noteq> UMM_BLOCK_LAST ctx" "d = nxt ctx c"
    using assms(2,3) live_used [OF ok] by (auto simp: used_block_def)
  show ?thesis using bchain_next [OF ch a(1,3)] bchain_gap [OF ch a(1,3) c(1)] bchain_gap [OF ch c(1,2) a(1)] a c by auto
qed

text \<open>
  two different blocks in use never share a block of the heap, and every
  one of them lies strictly between the bookkeeping blocks.
\<close>

lemma live_disjoint:
  assumes inv: "umm_inv ctx" and "(a, b) \<in> live ctx" and "(c, d) \<in> live ctx"
  shows "0 < a \<and> a < b \<and> b \<le> UMM_BLOCK_LAST ctx \<and> (a = c \<and> b = d \<or> b \<le> c \<or> d \<le> a)"
  by (rule live_bounds [OF assms])

lemma free_total_sum: "distinct fs \<Longrightarrow> free_total ctx fs = (\<Sum>b\<in>set fs. bsize ctx b)"
  by (simp add: free_total_def bsize_def sum_list_distinct_conv_sum_set)

lemma live_image: "heap_ok ctx B fs \<Longrightarrow> (\<Sum>(b, e)\<in>live ctx. e - b) = (\<Sum>b\<in>{b. used_block ctx B fs b}. bsize ctx b)"
proof -
  assume ok: "heap_ok ctx B fs"
  have "live ctx = (\<lambda>b. (b, nxt ctx b)) ` {b. used_block ctx B fs b}" using live_used [OF ok] by auto
  then show ?thesis by (simp add: sum.reindex inj_on_def bsize_def)
qed

lemma conservation:
  assumes inv: "heap_inv ctx B fs"
  shows "free_total ctx fs + (\<Sum>(b, e)\<in>live ctx. e - b) = unat (numblocks ctx) - 2"
proof -
  note ok = heap_inv_ok [OF inv]
  note ch = heap_okD(1) [OF ok] and l = heap_okD(11,12) [OF ok]
  let ?l = "UMM_BLOCK_LAST ctx" and ?U = "{b. used_block ctx B fs b}"
  have fin: "finite B" by (rule bchain_finite [OF ch])
  have B: "B - {?l} = insert 0 (set fs \<union> ?U)" "0 \<notin> set fs \<union> ?U" "set fs \<inter> ?U = {}"
    using heap_okD(5,6,7,10) [OF ok] l by (auto simp: used_block_def)
  have "1 \<in> B" using inv by (simp add: heap_inv_def)
  then have n0: "bsize ctx 0 = 1"
    using bchain_next [OF ch heap_okD(10) [OF ok]] bchain_gap [OF ch heap_okD(10) [OF ok], of 1] l by (auto simp: bsize_def)
  have "finite ?U" using fin by (rule rev_finite_subset) (auto simp: used_block_def)
  then have "(\<Sum>b\<in>B - {?l}. bsize ctx b) = 1 + ((\<Sum>b\<in>set fs. bsize ctx b) + (\<Sum>b\<in>?U. bsize ctx b))"
    unfolding B(1) using B(2,3) n0 by (simp add: sum.union_disjoint)
  then show ?thesis
    using bchain_sum [OF ch] free_total_sum [OF heap_okD(8) [OF ok], of ctx] live_image [OF ok]
    by (simp add: bsize_def [symmetric] UMM_BLOCK_LAST_def)
qed

text \<open>
  nothing is lost: the counter \<open>free_blocks\<close> that \<open>umm_free_heap_size_lw\<close>
  reports plus the sizes of the blocks in use is always the size of the heap
  less its two bookkeeping blocks.
\<close>

lemma umm_no_leak:
  assumes "umm_inv ctx"
  shows "unat (free_blocks (stats ctx)) + (\<Sum>(b, e)\<in>live ctx. e - b) = unat (numblocks ctx) - 2"
proof -
  obtain B fs where inv: "heap_inv ctx B fs" using assms by (auto simp: umm_inv_def)
  have "free_total ctx fs < 2 ^ 32" using conservation [OF inv] unat_bound [of "numblocks ctx"] by simp
  then have "unat (free_blocks (stats ctx)) = free_total ctx fs" using inv by (simp add: heap_inv_def unat_of_nat_u32)
  then show ?thesis using conservation [OF inv] by simp
qed

lemma umm_no_leak_witness: "unat (free_blocks (stats heap10)) = unat (numblocks heap10) - 2"
  using umm_no_leak [OF heap10_inv(1)] by (simp add: heap10_inv(2))

lemma live_disjoint_witness:
  "\<exists>c ctx. umm_malloc heap10 13 = Some (UMM_DATA heap10 c, ctx) \<and> 0 < c \<and> c + 3 \<le> UMM_BLOCK_LAST ctx"
proof -
  obtain B fs where inv: "heap_inv heap10 B fs" using heap10_inv(1) by (auto simp: umm_inv_def)
  have k: "unat (umm_blocks 13) = 3" by (simp add: umm_blocks_def umm_body_size_def umm_block_size_def)
  have "(1, 9) \<in> avail heap10" "unat (umm_blocks 13) \<le> 9 - 1" by (simp_all add: heap10_inv k)
  from malloc_core_inv [OF inv this] obtain c ctx B' fs' where
    m: "umm_malloc_core heap10 13 = Some (UMM_DATA heap10 c, ctx)" "moves heap10 B fs ctx B' fs'"
    "live ctx = insert (c, c + unat (umm_blocks 13)) (live heap10)" by metis
  then show ?thesis
    using live_disjoint [OF moves_inv [OF m(2)], of c "c + 3" c "c + 3"] by (auto simp: umm_malloc_def k)
qed

end
