(* ===== verification/Umm_Bytes.thy ===== *)
theory Umm_Bytes
  imports Umm_Free
begin

text \<open>
  The heap as bytes, for the library calls \<open>memmove\<close>, \<open>memcpy\<close> and \<open>memset\<close> that
  \<open>umm_realloc\<close> and \<open>umm_calloc\<close> make on users' data.  Offsets count bytes from the
  start of the heap; the 16-bit fields of a block are little-endian.
\<close>

section \<open>Definitions\<close>

definition lo8 :: "u16 \<Rightarrow> u8" where "lo8 w = ucast w"
definition hi8 :: "u16 \<Rightarrow> u8" where "hi8 w = ucast (drop_bit 8 w)"
definition word16 :: "u8 \<Rightarrow> u8 \<Rightarrow> u16" where "word16 l h = ucast l OR push_bit 8 (ucast h)"

definition block_byte :: "umm_block \<Rightarrow> nat \<Rightarrow> u8" where
  "block_byte b i =
     (if i = 0 then lo8 (used_next b) else if i = 1 then hi8 (used_next b)
      else if i = 2 then lo8 (used_prev b) else if i = 3 then hi8 (used_prev b)
      else if i = 4 then lo8 (free_next b) else if i = 5 then hi8 (free_next b)
      else if i = 6 then lo8 (free_prev b) else hi8 (free_prev b))"

definition block_of_bytes :: "(nat \<Rightarrow> u8) \<Rightarrow> umm_block" where
  "block_of_bytes f =
     \<lparr>used_next = word16 (f 0) (f 1), used_prev = word16 (f 2) (f 3),
      free_next = word16 (f 4) (f 5), free_prev = word16 (f 6) (f 7)\<rparr>"

definition heap_byte :: "umm_heap_context \<Rightarrow> nat \<Rightarrow> u8" where
  "heap_byte ctx a = block_byte (blks ctx (a div 8)) (a mod 8)"

definition mem_write :: "nat \<Rightarrow> nat \<Rightarrow> (nat \<Rightarrow> u8) \<Rightarrow> umm_heap_context \<Rightarrow> umm_heap_context" where
  "mem_write d n f ctx = ctx\<lparr>blks := (\<lambda>j. if d < 8 * j + 8 \<and> 8 * j < d + n
     then block_of_bytes (\<lambda>i. if d \<le> 8 * j + i \<and> 8 * j + i < d + n then f (8 * j + i - d) else block_byte (blks ctx j) i)
     else blks ctx j)\<rparr>"

definition umm_memmove :: "u32 \<Rightarrow> u32 \<Rightarrow> nat \<Rightarrow> umm_heap_context \<Rightarrow> umm_heap_context" where
  "umm_memmove dst src n ctx =
     mem_write (unat (dst - heap ctx)) n (\<lambda>i. heap_byte ctx (unat (src - heap ctx) + i)) ctx"

definition umm_memset :: "u32 \<Rightarrow> u8 \<Rightarrow> nat \<Rightarrow> umm_heap_context \<Rightarrow> umm_heap_context" where
  "umm_memset dst v n ctx = mem_write (unat (dst - heap ctx)) n (\<lambda>_. v) ctx"

section \<open>Bytes and fields\<close>

lemma lo8_word16 [simp]: "lo8 (word16 l h) = l" "hi8 (word16 l h) = h"
  by (rule bit_word_eqI, auto simp: lo8_def hi8_def word16_def bit_simps dest: bit_imp_le_length)+

lemma word16_bytes [simp]: "word16 (lo8 w) (hi8 w) = w"
proof (rule bit_word_eqI)
  fix n assume "n < LENGTH(16)"
  then show "bit (word16 (lo8 w) (hi8 w)) n = bit w n"
    by (cases "n < 8") (auto simp: lo8_def hi8_def word16_def bit_simps)
qed

lemma block_byte_of_bytes [simp]: "i < 8 \<Longrightarrow> block_byte (block_of_bytes f) i = f i"
proof -
  assume "i < 8"
  then have "i \<in> {0, 1, 2, 3, 4, 5, 6, 7}" by auto
  then show ?thesis by (auto simp: block_byte_def block_of_bytes_def)
qed

lemma block_of_bytes_byte [simp]: "block_of_bytes (block_byte b) = b"
  by (simp add: block_of_bytes_def block_byte_def)

lemma block_eqI: "(\<And>i. i < 8 \<Longrightarrow> block_byte b i = block_byte c i) \<Longrightarrow> b = c"
proof -
  assume a: "\<And>i. i < 8 \<Longrightarrow> block_byte b i = block_byte c i"
  have "block_of_bytes (block_byte b) = block_of_bytes (block_byte c)"
    unfolding block_of_bytes_def using a by simp
  then show ?thesis by simp
qed

lemma header_eqI:
  "(\<And>i. i < 4 \<Longrightarrow> block_byte b i = block_byte c i) \<Longrightarrow> used_next b = used_next c \<and> used_prev b = used_prev c"
proof -
  assume a: "\<And>i. i < 4 \<Longrightarrow> block_byte b i = block_byte c i"
  have "lo8 (used_next b) = lo8 (used_next c)" "hi8 (used_next b) = hi8 (used_next c)"
    "lo8 (used_prev b) = lo8 (used_prev c)" "hi8 (used_prev b) = hi8 (used_prev c)"
    using a [of 0] a [of 1] a [of 2] a [of 3] by (simp_all add: block_byte_def)
  then show ?thesis by (metis word16_bytes)
qed

lemma body_bytes: "4 \<le> i \<Longrightarrow> free_next b = free_next c \<Longrightarrow> free_prev b = free_prev c \<Longrightarrow> block_byte b i = block_byte c i"
  by (simp add: block_byte_def)

lemma heap_byte_write:
  "heap_byte (mem_write d n f ctx) a = (if d \<le> a \<and> a < d + n then f (a - d) else heap_byte ctx a)"
proof -
  let ?j = "a div 8"
  have a: "8 * ?j + a mod 8 = a" "a mod 8 < 8" by simp_all
  show ?thesis
  proof (cases "d < 8 * ?j + 8 \<and> 8 * ?j < d + n")
    case True
    then show ?thesis using a by (simp add: heap_byte_def mem_write_def)
  next
    case False
    have "\<not> (d \<le> a \<and> a < d + n)"
    proof
      assume "d \<le> a \<and> a < d + n"
      then have "d < 8 * ?j + 8 \<and> 8 * ?j < d + n" using a by linarith
      with False show False by blast
    qed
    then show ?thesis using False by (auto simp: heap_byte_def mem_write_def)
  qed
qed

lemma mem_write_same [simp]:
  "heap (mem_write d n f ctx) = heap ctx" "heap_end (mem_write d n f ctx) = heap_end ctx"
  "numblocks (mem_write d n f ctx) = numblocks ctx" "stats (mem_write d n f ctx) = stats ctx"
  "UMM_BLOCK_LAST (mem_write d n f ctx) = UMM_BLOCK_LAST ctx" "UMM_DATA (mem_write d n f ctx) = UMM_DATA ctx"
  by (simp_all add: mem_write_def UMM_BLOCK_LAST_def UMM_DATA_def [abs_def])

text \<open>A write inside the data of a block leaves every other field alone.\<close>

lemma mem_write_fields:
  assumes d: "d = 8 * c + 4" and n: "n \<le> 8 * (e - c) - 4" and "c < e"
  shows "j \<le> c \<or> e \<le> j \<Longrightarrow> UMM_NBLOCK (mem_write d n f ctx) j = UMM_NBLOCK ctx j"
    and "j \<le> c \<or> e \<le> j \<Longrightarrow> UMM_PBLOCK (mem_write d n f ctx) j = UMM_PBLOCK ctx j"
    and "j < c \<or> e \<le> j \<Longrightarrow> blks (mem_write d n f ctx) j = blks ctx j"
proof -
  have ec: "8 * c + 4 + (8 * (e - c) - 4) = 8 * e" using \<open>c < e\<close> by (simp add: diff_mult_distrib2)
  have out: "blks (mem_write d n f ctx) j = blks ctx j" if "j < c \<or> e \<le> j" for j
    using that d n ec by (auto simp: mem_write_def)
  then show "j < c \<or> e \<le> j \<Longrightarrow> blks (mem_write d n f ctx) j = blks ctx j" .
  have hdr: "used_next (blks (mem_write d n f ctx) c) = used_next (blks ctx c) \<and>
      used_prev (blks (mem_write d n f ctx) c) = used_prev (blks ctx c)"
    by (rule header_eqI) (simp add: mem_write_def d)
  have "UMM_NBLOCK (mem_write d n f ctx) j = UMM_NBLOCK ctx j \<and> UMM_PBLOCK (mem_write d n f ctx) j = UMM_PBLOCK ctx j"
    if "j \<le> c \<or> e \<le> j" for j
  proof (cases "j = c")
    case True
    then show ?thesis using hdr by (simp only: UMM_NBLOCK_def UMM_PBLOCK_def simp_thms)
  next
    case False
    then have "j < c \<or> e \<le> j" using that by auto
    from out [OF this] show ?thesis by (simp add: UMM_NBLOCK_def UMM_PBLOCK_def)
  qed
  then show "j \<le> c \<or> e \<le> j \<Longrightarrow> UMM_NBLOCK (mem_write d n f ctx) j = UMM_NBLOCK ctx j"
    "j \<le> c \<or> e \<le> j \<Longrightarrow> UMM_PBLOCK (mem_write d n f ctx) j = UMM_PBLOCK ctx j" by blast+
qed

lemma data_kept_bytes:
  assumes "data_kept ctx ctx' b e" and "i < 8 * (e - b) - 4"
  shows "heap_byte ctx' (8 * b + 4 + i) = heap_byte ctx (8 * b + 4 + i)"
proof -
  let ?a = "8 * b + 4 + i"
  have a: "8 * (?a div 8) + ?a mod 8 = ?a" "?a mod 8 < 8" by simp_all
  show ?thesis
  proof (cases "?a div 8 = b")
    case True
    then have "4 \<le> ?a mod 8" using a by linarith
    then show ?thesis using assms(1) True
      by (auto simp: heap_byte_def data_kept_def UMM_NFREE_def UMM_PFREE_def intro: body_bytes)
  next
    case False
    have "b < ?a div 8" "?a div 8 < e" using False assms(2) by (auto simp: less_mult_imp_div_less)
    then show ?thesis using assms(1) by (simp add: heap_byte_def data_kept_def)
  qed
qed

section \<open>Writing a user's data keeps the heap\<close>

lemma bchain_cong:
  assumes "bchain nx pv l B" and "\<And>b. b \<in> B \<Longrightarrow> nx' b = nx b" and "\<And>b. b \<in> B \<Longrightarrow> pv' b = pv b"
  shows "bchain nx' pv' l B"
  using assms unfolding bchain_def by auto

lemma ring_cong:
  assumes "ring n p fs" and "\<And>b. b \<in> insert 0 (set fs) \<Longrightarrow> n' b = n b" and "\<And>b. b \<in> insert 0 (set fs) \<Longrightarrow> p' b = p b"
  shows "ring n' p' fs"
  using assms dchain_cong [of n p "0 # fs @ [0]" n' p'] unfolding ring_def by (auto simp: butlast_append)

lemma heap_ok_cong:
  assumes ok: "heap_ok ctx B fs"
    and "\<And>b. b \<in> B \<Longrightarrow> UMM_NBLOCK ctx' b = UMM_NBLOCK ctx b" and "\<And>b. b \<in> B \<Longrightarrow> UMM_PBLOCK ctx' b = UMM_PBLOCK ctx b"
    and "\<And>b. b \<in> insert 0 (set fs) \<Longrightarrow> UMM_NFREE ctx' b = UMM_NFREE ctx b"
    and "\<And>b. b \<in> insert 0 (set fs) \<Longrightarrow> UMM_PFREE ctx' b = UMM_PFREE ctx b"
    and nb: "numblocks ctx' = numblocks ctx"
  shows "heap_ok ctx' B fs"
proof (rule heap_okI [OF ok nb])
  show "bchain (nxt ctx') (prv ctx') (UMM_BLOCK_LAST ctx) B"
    by (rule bchain_cong [OF heap_okD(1) [OF ok]]) (simp_all add: nxt_def prv_def assms)
  show "ring (nfr ctx') (pfr ctx') fs"
    by (rule ring_cong [OF heap_okD(2) [OF ok]]) (use assms(4,5) in \<open>simp_all add: nfr_def pfr_def\<close>)
  show "nxt ctx' (UMM_BLOCK_LAST ctx) = 0" using heap_okD(3,11) [OF ok] by (simp add: nxt_def assms(2))
qed (use heap_okD(4,5,7) [OF ok] assms(2) in auto)

lemma mem_write_inv:
  fixes f :: "nat \<Rightarrow> u8"
  assumes inv: "heap_inv ctx B fs" and c: "used_block ctx B fs c" and n: "n \<le> 8 * bsize ctx c - 4"
  defines "ctx' \<equiv> mem_write (8 * c + 4) n f ctx"
  shows "heap_inv ctx' B fs" and "live ctx' = live ctx"
    and "(b, e) \<in> live ctx \<Longrightarrow> b \<noteq> c \<Longrightarrow> data_kept ctx ctx' b e"
proof -
  note ok = heap_inv_ok [OF inv]
  note ch = heap_okD(1) [OF ok]
  let ?e = "nxt ctx c"
  have cB: "c \<in> B" "c \<notin> set fs" "c \<noteq> 0" "c \<noteq> UMM_BLOCK_LAST ctx" using c by (auto simp: used_block_def)
  have ce: "c < ?e" using bchain_next [OF ch cB(1,4)] by auto
  note fields = mem_write_fields [OF refl n [unfolded bsize_def] ce, of _ f ctx, folded ctx'_def]
  have B: "b \<le> c \<or> ?e \<le> b" if "b \<in> B" for b using bchain_gap [OF ch cB(1,4) that] .
  have F: "b < c \<or> ?e \<le> b" if "b \<in> insert 0 (set fs)" for b
    using that B [of b] cB heap_okD(5,10) [OF ok] by (metis insert_iff le_neq_implies_less)
  have ok': "heap_ok ctx' B fs"
    by (rule heap_ok_cong [OF ok])
      (use B F fields in \<open>auto simp: UMM_NFREE_def UMM_PFREE_def\<close>, simp add: ctx'_def)
  have nx: "nxt ctx' b = nxt ctx b" if "b \<in> B" for b using fields(1) [OF B [OF that]] by (simp add: nxt_def)
  have "free_total ctx' fs = free_total ctx fs" by (rule free_total_cong) (use nx heap_okD(5) [OF ok] in auto)
  then show "heap_inv ctx' B fs"
    using inv ok' nx heap_okD(5) [OF ok] by (auto simp: heap_inv_def placed_def ctx'_def)
  have "x \<in> live ctx' \<longleftrightarrow> x \<in> live ctx" for x
    by (cases x) (auto simp: live_used [OF ok] live_used [OF ok'] used_block_def nx, simp_all add: ctx'_def)
  then show "live ctx' = live ctx" by blast
  show "data_kept ctx ctx' b e" if be: "(b, e) \<in> live ctx" "b \<noteq> c"
  proof -
    have b: "b \<in> B" "b \<noteq> UMM_BLOCK_LAST ctx" "e = nxt ctx b" using be live_used [OF ok] by (auto simp: used_block_def)
    have "j < c \<or> ?e \<le> j" if "b \<le> j" "j < e" for j
      using bchain_gap [OF ch b(1,2) cB(1)] B [OF b(1)] be(2) b that by auto
    then have "blks ctx' j = blks ctx j" if "b \<le> j" "j < e" for j using fields(3) that by blast
    moreover have "b < e" using bchain_next [OF ch b(1,2)] b by simp
    ultimately show ?thesis by (simp add: data_kept_def UMM_NFREE_def UMM_PFREE_def)
  qed
qed

lemma placed_offset: "placed ctx \<Longrightarrow> c < unat (numblocks ctx) \<Longrightarrow> unat (UMM_DATA ctx c - heap ctx) = 8 * c + 4"
proof -
  assume pl: "placed ctx" "c < unat (numblocks ctx)"
  have "unat (UMM_DATA ctx c - heap ctx) = unat (UMM_DATA ctx c) - unat (heap ctx)"
    using placed_addr(3) [OF pl] by (simp add: unat_sub)
  then show ?thesis using placed_addr(1) [OF pl] by simp
qed

end
