(* ===== verification/Umm_Realloc.thy ===== *)
theory Umm_Realloc
  imports Umm_Bytes
begin

text \<open>
  \<open>umm_realloc\<close> and \<open>umm_calloc\<close> (\<open>umm_malloc.cpp\<close>, the \<open>UMM_REALLOC_DEFRAG\<close> build with
  \<open>UMM_LIGHTWEIGHT_CPU\<close>), and the saturating arithmetic they use (\<open>umm_local.c\<close>).
  Between \<open>UMM_CRITICAL_SUSPEND\<close> and \<open>UMM_CRITICAL_RESUME\<close> the source lets interrupts
  in while it moves the data; the model has no interrupt there.
\<close>

section \<open>Operations\<close>

definition umm_umul_sat :: "u32 \<Rightarrow> u32 \<Rightarrow> u32" where
  "umm_umul_sat a b = (if 2 ^ 32 \<le> unat a * unat b then 0xFFFFFFFF else a * b)"

definition umm_uadd_sat :: "u32 \<Rightarrow> u32 \<Rightarrow> u32" where
  "umm_uadd_sat a b = (let r = a + b in if r < a then 0xFFFFFFFF else r)"

text \<open>The size in blocks of the free neighbours of a block, 0 for a neighbour in use.\<close>

definition realloc_next_size :: "umm_heap_context \<Rightarrow> u16 \<Rightarrow> u16" where
  "realloc_next_size ctx c =
     (if UMM_NBLOCK ctx (unat (UMM_NBLOCK ctx (unat c))) AND UMM_FREELIST_MASK \<noteq> 0
      then (UMM_NBLOCK ctx (unat (UMM_NBLOCK ctx (unat c))) AND UMM_BLOCKNO_MASK) - UMM_NBLOCK ctx (unat c)
      else 0)"

definition realloc_prev_size :: "umm_heap_context \<Rightarrow> u16 \<Rightarrow> u16" where
  "realloc_prev_size ctx c =
     (if UMM_NBLOCK ctx (unat (UMM_PBLOCK ctx (unat c))) AND UMM_FREELIST_MASK \<noteq> 0
      then c - UMM_PBLOCK ctx (unat c) else 0)"

text \<open>Give the blocks of \<open>c\<close> from number \<open>blocks\<close> on back to the heap.\<close>

definition realloc_trim :: "umm_heap_context \<Rightarrow> u16 \<Rightarrow> u16 \<Rightarrow> umm_heap_context" where
  "realloc_trim ctx c blocks =
     (let ctx1 = umm_split_block ctx c blocks 0
      in umm_free_core ctx1 (UMM_DATA ctx1 (unat c + unat blocks)))"

text \<open>Where the block and its free predecessor are not enough, its free successor too.\<close>

definition realloc_grow_prev :: "umm_heap_context \<Rightarrow> u16 \<Rightarrow> u16 \<Rightarrow> u16 \<Rightarrow> u16 \<Rightarrow> u16 \<times> umm_heap_context" where
  "realloc_grow_prev ctx c blocks blockSize nextBlockSize =
     (if blocks \<le> blockSize then (blockSize, ctx)
      else let ctx1 = STATS__FREE_BLOCKS_UPDATE (- int (unat nextBlockSize)) (umm_assimilate_up ctx c);
               blockSize1 = blockSize + nextBlockSize;
               ctx2 = (if blocks < blockSize1 then realloc_trim ctx1 c blocks else ctx1)
           in (blocks, ctx2))"

definition realloc_use_prev :: "umm_heap_context \<Rightarrow> u32 \<Rightarrow> u16 \<Rightarrow> u16 \<Rightarrow> u16 \<Rightarrow> u16 \<Rightarrow> u16 \<Rightarrow> nat \<Rightarrow>
    u32 \<times> u16 \<times> u16 \<times> umm_heap_context" where
  "realloc_use_prev ctx ptr c blocks blockSize prevBlockSize nextBlockSize curSize =
     (let ctx1 = umm_disconnect_from_free_list ctx (UMM_PBLOCK ctx (unat c));
          (c1, ctx2) = umm_assimilate_down ctx1 c 0;
          ctx3 = STATS__FREE_BLOCKS_UPDATE (- int (unat prevBlockSize)) ctx2;
          (blockSize1, ctx4) = realloc_grow_prev ctx3 c1 blocks (blockSize + prevBlockSize) nextBlockSize;
          ctx5 = umm_memmove (UMM_DATA ctx4 (unat c1)) ptr curSize ctx4
      in (UMM_DATA ctx5 (unat c1), c1, blockSize1, ctx5))"

definition realloc_new :: "umm_heap_context \<Rightarrow> u32 \<Rightarrow> u32 \<Rightarrow> nat \<Rightarrow> (u32 \<times> umm_heap_context) option" where
  "realloc_new ctx oldptr sz curSize =
     (case umm_malloc_core ctx sz of
        None \<Rightarrow> None
      | Some (ptr, ctx1) \<Rightarrow>
          if ptr \<noteq> 0 then Some (ptr, umm_free_core (umm_memmove ptr oldptr curSize ctx1) oldptr)
          else Some (ptr, ctx1))"

definition umm_realloc_core :: "umm_heap_context \<Rightarrow> u32 \<Rightarrow> u32 \<Rightarrow> (u32 \<times> umm_heap_context) option" where
  "umm_realloc_core ctx ptr sz =
     (let blocks = umm_blocks sz;
          c = block_of_ptr ctx ptr;
          blockSize = UMM_NBLOCK ctx (unat c) - c;
          curSize = unat blockSize * umm_block_size - umm_header_size;
          nextBlockSize = realloc_next_size ctx c;
          prevBlockSize = realloc_prev_size ctx c
      in map_option (\<lambda>(ptr1, c1, blockSize1, ctx1).
           (ptr1, if blocks < blockSize1 then realloc_trim ctx1 c1 blocks else ctx1))
         (if prevBlockSize \<noteq> 0 \<and> unat blocks \<le> unat prevBlockSize + unat blockSize + unat nextBlockSize
          then Some (realloc_use_prev ctx ptr c blocks blockSize prevBlockSize nextBlockSize curSize)
          else if blocks \<le> blockSize then Some (ptr, c, blockSize, ctx)
          else if unat blocks \<le> unat blockSize + unat nextBlockSize
          then Some (ptr, c, blockSize + nextBlockSize,
                     STATS__FREE_BLOCKS_UPDATE (- int (unat nextBlockSize)) (umm_assimilate_up ctx c))
          else map_option (\<lambda>(ptr1, ctx1). (ptr1, c, blocks, ctx1)) (realloc_new ctx ptr sz curSize)))"

definition umm_realloc :: "umm_heap_context \<Rightarrow> u32 \<Rightarrow> u32 \<Rightarrow> (umm_error + u32 \<times> umm_heap_context) option" where
  "umm_realloc ctx ptr sz =
     (if ptr = 0 then map_option Inr (umm_malloc ctx sz)
      else case umm_get_ptr_context ctx ptr of
             Inl e \<Rightarrow> Some (Inl e)
           | Inr c \<Rightarrow>
              if sz = 0 then Some (case umm_free c ptr of Inl e \<Rightarrow> Inl e | Inr c1 \<Rightarrow> Inr (0, c1))
              else map_option Inr (umm_realloc_core c ptr sz))"

definition umm_calloc :: "umm_heap_context \<Rightarrow> u32 \<Rightarrow> u32 \<Rightarrow> (u32 \<times> umm_heap_context) option" where
  "umm_calloc ctx num item_size =
     (let sz = umm_umul_sat num item_size in
      map_option (\<lambda>(ret, ctx1). if ret \<noteq> 0 then (ret, umm_memset ret 0 (unat sz) ctx1) else (ret, ctx1)) (umm_malloc ctx sz))"

section \<open>Growing and trimming a block in use\<close>

lemma starts_stats [simp]: "starts (STATS__FREE_BLOCKS_UPDATE s ctx) = starts ctx"
proof (intro equalityI subsetI)
  fix x assume "x \<in> starts (STATS__FREE_BLOCKS_UPDATE s ctx)"
  then show "x \<in> starts ctx" by induction (auto intro: starts.intros)
next
  fix x assume "x \<in> starts ctx"
  then show "x \<in> starts (STATS__FREE_BLOCKS_UPDATE s ctx)"
    by induction (auto intro: starts.first dest: starts.step [of _ "STATS__FREE_BLOCKS_UPDATE s ctx"])
qed

lemma derived_stats [simp]:
  "bsize (STATS__FREE_BLOCKS_UPDATE s ctx) = bsize ctx" "free_total (STATS__FREE_BLOCKS_UPDATE s ctx) = free_total ctx"
  "live (STATS__FREE_BLOCKS_UPDATE s ctx) = live ctx" "coalesced (STATS__FREE_BLOCKS_UPDATE s ctx) = coalesced ctx"
  "used_block (STATS__FREE_BLOCKS_UPDATE s ctx) = used_block ctx"
  by (auto simp: bsize_def [abs_def] free_total_def [abs_def] live_def coalesced_def [abs_def] used_block_def [abs_def])

text \<open>Splitting a block in use into two blocks in use.\<close>

lemma split_used_inv:
  assumes inv: "heap_inv ctx B fs" and c: "used_block ctx B fs (unat c)"
    and k: "0 < unat k" "unat k < bsize ctx (unat c)"
  defines "ctx' \<equiv> umm_split_block ctx c k 0" and "m \<equiv> unat c + unat k"
  shows "heap_inv ctx' (insert m B) fs" and "used_block ctx' (insert m B) fs m" and "used_block ctx' (insert m B) fs (unat c)"
    and "nxt ctx' = (nxt ctx)(m := nxt ctx (unat c), unat c := m)"
    and "live ctx' = insert (unat c, m) (insert (m, nxt ctx (unat c)) (live ctx - {(unat c, nxt ctx (unat c))}))"
    and "frame ctx ctx' (insert m B) F"
proof -
  note ok = heap_inv_ok [OF inv]
  note ch = heap_okD(1) [OF ok]
  have cB: "unat c \<in> B" "unat c \<notin> set fs" "unat c \<noteq> UMM_BLOCK_LAST ctx" "unat c \<noteq> 0" using c by (auto simp: used_block_def)
  have b: "0 < unat k" "unat c + unat k < nxt ctx (unat c)" using k by (auto simp: bsize_def)
  have ok': "heap_ok ctx' (insert m B) fs" unfolding ctx'_def m_def by (rule split_block_ok [OF ok cB(1-3) b])
  show nx: "nxt ctx' = (nxt ctx)(m := nxt ctx (unat c), unat c := m)"
    unfolding ctx'_def m_def by (rule split_block_nxt [OF ok cB(1,3) b]) simp
  show fr: "frame ctx ctx' (insert m B) F" for F
    unfolding ctx'_def m_def by (rule split_block_frame [OF ok cB(1,3) b])
  have mB: "m \<notin> B" using bchain_gap [OF ch cB(1,3)] b unfolding m_def by fastforce
  have mfs: "m \<notin> set fs" using mB heap_okD(5) [OF ok] by blast
  have same: "nxt ctx' b = nxt ctx b" if "b \<in> set fs" for b using that cB mfs by (auto simp: nx)
  have l: "UMM_BLOCK_LAST ctx' = UMM_BLOCK_LAST ctx" by (rule frame_last [OF fr])
  have ml: "m \<noteq> UMM_BLOCK_LAST ctx" "m \<noteq> 0" "m \<noteq> unat c" using mB heap_okD(11) [OF ok] b by (auto simp: m_def)
  show "used_block ctx' (insert m B) fs m" "used_block ctx' (insert m B) fs (unat c)"
    using ml mfs cB by (auto simp: used_block_def l)
  have "free_total ctx' fs = free_total ctx fs" by (rule free_total_cong [OF same])
  moreover have "stats ctx' = stats ctx" by (simp add: ctx'_def)
  ultimately show "heap_inv ctx' (insert m B) fs"
    using inv ok' same placed_frame [OF fr] by (simp add: heap_inv_def)
  have "x \<in> live ctx' \<longleftrightarrow> x \<in> insert (unat c, m) (insert (m, nxt ctx (unat c)) (live ctx - {(unat c, nxt ctx (unat c))}))" for x
    using ml mB mfs cB by (cases x) (auto simp: live_used [OF ok] live_used [OF ok'] used_block_def l nx)
  then show "live ctx' = insert (unat c, m) (insert (m, nxt ctx (unat c)) (live ctx - {(unat c, nxt ctx (unat c))}))" by blast
qed

text \<open>
  \<open>resized\<close>: the block in use at \<open>c\<close> has become the block at \<open>c'\<close> that ends at \<open>e'\<close>;
  the heap is well-formed and only headers and links were touched, of old
  blocks and of a block \<open>m\<close> inside the new one; every other block in use keeps its
  place and its data.
\<close>

definition resized :: "umm_heap_context \<Rightarrow> nat set \<Rightarrow> nat list \<Rightarrow> nat \<Rightarrow> nat \<Rightarrow> umm_heap_context \<Rightarrow> nat \<Rightarrow> nat \<Rightarrow> bool" where
  "resized ctx B fs m c ctx' c' e' \<longleftrightarrow>
     (\<exists>B' fs'. heap_inv ctx' B' fs' \<and> used_block ctx' B' fs' c' \<and> nxt ctx' c' = e' \<and>
        B' \<subseteq> insert m B \<and> set fs' \<subseteq> insert m (set fs)) \<and>
     live ctx' = insert (c', e') (live ctx - {(c, nxt ctx c)}) \<and> (\<forall>e. (c', e) \<in> live ctx \<longrightarrow> c' = c) \<and>
     (\<forall>b e. (b, e) \<in> live ctx \<longrightarrow> b \<noteq> c \<longrightarrow> data_kept ctx ctx' b e) \<and>
     frame ctx ctx' (insert m B) (insert 0 (insert m (set fs)))"

lemmas resizedD =
  iffD1 [OF resized_def, THEN conjunct1]
  iffD1 [OF resized_def, THEN conjunct2, THEN conjunct1]
  iffD1 [OF resized_def, THEN conjunct2, THEN conjunct2, THEN conjunct1]
  iffD1 [OF resized_def, THEN conjunct2, THEN conjunct2, THEN conjunct2, THEN conjunct1]
  iffD1 [OF resized_def, THEN conjunct2, THEN conjunct2, THEN conjunct2, THEN conjunct2]

lemma frame_data:
  assumes ok: "heap_ok ctx B fs" and b: "used_block ctx B fs b" and c: "b \<le> c" "c < e" "e \<le> nxt ctx b"
    and fr: "frame ctx ctx' (insert m B) (insert 0 (insert m (set fs)))" and m: "m < c \<or> e \<le> m"
  shows "data_kept ctx ctx' c e"
proof -
  have bB: "b \<in> B" "b \<notin> set fs" "b \<noteq> 0" "b \<noteq> UMM_BLOCK_LAST ctx" using b by (auto simp: used_block_def)
  have out: "j \<notin> B" if "b < j" "j < e" for j using bchain_gap [OF heap_okD(1) [OF ok] bB(1,4), of j] that c by auto
  then have "blks ctx' j = blks ctx j" if "c < j" "j < e" for j
    using frame_block [OF fr, of j] that c m heap_okD(5,10) [OF ok] by fastforce
  moreover have "c \<notin> insert 0 (insert m (set fs))"
    using out [of c] c bB m heap_okD(5) [OF ok, of c] by (cases "b = c") auto
  ultimately show ?thesis using fr by (simp add: data_kept_def frame_def)
qed

lemma frame_others:
  assumes ok: "heap_ok ctx B fs" and b: "(b, e) \<in> live ctx"
    and fr: "frame ctx ctx' (insert m B) (insert 0 (insert m (set fs)))" and m: "m < b \<or> e \<le> m"
  shows "data_kept ctx ctx' b e"
proof -
  have u: "used_block ctx B fs b" "e = nxt ctx b" using b live_used [OF ok] by auto
  then have "b < e" using bchain_next [OF heap_okD(1) [OF ok], of b] by (auto simp: used_block_def)
  then show ?thesis using frame_data [OF ok u(1) _ _ _ fr m] u(2) by simp
qed

lemma live_pos: "(b, e) \<in> live ctx \<Longrightarrow> 0 < b"
  by (auto simp: live_def)

lemma data_kept_trans: "data_kept a b x e \<Longrightarrow> data_kept b c x e \<Longrightarrow> data_kept a c x e"
  by (simp add: data_kept_def)

lemma resized_trans:
  assumes r1: "resized ctx B fs 0 c ctx1 c1 e1"
    and r2: "\<And>B1 fs1. heap_inv ctx1 B1 fs1 \<Longrightarrow> used_block ctx1 B1 fs1 c1 \<Longrightarrow> nxt ctx1 c1 = e1 \<Longrightarrow> resized ctx1 B1 fs1 m c1 ctx2 c2 e2"
    and ok: "heap_ok ctx B fs"
  shows "resized ctx B fs m c ctx2 c2 e2"
proof -
  have z: "insert 0 B = B" using heap_okD(10) [OF ok] by auto
  from resizedD(1) [OF r1] obtain B1 fs1 where 1: "heap_inv ctx1 B1 fs1" "used_block ctx1 B1 fs1 c1" "nxt ctx1 c1 = e1"
    "B1 \<subseteq> B" "set fs1 \<subseteq> insert 0 (set fs)" unfolding z by blast
  note r2' = r2 [OF 1(1-3)]
  from resizedD(1) [OF r2'] obtain B2 fs2 where 2: "heap_inv ctx2 B2 fs2" "used_block ctx2 B2 fs2 c2" "nxt ctx2 c2 = e2"
    "B2 \<subseteq> insert m B1" "set fs2 \<subseteq> insert m (set fs1)" by blast
  note lv1 = resizedD(2,3) [OF r1] and lv2 = resizedD(2,3) [OF r2', unfolded 1(3)]
    and k1 = resizedD(4) [OF r1] and k2 = resizedD(4) [OF r2']
  have only: "e = nxt ctx c" if "(c, e) \<in> live ctx" for e using that live_used [OF ok] by blast
  have nf: "set fs2 \<subseteq> insert m (set fs)"
    using 1(5) 2(5) heap_okD(6) [OF heap_inv_ok [OF 1(1)]] by blast
  have "(c1, e1) \<notin> live ctx - {(c, nxt ctx c)}" using lv1(2) only by blast
  then have lv: "live ctx2 = insert (c2, e2) (live ctx - {(c, nxt ctx c)})"
    unfolding lv2(1) lv1(1) by blast
  moreover have "\<forall>e. (c2, e) \<in> live ctx \<longrightarrow> c2 = c" using lv1 lv2 only by blast
  moreover have "data_kept ctx ctx2 b e" if "(b, e) \<in> live ctx" "b \<noteq> c" for b e
    using k1 k2 lv1 that by (metis (no_types, lifting) Diff_iff data_kept_trans insertI2 prod.inject singletonD)
  moreover have "frame ctx ctx2 (insert m B) (insert 0 (insert m (set fs)))"
  proof (rule frame_trans)
    show "frame ctx ctx1 (insert m B) (insert 0 (insert m (set fs)))"
      by (rule frame_mono [OF resizedD(5) [OF r1]]) (use z in auto)
    show "frame ctx1 ctx2 (insert m B) (insert 0 (insert m (set fs)))"
      by (rule frame_mono [OF resizedD(5) [OF r2']]) (use 1(4,5) in auto)
  qed
  ultimately show ?thesis using 1(4) 2 nf unfolding resized_def by blast
qed

lemma trim_resized:
  assumes inv: "heap_inv ctx B fs" and c: "used_block ctx B fs (unat c)"
    and k: "0 < unat k" "unat k < bsize ctx (unat c)"
  shows "resized ctx B fs (unat c + unat k) (unat c) (realloc_trim ctx c k) (unat c) (unat c + unat k)"
proof -
  let ?c = "unat c" and ?m = "unat c + unat k"
  define ctx1 where "ctx1 = umm_split_block ctx c k 0"
  note sp = split_used_inv [OF inv c k, folded ctx1_def]
  define r where "r = umm_free_core ctx1 (UMM_DATA ctx1 ?m)"
  obtain B' fs' where mv: "moves ctx1 (insert ?m B) fs r B' fs'" and sub: "B' \<subseteq> insert ?m B" "set fs' \<subseteq> insert ?m (set fs)"
    and lv: "live r = live ctx1 - {(?m, nxt ctx1 ?m)}"
    unfolding r_def by (rule free_core_inv [OF sp(1,2)])
  have ok1: "heap_ok ctx1 (insert ?m B) fs" by (rule heap_inv_ok [OF sp(1)])
  have inv': "heap_inv r B' fs'" and fr1: "frame ctx1 r (insert ?m B \<union> B') (insert 0 (set fs \<union> set fs'))"
    using mv by (simp_all add: moves_def)
  have mn: "nxt ctx1 ?m = nxt ctx ?c" using k by (simp add: sp(4))
  have mc: "(?c, ?m) \<noteq> (?m, nxt ctx ?c)" using k by simp
  have "?m \<notin> B" using bchain_gap [OF heap_okD(1) [OF heap_inv_ok [OF inv]], of ?c ?m] c k by (auto simp: used_block_def bsize_def)
  then have "(?m, nxt ctx ?c) \<notin> live ctx" using live_used [OF heap_inv_ok [OF inv]] by (auto simp: used_block_def)
  then have lv': "live r = insert (?c, ?m) (live ctx - {(?c, nxt ctx ?c)})"
    unfolding lv sp(5) mn using mc by auto
  then have "(?c, ?m) \<in> live r" by blast
  then have "used_block r B' fs' ?c" "nxt r ?c = ?m" using live_used [OF heap_inv_ok [OF inv']] by auto
  moreover have fr: "frame ctx r (insert ?m B) (insert 0 (insert ?m (set fs)))"
    by (rule frame_trans [OF sp(6) frame_mono [OF fr1]]) (use sub in auto)
  moreover have "data_kept ctx r b e" if be: "(b, e) \<in> live ctx" "b \<noteq> ?c" for b e
  proof (rule frame_others [OF heap_inv_ok [OF inv] be(1) fr])
    note ch = heap_okD(1) [OF heap_inv_ok [OF inv]]
    have b: "b \<in> B" "b \<noteq> UMM_BLOCK_LAST ctx" "e = nxt ctx b" and cB: "?c \<in> B" "?c \<noteq> UMM_BLOCK_LAST ctx"
      using be(1) c live_used [OF heap_inv_ok [OF inv]] by (auto simp: used_block_def)
    show "?m < b \<or> e \<le> ?m"
      using bchain_gap [OF ch b(1,2) cB(1)] bchain_gap [OF ch cB b(1)] be(2) b(3) k by (auto simp: bsize_def)
  qed
  ultimately show ?thesis
    using inv' lv' sub by (auto simp: resized_def realloc_trim_def Let_def ctx1_def [symmetric] r_def [symmetric])
qed

lemma grow_up_resized:
  assumes inv: "heap_inv ctx B fs" and c: "used_block ctx B fs (unat c)"
  defines "k \<equiv> if nxt ctx (unat c) \<in> set fs then bsize ctx (nxt ctx (unat c)) else 0"
  shows "resized ctx B fs 0 (unat c) (STATS__FREE_BLOCKS_UPDATE (- int k) (umm_assimilate_up ctx c)) (unat c)
    (unat c + bsize ctx (unat c) + k)"
proof -
  let ?c = "unat c"
  define ctx' where "ctx' = STATS__FREE_BLOCKS_UPDATE (- int k) (umm_assimilate_up ctx c)"
  note ok = heap_inv_ok [OF inv]
  have co: "coalesced ctx fs" and st: "free_blocks (stats ctx) = of_nat (free_total ctx fs)" and pl: "placed ctx" and one: "1 \<in> B"
    using inv by (simp_all add: heap_inv_def coalesced_def)
  have cB: "?c \<in> B" "?c \<noteq> 0" "?c \<noteq> UMM_BLOCK_LAST ctx" using c by (auto simp: used_block_def)
  note nc = bchain_next [OF heap_okD(1) [OF ok] cB(1,3)]
  obtain B' fs' where u: "heap_ok ctx' B' fs'" "coalesced ctx' fs'" "used_block ctx' B' fs' ?c"
    "B' \<subseteq> B" "set fs' \<subseteq> set fs" "B - {nxt ctx ?c} \<subseteq> B'"
    "free_total ctx' fs' + bsize ctx' ?c = free_total ctx fs + bsize ctx ?c"
    "live ctx' = insert (?c, nxt ctx' ?c) (live ctx - {(?c, nxt ctx ?c)})"
    "frame ctx ctx' B (insert 0 (set fs))" "bsize ctx' ?c = bsize ctx ?c + k"
    by (rule assimilate_up_step [OF ok co c]) (simp add: ctx'_def k_def)
  have "1 \<in> B'" using u(6) one nc cB(2) by auto
  moreover have "free_total ctx' fs' = free_total ctx fs - k" "k \<le> free_total ctx fs" using u(7,10) by linarith+
  then have "free_blocks (stats ctx') = of_nat (free_total ctx' fs')" using st stats_sub [of k "free_total ctx fs"] by (simp add: ctx'_def)
  ultimately have inv': "heap_inv ctx' B' fs'" using u placed_frame [OF u(9) pl] by (simp add: heap_inv_def coalesced_def)
  have "?c < nxt ctx' ?c" using bchain_next [OF heap_okD(1) [OF u(1)], of ?c] u(3) by (auto simp: used_block_def)
  then have e: "nxt ctx' ?c = ?c + bsize ctx ?c + k" using u(10) by (simp add: bsize_def)
  have fr: "frame ctx ctx' (insert 0 B) (insert 0 (insert 0 (set fs)))" by (rule frame_mono [OF u(9)]) auto
  have "data_kept ctx ctx' b e" if "(b, e) \<in> live ctx" for b e
    by (rule frame_others [OF ok that fr]) (simp add: live_pos [OF that])
  then show ?thesis unfolding ctx'_def [symmetric] resized_def using inv' u(3-5,8) e fr by fastforce
qed

lemma grow_down_resized:
  assumes inv: "heap_inv ctx B fs" and c: "used_block ctx B fs (unat c)" and p: "prv ctx (unat c) \<in> set fs"
    and res: "umm_assimilate_down (umm_disconnect_from_free_list ctx (UMM_PBLOCK ctx (unat c))) c 0 = (c1, ctx2)"
  shows "unat c1 = prv ctx (unat c)"
    and "resized ctx B fs 0 (unat c) (STATS__FREE_BLOCKS_UPDATE (- int (unat c - prv ctx (unat c))) ctx2)
      (prv ctx (unat c)) (nxt ctx (unat c))"
    and "nxt (STATS__FREE_BLOCKS_UPDATE (- int (unat c - prv ctx (unat c))) ctx2) = (nxt ctx)(prv ctx (unat c) := nxt ctx (unat c))"
    and "heap_inv (STATS__FREE_BLOCKS_UPDATE (- int (unat c - prv ctx (unat c))) ctx2) B1 fs1 \<Longrightarrow>
      set fs1 = set fs - {prv ctx (unat c)}"
proof -
  let ?c = "unat c" and ?p = "prv ctx (unat c)" and ?e = "nxt ctx (unat c)"
  note ok = heap_inv_ok [OF inv]
  note ch = heap_okD(1) [OF ok]
  have cB: "?c \<in> B" "?c \<notin> set fs" "?c \<noteq> 0" "?c \<noteq> UMM_BLOCK_LAST ctx" using c by (auto simp: used_block_def)
  have pp: "?p \<in> B" "?p < ?c" "nxt ctx ?p = ?c" using bchain_prev [OF ch cB(1,3)] by auto
  have p0: "?p \<noteq> 0" "?p \<noteq> UMM_BLOCK_LAST ctx" using heap_okD(6,7) [OF ok p] by auto
  obtain xs ys where fs: "fs = xs @ ?p # ys" using p by (auto simp: in_set_conv_decomp)
  define w where "w = UMM_PBLOCK ctx ?c"
  have w: "unat w = ?p" by (simp add: w_def prv_def)
  define ctx1 where "ctx1 = umm_disconnect_from_free_list ctx w"
  have ok1: "heap_ok ctx1 B (xs @ ys)" unfolding ctx1_def by (rule disconnect_ok) (simp add: w ok flip: fs)
  have nx1: "nxt ctx1 = nxt ctx" "prv ctx1 = prv ctx" "numblocks ctx1 = numblocks ctx" "stats ctx1 = stats ctx" by (simp_all add: ctx1_def)
  have l1: "UMM_BLOCK_LAST ctx1 = UMM_BLOCK_LAST ctx" by (simp add: UMM_BLOCK_LAST_def nx1)
  have dist: "?p \<notin> set (xs @ ys)" using heap_okD(8) [OF ok] fs by auto
  have c1: "?c \<in> B" "?c \<notin> set (xs @ ys)" "?c \<noteq> 0" "?c \<noteq> UMM_BLOCK_LAST ctx1" using cB fs l1 by auto
  note res1 = res [folded w_def ctx1_def]
  have down: "unat c1 = ?p \<and> heap_ok ctx2 (B - {?c}) (xs @ ys)"
    using assimilate_down_ok [OF ok1 c1 _ res1] dist by (simp add: nx1)
  then show "unat c1 = ?p" by simp
  have nx2: "nxt ctx2 = (nxt ctx)(?p := ?e)" using assimilate_down_nxt [OF ok1 c1, of 0] res1 by (simp add: nx1)
  have fr2: "frame ctx ctx2 B (insert 0 (set fs))"
  proof (rule frame_trans)
    show "frame ctx ctx1 B (insert 0 (set fs))" unfolding ctx1_def by (rule disconnect_frame [OF ok]) (simp add: w p)
    show "frame ctx1 ctx2 B (insert 0 (set fs))" using assimilate_down_frame [OF ok1 c1, of 0] res1 by simp
  qed
  define r where "r = STATS__FREE_BLOCKS_UPDATE (- int (?c - ?p)) ctx2"
  have ok': "heap_ok r (B - {?c}) (xs @ ys)" and nxr: "nxt r = (nxt ctx)(?p := ?e)" and fr: "frame ctx r B (insert 0 (set fs))"
    using down nx2 fr2 by (simp_all add: r_def)
  have tot: "free_total r (xs @ ys) = free_total ctx (xs @ ys)"
    by (rule free_total_cong) (use dist in \<open>auto simp: nxr\<close>)
  have "stats ctx2 = stats ctx" using assimilate_down_stats [of ctx1 c 0] res1 by (simp add: nx1)
  moreover have "free_total ctx fs = free_total ctx (xs @ ys) + (?c - ?p)" unfolding fs free_total_append free_total_append2 free_total_Cons
    using pp by (simp add: bsize_def)
  ultimately have st: "free_blocks (stats r) = of_nat (free_total r (xs @ ys))"
    using inv stats_sub [of "?c - ?p" "free_total ctx fs"] tot by (simp add: r_def heap_inv_def)
  have co: "\<forall>b\<in>set (xs @ ys). nxt r b \<notin> set (xs @ ys)" using inv dist fs by (auto simp: heap_inv_def nxr)
  have "1 \<in> B - {?c}" using inv pp p0 by (auto simp: heap_inv_def)
  then have inv': "heap_inv r (B - {?c}) (xs @ ys)"
    using ok' st co placed_frame [OF fr] inv by (simp add: heap_inv_def)
  have lr: "UMM_BLOCK_LAST r = UMM_BLOCK_LAST ctx" by (rule frame_last [OF fr])
  have u': "used_block r (B - {?c}) (xs @ ys) ?p" using pp p0 dist by (auto simp: used_block_def lr)
  have "x \<in> live r \<longleftrightarrow> x \<in> insert (?p, ?e) (live ctx - {(?c, ?e)})" for x
    using pp p0 dist fs by (cases x) (auto simp: live_used [OF ok] live_used [OF ok'] used_block_def lr nxr)
  then have lv: "live r = insert (?p, ?e) (live ctx - {(?c, ?e)})" by blast
  have fr0: "frame ctx r (insert 0 B) (insert 0 (insert 0 (set fs)))" by (rule frame_mono [OF fr]) auto
  have kept: "data_kept ctx r b e" if "(b, e) \<in> live ctx" for b e
    by (rule frame_others [OF ok that fr0]) (simp add: live_pos [OF that])
  have "(?p, e) \<notin> live ctx" for e using p live_used [OF ok] by (auto simp: used_block_def)
  then show "resized ctx B fs 0 ?c (STATS__FREE_BLOCKS_UPDATE (- int (?c - ?p)) ctx2) ?p ?e"
    unfolding resized_def r_def [symmetric] using inv' u' lv nxr fs fr0 kept
    by (fastforce intro!: exI [of _ "B - {?c}"] exI [of _ "xs @ ys"])
  show "nxt (STATS__FREE_BLOCKS_UPDATE (- int (?c - ?p)) ctx2) = (nxt ctx)(?p := ?e)"
    unfolding r_def [symmetric] by (rule nxr)
  assume "heap_inv (STATS__FREE_BLOCKS_UPDATE (- int (?c - ?p)) ctx2) B1 fs1"
  then have "heap_ok r B1 fs1" unfolding r_def by (rule heap_inv_ok)
  then have "set fs1 = fst ` avail r" by (force simp: avail_eq)
  also have "\<dots> = set (xs @ ys)" unfolding avail_eq [OF ok'] by force
  finally show "set fs1 = set fs - {?p}" using fs dist by auto
qed

section \<open>The strategies\<close>

lemma realloc_sizes:
  assumes ok: "heap_ok ctx B fs" and c: "used_block ctx B fs (unat c)"
  shows "unat (UMM_NBLOCK ctx (unat c) - c) = bsize ctx (unat c)"
    and "unat (realloc_next_size ctx c) = (if nxt ctx (unat c) \<in> set fs then bsize ctx (nxt ctx (unat c)) else 0)"
    and "unat (realloc_prev_size ctx c) = (if prv ctx (unat c) \<in> set fs then unat c - prv ctx (unat c) else 0)"
proof -
  let ?c = "unat c" and ?n = "nxt ctx (unat c)"
  note ch = heap_okD(1) [OF ok]
  have cB: "?c \<in> B" "?c \<notin> set fs" "?c \<noteq> 0" "?c \<noteq> UMM_BLOCK_LAST ctx" using c by (auto simp: used_block_def)
  note nc = bchain_next [OF ch cB(1,4)] and pc = bchain_prev [OF ch cB(1,3)]
  note cu = used_next_unat [OF ok cB(1,2)]
  have "c \<le> UMM_NBLOCK ctx ?c" using cu nc by (simp add: word_le_nat_alt)
  then show "unat (UMM_NBLOCK ctx ?c - c) = bsize ctx ?c" by (simp add: unat_sub cu bsize_def)
  have fn: "UMM_NBLOCK ctx (unat (UMM_NBLOCK ctx ?c)) AND UMM_FREELIST_MASK \<noteq> 0 \<longleftrightarrow> ?n \<in> set fs"
    using heap_okD(4) [OF ok, of ?n] nc by (simp add: cu freebit_def)
  have "unat ((UMM_NBLOCK ctx (unat (UMM_NBLOCK ctx ?c)) AND UMM_BLOCKNO_MASK) - UMM_NBLOCK ctx ?c) = bsize ctx ?n" if "?n \<in> set fs"
  proof -
    have "?n < nxt ctx ?n" using bchain_next [OF ch heap_okD(5) [OF ok that] heap_okD(7) [OF ok that]] by simp
    then have "UMM_NBLOCK ctx ?c \<le> UMM_NBLOCK ctx ?n AND UMM_BLOCKNO_MASK" using cu by (simp add: word_le_nat_alt nxt_def)
    then show ?thesis by (simp add: unat_sub cu bsize_def nxt_def)
  qed
  then show "unat (realloc_next_size ctx c) = (if ?n \<in> set fs then bsize ctx ?n else 0)"
    unfolding realloc_next_size_def fn by simp
  have fp: "UMM_NBLOCK ctx (unat (UMM_PBLOCK ctx ?c)) AND UMM_FREELIST_MASK \<noteq> 0 \<longleftrightarrow> prv ctx ?c \<in> set fs"
    using heap_okD(4) [OF ok, of "prv ctx ?c"] pc by (simp add: prv_def freebit_def)
  have "UMM_PBLOCK ctx ?c \<le> c" using pc by (simp add: word_le_nat_alt prv_def)
  then show "unat (realloc_prev_size ctx c) = (if prv ctx ?c \<in> set fs then ?c - prv ctx ?c else 0)"
    unfolding realloc_prev_size_def fp by (simp add: unat_sub prv_def)
qed

text \<open>
  The state before the final trim: the block at \<open>c\<close> has become the block
  \<open>c1 .. e1\<close>, with its data, and nothing else has changed for the users.
\<close>

definition prepared :: "umm_heap_context \<Rightarrow> nat \<Rightarrow> nat \<Rightarrow> umm_heap_context \<Rightarrow> nat \<Rightarrow> nat \<Rightarrow> bool" where
  "prepared ctx c e ctx1 c1 e1 \<longleftrightarrow>
     (\<exists>B fs. heap_inv ctx1 B fs \<and> used_block ctx1 B fs c1 \<and> nxt ctx1 c1 = e1) \<and>
     live ctx1 = insert (c1, e1) (live ctx - {(c, e)}) \<and> (\<forall>e. (c1, e) \<in> live ctx \<longrightarrow> c1 = c) \<and>
     (\<forall>b e. (b, e) \<in> live ctx \<longrightarrow> b \<noteq> c \<longrightarrow> data_kept ctx ctx1 b e) \<and>
     (\<forall>i < 8 * min (e - c) (e1 - c1) - 4. heap_byte ctx1 (8 * c1 + 4 + i) = heap_byte ctx (8 * c + 4 + i))"

lemmas preparedD =
  iffD1 [OF prepared_def, THEN conjunct1]
  iffD1 [OF prepared_def, THEN conjunct2, THEN conjunct1]
  iffD1 [OF prepared_def, THEN conjunct2, THEN conjunct2, THEN conjunct1]
  iffD1 [OF prepared_def, THEN conjunct2, THEN conjunct2, THEN conjunct2, THEN conjunct1]
  iffD1 [OF prepared_def, THEN conjunct2, THEN conjunct2, THEN conjunct2, THEN conjunct2]

lemma resized_prepared:
  assumes ok: "heap_ok ctx B fs" and c: "used_block ctx B fs c" and r: "resized ctx B fs m c ctx1 c e1"
    and e: "e = nxt ctx c" and m: "m < c \<or> min e e1 \<le> m" and e1: "c < e1"
  shows "prepared ctx c e ctx1 c e1"
proof -
  have "c < e" using bchain_next [OF heap_okD(1) [OF ok], of c] c e by (auto simp: used_block_def)
  then have k: "data_kept ctx ctx1 c (min e e1)"
    using e1 e m by (intro frame_data [OF ok c _ _ _ resizedD(5) [OF r]]) auto
  have "min (e - c) (e1 - c) = min e e1 - c" by auto
  then have "\<forall>i < 8 * min (e - c) (e1 - c) - 4. heap_byte ctx1 (8 * c + 4 + i) = heap_byte ctx (8 * c + 4 + i)"
    using data_kept_bytes [OF k] by simp
  then show ?thesis using resizedD(1-4) [OF r] e unfolding prepared_def by blast
qed

lemma live_fun: "(b, e) \<in> live ctx \<Longrightarrow> (b, e') \<in> live ctx \<Longrightarrow> e = e'"
  by (auto simp: live_def)

lemma prepared_trim:
  assumes ce: "(c, e) \<in> live ctx" and p: "prepared ctx c e ctx1 (unat c1) e1" and k: "0 < unat k" "unat k < e1 - unat c1"
  shows "prepared ctx c e (realloc_trim ctx1 c1 k) (unat c1) (unat c1 + unat k)"
proof -
  let ?c = "unat c1" and ?m = "unat c1 + unat k" and ?r = "realloc_trim ctx1 c1 k"
  obtain B fs where inv: "heap_inv ctx1 B fs" and u: "used_block ctx1 B fs ?c" and e1: "nxt ctx1 ?c = e1"
    using preparedD(1) [OF p] by blast
  note ok = heap_inv_ok [OF inv]
  have r: "resized ctx1 B fs ?m ?c ?r ?c ?m" by (rule trim_resized [OF inv u k(1)]) (use k e1 in \<open>simp add: bsize_def\<close>)
  have q: "prepared ctx1 ?c e1 ?r ?c ?m" by (rule resized_prepared [OF ok u r]) (use e1 k in auto)
  have only: "(?c, e1) \<notin> live ctx - {(c, e)}"
    using preparedD(3) [OF p] live_fun [OF ce] by blast
  have lv: "live ?r = insert (?c, ?m) (live ctx - {(c, e)})"
    unfolding preparedD(2) [OF q] preparedD(2) [OF p] using only by blast
  have kept: "data_kept ctx ?r b e'" if "(b, e') \<in> live ctx" "b \<noteq> c" for b e'
  proof (rule data_kept_trans)
    show "data_kept ctx ctx1 b e'" using preparedD(4) [OF p] that by blast
    have "(b, e') \<in> live ctx1" using preparedD(2) [OF p] that by blast
    moreover have "b \<noteq> ?c" using preparedD(3) [OF p] that by blast
    ultimately show "data_kept ctx1 ?r b e'" using preparedD(4) [OF q] by blast
  qed
  have "heap_byte ?r (8 * ?c + 4 + i) = heap_byte ctx (8 * c + 4 + i)" if "i < 8 * min (e - c) (?m - ?c) - 4" for i
  proof -
    have "i < 8 * min (e1 - ?c) (?m - ?c) - 4" "i < 8 * min (e - c) (e1 - ?c) - 4" using that k by (auto simp: min_def split: if_splits)
    then show ?thesis using preparedD(5) [OF q] preparedD(5) [OF p] by simp
  qed
  then show ?thesis using preparedD(1) [OF q] lv preparedD(3) [OF p] kept unfolding prepared_def by blast
qed

text \<open>Moving the data to the front of the block.\<close>

lemma prepared_move:
  assumes ok: "heap_ok ctx B fs" and c: "used_block ctx B fs c" and e: "e = nxt ctx c"
    and r: "resized ctx B fs m c ctx1 c1 e1" and m: "m < c \<or> e \<le> m" and fits: "e - c \<le> e1 - c1"
  defines "n \<equiv> 8 * (e - c) - 4"
  shows "prepared ctx c e (mem_write (8 * c1 + 4) n (\<lambda>i. heap_byte ctx1 (8 * c + 4 + i)) ctx1) c1 e1"
proof -
  let ?r = "mem_write (8 * c1 + 4) n (\<lambda>i. heap_byte ctx1 (8 * c + 4 + i)) ctx1"
  obtain B1 fs1 where inv: "heap_inv ctx1 B1 fs1" and u: "used_block ctx1 B1 fs1 c1" and e1: "nxt ctx1 c1 = e1"
    using resizedD(1) [OF r] by blast
  have n: "n \<le> 8 * bsize ctx1 c1 - 4" using fits e1 by (simp add: n_def bsize_def)
  note w = mem_write_inv [OF inv u n, where f = "\<lambda>i. heap_byte ctx1 (8 * c + 4 + i)"]
  have ce: "c < e" using bchain_next [OF heap_okD(1) [OF ok], of c] c e by (auto simp: used_block_def)
  have k: "data_kept ctx ctx1 c e" using ce e m by (intro frame_data [OF ok c _ _ _ resizedD(5) [OF r]]) auto
  have bytes: "\<forall>i < 8 * min (e - c) (e1 - c1) - 4. heap_byte ?r (8 * c1 + 4 + i) = heap_byte ctx (8 * c + 4 + i)"
    using data_kept_bytes [OF k] fits by (auto simp: heap_byte_write n_def min_def)
  have "(c1, e1) \<in> live ?r" using resizedD(2) [OF r] w(2) by blast
  then have u': "used_block ?r B1 fs1 c1" "nxt ?r c1 = e1" using live_used [OF heap_inv_ok [OF w(1)]] by auto
  have kept: "data_kept ctx ?r b e'" if "(b, e') \<in> live ctx" "b \<noteq> c" for b e'
  proof (rule data_kept_trans)
    show "data_kept ctx ctx1 b e'" using resizedD(4) [OF r] that by blast
    show "data_kept ctx1 ?r b e'" by (rule w(3)) (use resizedD(2,3) [OF r] that in blast)+
  qed
  show ?thesis using w(1,2) u' resizedD(2,3) [OF r] kept bytes e unfolding prepared_def by blast
qed

lemma of_nat_unat_eq: "n = unat w \<Longrightarrow> of_nat n = w"
  by simp

lemma resized_refl:
  assumes inv: "heap_inv ctx B fs" and c: "used_block ctx B fs c"
  shows "resized ctx B fs 0 c ctx c (nxt ctx c)"
proof -
  have "(c, nxt ctx c) \<in> live ctx" using live_used [OF heap_inv_ok [OF inv]] c by blast
  then have "insert (c, nxt ctx c) (live ctx - {(c, nxt ctx c)}) = live ctx" by blast
  then show ?thesis using inv c unfolding resized_def by (auto simp: data_kept_def)
qed

lemma memmove_offsets:
  assumes "placed ctx" and "c1 < unat (numblocks ctx)" and "c < unat (numblocks ctx)"
  shows "umm_memmove (UMM_DATA ctx c1) (UMM_DATA ctx c) n ctx =
    mem_write (8 * c1 + 4) n (\<lambda>i. heap_byte ctx (8 * c + 4 + i)) ctx"
  unfolding umm_memmove_def placed_offset [OF assms(1,2)] placed_offset [OF assms(1,3)] ..

lemma frame_data_addr: "frame ctx ctx' H F \<Longrightarrow> UMM_DATA ctx' = UMM_DATA ctx \<and> numblocks ctx' = numblocks ctx"
  by (simp add: frame_def same_place_def UMM_DATA_def [abs_def])

text \<open>Strategy 1: the previous block is free.\<close>

lemma grow_prev_resized:
  fixes c c1 blocks :: u16
  assumes inv: "heap_inv ctx B fs" and c: "used_block ctx B fs (unat c)" and e: "e = nxt ctx (unat c)"
    and p: "p = prv ctx (unat c)" "p \<in> set fs" "unat c1 = p"
    and r: "resized ctx B fs 0 (unat c) ctx3 p e" and nx: "nxt ctx3 = (nxt ctx)(p := e)"
    and fs: "\<And>B1 fs1. heap_inv ctx3 B1 fs1 \<Longrightarrow> set fs1 = set fs - {p}"
    and bs: "unat bs = e - p" and k: "0 < unat blocks" "unat blocks \<le> e - p + unat (realloc_next_size ctx c)"
    and res: "realloc_grow_prev ctx3 c1 blocks bs (realloc_next_size ctx c) = (bs2, ctx4)"
  obtains m e4 where "resized ctx B fs m (unat c) ctx4 p e4" and "m < unat c \<or> e \<le> m" and "e \<le> e4"
    and "unat bs2 = e4 - p" and "unat blocks \<le> unat bs2"
proof (cases "unat blocks \<le> e - p")
  case True
  then have "bs2 = bs" "ctx4 = ctx3" using res bs by (auto simp: realloc_grow_prev_def word_le_nat_alt)
  then show thesis using that [of 0 e] r bs True c by (simp add: used_block_def)
next
  case False
  note ok = heap_inv_ok [OF inv]
  note ch = heap_okD(1) [OF ok]
  have cB: "unat c \<in> B" "unat c \<noteq> 0" "unat c \<noteq> UMM_BLOCK_LAST ctx" using c by (auto simp: used_block_def)
  note nc = bchain_next [OF ch cB(1,3), folded e] and pc = bchain_prev [OF ch cB(1,2), folded p(1)]
  define k2 where "k2 = (if e \<in> set fs then bsize ctx e else 0)"
  have nx2: "unat (realloc_next_size ctx c) = k2" using realloc_sizes(2) [OF ok c, folded e] by (simp add: k2_def)
  define ctx5 where "ctx5 = STATS__FREE_BLOCKS_UPDATE (- int k2) (umm_assimilate_up ctx3 c1)"
  have up: "resized ctx3 B1 fs1 0 p ctx5 p (e + k2)"
    if i: "heap_inv ctx3 B1 fs1" and u: "used_block ctx3 B1 fs1 p" and n3: "nxt ctx3 p = e" for B1 fs1
  proof -
    have m: "e \<in> set fs1 \<longleftrightarrow> e \<in> set fs" "bsize ctx3 e = bsize ctx e" using nc pc nx fs [OF i] by (auto simp: bsize_def)
    have "p + bsize ctx3 p = e" using n3 pc nc by (simp add: bsize_def)
    then show ?thesis using grow_up_resized [OF i u [folded p(3)]] unfolding p(3) n3 m k2_def [symmetric] ctx5_def [symmetric] by simp
  qed
  have r5: "resized ctx B fs 0 (unat c) ctx5 p (e + k2)" by (rule resized_trans [OF r up ok])
  have "e < 0x8000" using nc heap_okD(9) [OF ok] by auto
  moreover have "e + bsize ctx e < 0x8000" if "e \<in> set fs"
    using bchain_next [OF ch heap_okD(5) [OF ok that] heap_okD(7) [OF ok that]] heap_okD(9) [OF ok] by (auto simp: bsize_def)
  ultimately have small: "e + k2 < 0x8000" by (simp add: k2_def)
  have b3: "unat (bs + realloc_next_size ctx c) = e + k2 - p"
    using unat_add_u16 [of bs "realloc_next_size ctx c"] bs nx2 small pc nc by simp
  have "\<not> blocks \<le> bs" using False bs by (simp add: word_le_nat_alt)
  then have f: "bs2 = blocks" "ctx4 = (if unat blocks < e + k2 - p then realloc_trim ctx5 c1 blocks else ctx5)"
    using res b3 unfolding realloc_grow_prev_def Let_def nx2 ctx5_def [symmetric] by (auto simp: word_less_nat_alt)
  show thesis
  proof (cases "unat blocks < e + k2 - p")
    case True
    have "resized ctx B fs (p + unat blocks) (unat c) (realloc_trim ctx5 c1 blocks) p (p + unat blocks)"
    proof (rule resized_trans [OF r5 _ ok])
      fix B1 fs1 assume i: "heap_inv ctx5 B1 fs1" "used_block ctx5 B1 fs1 p" "nxt ctx5 p = e + k2"
      show "resized ctx5 B1 fs1 (p + unat blocks) p (realloc_trim ctx5 c1 blocks) p (p + unat blocks)"
        using trim_resized [OF i(1) i(2) [folded p(3)] k(1)] True i(3) by (simp add: p(3) bsize_def)
    qed
    then show thesis using that [of "p + unat blocks" "p + unat blocks"] f True False pc nc by simp
  next
    case nofit: False
    then show thesis using that [of 0 "e + k2"] f r5 k(2) nx2 cB(2) pc nc by simp
  qed
qed

lemma use_prev_prepared:
  fixes c blocks :: u16
  assumes inv: "heap_inv ctx B fs" and c: "used_block ctx B fs (unat c)" and e: "e = nxt ctx (unat c)"
    and p: "prv ctx (unat c) \<in> set fs"
    and k: "0 < unat blocks" "unat blocks \<le> unat (realloc_prev_size ctx c) + bsize ctx (unat c) + unat (realloc_next_size ctx c)"
    and res: "realloc_use_prev ctx (UMM_DATA ctx (unat c)) c blocks (UMM_NBLOCK ctx (unat c) - c)
       (realloc_prev_size ctx c) (realloc_next_size ctx c) (8 * (e - unat c) - 4) = (ptr', c', bs', ctx')"
  shows "ptr' = UMM_DATA ctx (unat c')" and "unat c' = prv ctx (unat c)"
    and "\<exists>e'. prepared ctx (unat c) e ctx' (unat c') e' \<and> unat bs' = e' - unat c' \<and> unat blocks \<le> unat bs'"
proof -
  let ?c = "unat c" and ?p = "prv ctx (unat c)"
  note ok = heap_inv_ok [OF inv]
  note ch = heap_okD(1) [OF ok]
  have cB: "?c \<in> B" "?c \<notin> set fs" "?c \<noteq> 0" "?c \<noteq> UMM_BLOCK_LAST ctx" using c by (auto simp: used_block_def)
  note nc = bchain_next [OF ch cB(1,4), folded e] and pc = bchain_prev [OF ch cB(1,3)]
  have lt: "e < 0x8000" using nc heap_okD(9) [OF ok] by auto
  note sizes = realloc_sizes [OF ok c, folded e]
  have prev: "unat (realloc_prev_size ctx c) = ?c - ?p" using sizes(3) p by simp
  obtain c1 ctx2 where down: "umm_assimilate_down (umm_disconnect_from_free_list ctx (UMM_PBLOCK ctx ?c)) c 0 = (c1, ctx2)"
    by (metis prod.collapse)
  define ctx3 where "ctx3 = STATS__FREE_BLOCKS_UPDATE (- int (?c - ?p)) ctx2"
  note gd = grow_down_resized [OF inv c p down, folded ctx3_def e]
  have c1: "unat c1 = ?p" by (rule gd(1))
  define bs where "bs = UMM_NBLOCK ctx ?c - c + realloc_prev_size ctx c"
  have bs_eq: "unat bs = e - ?p"
  proof -
    have "unat (UMM_NBLOCK ctx ?c - c) + unat (realloc_prev_size ctx c) = e - ?p"
      using sizes(1) prev nc pc by (simp add: bsize_def e)
    then show ?thesis unfolding bs_def
      using unat_add_u16 [of "UMM_NBLOCK ctx ?c - c" "realloc_prev_size ctx c"] lt by simp
  qed
  have k': "unat blocks \<le> e - ?p + unat (realloc_next_size ctx c)"
    using k(2) prev nc pc by (simp add: bsize_def e)
  obtain bs2 ctx4 where four: "realloc_grow_prev ctx3 c1 blocks bs (realloc_next_size ctx c) = (bs2, ctx4)"
    by (metis prod.collapse)
  obtain m e4 where r4: "resized ctx B fs m ?c ctx4 ?p e4" and m: "m < ?c \<or> e \<le> m" and e4: "e \<le> e4"
    and b2: "unat bs2 = e4 - ?p" "unat blocks \<le> unat bs2"
    by (rule grow_prev_resized [OF inv c e refl p c1 gd(2,3) gd(4) bs_eq k(1) k' four])
  note fr = resizedD(5) [OF r4]
  have addr: "UMM_DATA ctx4 = UMM_DATA ctx" "numblocks ctx4 = numblocks ctx" using frame_data_addr [OF fr] by auto
  have pl: "placed ctx4" "?p < unat (numblocks ctx4)" "?c < unat (numblocks ctx4)"
    using placed_frame [OF fr] inv heap_ok_lt [OF ok] cB(1) pc addr by (auto simp: heap_inv_def)
  define ctx5 where "ctx5 = mem_write (8 * ?p + 4) (8 * (e - ?c) - 4) (\<lambda>i. heap_byte ctx4 (8 * ?c + 4 + i)) ctx4"
  have mm: "umm_memmove (UMM_DATA ctx4 ?p) (UMM_DATA ctx ?c) (8 * (e - ?c) - 4) ctx4 = ctx5"
    using memmove_offsets [OF pl] by (simp add: addr ctx5_def)
  have addr5: "UMM_DATA ctx5 = UMM_DATA ctx" by (simp add: ctx5_def addr)
  have "(ptr', c', bs', ctx') = (UMM_DATA ctx ?p, c1, bs2, ctx5)"
    using res unfolding realloc_use_prev_def Let_def down split_conv prev ctx3_def [symmetric] bs_def [symmetric] four c1 mm addr5
    by simp
  then have out: "ptr' = UMM_DATA ctx ?p" "c' = c1" "bs' = bs2" "ctx' = ctx5" by simp_all
  show "ptr' = UMM_DATA ctx (unat c')" "unat c' = prv ctx ?c" by (simp_all add: out c1)
  have "prepared ctx ?c e ctx5 ?p e4" unfolding ctx5_def
    by (rule prepared_move [OF ok c e r4 m]) (use e4 pc nc in linarith)
  then show "\<exists>e'. prepared ctx ?c e ctx' (unat c') e' \<and> unat bs' = e' - unat c' \<and> unat blocks \<le> unat bs'"
    using b2 by (auto simp: out c1)
qed

text \<open>Strategy 4: a new block.\<close>

lemma new_prepared:
  assumes inv: "heap_inv ctx B fs" and ce: "(c, e) \<in> live ctx" and big: "e - c < unat (umm_blocks sz)"
    and fit: "(z, y) \<in> avail ctx" "unat (umm_blocks sz) \<le> y - z"
  obtains c' ctx' where "realloc_new ctx (UMM_DATA ctx c) sz (8 * (e - c) - 4) = Some (UMM_DATA ctx c', ctx')"
    and "UMM_DATA ctx c' \<noteq> 0" and "prepared ctx c e ctx' c' (c' + unat (umm_blocks sz))"
proof -
  let ?k = "unat (umm_blocks sz)" and ?n = "8 * (e - c) - 4"
  note ok = heap_inv_ok [OF inv]
  obtain c' ctx1 B1 fs1 where m: "umm_malloc_core ctx sz = Some (UMM_DATA ctx c', ctx1)" "UMM_DATA ctx c' \<noteq> 0"
    "moves ctx B fs ctx1 B1 fs1" "live ctx1 = insert (c', c' + ?k) (live ctx)" "(c', nxt ctx c') \<in> avail ctx"
    "\<forall>(b, e) \<in> live ctx. data_kept ctx ctx1 b e"
    by (rule malloc_core_inv [OF inv fit])
  have inv1: "heap_inv ctx1 B1 fs1" and fr: "frame ctx ctx1 (B \<union> B1) (insert 0 (set fs \<union> set fs1))"
    using m(3) by (simp_all add: moves_def)
  have addr: "UMM_DATA ctx1 = UMM_DATA ctx" "numblocks ctx1 = numblocks ctx" using frame_data_addr [OF fr] by auto
  have new: "(c', x) \<notin> live ctx" for x using m(5) by (auto simp: live_def avail_def)
  have u1: "used_block ctx1 B1 fs1 c'" "nxt ctx1 c' = c' + ?k" "used_block ctx1 B1 fs1 c" "nxt ctx1 c = e"
    using live_used [OF heap_inv_ok [OF inv1], of c' "c' + ?k"] live_used [OF heap_inv_ok [OF inv1], of c e] m(4) ce by auto
  have lt: "c' < unat (numblocks ctx1)" "c < unat (numblocks ctx1)" "placed ctx1"
    using u1 heap_ok_lt [OF heap_inv_ok [OF inv1]] inv1 by (auto simp: used_block_def heap_inv_def)
  define f where "f = (\<lambda>i. heap_byte ctx1 (8 * c + 4 + i))"
  define ctx2 where "ctx2 = mem_write (8 * c' + 4) ?n f ctx1"
  have mm: "umm_memmove (UMM_DATA ctx c') (UMM_DATA ctx c) ?n ctx1 = ctx2"
    using memmove_offsets [OF lt(3,1,2)] by (simp add: ctx2_def f_def addr)
  have "?n \<le> 8 * bsize ctx1 c' - 4" using u1(2) big by (simp add: bsize_def)
  note w = mem_write_inv [OF inv1 u1(1) this, where f = f, folded ctx2_def]
  have u2: "used_block ctx2 B1 fs1 c" "nxt ctx2 c = e"
    using live_used [OF heap_inv_ok [OF w(1)], of c e] w(2) m(4) ce by auto
  have addr2: "UMM_DATA ctx2 = UMM_DATA ctx" by (simp add: ctx2_def addr)
  obtain B' fs' where r: "moves ctx2 B1 fs1 (umm_free_core ctx2 (UMM_DATA ctx2 c)) B' fs'" "B' \<subseteq> B1"
    "set fs' \<subseteq> insert c (set fs1)" "live (umm_free_core ctx2 (UMM_DATA ctx2 c)) = live ctx2 - {(c, nxt ctx2 c)}"
    by (rule free_core_inv [OF w(1) u2(1)])
  define r where "r = umm_free_core ctx2 (UMM_DATA ctx2 c)"
  note r = r [folded r_def, unfolded u2(2)]
  have cc: "c' \<noteq> c" using new ce by blast
  have lv: "live r = insert (c', c' + ?k) (live ctx - {(c, e)})" unfolding r(4) w(2) m(4) using cc by blast
  have kept2: "data_kept ctx2 r b x" if "(b, x) \<in> live ctx2" "b \<noteq> c" for b x
  proof (rule moves_data [OF r(1) heap_inv_ok [OF w(1)] that(1)])
    show "b \<notin> set fs'" using r(3) that live_used [OF heap_inv_ok [OF w(1)]] by (auto simp: used_block_def)
  qed (use r(2) in auto)
  have kept: "data_kept ctx r b x" if "(b, x) \<in> live ctx" "b \<noteq> c" for b x
  proof (rule data_kept_trans [OF _ data_kept_trans])
    show "data_kept ctx ctx1 b x" using m(6) that by blast
    show "data_kept ctx1 ctx2 b x" by (rule w(3)) (use that m(4) new in auto)
    show "data_kept ctx2 r b x" by (rule kept2) (use that w(2) m(4) in auto)
  qed
  have k': "data_kept ctx2 r c' (c' + ?k)" by (rule kept2) (use w(2) m(4) cc in auto)
  have bytes: "heap_byte r (8 * c' + 4 + i) = heap_byte ctx (8 * c + 4 + i)" if "i < 8 * min (e - c) (c' + ?k - c') - 4" for i
  proof -
    have i: "i < 8 * (c' + ?k - c') - 4" "i < ?n" using that big by (auto simp: min_def split: if_splits)
    have "heap_byte r (8 * c' + 4 + i) = heap_byte ctx2 (8 * c' + 4 + i)" by (rule data_kept_bytes [OF k' i(1)])
    also have "\<dots> = heap_byte ctx1 (8 * c + 4 + i)" using i(2) by (auto simp: ctx2_def heap_byte_write f_def)
    also have "\<dots> = heap_byte ctx (8 * c + 4 + i)" using m(6) ce i(2) data_kept_bytes by blast
    finally show ?thesis .
  qed
  have inv': "heap_inv r B' fs'" using r(1) by (simp add: moves_def)
  then have "used_block r B' fs' c' \<and> nxt r c' = c' + ?k" using live_used [OF heap_inv_ok [OF inv'], of c' "c' + ?k"] unfolding lv by auto
  then have "\<exists>B fs. heap_inv r B fs \<and> used_block r B fs c' \<and> nxt r c' = c' + ?k" using inv' by blast
  then have "prepared ctx c e r c' (c' + ?k)" unfolding prepared_def using lv new kept bytes by simp
  moreover have "realloc_new ctx (UMM_DATA ctx c) sz ?n = Some (UMM_DATA ctx c', r)"
    using m(1,2) by (simp add: realloc_new_def mm r_def addr2)
  ultimately show ?thesis using that m(2) by blast
qed

section \<open>The contract of realloc\<close>

lemma realloc_core_spec:
  assumes inv: "heap_inv ctx B fs" and ce: "(c, e) \<in> live ctx"
  shows "umm_realloc_core ctx (UMM_DATA ctx c) sz = Some (0, STATS__OOM_UPDATE ctx) \<and>
      (\<forall>z y. (z, y) \<in> avail ctx \<longrightarrow> y - z < unat (umm_blocks sz)) \<or>
    (\<exists>c' ctx'. umm_realloc_core ctx (UMM_DATA ctx c) sz = Some (UMM_DATA ctx c', ctx') \<and> UMM_DATA ctx c' \<noteq> 0 \<and>
      prepared ctx c e ctx' c' (c' + unat (umm_blocks sz)))"
proof -
  let ?k = "umm_blocks sz"
  note ok = heap_inv_ok [OF inv]
  have u: "used_block ctx B fs c" and e: "e = nxt ctx c" using ce live_used [OF ok] by auto
  have cB: "c \<in> B" "c \<noteq> UMM_BLOCK_LAST ctx" using u by (auto simp: used_block_def)
  have pl: "placed ctx" "c < unat (numblocks ctx)" using inv heap_ok_lt [OF ok cB(1)] by (auto simp: heap_inv_def)
  define w :: u16 where "w = of_nat c"
  have w: "unat w = c" unfolding w_def using heap_okD(9) [OF ok cB(1)] by (intro unat_of_nat_u16) simp
  have bp: "block_of_ptr ctx (UMM_DATA ctx c) = w" unfolding w_def by (rule placed_addr(5) [OF pl])
  note nc = bchain_next [OF heap_okD(1) [OF ok] cB, folded e]
  note sizes = realloc_sizes [OF ok u [folded w], unfolded w, folded e]
  let ?bs = "UMM_NBLOCK ctx c - w" and ?nb = "realloc_next_size ctx w" and ?pb = "realloc_prev_size ctx w"
  have cur: "unat ?bs * umm_block_size - umm_header_size = 8 * (e - c) - 4"
    using sizes(1) by (simp add: bsize_def e [symmetric] umm_block_size_def umm_header_size_def)
  have kp: "0 < unat ?k" by (rule umm_blocks_pos)
  have finish: ?thesis if main: "umm_realloc_core ctx (UMM_DATA ctx c) sz =
      Some (UMM_DATA ctx (unat c1), if ?k < bs1 then realloc_trim ctx1 c1 ?k else ctx1)"
    and p: "prepared ctx c e ctx1 (unat c1) e1" and b: "unat bs1 = e1 - unat c1" "unat ?k \<le> unat bs1" and lt: "unat c1 \<in> B"
    for c1 bs1 ctx1 e1
  proof -
    let ?r = "if ?k < bs1 then realloc_trim ctx1 c1 ?k else ctx1"
    have "prepared ctx c e ?r (unat c1) (unat c1 + unat ?k)"
    proof (cases "?k < bs1")
      case True
      then show ?thesis using prepared_trim [OF ce p kp] b by (simp add: word_less_nat_alt)
    next
      case False
      then have "e1 = unat c1 + unat ?k" using b kp by (simp add: word_less_nat_alt)
      then show ?thesis using p False by simp
    qed
    moreover have "UMM_DATA ctx (unat c1) \<noteq> 0" by (rule placed_addr(2) [OF pl(1) heap_ok_lt [OF ok lt]])
    ultimately show ?thesis using main by blast
  qed
  note core = umm_realloc_core_def [of ctx "UMM_DATA ctx c" sz, unfolded bp Let_def w cur]
  show ?thesis
  proof (cases "?pb \<noteq> 0 \<and> unat ?k \<le> unat ?pb + unat ?bs + unat ?nb")
    case True
    then have p: "prv ctx c \<in> set fs" using sizes(3) by (metis unat_0 unsigned_word_eqI)
    obtain ptr' c' bs' ctx' where res: "realloc_use_prev ctx (UMM_DATA ctx c) w ?k ?bs ?pb ?nb (8 * (e - c) - 4) = (ptr', c', bs', ctx')"
      by (metis prod.collapse)
    have k2: "unat ?k \<le> unat ?pb + bsize ctx c + unat ?nb" using True sizes(1) by simp
    note up = use_prev_prepared [of ctx B fs w e ?k ptr' c' bs' ctx', unfolded w, OF inv u e p kp k2 res]
    have "umm_realloc_core ctx (UMM_DATA ctx c) sz = Some (UMM_DATA ctx (unat c'), if ?k < bs' then realloc_trim ctx' c' ?k else ctx')"
      using True res up(1) by (simp add: core)
    then show ?thesis using up(2,3) bchain_prev [OF heap_okD(1) [OF ok] cB(1)] u finish [of c' bs' ctx'] by (auto simp: used_block_def)
  next
    case noprev: False
    show ?thesis
    proof (cases "?k \<le> ?bs")
      case True
      then have "umm_realloc_core ctx (UMM_DATA ctx c) sz = Some (UMM_DATA ctx (unat w), if ?k < ?bs then realloc_trim ctx w ?k else ctx)"
        using noprev by (auto simp: core w)
      moreover have "prepared ctx c e ctx (unat w) e" unfolding w
        by (rule resized_prepared [OF ok u, of 0]) (use resized_refl [OF inv u] e nc u in \<open>auto simp: used_block_def\<close>)
      ultimately show ?thesis
        by (rule finish) (use sizes(1) True cB(1) w e in \<open>auto simp: bsize_def word_le_nat_alt\<close>)
    next
      case nosame: False
      show ?thesis
      proof (cases "unat ?k \<le> unat ?bs + unat ?nb")
        case True
        define ctx1 where "ctx1 = STATS__FREE_BLOCKS_UPDATE (- int (unat ?nb)) (umm_assimilate_up ctx w)"
        let ?e1 = "c + bsize ctx c + unat ?nb"
        have "umm_realloc_core ctx (UMM_DATA ctx c) sz =
            Some (UMM_DATA ctx (unat w), if ?k < ?bs + ?nb then realloc_trim ctx1 w ?k else ctx1)"
          using noprev nosame True by (auto simp: core w ctx1_def)
        moreover have "resized ctx B fs 0 c ctx1 c ?e1"
          using grow_up_resized [OF inv u [folded w]] unfolding w e [symmetric] sizes(2) [symmetric] ctx1_def by simp
        then have "prepared ctx c e ctx1 (unat w) ?e1" unfolding w
          by (rule resized_prepared [OF ok u]) (use e nc u in \<open>auto simp: used_block_def bsize_def\<close>)
        ultimately show ?thesis
        proof (rule finish)
          have "e < 0x8000" using nc heap_okD(9) [OF ok] by blast
          then have "unat ?bs < 0x8000" using sizes(1) by (simp add: bsize_def e [symmetric])
          moreover have "bsize ctx e < 0x8000" if "e \<in> set fs"
            using bchain_next [OF heap_okD(1) [OF ok] heap_okD(5,7) [OF ok that]] heap_okD(9) [OF ok, of "nxt ctx e"]
            by (simp add: bsize_def)
          then have "unat ?nb < 0x8000" using sizes(2) by simp
          ultimately have "unat ?bs + unat ?nb < 0x10000" by simp
          then show "unat (?bs + ?nb) = ?e1 - unat w" "unat ?k \<le> unat (?bs + ?nb)"
            using unat_add_u16 [of ?bs ?nb] sizes(1) True w by simp_all
        qed (use w cB in simp)
      next
        case nonext: False
        have res: "umm_realloc_core ctx (UMM_DATA ctx c) sz = realloc_new ctx (UMM_DATA ctx c) sz (8 * (e - c) - 4)"
          using noprev nosame nonext by (cases "realloc_new ctx (UMM_DATA ctx c) sz (8 * (e - c) - 4)") (auto simp: core)
        have big: "e - c < unat ?k" using nosame sizes(1) by (simp add: word_le_nat_alt bsize_def e)
        show ?thesis
        proof (cases "\<exists>z y. (z, y) \<in> avail ctx \<and> unat ?k \<le> y - z")
          case True
          then show ?thesis using new_prepared [OF inv ce big] res by metis
        next
          case False
          then have "umm_malloc_core ctx sz = Some (0, STATS__OOM_UPDATE ctx)"
            by (intro malloc_core_oom [OF ok]) (simp add: not_le)
          then show ?thesis using False res by (simp add: realloc_new_def not_le)
        qed
      qed
    qed
  qed
qed


section \<open>Sizes\<close>

lemma umm_blocks_eq: "unat (umm_blocks sz) = min 0x7FFF (max 1 ((unat sz + 11) div 8))"
proof (cases "unat sz \<le> 4")
  case False
  then have "5 \<le> sz" by (simp add: word_le_nat_alt)
  then have "unat (sz - 4 - 1) = unat sz - 5" by (simp add: unat_sub)
  moreover have "2 + (unat sz - 5) div 8 = (unat sz + 11) div 8" using False by linarith
  ultimately show ?thesis using False
    by (simp add: umm_blocks_def umm_body_size_def umm_block_size_def Let_def unat_of_nat_u16 min_def)
qed (simp add: umm_blocks_def umm_body_size_def)

text \<open>
  the number of blocks of a request is the least number whose data area,
  all bytes but the first block's header, holds the request, cut off at the
  largest block number.
\<close>

lemma umm_blocks_least:
  "(umm_blocks sz = 0x7FFF \<or> unat sz \<le> 8 * unat (umm_blocks sz) - 4) \<and>
   0 < unat (umm_blocks sz) \<and> (\<forall>n. 0 < n \<and> n < unat (umm_blocks sz) \<longrightarrow> 8 * n - 4 < unat sz)"
proof -
  have "umm_blocks sz = 0x7FFF \<longleftrightarrow> unat (umm_blocks sz) = 0x7FFF" by (simp add: word_unat_eq_iff)
  then show ?thesis by (auto simp: umm_blocks_eq min_def max_def split: if_splits)
qed

lemma umm_blocks_least_witness: "umm_blocks 13 = 3 \<and> (8 * 2 - 4 :: nat) < 13"
  using umm_blocks_least [of 13] by (simp add: umm_blocks_def umm_body_size_def umm_block_size_def)

lemma live_capacity:
  assumes "heap_inv ctx B fs" and "(c, c + unat (umm_blocks sz)) \<in> live ctx"
  shows "unat sz \<le> 8 * unat (umm_blocks sz) - 4"
proof -
  note ok = heap_inv_ok [OF assms(1)]
  have u: "used_block ctx B fs c" "nxt ctx c = c + unat (umm_blocks sz)" using assms(2) live_used [OF ok] by auto
  then have "c + unat (umm_blocks sz) < 0x8000" "0 < c"
    using bchain_next [OF heap_okD(1) [OF ok], of c] heap_okD(9) [OF ok, of "nxt ctx c"] by (auto simp: used_block_def)
  then have "unat (umm_blocks sz) \<noteq> 0x7FFF" by linarith
  then show ?thesis by (auto simp: umm_blocks_eq min_def max_def split: if_splits)
qed

lemma umul_sat_eq: "unat (umm_umul_sat a b) = min (2 ^ 32 - 1) (unat a * unat b)"
proof -
  have "unat (a * b) = unat a * unat b" if "unat a * unat b < 2 ^ 32" using that by (simp add: unat_mult_lem [THEN iffD1])
  then show ?thesis by (auto simp: umm_umul_sat_def min_def)
qed

lemma uadd_sat_eq: "unat (umm_uadd_sat a b) = min (2 ^ 32 - 1) (unat a + unat b)"
proof (cases "unat a + unat b < 2 ^ 32")
  case True
  then have "unat (a + b) = unat a + unat b" by (simp add: unat_add_lem [THEN iffD1])
  with True show ?thesis by (simp add: umm_uadd_sat_def Let_def word_less_nat_alt)
next
  case False
  then have "unat (a + b) = unat a + unat b - 2 ^ 32" using unat_bound [of a] unat_bound [of b]
    by (simp add: unat_word_ariths mod_if)
  then have "a + b < a" using False unat_bound [of b] by (simp add: word_less_nat_alt)
  with False show ?thesis by (simp add: umm_uadd_sat_def)
qed

text \<open>
  the saturating product and sum used on request sizes are the exact ones
  whenever those fit in 32 bits, and the largest value otherwise.
\<close>

lemma umm_sat_exact:
  "unat (umm_umul_sat a b) = min (2 ^ 32 - 1) (unat a * unat b) \<and>
   unat (umm_uadd_sat a b) = min (2 ^ 32 - 1) (unat a + unat b)"
  by (simp only: umul_sat_eq uadd_sat_eq simp_thms)

section \<open>Properties\<close>

lemma oom_same [simp]:
  "heap_inv (STATS__OOM_UPDATE ctx) B fs = heap_inv ctx B fs" "umm_inv (STATS__OOM_UPDATE ctx) = umm_inv ctx"
  by (simp_all add: umm_inv_def heap_inv_def placed_def free_total_def bsize_def)


lemma live_heap_address:
  assumes inv: "heap_inv ctx B fs" and c: "(c, e) \<in> live ctx"
  shows "UMM_DATA ctx c \<noteq> 0" and "umm_get_ptr_context ctx (UMM_DATA ctx c) = Inr ctx"
proof -
  note ok = heap_inv_ok [OF inv]
  have "placed ctx" "c < unat (numblocks ctx)"
    using inv c live_used [OF ok] heap_ok_lt [OF ok] by (auto simp: heap_inv_def used_block_def)
  then show "UMM_DATA ctx c \<noteq> 0" "umm_get_ptr_context ctx (UMM_DATA ctx c) = Inr ctx"
    by (simp_all add: placed_addr(2,6) umm_get_ptr_context_def)
qed

lemma malloc13:
  obtains c ctx where "umm_malloc heap10 13 = Some (UMM_DATA ctx c, ctx)" and "umm_inv ctx" and "live ctx = {(c, c + 3)}"
proof -
  obtain B fs where inv: "heap_inv heap10 B fs" using heap10_inv(1) by (auto simp: umm_inv_def)
  have k: "unat (umm_blocks 13) = 3" by (simp add: umm_blocks_eq)
  have "(1, 9) \<in> avail heap10" "unat (umm_blocks 13) \<le> 9 - 1" by (simp_all add: heap10_inv k)
  from malloc_core_inv [OF inv this] obtain c ctx B' fs' where
    m: "umm_malloc_core heap10 13 = Some (UMM_DATA heap10 c, ctx)" "moves heap10 B fs ctx B' fs'"
    "live ctx = insert (c, c + unat (umm_blocks 13)) (live heap10)" by metis
  have "frame heap10 ctx (B \<union> B') (insert 0 (set fs \<union> set fs'))" using m(2) by (simp add: moves_def)
  then have "UMM_DATA ctx c = UMM_DATA heap10 c" using frame_data_addr by simp
  then show thesis using that [of ctx c] m(1,3) moves_inv [OF m(2)] by (simp add: umm_malloc_def heap10_inv k)
qed

lemma realloc_spec:
  assumes "umm_inv ctx" and ce: "(c, e) \<in> live ctx" and sz: "sz \<noteq> 0"
  shows "umm_realloc ctx (UMM_DATA ctx c) sz = Some (Inr (0, STATS__OOM_UPDATE ctx)) \<and>
      (\<forall>(z, y) \<in> avail ctx. y - z < unat (umm_blocks sz)) \<or>
    (\<exists>c' ctx'. umm_realloc ctx (UMM_DATA ctx c) sz = Some (Inr (UMM_DATA ctx c', ctx')) \<and> UMM_DATA ctx c' \<noteq> 0 \<and>
      umm_inv ctx' \<and> live ctx' = insert (c', c' + unat (umm_blocks sz)) (live ctx - {(c, e)}) \<and>
      unat sz \<le> 8 * unat (umm_blocks sz) - 4 \<and>
      (\<forall>(b, x) \<in> live ctx - {(c, e)}. b \<noteq> c' \<and> data_kept ctx ctx' b x) \<and>
      (\<forall>i < 8 * min (e - c) (unat (umm_blocks sz)) - 4. heap_byte ctx' (8 * c' + 4 + i) = heap_byte ctx (8 * c + 4 + i)))"
proof -
  obtain B fs where inv: "heap_inv ctx B fs" using assms(1) by (auto simp: umm_inv_def)
  have eq: "umm_realloc ctx (UMM_DATA ctx c) sz = map_option Inr (umm_realloc_core ctx (UMM_DATA ctx c) sz)"
    using live_heap_address [OF inv ce] sz by (simp add: umm_realloc_def)
  consider (oom) "umm_realloc_core ctx (UMM_DATA ctx c) sz = Some (0, STATS__OOM_UPDATE ctx)"
      "\<forall>z y. (z, y) \<in> avail ctx \<longrightarrow> y - z < unat (umm_blocks sz)"
    | (got) c' ctx' where "umm_realloc_core ctx (UMM_DATA ctx c) sz = Some (UMM_DATA ctx c', ctx')" "UMM_DATA ctx c' \<noteq> 0"
      "prepared ctx c e ctx' c' (c' + unat (umm_blocks sz))"
    using realloc_core_spec [OF inv ce] by blast
  then show ?thesis
  proof cases
    case oom
    then show ?thesis by (auto simp: eq)
  next
    case got
    note p = preparedD [OF got(3)]
    obtain B' fs' where inv': "heap_inv ctx' B' fs'" using p(1) by blast
    have "(c', c' + unat (umm_blocks sz)) \<in> live ctx'" using p(2) by blast
    then have "unat sz \<le> 8 * unat (umm_blocks sz) - 4" by (rule live_capacity [OF inv'])
    moreover have "b \<noteq> c' \<and> data_kept ctx ctx' b x" if "(b, x) \<in> live ctx - {(c, e)}" for b x
      using that p(3,4) live_fun [OF ce] by blast
    ultimately show ?thesis using p(2,5) inv' got(1,2) unfolding eq umm_inv_def by auto
  qed
qed

text \<open>
  C9: reallocating a block in use either returns \<open>NULL\<close>, and then no free block is
  large enough and nothing but the out-of-memory counter has changed, or returns a block of
  exactly the computed size that holds the request, in place of the old one,
  with the old contents up to the smaller of the two sizes; in both cases the
  invariant holds and all other blocks in use keep their place and their data.
\<close>

theorem umm_realloc_resizes:
  assumes "umm_inv ctx" and ce: "(c, e) \<in> live ctx" and sz: "sz \<noteq> 0"
  shows "umm_realloc ctx (UMM_DATA ctx c) sz = Some (Inr (0, STATS__OOM_UPDATE ctx)) \<and>
      (\<forall>(z, y) \<in> avail ctx. y - z < unat (umm_blocks sz)) \<or>
    (\<exists>c' ctx'. umm_realloc ctx (UMM_DATA ctx c) sz = Some (Inr (UMM_DATA ctx c', ctx')) \<and> UMM_DATA ctx c' \<noteq> 0 \<and>
      umm_inv ctx' \<and> live ctx' = insert (c', c' + unat (umm_blocks sz)) (live ctx - {(c, e)}) \<and>
      unat sz \<le> 8 * unat (umm_blocks sz) - 4 \<and>
      (\<forall>(b, x) \<in> live ctx - {(c, e)}. b \<noteq> c' \<and> data_kept ctx ctx' b x) \<and>
      (\<forall>i < 8 * min (e - c) (unat (umm_blocks sz)) - 4. heap_byte ctx' (8 * c' + 4 + i) = heap_byte ctx (8 * c + 4 + i)))"
  by (rule realloc_spec [OF assms])

theorem umm_realloc_resizes_witness:
  "\<exists>c ctx r. umm_malloc heap10 13 = Some (UMM_DATA ctx c, ctx) \<and> umm_realloc ctx (UMM_DATA ctx c) 30 = Some (Inr r) \<and> umm_inv (snd r)"
proof -
  obtain c ctx where m: "umm_malloc heap10 13 = Some (UMM_DATA ctx c, ctx)" "umm_inv ctx" "live ctx = {(c, c + 3)}"
    by (rule malloc13)
  have "(c, c + 3) \<in> live ctx" using m(3) by simp
  from umm_realloc_resizes [OF m(2) this, of 30]
  have "\<exists>p ctx'. umm_realloc ctx (UMM_DATA ctx c) 30 = Some (Inr (p, ctx')) \<and> umm_inv ctx'"
    using m(2) by auto
  then show ?thesis using m(1) by fastforce
qed

text \<open>
  \<open>umm_realloc\<close> of a block in use to size 0 releases it and returns \<open>NULL\<close>, on a
  null pointer it is \<open>umm_malloc\<close>, and on an address outside the heap it aborts
  with the heap untouched.
\<close>

lemma umm_realloc_edge_cases:
  assumes inv: "umm_inv ctx" and ce: "(c, e) \<in> live ctx"
  shows "(\<exists>ctx'. umm_realloc ctx (UMM_DATA ctx c) 0 = Some (Inr (0, ctx')) \<and> umm_inv ctx' \<and> live ctx' = live ctx - {(c, e)}) \<and>
    umm_realloc ctx 0 sz = map_option Inr (umm_malloc ctx sz) \<and>
    (heap_end ctx \<le> ptr \<and> ptr \<noteq> 0 \<longrightarrow> umm_realloc ctx ptr sz = Some (Inl (NotHeapAddress ptr)))"
proof -
  obtain B fs where inv': "heap_inv ctx B fs" using inv by (auto simp: umm_inv_def)
  note a = live_heap_address [OF inv' ce]
  have u: "used_block ctx B fs c" "e = nxt ctx c" using ce live_used [OF heap_inv_ok [OF inv']] by auto
  obtain B' fs' where r: "moves ctx B fs (umm_free_core ctx (UMM_DATA ctx c)) B' fs'"
    "live (umm_free_core ctx (UMM_DATA ctx c)) = live ctx - {(c, nxt ctx c)}"
    by (rule free_core_inv [OF inv' u(1)])
  have "umm_realloc ctx (UMM_DATA ctx c) 0 = Some (Inr (0, umm_free_core ctx (UMM_DATA ctx c)))"
    using a by (simp add: umm_realloc_def umm_free_def)
  moreover have "umm_inv (umm_free_core ctx (UMM_DATA ctx c))" by (rule moves_inv [OF r(1)])
  moreover have "umm_realloc ctx ptr sz = Some (Inl (NotHeapAddress ptr))" if "heap_end ctx \<le> ptr" "ptr \<noteq> 0"
    using that by (auto simp: umm_realloc_def umm_get_ptr_context_def test_ptr_context_def)
  ultimately show ?thesis using r(2) u(2) by (simp add: umm_realloc_def)
qed

lemma umm_realloc_edge_cases_witness:
  "\<exists>c ctx ctx'. umm_malloc heap10 13 = Some (UMM_DATA ctx c, ctx) \<and>
    umm_realloc ctx (UMM_DATA ctx c) 0 = Some (Inr (0, ctx')) \<and> live ctx' = {}"
proof -
  obtain c ctx where m: "umm_malloc heap10 13 = Some (UMM_DATA ctx c, ctx)" "umm_inv ctx" "live ctx = {(c, c + 3)}"
    by (rule malloc13)
  have "(c, c + 3) \<in> live ctx" using m(3) by simp
  from umm_realloc_edge_cases [OF m(2) this, of 0 0]
  have "\<exists>ctx'. umm_realloc ctx (UMM_DATA ctx c) 0 = Some (Inr (0, ctx')) \<and> live ctx' = {}" using m(3) by auto
  then show ?thesis using m(1) by blast
qed

lemma calloc_spec:
  assumes "umm_inv ctx" and nz: "num \<noteq> 0" "item_size \<noteq> 0"
  shows "umm_calloc ctx num item_size = Some (0, STATS__OOM_UPDATE ctx) \<or>
    (\<exists>c k ctx'. umm_calloc ctx num item_size = Some (UMM_DATA ctx c, ctx') \<and> UMM_DATA ctx c \<noteq> 0 \<and> umm_inv ctx' \<and>
      live ctx' = insert (c, c + k) (live ctx) \<and> c \<notin> fst ` live ctx \<and> unat num * unat item_size \<le> 8 * k - 4 \<and>
      (\<forall>i < unat num * unat item_size. heap_byte ctx' (8 * c + 4 + i) = 0) \<and> (\<forall>(b, e) \<in> live ctx. data_kept ctx ctx' b e))"
proof -
  obtain B fs where inv: "heap_inv ctx B fs" using assms(1) by (auto simp: umm_inv_def)
  define sz where "sz = umm_umul_sat num item_size"
  let ?k = "unat (umm_blocks sz)"
  have un: "0 < unat num" "0 < unat item_size" using nz by (simp_all add: unat_gt_0)
  have prod: "unat sz = min (2 ^ 32 - 1) (unat num * unat item_size)" unfolding sz_def by (rule umul_sat_eq)
  then have sz0: "sz \<noteq> 0" using un by (auto simp: word_unat_eq_iff min_def)
  have eq: "umm_malloc ctx sz = umm_malloc_core ctx sz" using sz0 by (simp add: umm_malloc_def)
  show ?thesis
  proof (cases "\<exists>z y. (z, y) \<in> avail ctx \<and> ?k \<le> y - z")
    case False
    then have "umm_malloc_core ctx sz = Some (0, STATS__OOM_UPDATE ctx)"
      by (intro malloc_core_oom [OF heap_inv_ok [OF inv]]) (simp add: not_le)
    then show ?thesis by (simp add: umm_calloc_def sz_def [symmetric] eq)
  next
    case True
    then obtain z y where fit: "(z, y) \<in> avail ctx" "?k \<le> y - z" by blast
    obtain c ctx1 B1 fs1 where m: "umm_malloc_core ctx sz = Some (UMM_DATA ctx c, ctx1)" "UMM_DATA ctx c \<noteq> 0"
      "moves ctx B fs ctx1 B1 fs1" "live ctx1 = insert (c, c + ?k) (live ctx)" "(c, nxt ctx c) \<in> avail ctx"
      "\<forall>(b, e) \<in> live ctx. data_kept ctx ctx1 b e"
      by (rule malloc_core_inv [OF inv fit])
    have inv1: "heap_inv ctx1 B1 fs1" and fr: "frame ctx ctx1 (B \<union> B1) (insert 0 (set fs \<union> set fs1))"
      using m(3) by (simp_all add: moves_def)
    have u: "used_block ctx1 B1 fs1 c" "nxt ctx1 c = c + ?k"
      using live_used [OF heap_inv_ok [OF inv1], of c "c + ?k"] m(4) by auto
    have cap: "unat sz \<le> 8 * ?k - 4" by (rule live_capacity [OF inv1]) (use m(4) in blast)
    moreover have "?k \<le> 0x7FFF" by (simp add: umm_blocks_eq)
    ultimately have szn: "unat sz = unat num * unat item_size" using prod by (simp add: min_def split: if_splits)
    have pl: "placed ctx1" "c < unat (numblocks ctx1)"
      using u heap_ok_lt [OF heap_inv_ok [OF inv1]] inv1 by (auto simp: used_block_def heap_inv_def)
    define ctx2 where "ctx2 = mem_write (8 * c + 4) (unat sz) (\<lambda>_. 0) ctx1"
    have ms: "umm_memset (UMM_DATA ctx c) 0 (unat sz) ctx1 = ctx2"
      using placed_offset [OF pl] frame_data_addr [OF fr] by (simp add: umm_memset_def ctx2_def)
    have "unat sz \<le> 8 * bsize ctx1 c - 4" using cap u by (simp add: bsize_def)
    note w = mem_write_inv [OF inv1 u(1) this, where f = "\<lambda>_. 0", folded ctx2_def]
    have new: "c \<notin> fst ` live ctx" using m(5) by (auto simp: live_def avail_def)
    have kept: "data_kept ctx ctx2 b e" if be: "(b, e) \<in> live ctx" for b e
    proof (rule data_kept_trans)
      show "data_kept ctx ctx1 b e" using m(6) be by blast
      show "data_kept ctx1 ctx2 b e" by (rule w(3)) (use be m(4) new in force)+
    qed
    have zero: "heap_byte ctx2 (8 * c + 4 + i) = 0" if "i < unat num * unat item_size" for i
      using that szn by (simp add: ctx2_def heap_byte_write)
    have "umm_calloc ctx num item_size = Some (UMM_DATA ctx c, ctx2)"
      using m(1,2) by (simp add: umm_calloc_def sz_def [symmetric] eq ms)
    moreover have "umm_inv ctx2" using w(1) by (auto simp: umm_inv_def)
    ultimately show ?thesis using m(2) w(2) [unfolded m(4)] new cap szn kept zero
      by (intro disjI2 exI [of _ c] exI [of _ ?k] exI [of _ ctx2] conjI) auto
  qed
qed

text \<open>
  \<open>umm_calloc\<close> of a non-empty array either returns \<open>NULL\<close> with nothing but the
  out-of-memory counter changed, or a new block that holds all \<open>num * item_size\<close>
  bytes, the product taken without wrap-around, all of them zero; blocks in use
  keep their place and their data.
\<close>

lemma umm_calloc_zeroes:
  assumes "umm_inv ctx" and nz: "num \<noteq> 0" "item_size \<noteq> 0"
  shows "umm_calloc ctx num item_size = Some (0, STATS__OOM_UPDATE ctx) \<or>
    (\<exists>c k ctx'. umm_calloc ctx num item_size = Some (UMM_DATA ctx c, ctx') \<and> UMM_DATA ctx c \<noteq> 0 \<and> umm_inv ctx' \<and>
      live ctx' = insert (c, c + k) (live ctx) \<and> c \<notin> fst ` live ctx \<and> unat num * unat item_size \<le> 8 * k - 4 \<and>
      (\<forall>i < unat num * unat item_size. heap_byte ctx' (8 * c + 4 + i) = 0) \<and> (\<forall>(b, e) \<in> live ctx. data_kept ctx ctx' b e))"
  by (rule calloc_spec [OF assms])

lemma umm_calloc_zeroes_witness:
  "\<exists>p ctx'. umm_calloc heap10 3 5 = Some (p, ctx') \<and> (p = 0 \<or> umm_inv ctx')"
  using umm_calloc_zeroes [OF heap10_inv(1), of 3 5] by auto

end
