(* ===== verification/Sqrt32.thy ===== *)
theory Sqrt32
  imports Prelude
begin

text \<open>
  The integer square root of \<open>cores/esp8266/sqrt32.cpp\<close>, used by the heap's
  fragmentation metric: one result bit per turn, from bit 15 down.
\<close>

section \<open>Definitions\<close>

lemma unat_half: "unat (drop_bit 1 (c :: u32)) = unat c div 2"
  using unat_bound [of c] by (simp add: drop_bit_eq_div unat_div)

lemma half_less: "drop_bit 1 (c :: u32) \<noteq> 0 \<Longrightarrow> unat (drop_bit 1 c) < unat c"
proof -
  assume "drop_bit 1 c \<noteq> 0"
  then have "unat c div 2 \<noteq> 0" using unat_half by (metis unat_eq_zero)
  then show ?thesis unfolding unat_half by simp
qed

function sqrt32_loop :: "u32 \<Rightarrow> u32 \<Rightarrow> u32 \<Rightarrow> u32" where
  "sqrt32_loop n c g =
     (let g1 = (if n < g * g then g XOR c else g);
          c1 = drop_bit 1 c
      in if c1 = 0 then g1 else sqrt32_loop n c1 (g1 OR c1))"
  by pat_completeness auto

termination
  using half_less by (relation "measure (\<lambda>(n, c, g). unat c)") auto

declare sqrt32_loop.simps [simp del]

definition sqrt32 :: "u32 \<Rightarrow> u32" where
  "sqrt32 n = sqrt32_loop n 0x8000 0x8000"

section \<open>Correctness\<close>

lemma low_bit_free: "2 ^ Suc k dvd h \<Longrightarrow> h AND 2 ^ k = (0 :: nat)"
proof -
  assume "2 ^ Suc k dvd h"
  then obtain m where "h = m * 2 ^ Suc k" by (auto simp: mult.commute)
  then have "h = push_bit (Suc k) m" by (simp only: push_bit_eq_mult)
  then have "\<not> bit h k" by (simp only: bit_push_bit_iff) simp
  then show ?thesis by (intro bit_eqI) (auto simp: bit_and_iff bit_exp_iff)
qed

lemma low_bit_or: "2 ^ Suc k dvd h \<Longrightarrow> h OR 2 ^ k = h + (2 ^ k :: nat)"
  by (rule disjunctive_add_eq_or [symmetric]) (rule low_bit_free)

lemma low_bit_xor: "2 ^ Suc k dvd h \<Longrightarrow> (h + 2 ^ k) XOR 2 ^ k = (h :: nat)"
proof -
  assume "2 ^ Suc k dvd h"
  then have "h + 2 ^ k = h XOR 2 ^ k" using low_bit_free by (metis disjunctive_add_eq_xor)
  then show ?thesis by (simp add: xor.assoc)
qed

lemma sqrt32_loop_root:
  assumes "k < 16" and "unat c = 2 ^ k" and "unat g = h + 2 ^ k" and "2 ^ Suc k dvd h" and "h + 2 ^ Suc k \<le> 2 ^ 16"
    and "h * h \<le> unat n" and "unat n < (h + 2 ^ Suc k) * (h + 2 ^ Suc k)"
  shows "unat (sqrt32_loop n c g) * unat (sqrt32_loop n c g) \<le> unat n \<and>
    unat n < (unat (sqrt32_loop n c g) + 1) * (unat (sqrt32_loop n c g) + 1)"
  using assms
proof (induction k arbitrary: c g h)
  case (0 c g h)
  have "unat g < 2 ^ 16" using 0 by simp
  then have "unat g * unat g < 2 ^ 16 * 2 ^ 16" by (intro mult_strict_mono) simp_all
  then have sq: "unat (g * g) = unat g * unat g" by (simp add: unat_mult_lem [THEN iffD1])
  have c0: "drop_bit 1 c = 0" using unat_half [of c] 0(2) by (simp add: unat_eq_zero [symmetric])
  have x: "unat (g XOR c) = h" using low_bit_xor [of 0 h] 0 by (simp add: unsigned_xor_eq)
  show ?case using sq c0 x 0 by (subst (1 2 3 4) sqrt32_loop.simps) (auto simp: Let_def word_less_nat_alt)
next
  case (Suc k c g h)
  let ?g1 = "if n < g * g then g XOR c else g" and ?h1 = "if n < g * g then h else h + 2 ^ Suc k" and ?c1 = "drop_bit 1 c"
  have "(0 :: nat) < 2 ^ k" by simp
  then have gl: "unat g < 2 ^ 16" using Suc.prems(3,5) unfolding power_Suc by linarith
  then have "unat g * unat g < 2 ^ 16 * 2 ^ 16" by (intro mult_strict_mono) simp_all
  then have sq: "unat (g * g) = unat g * unat g" by (simp add: unat_mult_lem [THEN iffD1])
  have c1: "unat ?c1 = 2 ^ k" using unat_half [of c] Suc.prems(2) by simp
  then have "?c1 \<noteq> 0" by (metis power_not_zero unat_0 zero_neq_numeral)
  then have eq: "sqrt32_loop n c g = sqrt32_loop n ?c1 (?g1 OR ?c1)"
    by (subst sqrt32_loop.simps) (simp add: Let_def)
  have x: "unat (g XOR c) = h" using low_bit_xor [OF Suc.prems(4)] Suc.prems(2,3) by (simp add: unsigned_xor_eq)
  have g1: "unat ?g1 = ?h1" using x Suc.prems(3) by simp
  have d: "2 ^ Suc k dvd ?h1" using Suc.prems(4) by (auto intro: dvd_trans le_imp_power_dvd)
  have "unat (?g1 OR ?c1) = ?h1 + 2 ^ k" using low_bit_or [OF d] g1 c1 by (simp only: unsigned_or_eq)
  moreover have "?h1 + 2 ^ Suc k \<le> 2 ^ 16" using Suc.prems(5) by simp
  moreover have "?h1 * ?h1 \<le> unat n" using Suc.prems(3,6) sq by (simp add: word_less_nat_alt)
  moreover have "unat n < (?h1 + 2 ^ Suc k) * (?h1 + 2 ^ Suc k)"
    using Suc.prems(3,7) sq by (simp add: word_less_nat_alt add.assoc mult_2)
  ultimately show ?case unfolding eq using Suc.IH [OF _ c1 _ d] Suc.prems(1) by simp
qed

lemma sqrt32_bounds:
  "unat (sqrt32 n) * unat (sqrt32 n) \<le> unat n \<and> unat n < (unat (sqrt32 n) + 1) * (unat (sqrt32 n) + 1)"
  unfolding sqrt32_def by (rule sqrt32_loop_root [of 15 _ _ 0]) (use unat_bound [of n] in auto)

lemma sqrt32_mono: "unat n \<le> m * m \<Longrightarrow> unat (sqrt32 n) \<le> m"
  using sqrt32_bounds [of n] by (meson le_trans mult_strict_mono not_le zero_le)

lemma sqrt32_square: "unat n = m * m \<Longrightarrow> unat (sqrt32 n) = m"
proof (rule antisym)
  assume n: "unat n = m * m"
  then show "unat (sqrt32 n) \<le> m" by (simp add: sqrt32_mono)
  have "m * m < (unat (sqrt32 n) + 1) * (unat (sqrt32 n) + 1)" using sqrt32_bounds [of n] n by simp
  then have "m < unat (sqrt32 n) + 1" by (meson mult_le_mono not_le)
  then show "m \<le> unat (sqrt32 n)" by simp
qed

text \<open>
  \<open>sqrt32\<close> is the integer square root on all 32-bit numbers: the largest number
  whose square is not above the argument.
\<close>

lemma sqrt32_root:
  "unat (sqrt32 n) * unat (sqrt32 n) \<le> unat n \<and> unat n < (unat (sqrt32 n) + 1) * (unat (sqrt32 n) + 1)"
  by (rule sqrt32_bounds)

end
