(* ===== verification/Umm_Info.thy ===== *)
theory Umm_Info
  imports Umm_Realloc Sqrt32
begin

text \<open>
  The heap survey of \<open>cores/esp8266/umm_malloc/umm_info.c\<close>: \<open>umm_info\<close> walks all
  blocks and counts them into the context's \<open>info\<close>, and the size, usage and
  fragmentation figures read it.  The printed report is not part of the model.
  The build is the one without \<open>UMM_INLINE_METRICS\<close>.
\<close>

section \<open>Definitions\<close>

definition zero_info :: umm_heap_info where
  "zero_info = \<lparr>totalEntries = 0, usedEntries = 0, freeEntries = 0, totalBlocks = 0, usedBlocks = 0, freeBlocks = 0,
     freeBlocksSquared = 0, maxFreeContiguousBlocks = 0\<rparr>"

definition info_block :: "umm_heap_context \<Rightarrow> u16 \<Rightarrow> umm_heap_info \<Rightarrow> umm_heap_info" where
  "info_block ctx blockNo i =
     (let curBlocks = ucast (UMM_NBLOCK ctx (unat blockNo) AND UMM_BLOCKNO_MASK) - ucast blockNo :: u32;
          i1 = i\<lparr>totalEntries := totalEntries i + 1, totalBlocks := totalBlocks i + curBlocks\<rparr>
      in if UMM_NBLOCK ctx (unat blockNo) AND UMM_FREELIST_MASK \<noteq> 0
         then let i2 = i1\<lparr>freeEntries := freeEntries i1 + 1, freeBlocks := freeBlocks i1 + curBlocks,
                          freeBlocksSquared := freeBlocksSquared i1 + curBlocks * curBlocks\<rparr>
              in if maxFreeContiguousBlocks i2 < curBlocks then i2\<lparr>maxFreeContiguousBlocks := curBlocks\<rparr> else i2
         else i1\<lparr>usedEntries := usedEntries i1 + 1, usedBlocks := usedBlocks i1 + curBlocks\<rparr>)"

partial_function (option) umm_info_loop ::
  "umm_heap_context \<Rightarrow> u32 \<Rightarrow> u16 \<Rightarrow> umm_heap_info \<Rightarrow> (u32 \<times> umm_heap_info) option" where
  "umm_info_loop ctx ptr blockNo i =
     (if UMM_NBLOCK ctx (unat blockNo) AND UMM_BLOCKNO_MASK = 0 then Some (0, i)
      else let i1 = info_block ctx blockNo i
           in if UMM_NBLOCK ctx (unat blockNo) AND UMM_FREELIST_MASK \<noteq> 0 \<and> ptr = UMM_BLOCK_ADDR ctx (unat blockNo)
              then Some (ptr, i1)
              else umm_info_loop ctx ptr (UMM_NBLOCK ctx (unat blockNo) AND UMM_BLOCKNO_MASK) i1)"

definition umm_info :: "umm_heap_context \<Rightarrow> u32 \<Rightarrow> (u32 \<times> umm_heap_context) option" where
  "umm_info ctx ptr = map_option (\<lambda>(r, i). (r, ctx\<lparr>info := i\<rparr>))
     (umm_info_loop ctx ptr (UMM_NBLOCK ctx 0 AND UMM_BLOCKNO_MASK) zero_info)"

definition umm_free_heap_size_core :: "umm_heap_context \<Rightarrow> u32" where
  "umm_free_heap_size_core ctx = freeBlocks (info ctx) * of_nat umm_block_size"

definition umm_free_heap_size :: "umm_heap_context \<Rightarrow> (u32 \<times> umm_heap_context) option" where
  "umm_free_heap_size ctx = map_option (\<lambda>(_, c). (umm_free_heap_size_core c, c)) (umm_info ctx 0)"

definition umm_max_block_size_core :: "umm_heap_context \<Rightarrow> u32" where
  "umm_max_block_size_core ctx = maxFreeContiguousBlocks (info ctx) * of_nat umm_block_size"

definition umm_max_block_size :: "umm_heap_context \<Rightarrow> (u32 \<times> umm_heap_context) option" where
  "umm_max_block_size ctx = map_option (\<lambda>(_, c). (umm_max_block_size_core c, c)) (umm_info ctx 0)"

definition umm_usage_metric_core :: "umm_heap_context \<Rightarrow> int" where
  "umm_usage_metric_core ctx =
     (if freeBlocks (info ctx) \<noteq> 0 then sint (usedBlocks (info ctx) * 100 div freeBlocks (info ctx)) else -1)"

definition umm_usage_metric :: "umm_heap_context \<Rightarrow> (int \<times> umm_heap_context) option" where
  "umm_usage_metric ctx = map_option (\<lambda>(_, c). (umm_usage_metric_core c, c)) (umm_info ctx 0)"

definition umm_fragmentation_metric_core :: "umm_heap_context \<Rightarrow> int" where
  "umm_fragmentation_metric_core ctx =
     (if freeBlocks (info ctx) = 0 then 0
      else sint (100 - sqrt32 (freeBlocksSquared (info ctx)) * 100 div freeBlocks (info ctx)))"

definition umm_fragmentation_metric :: "umm_heap_context \<Rightarrow> (int \<times> umm_heap_context) option" where
  "umm_fragmentation_metric ctx = map_option (\<lambda>(_, c). (umm_fragmentation_metric_core c, c)) (umm_info ctx 0)"

text \<open>\<open>umm_free_heap_size_lw\<close> and \<open>umm_get_oom_count\<close> of \<open>umm_local.c\<close> read the running counters.\<close>

definition umm_free_heap_size_lw :: "umm_heap_context \<Rightarrow> u32" where
  "umm_free_heap_size_lw ctx = free_blocks (stats ctx) * of_nat umm_block_size"

definition umm_get_oom_count :: "umm_heap_context \<Rightarrow> u32" where
  "umm_get_oom_count ctx = oom_count (stats ctx)"

section \<open>The survey\<close>

text \<open>The counts over a set of blocks, as numbers.\<close>

definition tally :: "umm_heap_context \<Rightarrow> nat set \<Rightarrow> nat set \<Rightarrow> umm_heap_info \<Rightarrow> umm_heap_info \<Rightarrow> bool" where
  "tally ctx S F i i' \<longleftrightarrow>
     totalEntries i' = totalEntries i + of_nat (card S) \<and> usedEntries i' = usedEntries i + of_nat (card (S - F)) \<and>
     freeEntries i' = freeEntries i + of_nat (card (S \<inter> F)) \<and>
     totalBlocks i' = totalBlocks i + of_nat (\<Sum>b\<in>S. bsize ctx b) \<and>
     usedBlocks i' = usedBlocks i + of_nat (\<Sum>b\<in>S - F. bsize ctx b) \<and>
     freeBlocks i' = freeBlocks i + of_nat (\<Sum>b\<in>S \<inter> F. bsize ctx b) \<and>
     freeBlocksSquared i' = freeBlocksSquared i + of_nat (\<Sum>b\<in>S \<inter> F. bsize ctx b * bsize ctx b) \<and>
     unat (maxFreeContiguousBlocks i') = Max (insert (unat (maxFreeContiguousBlocks i)) (bsize ctx ` (S \<inter> F)))"

lemma word_of_nat_unat: "of_nat (unat w) = (w :: u32)"
  by simp

lemma tally_empty: "tally ctx {} F i i"
  by (simp add: tally_def)

lemma info_block_tally:
  assumes "unat (ucast (UMM_NBLOCK ctx (unat b) AND UMM_BLOCKNO_MASK) - ucast b :: u32) = bsize ctx (unat b)"
    and "freebit (UMM_NBLOCK ctx (unat b)) \<longleftrightarrow> unat b \<in> F"
  shows "tally ctx {unat b} F i (info_block ctx b i)"
proof -
  define k :: u32 where "k = ucast (UMM_NBLOCK ctx (unat b) AND UMM_BLOCKNO_MASK) - ucast b"
  have k: "unat k = bsize ctx (unat b)" using assms(1) by (simp add: k_def)
  then have kn: "k = of_nat (bsize ctx (unat b))" by (metis word_of_nat_unat)
  show ?thesis
  proof (cases "unat b \<in> F")
    case True
    then have "info_block ctx b i = (let i2 = i\<lparr>totalEntries := totalEntries i + 1, totalBlocks := totalBlocks i + k,
        freeEntries := freeEntries i + 1, freeBlocks := freeBlocks i + k, freeBlocksSquared := freeBlocksSquared i + k * k\<rparr>
      in if maxFreeContiguousBlocks i < k then i2\<lparr>maxFreeContiguousBlocks := k\<rparr> else i2)"
      using assms(2) by (simp add: info_block_def Let_def freebit_def k_def)
    moreover have "{unat b} \<inter> F = {unat b}" "{unat b} - F = {}" using True by auto
    ultimately show ?thesis using k by (auto simp: tally_def Let_def word_less_nat_alt kn)
  next
    case False
    then have "info_block ctx b i = i\<lparr>totalEntries := totalEntries i + 1, totalBlocks := totalBlocks i + k,
        usedEntries := usedEntries i + 1, usedBlocks := usedBlocks i + k\<rparr>"
      using assms(2) by (simp add: info_block_def Let_def freebit_def k_def)
    moreover have "{unat b} \<inter> F = {}" "{unat b} - F = {unat b}" using False by auto
    ultimately show ?thesis by (simp add: tally_def kn)
  qed
qed

lemma tally_union:
  assumes "tally ctx S F i i1" and "tally ctx T F i1 i2" and "S \<inter> T = {}" and "finite S" "finite T"
  shows "tally ctx (S \<union> T) F i i2"
proof -
  have d: "(S \<union> T) - F = (S - F) \<union> (T - F)" "(S \<union> T) \<inter> F = (S \<inter> F) \<union> (T \<inter> F)"
    "(S - F) \<inter> (T - F) = {}" "(S \<inter> F) \<inter> (T \<inter> F) = {}" using assms(3) by auto
  have mx: "Max (insert (Max (insert m A)) C) = Max (insert m (A \<union> C))" if "finite A" "finite C" for m :: nat and A C
    using that by (cases "A = {}"; cases "C = {}") (auto simp: Max_Un max.assoc)
  show ?thesis using assms mx [of "bsize ctx ` (S \<inter> F)" "bsize ctx ` (T \<inter> F)"]
    by (simp add: tally_def d card_Un_disjoint sum.union_disjoint image_Un)
qed

lemma unat_ucast_u32: "unat (ucast (w :: u16) :: u32) = unat w"
  using unat_bound [of w] by (simp add: unsigned_ucast_eq take_bit_nat_eq_self)

lemma seg_step:
  assumes ch: "bchain nx pv l B" and b: "b \<in> B" "b \<noteq> l"
  shows "{x \<in> B. b \<le> x \<and> x \<noteq> l} = {b} \<union> {x \<in> B. nx b \<le> x \<and> x \<noteq> l}" and "{b} \<inter> {x \<in> B. nx b \<le> x \<and> x \<noteq> l} = {}"
proof -
  show "{x \<in> B. b \<le> x \<and> x \<noteq> l} = {b} \<union> {x \<in> B. nx b \<le> x \<and> x \<noteq> l}"
    using bchain_from [OF ch b] b(1) by blast
  show "{b} \<inter> {x \<in> B. nx b \<le> x \<and> x \<noteq> l} = {}" using bchain_next [OF ch b] by auto
qed

lemma block_size_u32:
  fixes b :: u16
  assumes ok: "heap_ok ctx B fs" and b: "unat b \<in> B" "unat b \<noteq> UMM_BLOCK_LAST ctx"
  shows "unat (ucast (UMM_NBLOCK ctx (unat b) AND UMM_BLOCKNO_MASK) - ucast b :: u32) = bsize ctx (unat b)"
proof -
  let ?n = "ucast (UMM_NBLOCK ctx (unat b) AND UMM_BLOCKNO_MASK) :: u32" and ?b = "ucast b :: u32"
  have n: "unat ?n = nxt ctx (unat b)" "unat ?b = unat b" by (simp_all add: unat_ucast_u32 nxt_def)
  then have "?b \<le> ?n" using bchain_next [OF heap_okD(1) [OF ok] b] by (simp add: word_le_nat_alt)
  then show ?thesis using n by (simp add: unat_sub bsize_def)
qed

lemma info_loop_spec:
  assumes ok: "heap_ok ctx B fs" and "unat b \<in> B"
  defines "S \<equiv> \<lambda>b. {x \<in> B. b \<le> x \<and> x \<noteq> UMM_BLOCK_LAST ctx}"
  shows "\<exists>r i'. umm_info_loop ctx ptr b i = Some (r, i') \<and>
    (if \<exists>z \<in> S (unat b) \<inter> set fs. ptr = UMM_BLOCK_ADDR ctx z then r = ptr else r = 0 \<and> tally ctx (S (unat b)) (set fs) i i')"
  using assms(2)
proof (induction "UMM_BLOCK_LAST ctx - unat b" arbitrary: b i rule: less_induct)
  case less
  note ch = heap_okD(1) [OF ok]
  let ?l = "UMM_BLOCK_LAST ctx"
  have zero: "UMM_NBLOCK ctx (unat b) AND UMM_BLOCKNO_MASK = 0 \<longleftrightarrow> nxt ctx (unat b) = 0"
    unfolding nxt_def blkno_def by (simp only: unat_eq_zero)
  show ?case
  proof (cases "unat b = ?l")
    case True
    then have "S (unat b) = {}" using bchain_le [OF ch] by (fastforce simp: S_def)
    then show ?thesis using True zero heap_okD(3) [OF ok] by (simp add: umm_info_loop.simps [of ctx ptr b] tally_empty)
  next
    case False
    let ?w = "UMM_NBLOCK ctx (unat b) AND UMM_BLOCKNO_MASK"
    have w: "unat ?w = nxt ctx (unat b)" by (simp add: nxt_def)
    note nb = bchain_next [OF ch less.prems False]
    have nz: "?w \<noteq> 0" using zero nb by simp
    have fb: "freebit (UMM_NBLOCK ctx (unat b)) \<longleftrightarrow> unat b \<in> set fs" by (rule heap_okD(4) [OF ok less.prems])
    note one = info_block_tally [OF block_size_u32 [OF ok less.prems False] fb, of i]
    have step: "S (unat b) = {unat b} \<union> S (nxt ctx (unat b))" "{unat b} \<inter> S (nxt ctx (unat b)) = {}"
      unfolding S_def by (rule seg_step [OF ch less.prems False])+
    have fin: "finite (S x)" for x using bchain_finite [OF ch] by (simp add: S_def)
    show ?thesis
    proof (cases "unat b \<in> set fs \<and> ptr = UMM_BLOCK_ADDR ctx (unat b)")
      case True
      then have "umm_info_loop ctx ptr b i = Some (ptr, info_block ctx b i)"
        using nz fb by (subst umm_info_loop.simps) (simp add: Let_def freebit_def)
      then show ?thesis using True step(1) by auto
    next
      case here: False
      then have eq: "umm_info_loop ctx ptr b i = umm_info_loop ctx ptr ?w (info_block ctx b i)"
        using nz fb by (subst umm_info_loop.simps) (auto simp: Let_def freebit_def)
      have "?l - unat ?w < ?l - unat b" unfolding w using nb by arith
      note hyp = less.hyps [OF this, of "info_block ctx b i", unfolded w, OF conjunct1 [OF nb]]
      obtain r i' where r: "umm_info_loop ctx ptr ?w (info_block ctx b i) = Some (r, i')"
        "if \<exists>z \<in> S (nxt ctx (unat b)) \<inter> set fs. ptr = UMM_BLOCK_ADDR ctx z then r = ptr
         else r = 0 \<and> tally ctx (S (nxt ctx (unat b))) (set fs) (info_block ctx b i) i'" using hyp by blast
      have ex: "(\<exists>z \<in> S (unat b) \<inter> set fs. ptr = UMM_BLOCK_ADDR ctx z) \<longleftrightarrow>
          (\<exists>z \<in> S (nxt ctx (unat b)) \<inter> set fs. ptr = UMM_BLOCK_ADDR ctx z)" using here step(1) by auto
      show ?thesis unfolding eq ex using r tally_union [OF one _ step(2)] fin step(1) by auto
    qed
  qed
qed

section \<open>The survey of a well-formed heap\<close>

lemma block_addr_nonzero:
  assumes inv: "heap_inv ctx B fs" and b: "b \<in> B"
  shows "UMM_BLOCK_ADDR ctx b \<noteq> 0"
proof
  assume z: "UMM_BLOCK_ADDR ctx b = 0"
  have "placed ctx" "b < unat (numblocks ctx)"
    using inv heap_ok_lt [OF heap_inv_ok [OF inv] b] by (simp_all add: heap_inv_def)
  then have "unat (UMM_DATA ctx b) = unat (heap ctx) + b * 8 + 4" "0 < unat (heap ctx)"
    using placed_addr(1) [of ctx b] by (auto simp: placed_def unat_gt_0)
  moreover have "UMM_DATA ctx b = UMM_BLOCK_ADDR ctx b + 4" by (simp add: UMM_DATA_def UMM_BLOCK_ADDR_def umm_header_size_def)
  ultimately show False using z by simp
qed

lemma sum_squares_le: "finite S \<Longrightarrow> (\<Sum>x\<in>S. f x * f x) \<le> (\<Sum>x\<in>S. f x) * (\<Sum>x\<in>S. f x :: nat)"
proof (induction rule: finite_induct)
  case (insert x S)
  then show ?case by (simp add: algebra_simps)
qed simp

definition free_sizes :: "umm_heap_context \<Rightarrow> nat set" where
  "free_sizes ctx = (\<lambda>(b, e). e - b) ` avail ctx"

definition info_exact :: "umm_heap_context \<Rightarrow> umm_heap_info \<Rightarrow> bool" where
  "info_exact ctx i \<longleftrightarrow>
     unat (totalEntries i) = card (live ctx) + card (avail ctx) \<and>
     unat (usedEntries i) = card (live ctx) \<and> unat (freeEntries i) = card (avail ctx) \<and>
     unat (totalBlocks i) = (\<Sum>(b, e)\<in>live ctx. e - b) + (\<Sum>(b, e)\<in>avail ctx. e - b) \<and>
     unat (usedBlocks i) = (\<Sum>(b, e)\<in>live ctx. e - b) \<and>
     unat (freeBlocks i) = (\<Sum>(b, e)\<in>avail ctx. e - b) \<and>
     unat (freeBlocksSquared i) = (\<Sum>(b, e)\<in>avail ctx. (e - b) * (e - b)) \<and>
     unat (maxFreeContiguousBlocks i) = Max (insert 0 (free_sizes ctx))"

lemma tally_exact:
  assumes inv: "heap_inv ctx B fs" and t: "tally ctx (B - {0, UMM_BLOCK_LAST ctx}) (set fs) zero_info i"
  shows "info_exact ctx i"
proof -
  note ok = heap_inv_ok [OF inv]
  let ?U = "{b. used_block ctx B fs b}" and ?S = "B - {0, UMM_BLOCK_LAST ctx}" and ?l = "UMM_BLOCK_LAST ctx"
  have S: "?S - set fs = ?U" "?S \<inter> set fs = set fs" "?S = ?U \<union> set fs" "?U \<inter> set fs = {}"
    using heap_okD(5,6,7) [OF ok] by (auto simp: used_block_def)
  have finB: "finite B" by (rule bchain_finite [OF heap_okD(1) [OF ok]])
  have fin: "finite ?U" by (rule finite_subset [OF _ finB]) (auto simp: used_block_def)
  have lv: "live ctx = (\<lambda>b. (b, nxt ctx b)) ` ?U" using live_used [OF ok] by auto
  have av: "avail ctx = (\<lambda>b. (b, nxt ctx b)) ` set fs" using avail_eq [OF ok] by auto
  have inj: "inj_on (\<lambda>b. (b, nxt ctx b)) X" for X by (auto simp: inj_on_def)
  have cards: "card (live ctx) = card ?U" "card (avail ctx) = card (set fs)" by (simp_all add: lv av card_image inj)
  have sums: "(\<Sum>(b, e)\<in>live ctx. e - b) = (\<Sum>b\<in>?U. bsize ctx b)" "(\<Sum>(b, e)\<in>avail ctx. e - b) = (\<Sum>b\<in>set fs. bsize ctx b)"
    "(\<Sum>(b, e)\<in>avail ctx. (e - b) * (e - b)) = (\<Sum>b\<in>set fs. bsize ctx b * bsize ctx b)"
    by (simp_all add: lv av sum.reindex [OF inj] bsize_def)
  have sizes: "free_sizes ctx = bsize ctx ` set fs" by (simp add: free_sizes_def av image_image bsize_def)
  have tot: "(\<Sum>b\<in>set fs. bsize ctx b) + (\<Sum>b\<in>?U. bsize ctx b) < 0x8000"
  proof -
    have "unat (numblocks ctx) \<le> 0x8000" "3 \<le> unat (numblocks ctx)" using ok by (simp_all add: heap_ok_def)
    then show ?thesis using conservation [OF inv, unfolded sums free_total_sum [OF heap_okD(8) [OF ok]]] by linarith
  qed
  then have "(\<Sum>b\<in>set fs. bsize ctx b) * (\<Sum>b\<in>set fs. bsize ctx b) \<le> 0x8000 * 0x8000" by (intro mult_le_mono) simp_all
  then have sq: "(\<Sum>b\<in>set fs. bsize ctx b * bsize ctx b) \<le> 0x8000 * 0x8000"
    using sum_squares_le [of "set fs" "bsize ctx"] by simp
  have "card B \<le> card {..<0x8000 :: nat}" by (rule card_mono) (use heap_okD(9) [OF ok] in auto)
  moreover have "card (?U \<union> set fs) \<le> card B" by (rule card_mono [OF finB]) (use heap_okD(5) [OF ok] in \<open>auto simp: used_block_def\<close>)
  ultimately have c: "card ?U \<le> 0x8000" "card (set fs) \<le> 0x8000" "card ?U + card (set fs) \<le> 0x8000"
    using card_Un_disjoint [OF fin finite_set S(4)] by auto
  show ?thesis using t fin c tot sq S(4)
    unfolding info_exact_def tally_def S(1,2) cards sums sizes
    by (simp add: S(3) zero_info_def unat_of_nat_u32 card_Un_disjoint sum.union_disjoint del: of_nat_add of_nat_sum of_nat_mult)
qed

lemma info_spec:
  assumes inv: "heap_inv ctx B fs"
  shows "\<exists>i. umm_info ctx 0 = Some (0, ctx\<lparr>info := i\<rparr>) \<and> info_exact ctx i"
proof -
  note ok = heap_inv_ok [OF inv]
  note ch = heap_okD(1) [OF ok] and n0 = bchain_next [OF heap_okD(1) [OF ok] heap_okD(10) [OF ok] heap_okD(12) [OF ok, symmetric]]
  let ?w = "UMM_NBLOCK ctx 0 AND UMM_BLOCKNO_MASK" and ?l = "UMM_BLOCK_LAST ctx"
  have w: "unat ?w = nxt ctx 0" by (simp add: nxt_def)
  have "(x \<in> B \<and> nxt ctx 0 \<le> x \<and> x \<noteq> ?l) \<longleftrightarrow> x \<in> B - {0, ?l}" for x
    using bchain_gap [OF ch heap_okD(10) [OF ok] heap_okD(12) [OF ok, symmetric], of x] n0 by auto
  then have S: "{x \<in> B. unat ?w \<le> x \<and> x \<noteq> ?l} = B - {0, ?l}" unfolding w by blast
  have "\<not> (\<exists>z \<in> (B - {0, ?l}) \<inter> set fs. 0 = UMM_BLOCK_ADDR ctx z)"
    using block_addr_nonzero [OF inv] by force
  then obtain i where i: "umm_info_loop ctx 0 ?w zero_info = Some (0, i)" "tally ctx (B - {0, ?l}) (set fs) zero_info i"
    using info_loop_spec [OF ok, of ?w 0 zero_info, unfolded S, unfolded w, OF conjunct1 [OF n0]] by auto
  then show ?thesis using tally_exact [OF inv i(2)] by (intro exI [of _ i]) (simp add: umm_info_def)
qed

lemma free_sum:
  assumes inv: "heap_inv ctx B fs"
  shows "(\<Sum>(b, e)\<in>avail ctx. e - b) = free_total ctx fs" and "free_total ctx fs < 0x8000"
proof -
  note ok = heap_inv_ok [OF inv]
  have "avail ctx = (\<lambda>b. (b, nxt ctx b)) ` set fs" using avail_eq [OF ok] by auto
  then show "(\<Sum>(b, e)\<in>avail ctx. e - b) = free_total ctx fs"
    using free_total_sum [OF heap_okD(8) [OF ok], of ctx] by (simp add: sum.reindex inj_on_def bsize_def)
  have "unat (numblocks ctx) \<le> 0x8000" "3 \<le> unat (numblocks ctx)" using ok by (simp_all add: heap_ok_def)
  then show "free_total ctx fs < 0x8000" using conservation [OF inv] by linarith
qed

lemma free_sizes_bound:
  assumes inv: "heap_inv ctx B fs"
  shows "finite (free_sizes ctx)" and "k \<in> free_sizes ctx \<Longrightarrow> k < 0x8000"
proof -
  note ok = heap_inv_ok [OF inv]
  have eq: "free_sizes ctx = bsize ctx ` set fs" using avail_eq [OF ok] by (force simp: free_sizes_def bsize_def)
  then show "finite (free_sizes ctx)" by simp
  have "bsize ctx b < 0x8000" if "b \<in> set fs" for b
    using bchain_next [OF heap_okD(1) [OF ok] heap_okD(5,7) [OF ok that]] heap_okD(9) [OF ok, of "nxt ctx b"] by (simp add: bsize_def)
  then show "k \<in> free_sizes ctx \<Longrightarrow> k < 0x8000" unfolding eq by blast
qed

lemma malloc_succeeds:
  assumes inv: "heap_inv ctx B fs" and sz: "sz \<noteq> 0"
  shows "(\<exists>p c. umm_malloc ctx sz = Some (p, c) \<and> p \<noteq> 0) \<longleftrightarrow> (\<exists>z e. (z, e) \<in> avail ctx \<and> unat (umm_blocks sz) \<le> e - z)"
proof (cases "\<exists>z e. (z, e) \<in> avail ctx \<and> unat (umm_blocks sz) \<le> e - z")
  case True
  then show ?thesis using malloc_core_inv [OF inv] sz unfolding umm_malloc_def by (metis (no_types))
next
  case False
  then have "umm_malloc_core ctx sz = Some (0, STATS__OOM_UPDATE ctx)"
    by (intro malloc_core_oom [OF heap_inv_ok [OF inv]]) (simp add: not_le)
  then show ?thesis using False sz by (simp add: umm_malloc_def)
qed

text \<open>
  on a well-formed heap \<open>umm_info\<close> returns \<open>NULL\<close>, changes nothing but the survey,
  and the survey is exact: the numbers and sizes of the blocks in use and of
  the free ones, the sum of the squares and the maximum of the free sizes; its
  number of free blocks agrees with the running counter, so the two ways to ask
  for the free heap size give the same answer.
\<close>

lemma umm_info_exact:
  assumes "umm_inv ctx"
  shows "\<exists>i. umm_info ctx 0 = Some (0, ctx\<lparr>info := i\<rparr>) \<and> info_exact ctx i \<and>
    freeBlocks i = free_blocks (stats ctx) \<and> umm_free_heap_size ctx = Some (umm_free_heap_size_lw ctx, ctx\<lparr>info := i\<rparr>)"
proof -
  obtain B fs where inv: "heap_inv ctx B fs" using assms by (auto simp: umm_inv_def)
  obtain i where i: "umm_info ctx 0 = Some (0, ctx\<lparr>info := i\<rparr>)" "info_exact ctx i" using info_spec [OF inv] by blast
  have "unat (freeBlocks i) = free_total ctx fs"
    using i(2) free_sum [OF inv] by (simp add: info_exact_def)
  then have "freeBlocks i = of_nat (free_total ctx fs)" by (metis word_of_nat_unat)
  then have "freeBlocks i = free_blocks (stats ctx)" using inv by (simp add: heap_inv_def)
  then show ?thesis using i
    by (intro exI [of _ i]) (simp add: umm_free_heap_size_def umm_free_heap_size_core_def umm_free_heap_size_lw_def)
qed

lemma umm_info_exact_witness:
  "\<exists>i. umm_info heap10 0 = Some (0, heap10\<lparr>info := i\<rparr>) \<and> unat (freeBlocks i) = 8 \<and> unat (usedEntries i) = 0"
  using umm_info_exact [OF heap10_inv(1)] by (auto simp: info_exact_def heap10_inv(2,3))

text \<open>
  the size reported by \<open>umm_max_block_size\<close> is the exact limit of what can be
  allocated: a request succeeds if and only if its blocks fit in that size.
\<close>

lemma umm_max_block_size_exact:
  assumes "umm_inv ctx"
  shows "\<exists>m ctx'. umm_max_block_size ctx = Some (m, ctx') \<and>
    (\<forall>sz. sz \<noteq> 0 \<longrightarrow> ((\<exists>p c. umm_malloc ctx sz = Some (p, c) \<and> p \<noteq> 0) \<longleftrightarrow> 8 * unat (umm_blocks sz) \<le> unat m))"
proof -
  obtain B fs where inv: "heap_inv ctx B fs" using assms by (auto simp: umm_inv_def)
  obtain i where i: "umm_info ctx 0 = Some (0, ctx\<lparr>info := i\<rparr>)" "info_exact ctx i" using info_spec [OF inv] by blast
  let ?m = "maxFreeContiguousBlocks i"
  have mx: "unat ?m = Max (insert 0 (free_sizes ctx))" using i(2) by (simp add: info_exact_def)
  have sizes: "finite (free_sizes ctx)" "k \<in> free_sizes ctx \<Longrightarrow> k < 0x8000" for k
    using free_sizes_bound [OF inv] by blast+
  then have "unat ?m < 0x8000" unfolding mx by simp
  then have m8: "unat (?m * 8) = unat ?m * 8" by (simp add: unat_mult_lem [THEN iffD1])
  have "(\<exists>p c. umm_malloc ctx sz = Some (p, c) \<and> p \<noteq> 0) \<longleftrightarrow> unat (umm_blocks sz) \<le> unat ?m" if sz: "sz \<noteq> 0" for sz
  proof -
    have "unat (umm_blocks sz) \<le> unat ?m \<longleftrightarrow> (\<exists>k \<in> free_sizes ctx. unat (umm_blocks sz) \<le> k)"
      unfolding mx using sizes(1) umm_blocks_pos [of sz] by (subst Max_ge_iff) auto
    also have "\<dots> \<longleftrightarrow> (\<exists>z e. (z, e) \<in> avail ctx \<and> unat (umm_blocks sz) \<le> e - z)" by (force simp: free_sizes_def)
    also have "\<dots> \<longleftrightarrow> (\<exists>p c. umm_malloc ctx sz = Some (p, c) \<and> p \<noteq> 0)"
      by (rule malloc_succeeds [OF inv sz, symmetric])
    finally show ?thesis by blast
  qed
  then show ?thesis using i(1) m8 by (auto simp: umm_max_block_size_def umm_max_block_size_core_def umm_block_size_def)
qed

lemma umm_max_block_size_exact_witness:
  "\<exists>m ctx'. umm_max_block_size heap10 = Some (m, ctx') \<and>
    ((\<exists>p c. umm_malloc heap10 13 = Some (p, c) \<and> p \<noteq> 0) \<longleftrightarrow> 24 \<le> unat m)"
proof -
  have "(13 :: u32) \<noteq> 0" by simp
  then show ?thesis using umm_max_block_size_exact [OF heap10_inv(1)] by (auto simp: umm_blocks_eq)
qed

text \<open>
  The fragmentation metric of a well-formed heap lies between 0 and 100, and is 0
  when all free memory is one block; the unsigned arithmetic of the code never wraps.
\<close>

lemma umm_fragmentation_metric_bounds:
  assumes "umm_inv ctx"
  shows "\<exists>m ctx'. umm_fragmentation_metric ctx = Some (m, ctx') \<and> 0 \<le> m \<and> m \<le> 100 \<and> (card (avail ctx) \<le> 1 \<longrightarrow> m = 0)"
proof -
  obtain B fs where inv: "heap_inv ctx B fs" using assms by (auto simp: umm_inv_def)
  obtain i where i: "umm_info ctx 0 = Some (0, ctx\<lparr>info := i\<rparr>)" "info_exact ctx i" using info_spec [OF inv] by blast
  let ?f = "unat (freeBlocks i)" and ?s = "sqrt32 (freeBlocksSquared i)"
  have f: "?f = (\<Sum>(b, e)\<in>avail ctx. e - b)" "unat (freeBlocksSquared i) = (\<Sum>(b, e)\<in>avail ctx. (e - b) * (e - b))"
    using i(2) by (simp_all add: info_exact_def)
  have fin: "finite (avail ctx)" using avail_eq [OF heap_inv_ok [OF inv]] by (simp add: setcompr_eq_image)
  have "unat (freeBlocksSquared i) \<le> ?f * ?f"
    unfolding f using sum_squares_le [OF fin, of "\<lambda>(b, e). e - b"] by (simp add: case_prod_unfold)
  then have s: "unat ?s \<le> ?f" by (rule sqrt32_mono)
  have small: "?f < 0x8000" using free_sum [OF inv] by (simp add: f)
  then have s100: "unat (?s * 100) = unat ?s * 100" using s by (simp add: unat_mult_lem [THEN iffD1])
  define q where "q = ?s * 100 div freeBlocks i"
  have uq: "unat q = unat ?s * 100 div ?f" by (simp add: q_def unat_div s100)
  have q: "unat q \<le> 100" if "?f \<noteq> 0" unfolding uq using s that by (metis div_le_mono mult_le_mono1 nonzero_mult_div_cancel_left)
  have one: "unat q = 100" if "card (avail ctx) \<le> 1" "?f \<noteq> 0"
  proof -
    have "avail ctx \<noteq> {}" using that f(1) by auto
    then have "card (avail ctx) = 1" using that(1) fin by (simp add: card_eq_0_iff le_eq_less_or_eq)
    then obtain b e where "avail ctx = {(b, e)}" by (auto simp: card_1_singleton_iff)
    then have "unat ?s = ?f" using sqrt32_square [of "freeBlocksSquared i" "e - b"] f by simp
    then show ?thesis unfolding uq using that(2) by simp
  qed
  have "sint (100 - q) = 100 - int (unat q)" if "?f \<noteq> 0"
  proof -
    have "unat (100 - q) = 100 - unat q" using q [OF that] by (simp add: unat_sub word_le_nat_alt)
    then show ?thesis using sint_small [of "100 - q"] q [OF that] by simp
  qed
  then have "umm_fragmentation_metric_core (ctx\<lparr>info := i\<rparr>) = (if ?f = 0 then 0 else 100 - int (unat q))"
    by (simp add: umm_fragmentation_metric_core_def q_def unat_eq_zero)
  moreover have "int (unat q) \<le> 100" if "?f \<noteq> 0" using q [OF that] by linarith
  ultimately show ?thesis using i(1) one by (auto simp: umm_fragmentation_metric_def)
qed

lemma umm_fragmentation_metric_bounds_witness:
  "\<exists>ctx'. umm_fragmentation_metric heap10 = Some (0, ctx')"
  using umm_fragmentation_metric_bounds [OF heap10_inv(1)] by (auto simp: heap10_inv(3))

end
