(* ===== verification/Umm_Integrity.thy ===== *)
theory Umm_Integrity
  imports Umm_Realloc
begin

text \<open>
  The heap check of \<open>cores/esp8266/umm_malloc/umm_integrity.c\<close>: it walks the free list,
  marking its members in their \<open>prev\<close> links, then walks all blocks, comparing and
  removing the marks.
\<close>

section \<open>Definitions\<close>

partial_function (option) integrity_free :: "umm_heap_context \<Rightarrow> u16 \<Rightarrow> (bool \<times> umm_heap_context) option" where
  "integrity_free ctx prev =
     (let cur = UMM_NFREE ctx (unat prev) in
      if numblocks ctx \<le> cur then Some (False, ctx)
      else if cur = 0 then Some (True, ctx)
      else if UMM_PFREE ctx (unat cur) \<noteq> prev then Some (False, ctx)
      else integrity_free (set_PBLOCK (unat cur) (UMM_PBLOCK ctx (unat cur) OR UMM_FREELIST_MASK) ctx) cur)"

partial_function (option) integrity_blocks :: "umm_heap_context \<Rightarrow> u16 \<Rightarrow> (bool \<times> umm_heap_context) option" where
  "integrity_blocks ctx prev =
     (let cur = UMM_NBLOCK ctx (unat prev) AND UMM_BLOCKNO_MASK in
      if numblocks ctx \<le> cur then Some (False, ctx)
      else if cur = 0 then Some (True, ctx)
      else if UMM_NBLOCK ctx (unat cur) AND UMM_FREELIST_MASK \<noteq> UMM_PBLOCK ctx (unat cur) AND UMM_FREELIST_MASK then Some (False, ctx)
      else if cur \<le> prev then Some (False, ctx)
      else let ctx1 = set_PBLOCK (unat cur) (UMM_PBLOCK ctx (unat cur) AND UMM_BLOCKNO_MASK) ctx in
        if UMM_PBLOCK ctx1 (unat cur) \<noteq> prev then Some (False, ctx1)
        else integrity_blocks ctx1 cur)"

definition umm_integrity_check :: "umm_heap_context \<Rightarrow> (bool \<times> umm_heap_context) option" where
  "umm_integrity_check ctx =
     (case integrity_free ctx 0 of
        None \<Rightarrow> None
      | Some (ok, ctx1) \<Rightarrow> if ok then integrity_blocks ctx1 0 else Some (False, ctx1))"

section \<open>Marks\<close>

text \<open>The heap with the blocks of \<open>M\<close> marked and those of \<open>P\<close> unmarked again.\<close>

definition marked :: "nat set \<Rightarrow> nat set \<Rightarrow> umm_heap_context \<Rightarrow> umm_heap_context" where
  "marked M P ctx = ctx\<lparr>blks := \<lambda>b. (blks ctx b)\<lparr>used_prev :=
     if b \<in> P then UMM_PBLOCK ctx b AND UMM_BLOCKNO_MASK
     else if b \<in> M then UMM_PBLOCK ctx b OR UMM_FREELIST_MASK else UMM_PBLOCK ctx b\<rparr>\<rparr>"

lemma marked_fields [simp]:
  "UMM_NBLOCK (marked M P ctx) = UMM_NBLOCK ctx" "UMM_NFREE (marked M P ctx) = UMM_NFREE ctx"
  "UMM_PFREE (marked M P ctx) = UMM_PFREE ctx" "numblocks (marked M P ctx) = numblocks ctx"
  "UMM_PBLOCK (marked M P ctx) b = (if b \<in> P then UMM_PBLOCK ctx b AND UMM_BLOCKNO_MASK
     else if b \<in> M then UMM_PBLOCK ctx b OR UMM_FREELIST_MASK else UMM_PBLOCK ctx b)"
  by (simp_all add: marked_def fun_eq_iff UMM_NBLOCK_def UMM_NFREE_def UMM_PFREE_def UMM_PBLOCK_def)

lemma marked_none [simp]: "marked {} {} ctx = ctx"
  by (simp add: marked_def UMM_PBLOCK_def)

lemma mark_step:
  "set_PBLOCK b (UMM_PBLOCK (marked M {} ctx) b OR UMM_FREELIST_MASK) (marked M {} ctx) = marked (insert b M) {} ctx"
  by (auto simp: set_PBLOCK_def upd_block_def marked_def fun_eq_iff UMM_PBLOCK_def)

lemma freelist_mask_bits:
  "(w OR UMM_FREELIST_MASK) AND UMM_BLOCKNO_MASK = w AND UMM_BLOCKNO_MASK"
  "v AND UMM_FREELIST_MASK = w AND UMM_FREELIST_MASK \<longleftrightarrow> (freebit v \<longleftrightarrow> freebit w)"
proof -
  show "(w OR UMM_FREELIST_MASK) AND UMM_BLOCKNO_MASK = w AND UMM_BLOCKNO_MASK"
    by (rule bit_word_eqI) (auto simp: bit_and_iff bit_or_iff bit_umm_masks)
  show "v AND UMM_FREELIST_MASK = w AND UMM_FREELIST_MASK \<longleftrightarrow> (freebit v \<longleftrightarrow> freebit w)"
  proof
    assume "freebit v \<longleftrightarrow> freebit w"
    then show "v AND UMM_FREELIST_MASK = w AND UMM_FREELIST_MASK"
      by (intro bit_word_eqI) (auto simp: bit_and_iff bit_umm_masks freebit_bit)
  qed (simp add: freebit_def)
qed

lemma unmark_step:
  "set_PBLOCK b (UMM_PBLOCK (marked M P ctx) b AND UMM_BLOCKNO_MASK) (marked M P ctx) = marked M (insert b P) ctx"
  by (auto simp: set_PBLOCK_def upd_block_def marked_def fun_eq_iff UMM_PBLOCK_def freelist_mask_bits and.assoc)

section \<open>The walk of the free list\<close>

lemma dchain_nth: "dchain n p xs \<Longrightarrow> Suc i < length xs \<Longrightarrow> n (xs ! i) = xs ! Suc i \<and> p (xs ! Suc i) = xs ! i"
proof (induction n p xs arbitrary: i rule: dchain.induct)
  case (1 n p a b xs)
  then show ?case by (cases i) auto
qed auto

lemma dchain_distinct:
  assumes ch: "dchain n p (0 # vs)" and nz: "0 \<notin> set vs"
  shows "distinct vs"
proof -
  have eq: "vs ! i \<noteq> vs ! j" if "i < j" "j < length vs" for i j
    using that
  proof (induction i arbitrary: j)
    case 0
    then have "p (vs ! 0) = 0" "p (vs ! j) = vs ! (j - 1)"
      using dchain_nth [OF ch, of 0] dchain_nth [OF ch, of j] by (cases vs; auto simp: nth_Cons split: nat.splits)+
    moreover have "vs ! (j - 1) \<noteq> 0" using 0 nz by (metis less_imp_diff_less nth_mem)
    ultimately show ?case by auto
  next
    case (Suc i)
    then obtain k where j: "j = Suc k" "i < k" by (cases j) auto
    have "p (vs ! Suc i) = vs ! i" "p (vs ! Suc k) = vs ! k"
      using dchain_nth [OF ch, of "Suc i"] dchain_nth [OF ch, of "Suc k"] Suc.prems j by auto
    then show ?case using Suc.IH [of k] Suc.prems j by auto
  qed
  then show ?thesis unfolding distinct_conv_nth by (metis nat_neq_iff)
qed

definition free_path :: "umm_heap_context \<Rightarrow> nat list \<Rightarrow> bool" where
  "free_path ctx vs \<longleftrightarrow> dchain (nfr ctx) (pfr ctx) (0 # vs) \<and> 0 \<notin> set vs \<and> (\<forall>v \<in> set vs. v < unat (numblocks ctx))"

lemma free_path_length: "free_path ctx vs \<Longrightarrow> length vs < unat (numblocks ctx) \<or> vs = []"
proof (cases "vs = []")
  case False
  assume p: "free_path ctx vs"
  have "distinct (0 # vs)" using p dchain_distinct by (auto simp: free_path_def)
  then have "length (0 # vs) = card (set (0 # vs))" by (simp only: distinct_card)
  also have "\<dots> \<le> card {..<unat (numblocks ctx)}"
    using p False by (intro card_mono) (auto simp: free_path_def neq_Nil_conv)
  finally show ?thesis by simp
qed simp

lemma integrity_free_step:
  assumes "unat prev = last (0 # vs)"
  shows "integrity_free (marked (set vs) {} ctx) prev =
    (let cur = nfr ctx (last (0 # vs)) in
     if unat (numblocks ctx) \<le> cur then Some (False, marked (set vs) {} ctx)
     else if cur = 0 then Some (True, marked (set vs) {} ctx)
     else if pfr ctx cur \<noteq> last (0 # vs) then Some (False, marked (set vs) {} ctx)
     else integrity_free (marked (set (vs @ [cur])) {} ctx) (UMM_NFREE ctx (last (0 # vs))))"
  by (subst integrity_free.simps)
    (simp only: Let_def marked_fields(1-4) mark_step assms nfr_def pfr_def word_le_nat_alt unat_0
       word_unat_eq_iff set_append list.set Un_insert_right Un_empty_right)

lemma integrity_free_total:
  assumes "free_path ctx vs" and "unat prev = last (0 # vs)"
  shows "\<exists>r ws. integrity_free (marked (set vs) {} ctx) prev = Some (r, marked (set ws) {} ctx) \<and> free_path ctx ws \<and>
    (r \<longrightarrow> nfr ctx (last (0 # ws)) = 0)"
  using assms
proof (induction "unat (numblocks ctx) - length vs" arbitrary: vs prev rule: less_induct)
  case less
  let ?c = "nfr ctx (last (0 # vs))"
  note step = integrity_free_step [OF less.prems(2), of ctx]
  show ?case
  proof (cases "unat (numblocks ctx) \<le> ?c \<or> ?c = 0 \<or> pfr ctx ?c \<noteq> last (0 # vs)")
    case True
    then show ?thesis unfolding step using less.prems(1)
      by (intro exI [of _ "\<not> unat (numblocks ctx) \<le> ?c \<and> ?c = 0"] exI [of _ vs]) (auto simp: Let_def simp del: last.simps)
  next
    case False
    have "dchain (nfr ctx) (pfr ctx) ((0 # vs) @ [?c])"
      using False less.prems(1) dchain_append [of "0 # vs" "[?c]"] by (simp add: free_path_def)
    then have p: "free_path ctx (vs @ [?c])" using False less.prems(1) by (auto simp: free_path_def)
    then have "length (vs @ [?c]) < unat (numblocks ctx)" using free_path_length by blast
    then have "unat (numblocks ctx) - length (vs @ [?c]) < unat (numblocks ctx) - length vs" by simp
    moreover have "unat (UMM_NFREE ctx (last (0 # vs))) = last (0 # vs @ [?c])" unfolding nfr_def by simp
    ultimately show ?thesis using less.hyps [OF _ p] False unfolding step Let_def by (simp del: last.simps set_append)
  qed
qed

lemma integrity_free_ring:
  assumes ok: "heap_ok ctx B (xs @ ys)" and "unat prev = last (0 # xs)"
  shows "integrity_free (marked (set xs) {} ctx) prev = Some (True, marked (set (xs @ ys)) {} ctx)"
  using assms
proof (induction ys arbitrary: xs prev)
  case Nil
  have "nfr ctx (last (0 # xs)) = 0" using heap_okD(2) [OF Nil(1)] ring_join [of _ _ xs "[]"] by simp
  moreover have "0 < unat (numblocks ctx)" using Nil(1) by (simp add: heap_ok_def)
  ultimately show ?case unfolding integrity_free_step [OF Nil(2)] by (simp add: Let_def)
next
  case (Cons y ys)
  have n: "nfr ctx (last (0 # xs)) = y" "pfr ctx y = last (0 # xs)" "y \<noteq> 0"
    using heap_okD(2) [OF Cons.prems(1)] by (auto simp: ring_split)
  have "y < unat (numblocks ctx)" using heap_ok_lt [OF Cons.prems(1)] heap_okD(5) [OF Cons.prems(1), of y] by simp
  moreover have "unat (UMM_NFREE ctx (last (0 # xs))) = y" using n(1) by (simp add: nfr_def)
  ultimately show ?case unfolding integrity_free_step [OF Cons.prems(2)]
    using Cons.IH [of "xs @ [y]"] Cons.prems(1) n by (simp add: Let_def)
qed

section \<open>The walk of all blocks\<close>

lemma integrity_blocks_step:
  "integrity_blocks (marked M P ctx) prev =
    (let cur = nxt ctx (unat prev); w = UMM_NBLOCK ctx (unat prev) AND UMM_BLOCKNO_MASK in
     if unat (numblocks ctx) \<le> cur then Some (False, marked M P ctx)
     else if cur = 0 then Some (True, marked M P ctx)
     else if freebit (UMM_NBLOCK ctx cur) \<noteq> freebit (UMM_PBLOCK (marked M P ctx) cur) then Some (False, marked M P ctx)
     else if cur \<le> unat prev then Some (False, marked M P ctx)
     else if blkno (UMM_PBLOCK ctx cur) \<noteq> unat prev then Some (False, marked M (insert cur P) ctx)
     else integrity_blocks (marked M (insert cur P) ctx) w)"
proof -
  let ?w = "UMM_NBLOCK ctx (unat prev) AND UMM_BLOCKNO_MASK"
  have w: "unat ?w = nxt ctx (unat prev)" by (simp add: nxt_def)
  have fm: "unat (v AND UMM_FREELIST_MASK) = unat (u AND UMM_FREELIST_MASK) \<longleftrightarrow> (freebit v \<longleftrightarrow> freebit u)" for u v
    unfolding freelist_mask_bits(2) [symmetric] by (rule word_unat_eq_iff [symmetric])
  have p: "unat (UMM_PBLOCK (marked M (insert c P) ctx) c) = blkno (UMM_PBLOCK ctx c)" for c by simp
  show ?thesis
    by (subst integrity_blocks.simps)
      (simp only: Let_def marked_fields(1-4) unmark_step w p fm word_le_nat_alt word_unat_eq_iff unat_0)
qed

lemma bchain_extend:
  assumes ch: "bchain nx pv l B" and c: "nx l = c" "l < c" "pv c = l"
  shows "bchain nx pv c (insert c B)"
proof -
  have le: "x \<le> l" if "x \<in> B" for x using bchain_le [OF ch that] .
  have "nx b \<in> insert c B \<and> b < nx b \<and> pv (nx b) = b \<and> (\<forall>x \<in> insert c B. x \<le> b \<or> nx b \<le> x)" if b: "b \<in> B" for b
  proof (cases "b = l")
    case True
    then show ?thesis using c le by auto
  next
    case False
    note n = bchain_next [OF ch b False]
    then have "nx b \<le> c" using c by simp
    then show ?thesis using n bchain_gap [OF ch b False] by blast
  qed
  moreover have "b \<in> insert c B \<Longrightarrow> b \<noteq> c \<Longrightarrow> b \<in> B" for b by blast
  moreover have "0 \<in> insert c B" "insert c B \<subseteq> {..c}" using ch le c by (auto simp: bchain_def intro: less_imp_le le_less_trans)
  ultimately show ?thesis unfolding bchain_def by blast
qed

text \<open>What the check establishes: a proper chain of blocks up to \<open>l\<close>, with the right marks.\<close>

definition blocks_good :: "umm_heap_context \<Rightarrow> nat set \<Rightarrow> nat set \<Rightarrow> nat \<Rightarrow> bool" where
  "blocks_good ctx M P l \<longleftrightarrow> bchain (nxt ctx) (\<lambda>b. blkno (UMM_PBLOCK ctx b)) l (insert 0 P) \<and>
     (\<forall>b \<in> P. 0 < b \<and> b < unat (numblocks ctx) \<and> (freebit (UMM_NBLOCK ctx b) \<longleftrightarrow> b \<in> M \<or> freebit (UMM_PBLOCK ctx b)))"

lemma integrity_blocks_sound:
  assumes "blocks_good ctx M P (unat prev)"
  shows "\<exists>r P'. integrity_blocks (marked M P ctx) prev = Some (r, marked M P' ctx) \<and>
    (r \<longrightarrow> (\<exists>l. blocks_good ctx M P' l \<and> nxt ctx l = 0))"
  using assms
proof (induction "0x10000 - unat prev" arbitrary: P prev rule: less_induct)
  case less
  let ?c = "nxt ctx (unat prev)" and ?w = "UMM_NBLOCK ctx (unat prev) AND UMM_BLOCKNO_MASK"
  have w: "unat ?w = ?c" by (simp add: nxt_def)
  note ch = less.prems [unfolded blocks_good_def, THEN conjunct1]
  note step = integrity_blocks_step [of M P ctx prev]
  show ?case
  proof (cases "unat (numblocks ctx) \<le> ?c \<or> ?c = 0 \<or> freebit (UMM_NBLOCK ctx ?c) \<noteq> freebit (UMM_PBLOCK (marked M P ctx) ?c) \<or> ?c \<le> unat prev")
    case True
    then show ?thesis unfolding step
      by (intro exI [of _ "\<not> unat (numblocks ctx) \<le> ?c \<and> ?c = 0"] exI [of _ P]) (use less.prems in \<open>auto simp: Let_def\<close>)
  next
    case on: False
    have cP: "?c \<notin> P" using bchain_le [OF ch, of ?c] on by auto
    show ?thesis
    proof (cases "blkno (UMM_PBLOCK ctx ?c) = unat prev")
      case False
      then show ?thesis unfolding step using on by (auto simp: Let_def)
    next
      case True
      have "bchain (nxt ctx) (\<lambda>b. blkno (UMM_PBLOCK ctx b)) ?c (insert ?c (insert 0 P))"
        by (rule bchain_extend [OF ch]) (use on True in auto)
      moreover have "freebit (UMM_NBLOCK ctx ?c) \<longleftrightarrow> ?c \<in> M \<or> freebit (UMM_PBLOCK ctx ?c)" using on cP by (auto split: if_splits)
      ultimately have good: "blocks_good ctx M (insert ?c P) (unat ?w)"
        using less.prems on unfolding blocks_good_def w by (simp add: insert_commute)
      have "0x10000 - unat ?w < 0x10000 - unat prev" using on unat_bound [of ?w] unfolding w by (intro diff_less_mono2) simp_all
      from less.hyps [OF this good] show ?thesis
        unfolding step Let_def using on True by simp
    qed
  qed
qed

lemma integrity_blocks_ok:
  assumes ok: "heap_ok ctx B fs" and "unat prev \<in> B"
  shows "integrity_blocks (marked (set fs) {b \<in> B. 0 < b \<and> b \<le> unat prev} ctx) prev =
    Some (True, marked (set fs) {b \<in> B. 0 < b} ctx)"
  using assms(2)
proof (induction "0x10000 - unat prev" arbitrary: prev rule: less_induct)
  case less
  note ch = heap_okD(1) [OF ok]
  let ?c = "nxt ctx (unat prev)" and ?w = "UMM_NBLOCK ctx (unat prev) AND UMM_BLOCKNO_MASK" and ?l = "UMM_BLOCK_LAST ctx"
  have w: "unat ?w = ?c" by (simp add: nxt_def)
  have nb: "0 < unat (numblocks ctx)" using ok by (simp add: heap_ok_def)
  note step = integrity_blocks_step [of "set fs" "{b \<in> B. 0 < b \<and> b \<le> unat prev}" ctx prev]
  show ?case
  proof (cases "unat prev = ?l")
    case True
    have "b \<le> ?l" if "b \<in> B" for b by (rule bchain_le [OF ch that])
    then have "{b \<in> B. 0 < b \<and> b \<le> unat prev} = {b \<in> B. 0 < b}" using True by auto
    then show ?thesis unfolding step using True heap_okD(3) [OF ok] nb by (simp add: Let_def)
  next
    case False
    note nc = bchain_next [OF ch less.prems False]
    have "b \<le> ?c \<longleftrightarrow> b = ?c \<or> b \<le> unat prev" if "b \<in> B" for b
      using bchain_gap [OF ch less.prems False that] nc by linarith
    then have P: "insert ?c {b \<in> B. 0 < b \<and> b \<le> unat prev} = {b \<in> B. 0 < b \<and> b \<le> unat ?w}"
      unfolding w using nc by auto
    have lt: "?c < unat (numblocks ctx)" using heap_ok_lt [OF ok] nc by blast
    have pu: "unat (UMM_PBLOCK ctx ?c) = unat prev" using nc by (simp add: prv_def)
    have small: "unat prev < 0x8000" by (rule heap_okD(9) [OF ok less.prems])
    have pb: "blkno (UMM_PBLOCK ctx ?c) = unat prev" "\<not> freebit (UMM_PBLOCK ctx ?c)"
      using pu small by (simp_all add: blkno_small freebit_small)
    have fb: "freebit (UMM_NBLOCK ctx ?c) \<longleftrightarrow> ?c \<in> set fs" using heap_okD(4) [OF ok] nc by blast
    have "0x10000 - unat ?w < 0x10000 - unat prev" using nc unat_bound [of ?w] unfolding w by (intro diff_less_mono2) simp_all
    from less.hyps [OF this] nc have "integrity_blocks (marked (set fs) {b \<in> B. 0 < b \<and> b \<le> unat ?w} ctx) ?w =
      Some (True, marked (set fs) {b \<in> B. 0 < b} ctx)" unfolding w by blast
    then show ?thesis unfolding step Let_def P using lt nc pb fb by simp
  qed
qed

section \<open>Properties\<close>

lemma integrity_check_inv:
  assumes "umm_inv ctx"
  shows "umm_integrity_check ctx = Some (True, ctx)"
proof -
  obtain B fs where "heap_inv ctx B fs" using assms by (auto simp: umm_inv_def)
  then have ok: "heap_ok ctx B fs" by (rule heap_inv_ok)
  have 1: "integrity_free ctx 0 = Some (True, marked (set fs) {} ctx)"
    using integrity_free_ring [of ctx B "[]" fs 0] ok by simp
  have e: "{b \<in> B. 0 < b \<and> b \<le> unat (0 :: u16)} = {}" by auto
  have 2: "integrity_blocks (marked (set fs) {} ctx) 0 = Some (True, marked (set fs) {b \<in> B. 0 < b} ctx)"
    using integrity_blocks_ok [OF ok, of 0, unfolded e] heap_okD(10) [OF ok] by simp
  have keep: "UMM_PBLOCK ctx b AND UMM_BLOCKNO_MASK = UMM_PBLOCK ctx b" if "b \<in> B" "0 < b" for b
  proof -
    have "unat (UMM_PBLOCK ctx b) < 0x8000"
      using bchain_prev [OF heap_okD(1) [OF ok], of b] heap_okD(9) [OF ok] that by (simp add: prv_def)
    then show ?thesis by (simp add: word_unat_eq_iff blkno_small)
  qed
  have "b \<in> B \<and> 0 < b" if "b \<in> set fs" for b using heap_okD(5,6) [OF ok that] by simp
  moreover from this have "0 \<notin> set fs" by blast
  ultimately have "marked (set fs) {b \<in> B. 0 < b} ctx = ctx" using keep
    by (auto simp: marked_def UMM_PBLOCK_def fun_eq_iff intro!: umm_heap_context.equality)
  then show ?thesis by (simp add: umm_integrity_check_def 1 2)
qed

text \<open>
  the integrity check accepts every well-formed heap and leaves it as it was: all
  marks it sets on the way are removed again.
\<close>

lemma umm_integrity_check_accepts:
  assumes "umm_inv ctx"
  shows "umm_integrity_check ctx = Some (True, ctx)"
  by (rule integrity_check_inv [OF assms])

lemma umm_integrity_check_accepts_witness: "umm_integrity_check heap10 = Some (True, heap10)"
  by (rule umm_integrity_check_accepts) (rule heap10_inv(1))

text \<open>
  C11: the integrity check ends on every heap whatsoever, also on one whose free list is
  tied into a cycle, and changes nothing but \<open>prev\<close> links.
\<close>

theorem umm_integrity_check_terminates:
  "\<exists>r M P. umm_integrity_check ctx = Some (r, marked M P ctx)"
proof -
  have "free_path ctx []" by (simp add: free_path_def)
  from integrity_free_total [OF this, of 0]
  obtain r ws where 1: "integrity_free ctx 0 = Some (r, marked (set ws) {} ctx)" by auto
  have "blocks_good ctx (set ws) {} (unat (0 :: u16))" by (simp add: blocks_good_def bchain_def)
  from integrity_blocks_sound [OF this] obtain r' P where
    "integrity_blocks (marked (set ws) {} ctx) 0 = Some (r', marked (set ws) P ctx)" by blast
  then show ?thesis using 1 by (auto simp: umm_integrity_check_def)
qed

text \<open>
  C12: a heap that passes the check has a proper list of blocks in address order, ending
  at a block with no successor, with matching back links; a proper free list;
  and a block is tagged free exactly when it is on the free list (or its \<open>prev\<close>
  link carried the tag before the check).
\<close>

theorem umm_integrity_check_sound:
  assumes "umm_integrity_check ctx = Some (True, ctx')"
  shows "\<exists>l P fs. blocks_good ctx (set fs) P l \<and> nxt ctx l = 0 \<and> free_path ctx fs \<and> nfr ctx (last (0 # fs)) = 0"
proof -
  have "free_path ctx []" by (simp add: free_path_def)
  from integrity_free_total [OF this, of 0]
  obtain r ws where 1: "integrity_free ctx 0 = Some (r, marked (set ws) {} ctx)" "free_path ctx ws"
    "r \<longrightarrow> nfr ctx (last (0 # ws)) = 0" by auto
  have "blocks_good ctx (set ws) {} (unat (0 :: u16))" by (simp add: blocks_good_def bchain_def)
  from integrity_blocks_sound [OF this] obtain r' P where
    2: "integrity_blocks (marked (set ws) {} ctx) 0 = Some (r', marked (set ws) P ctx)"
    "r' \<longrightarrow> (\<exists>l. blocks_good ctx (set ws) P l \<and> nxt ctx l = 0)" by blast
  have "r" "r'" using assms 1(1) 2(1) by (auto simp: umm_integrity_check_def split: if_splits)
  then show ?thesis using 1(2,3) 2(2) by blast
qed

theorem umm_integrity_check_sound_witness:
  "\<exists>l P fs. blocks_good heap10 (set fs) P l \<and> nxt heap10 l = 0 \<and> free_path heap10 fs"
  using umm_integrity_check_sound [of heap10 heap10] integrity_check_inv [OF heap10_inv(1)] by blast

end
