(* ===== verification/Umm_Poison.thy ===== *)
theory Umm_Poison
  imports Umm_Realloc
begin

text \<open>
  The guard bytes of \<open>cores/esp8266/umm_malloc/umm_poison.c\<close> and of the matching part of
  \<open>umm_local.c\<close>.  With \<open>UMM_POISON_CHECK\<close> every block handed out is laid out as
  length (4 bytes), guard (4), user data, guard (4).  Messages are not part of
  the model; \<open>umm_poison_realloc\<close> and \<open>umm_poison_realloc_fl\<close> are not modelled, as
  \<open>umm_realloc\<close> is modelled in the build without guards.
\<close>

section \<open>Definitions\<close>

definition POISON_BYTE :: u8 where "POISON_BYTE = 0xa5"
definition UMM_POISON_SIZE_BEFORE :: nat where "UMM_POISON_SIZE_BEFORE = 4"
definition UMM_POISON_SIZE_AFTER :: nat where "UMM_POISON_SIZE_AFTER = 4"
definition UMM_POISONED_BLOCK_LEN :: nat where "UMM_POISONED_BLOCK_LEN = 4"

definition UMM_POISON_BLOCK_SIZE :: nat where
  "UMM_POISON_BLOCK_SIZE = UMM_POISON_SIZE_BEFORE + UMM_POISONED_BLOCK_LEN + UMM_POISON_SIZE_AFTER"

text \<open>Memory of the heap by address.\<close>

definition load8 :: "umm_heap_context \<Rightarrow> u32 \<Rightarrow> u8" where
  "load8 ctx a = heap_byte ctx (unat (a - heap ctx))"

definition load32 :: "umm_heap_context \<Rightarrow> u32 \<Rightarrow> u32" where
  "load32 ctx a = word_of (load8 ctx a) (load8 ctx (a + 1)) (load8 ctx (a + 2)) (load8 ctx (a + 3))"

definition store32 :: "u32 \<Rightarrow> u32 \<Rightarrow> umm_heap_context \<Rightarrow> umm_heap_context" where
  "store32 a v ctx = mem_write (unat (a - heap ctx)) 4 (\<lambda>i. byte_of i v) ctx"

definition add_poison_size :: "u32 \<Rightarrow> u32" where
  "add_poison_size s = (if s = 0 then s else umm_uadd_sat s (of_nat UMM_POISON_BLOCK_SIZE))"

definition put_poison :: "u32 \<Rightarrow> nat \<Rightarrow> umm_heap_context \<Rightarrow> umm_heap_context" where
  "put_poison ptr poison_size = umm_memset ptr POISON_BYTE poison_size"

definition check_poison :: "umm_heap_context \<Rightarrow> u32 \<Rightarrow> nat \<Rightarrow> bool" where
  "check_poison ctx ptr poison_size \<longleftrightarrow> list_all (\<lambda>i. load8 ctx (ptr + of_nat i) = POISON_BYTE) [0..<poison_size]"

definition check_poison_block :: "umm_heap_context \<Rightarrow> nat \<Rightarrow> bool" where
  "check_poison_block ctx c =
     (if freebit (UMM_NBLOCK ctx c) then True
      else let pc = UMM_DATA ctx c in
        check_poison ctx (pc + of_nat UMM_POISONED_BLOCK_LEN) UMM_POISON_SIZE_BEFORE \<and>
        check_poison ctx (pc + load32 ctx pc - of_nat UMM_POISON_SIZE_AFTER) UMM_POISON_SIZE_AFTER)"

definition get_poisoned :: "u32 \<Rightarrow> u32 \<Rightarrow> umm_heap_context \<Rightarrow> u32 \<times> umm_heap_context" where
  "get_poisoned ptr size_w_poison ctx =
     (if size_w_poison \<noteq> 0 \<and> ptr \<noteq> 0
      then let ctx1 = put_poison (ptr + of_nat UMM_POISONED_BLOCK_LEN) UMM_POISON_SIZE_BEFORE ctx;
               ctx2 = put_poison (ptr + size_w_poison - of_nat UMM_POISON_SIZE_AFTER) UMM_POISON_SIZE_AFTER ctx1;
               ctx3 = store32 ptr size_w_poison ctx2
           in (ptr + of_nat (UMM_POISONED_BLOCK_LEN + UMM_POISON_SIZE_BEFORE), ctx3)
      else (ptr, ctx))"

text \<open>The result of the check is only reported by \<open>get_unpoisoned\<close>; the caller cannot see it.\<close>

definition get_unpoisoned :: "umm_heap_context \<Rightarrow> u32 \<Rightarrow> umm_error + u32" where
  "get_unpoisoned ctx vptr =
     (if vptr \<noteq> 0
      then case umm_get_ptr_context ctx vptr of
             Inl e \<Rightarrow> Inl e
           | Inr _ \<Rightarrow> Inr (vptr - of_nat (UMM_POISONED_BLOCK_LEN + UMM_POISON_SIZE_BEFORE))
      else Inr vptr)"

text \<open>\<open>umm_malloc\<close> in this build.\<close>

definition umm_malloc_guarded :: "umm_heap_context \<Rightarrow> u32 \<Rightarrow> (u32 \<times> umm_heap_context) option" where
  "umm_malloc_guarded ctx sz =
     (if sz = 0 then Some (0, ctx)
      else map_option (\<lambda>(ptr, ctx1). get_poisoned ptr sz ctx1) (umm_malloc_core ctx sz))"

definition umm_poison_malloc :: "umm_heap_context \<Rightarrow> u32 \<Rightarrow> (u32 \<times> umm_heap_context) option" where
  "umm_poison_malloc ctx sz = umm_malloc_guarded ctx (add_poison_size sz)"

definition umm_poison_calloc :: "umm_heap_context \<Rightarrow> u32 \<Rightarrow> u32 \<Rightarrow> (u32 \<times> umm_heap_context) option" where
  "umm_poison_calloc ctx num item_size =
     (let sz = umm_umul_sat num item_size
      in map_option (\<lambda>(ret, ctx1). if ret \<noteq> 0 then (ret, umm_memset ret 0 (unat sz) ctx1) else (ret, ctx1))
           (umm_malloc_guarded ctx (add_poison_size sz)))"

definition umm_poison_free :: "umm_heap_context \<Rightarrow> u32 \<Rightarrow> umm_error + umm_heap_context" where
  "umm_poison_free ctx ptr = (case get_unpoisoned ctx ptr of Inl e \<Rightarrow> Inl e | Inr p \<Rightarrow> umm_free ctx p)"

partial_function (option) poison_check_loop :: "umm_heap_context \<Rightarrow> u16 \<Rightarrow> bool option" where
  "poison_check_loop ctx cur =
     (if UMM_NBLOCK ctx (unat cur) AND UMM_BLOCKNO_MASK = 0 then Some True
      else if UMM_NBLOCK ctx (unat cur) AND UMM_FREELIST_MASK = 0 \<and> \<not> check_poison_block ctx (unat cur) then Some False
      else poison_check_loop ctx (UMM_NBLOCK ctx (unat cur) AND UMM_BLOCKNO_MASK))"

definition umm_poison_check :: "umm_heap_context \<Rightarrow> bool option" where
  "umm_poison_check ctx = poison_check_loop ctx (UMM_NBLOCK ctx 0 AND UMM_BLOCKNO_MASK)"

text \<open>The neighbours of a block, in the build with \<open>UMM_POISON_CHECK_LITE\<close>.\<close>

partial_function (option) neighbor_below :: "umm_heap_context \<Rightarrow> u16 \<Rightarrow> bool option" where
  "neighbor_below ctx c =
     (if c = 0 \<or> UMM_NBLOCK ctx (unat c) AND UMM_BLOCKNO_MASK = 0 then Some True
      else if UMM_NBLOCK ctx (unat c) AND UMM_FREELIST_MASK = 0 then Some (check_poison_block ctx (unat c))
      else neighbor_below ctx (UMM_PBLOCK ctx (unat c) AND UMM_BLOCKNO_MASK))"

partial_function (option) neighbor_above :: "umm_heap_context \<Rightarrow> u16 \<Rightarrow> bool option" where
  "neighbor_above ctx c =
     (if UMM_NBLOCK ctx (unat c) AND UMM_BLOCKNO_MASK = 0 then Some True
      else if UMM_NBLOCK ctx (unat c) AND UMM_FREELIST_MASK = 0 then Some (check_poison_block ctx (unat c))
      else neighbor_above ctx (UMM_NBLOCK ctx (unat c) AND UMM_BLOCKNO_MASK))"

definition check_poison_neighbors :: "umm_heap_context \<Rightarrow> u16 \<Rightarrow> bool option" where
  "check_poison_neighbors ctx cur =
     (if cur = 0 then Some True
      else case neighbor_below ctx (UMM_PBLOCK ctx (unat cur) AND UMM_BLOCKNO_MASK) of
             None \<Rightarrow> None
           | Some False \<Rightarrow> Some False
           | Some True \<Rightarrow> neighbor_above ctx (UMM_NBLOCK ctx (unat cur) AND UMM_BLOCKNO_MASK))"

text \<open>\<open>None\<close> inside the result is the panic of the source.\<close>

definition get_unpoisoned_check_neighbors :: "umm_heap_context \<Rightarrow> u32 \<Rightarrow> u32 option option" where
  "get_unpoisoned_check_neighbors ctx vptr =
     (if vptr \<noteq> 0
      then let ptr = vptr - of_nat (UMM_POISONED_BLOCK_LEN + UMM_POISON_SIZE_BEFORE) in
        if test_ptr_context ctx ptr
        then let c = block_of_ptr ctx ptr in
          if check_poison_block ctx (unat c)
          then map_option (\<lambda>poison. if poison then Some ptr else None) (check_poison_neighbors ctx c)
          else Some None
        else Some None
      else Some (Some vptr))"

definition umm_poison_free_fl :: "umm_heap_context \<Rightarrow> u32 \<Rightarrow> (umm_error + umm_heap_context) option option" where
  "umm_poison_free_fl ctx ptr = map_option (map_option (umm_free ctx)) (get_unpoisoned_check_neighbors ctx ptr)"

section \<open>Guards as bytes of the heap\<close>

lemmas poison_sizes = UMM_POISON_SIZE_BEFORE_def UMM_POISON_SIZE_AFTER_def UMM_POISONED_BLOCK_LEN_def

lemma data_offset:
  assumes "placed ctx" "c < unat (numblocks ctx)" and "8 * c + 4 + unat w < 2 ^ 32"
  shows "unat (UMM_DATA ctx c + w - heap ctx) = 8 * c + 4 + unat w"
proof -
  have "unat ((UMM_DATA ctx c - heap ctx) + w) = unat (UMM_DATA ctx c - heap ctx) + unat w"
    using placed_offset [OF assms(1,2)] assms(3) by (intro unat_add_lem [THEN iffD1]) simp
  moreover have "(UMM_DATA ctx c - heap ctx) + w = UMM_DATA ctx c + w - heap ctx" by simp
  ultimately show ?thesis using placed_offset [OF assms(1,2)] by simp
qed

lemma less_4: "(\<forall>i < 4. P i) \<longleftrightarrow> P 0 \<and> P 1 \<and> P 2 \<and> P (3 :: nat)"
proof -
  have "i < 4 \<longleftrightarrow> i = 0 \<or> i = 1 \<or> i = 2 \<or> i = 3" for i :: nat by auto
  then show ?thesis by metis
qed

lemma load8_data:
  "placed ctx \<Longrightarrow> c < unat (numblocks ctx) \<Longrightarrow> 8 * c + 4 + unat w < 2 ^ 32 \<Longrightarrow>
   load8 ctx (UMM_DATA ctx c + w) = heap_byte ctx (8 * c + 4 + unat w)"
  by (simp add: load8_def data_offset)

lemma check_poison_data:
  assumes "placed ctx" "c < unat (numblocks ctx)" and "8 * c + 8 + unat w < 2 ^ 32"
  shows "check_poison ctx (UMM_DATA ctx c + w) 4 \<longleftrightarrow> (\<forall>i < 4. heap_byte ctx (8 * c + 4 + unat w + i) = POISON_BYTE)"
proof -
  have "load8 ctx (UMM_DATA ctx c + w + of_nat i) = heap_byte ctx (8 * c + 4 + unat w + i)" if "i < 4" for i
  proof -
    have "unat (w + of_nat i) = unat w + i" using that assms(3)
      by (subst unat_add_lem [THEN iffD1]) (simp_all add: unat_of_nat_u32)
    then show ?thesis using load8_data [OF assms(1,2), of "w + of_nat i"] that assms(3) by (simp add: add.assoc)
  qed
  then show ?thesis by (auto simp: check_poison_def list_all_iff)
qed

text \<open>The frame around the user's data of a block, by offset: length and guards.\<close>

definition guards :: "umm_heap_context \<Rightarrow> nat \<Rightarrow> nat \<Rightarrow> bool" where
  "guards ctx c n \<longleftrightarrow> (\<forall>i < 4. heap_byte ctx (8 * c + 8 + i) = POISON_BYTE) \<and> (\<forall>i < 4. heap_byte ctx (8 * c + n + i) = POISON_BYTE)"

lemma check_poison_block_guards:
  assumes pl: "placed ctx" "c < unat (numblocks ctx)" and used: "\<not> freebit (UMM_NBLOCK ctx c)"
    and len: "\<And>i. i < 4 \<Longrightarrow> heap_byte ctx (8 * c + 4 + i) = byte_of i sz" and sz: "12 \<le> unat sz" "8 * c + 4 + unat sz < 2 ^ 32"
  shows "check_poison_block ctx c \<longleftrightarrow> guards ctx c (unat sz)"
proof -
  have l8: "load8 ctx (UMM_DATA ctx c) = byte_of 0 sz" "load8 ctx (UMM_DATA ctx c + 1) = byte_of 1 sz"
    "load8 ctx (UMM_DATA ctx c + 2) = byte_of 2 sz" "load8 ctx (UMM_DATA ctx c + 3) = byte_of 3 sz"
    using load8_data [OF pl, of 0] load8_data [OF pl, of 1] load8_data [OF pl, of 2] load8_data [OF pl, of 3]
      len [of 0] len [of 1] len [of 2] len [of 3] sz by simp_all
  have ld: "load32 ctx (UMM_DATA ctx c) = sz" unfolding load32_def l8 by simp
  have u4: "unat (4 :: u32) = 4" by simp
  have u: "unat (sz - 4) = unat sz - 4" using sz(1) by (simp add: unat_sub word_le_nat_alt)
  have eq: "UMM_DATA ctx c + sz - 4 = UMM_DATA ctx c + (sz - 4)" by simp
  have "check_poison ctx (UMM_DATA ctx c + 4) 4 \<longleftrightarrow> (\<forall>i < 4. heap_byte ctx (8 * c + 8 + i) = POISON_BYTE)"
    using check_poison_data [OF pl, of 4, unfolded u4] sz by (simp add: ac_simps)
  moreover have "check_poison ctx (UMM_DATA ctx c + sz - 4) 4 \<longleftrightarrow> (\<forall>i < 4. heap_byte ctx (8 * c + unat sz + i) = POISON_BYTE)"
    unfolding eq using check_poison_data [OF pl, of "sz - 4"] sz u by simp
  ultimately show ?thesis
    using used ld by (simp add: check_poison_block_def Let_def poison_sizes guards_def)
qed

section \<open>Writes anywhere in the data of a block\<close>

lemma mem_write_eqI:
  assumes "\<And>a. heap_byte (mem_write d n f ctx) a = heap_byte (mem_write d' n' f' ctx) a"
  shows "mem_write d n f ctx = mem_write d' n' f' ctx"
proof -
  have "blks (mem_write d n f ctx) j = blks (mem_write d' n' f' ctx) j" for j
  proof (rule block_eqI)
    fix i :: nat assume "i < 8"
    then show "block_byte (blks (mem_write d n f ctx) j) i = block_byte (blks (mem_write d' n' f' ctx) j) i"
      using assms [of "8 * j + i"] by (simp add: heap_byte_def)
  qed
  then show ?thesis by (auto simp: mem_write_def fun_eq_iff intro!: umm_heap_context.equality)
qed

lemma mem_write_widen:
  "mem_write (d + k) n f ctx = mem_write d (k + n) (\<lambda>i. if i < k then heap_byte ctx (d + i) else f (i - k)) ctx"
  by (rule mem_write_eqI) (auto simp: heap_byte_write)

lemma data_write_inv:
  assumes inv: "heap_inv ctx B fs" and c: "used_block ctx B fs c" and n: "k + n \<le> 8 * bsize ctx c - 4"
  shows "heap_inv (mem_write (8 * c + 4 + k) n f ctx) B fs" and "live (mem_write (8 * c + 4 + k) n f ctx) = live ctx"
    and "(b, e) \<in> live ctx \<Longrightarrow> b \<noteq> c \<Longrightarrow> data_kept ctx (mem_write (8 * c + 4 + k) n f ctx) b e"
  unfolding mem_write_widen [of "8 * c + 4"] by (rule mem_write_inv [OF inv c n])+

lemma header_bytes:
  assumes "\<And>i. i < 4 \<Longrightarrow> heap_byte ctx' (8 * c + i) = heap_byte ctx (8 * c + i)"
  shows "UMM_NBLOCK ctx' c = UMM_NBLOCK ctx c"
proof -
  have "block_byte (blks ctx' c) i = block_byte (blks ctx c) i" if "i < 4" for i
    using assms [OF that] that by (simp add: heap_byte_def)
  then show ?thesis using header_eqI [of "blks ctx' c" "blks ctx c"] by (simp add: UMM_NBLOCK_def)
qed

lemma used_after:
  assumes inv: "heap_inv ctx B fs" and c: "used_block ctx B fs c" and inv': "heap_inv ctx' B fs" and lv: "live ctx' = live ctx"
  shows "used_block ctx' B fs c" and "bsize ctx' c = bsize ctx c"
proof -
  have "(c, nxt ctx c) \<in> live ctx" using c live_used [OF heap_inv_ok [OF inv]] by blast
  then have "used_block ctx' B fs c \<and> nxt ctx c = nxt ctx' c" using live_used [OF heap_inv_ok [OF inv']] lv by blast
  then show "used_block ctx' B fs c" "bsize ctx' c = bsize ctx c" by (simp_all add: bsize_def)
qed

text \<open>Framing a fresh block.\<close>

lemma get_poisoned_frames:
  assumes inv: "heap_inv ctx B fs" and c: "used_block ctx B fs c" and sz: "12 \<le> unat sz" "unat sz \<le> 8 * bsize ctx c - 4"
  obtains ctx' where "get_poisoned (UMM_DATA ctx c) sz ctx = (UMM_DATA ctx c + 8, ctx')" and "heap_inv ctx' B fs" and "live ctx' = live ctx"
    and "\<And>b e. (b, e) \<in> live ctx \<Longrightarrow> b \<noteq> c \<Longrightarrow> data_kept ctx ctx' b e"
    and "\<And>i. i < 4 \<Longrightarrow> heap_byte ctx' (8 * c + 4 + i) = byte_of i sz" and "guards ctx' c (unat sz)"
    and "UMM_DATA ctx' = UMM_DATA ctx" and "numblocks ctx' = numblocks ctx"
proof -
  note ok = heap_inv_ok [OF inv]
  have pl: "placed ctx" "c < unat (numblocks ctx)"
    using inv c heap_ok_lt [OF ok] by (auto simp: heap_inv_def used_block_def)
  define c1 where "c1 = mem_write (8 * c + 4 + 4) 4 (\<lambda>_. POISON_BYTE) ctx"
  define c2 where "c2 = mem_write (8 * c + 4 + (unat sz - 4)) 4 (\<lambda>_. POISON_BYTE) c1"
  define c3 where "c3 = mem_write (8 * c + 4 + 0) 4 (\<lambda>i. byte_of i sz) c2"
  note w1 = data_write_inv [OF inv c, where k = 4 and n = 4 and f = "\<lambda>_. POISON_BYTE", folded c1_def]
  have i1: "heap_inv c1 B fs" "live c1 = live ctx" using w1(1,2) sz by simp_all
  note u1 = used_after [OF inv c i1]
  note w2 = data_write_inv [OF i1(1) u1(1), where k = "unat sz - 4" and n = 4 and f = "\<lambda>_. POISON_BYTE", folded c2_def]
  have i2: "heap_inv c2 B fs" "live c2 = live ctx" using w2(1,2) sz u1(2) i1(2) by simp_all
  note u2 = used_after [OF inv c i2]
  note w3 = data_write_inv [OF i2(1) u2(1), where k = 0 and n = 4 and f = "\<lambda>i. byte_of i sz", folded c3_def]
  have i3: "heap_inv c3 B fs" "live c3 = live ctx" using w3(1,2) sz u2(2) i2(2) by simp_all
  have lt: "8 * c + 4 + unat sz < 2 ^ 32"
  proof -
    have "c + bsize ctx c \<le> UMM_BLOCK_LAST ctx" using bchain_next [OF heap_okD(1) [OF ok], of c] c by (auto simp: used_block_def bsize_def)
    then have "8 * c + 8 * bsize ctx c < 0x40000" using heap_okD(9) [OF ok heap_okD(11) [OF ok]] by linarith
    then have "8 * c + 4 + unat sz < 0x40004" using sz by linarith
    then show ?thesis by simp
  qed
  have same: "heap c1 = heap ctx" "heap c2 = heap ctx" by (simp_all add: c1_def c2_def)
  have u: "unat (sz - 4) = unat sz - 4" using sz(1) by (simp add: unat_sub word_le_nat_alt)
  have o: "unat (UMM_DATA ctx c + 4 - heap ctx) = 8 * c + 4 + 4" "unat (UMM_DATA ctx c + sz - 4 - heap ctx) = 8 * c + 4 + (unat sz - 4)"
    "unat (UMM_DATA ctx c - heap ctx) = 8 * c + 4 + 0"
    using data_offset [OF pl, of 4] data_offset [OF pl, of "sz - 4"] placed_offset [OF pl] lt sz u by (simp_all add: add_diff_eq)
  have nz: "UMM_DATA ctx c \<noteq> 0" "sz \<noteq> 0" using placed_addr(2) [OF pl] sz(1) by auto
  have "get_poisoned (UMM_DATA ctx c) sz ctx = (UMM_DATA ctx c + 8, c3)"
    unfolding get_poisoned_def put_poison_def umm_memset_def store32_def Let_def poison_sizes of_nat_numeral
    using nz by (simp add: o c1_def c2_def c3_def)
  moreover have "data_kept ctx c3 b e" if "(b, e) \<in> live ctx" "b \<noteq> c" for b e
  proof (rule data_kept_trans [OF _ data_kept_trans])
    show "data_kept ctx c1 b e" by (rule w1(3)) (use that sz in simp_all)
    show "data_kept c1 c2 b e" by (rule w2(3)) (use that sz i1 u1 in simp_all)
    show "data_kept c2 c3 b e" by (rule w3(3)) (use that sz i2 u2 in simp_all)
  qed
  moreover have "heap_byte c3 (8 * c + 4 + i) = byte_of i sz" if "i < 4" for i using that by (simp add: c3_def heap_byte_write)
  moreover have "guards c3 c (unat sz)" using sz by (auto simp: guards_def c3_def c2_def c1_def heap_byte_write)
  moreover have "UMM_DATA c3 = UMM_DATA ctx" "numblocks c3 = numblocks ctx" by (simp_all add: c3_def c2_def c1_def)
  ultimately show thesis using that i3 by blast
qed

section \<open>Properties\<close>

lemma word_of_nat_unat32: "of_nat (unat w) = (w :: u32)"
  by simp

lemma poison_size_big: "sz \<noteq> 0 \<Longrightarrow> 12 \<le> unat (add_poison_size sz) \<and> add_poison_size sz \<noteq> 0"
proof -
  assume "sz \<noteq> 0"
  then have "unat (add_poison_size sz) = min (2 ^ 32 - 1) (unat sz + 12)"
    by (simp add: add_poison_size_def uadd_sat_eq UMM_POISON_BLOCK_SIZE_def poison_sizes)
  then show ?thesis by auto
qed

lemma poison_malloc_spec:
  assumes inv: "heap_inv ctx B fs" and sz: "sz \<noteq> 0"
  shows "umm_poison_malloc ctx sz = Some (0, STATS__OOM_UPDATE ctx) \<and>
      \<not> (\<exists>z y. (z, y) \<in> avail ctx \<and> unat (umm_blocks (add_poison_size sz)) \<le> y - z) \<or>
    (\<exists>c k ctx' B' fs'. umm_poison_malloc ctx sz = Some (UMM_DATA ctx c + 8, ctx') \<and> heap_inv ctx' B' fs' \<and>
      used_block ctx' B' fs' c \<and> live ctx' = insert (c, c + k) (live ctx) \<and> unat sz + 12 \<le> 8 * k - 4 \<and>
      (\<forall>(b, e) \<in> live ctx. data_kept ctx ctx' b e) \<and> (\<forall>i < 4. heap_byte ctx' (8 * c + 4 + i) = byte_of i (sz + 12)) \<and>
      guards ctx' c (unat sz + 12) \<and> unat (sz + 12) = unat sz + 12 \<and> UMM_DATA ctx' = UMM_DATA ctx)"
proof -
  define s where "s = add_poison_size sz"
  let ?k = "unat (umm_blocks s)"
  have s: "12 \<le> unat s" "s \<noteq> 0" using poison_size_big [OF sz] by (simp_all add: s_def)
  have eq: "umm_poison_malloc ctx sz = map_option (\<lambda>(ptr, ctx1). get_poisoned ptr s ctx1) (umm_malloc_core ctx s)"
    using s(2) by (simp add: umm_poison_malloc_def umm_malloc_guarded_def s_def)
  show ?thesis
  proof (cases "\<exists>z y. (z, y) \<in> avail ctx \<and> ?k \<le> y - z")
    case False
    then have "umm_malloc_core ctx s = Some (0, STATS__OOM_UPDATE ctx)"
      by (intro malloc_core_oom [OF heap_inv_ok [OF inv]]) (simp add: not_le)
    then show ?thesis using False by (simp add: eq get_poisoned_def s_def)
  next
    case True
    then obtain z y where fit: "(z, y) \<in> avail ctx" "?k \<le> y - z" by blast
    obtain c ctx1 B1 fs1 where m: "umm_malloc_core ctx s = Some (UMM_DATA ctx c, ctx1)" "UMM_DATA ctx c \<noteq> 0"
      "moves ctx B fs ctx1 B1 fs1" "live ctx1 = insert (c, c + ?k) (live ctx)" "(c, nxt ctx c) \<in> avail ctx"
      "\<forall>(b, e) \<in> live ctx. data_kept ctx ctx1 b e"
      by (rule malloc_core_inv [OF inv fit])
    have inv1: "heap_inv ctx1 B1 fs1" and fr: "frame ctx ctx1 (B \<union> B1) (insert 0 (set fs \<union> set fs1))"
      using m(3) by (simp_all add: moves_def)
    have addr: "UMM_DATA ctx1 = UMM_DATA ctx" using frame_data_addr [OF fr] by simp
    have u: "used_block ctx1 B1 fs1 c" "nxt ctx1 c = c + ?k"
      using live_used [OF heap_inv_ok [OF inv1], of c "c + ?k"] m(4) by auto
    have cap: "unat s \<le> 8 * ?k - 4" by (rule live_capacity [OF inv1]) (use m(4) in blast)
    have "?k \<le> 0x7FFF" by (simp add: umm_blocks_eq)
    then have "unat s \<noteq> 2 ^ 32 - 1" using cap by simp
    then have us: "unat s = unat sz + 12"
      using sz by (auto simp: s_def add_poison_size_def uadd_sat_eq UMM_POISON_BLOCK_SIZE_def poison_sizes min_def split: if_splits)
    then have seq: "s = sz + 12" by (metis of_nat_add of_nat_numeral word_of_nat_unat32)
    obtain ctx' where g: "get_poisoned (UMM_DATA ctx1 c) s ctx1 = (UMM_DATA ctx1 c + 8, ctx')" "heap_inv ctx' B1 fs1" "live ctx' = live ctx1"
      "\<And>b e. (b, e) \<in> live ctx1 \<Longrightarrow> b \<noteq> c \<Longrightarrow> data_kept ctx1 ctx' b e"
      "\<And>i. i < 4 \<Longrightarrow> heap_byte ctx' (8 * c + 4 + i) = byte_of i s" "guards ctx' c (unat s)" "UMM_DATA ctx' = UMM_DATA ctx1"
      by (rule get_poisoned_frames [OF inv1 u(1) s(1)]) (use cap u(2) in \<open>auto simp: bsize_def\<close>)
    have new: "c \<notin> fst ` live ctx" using m(5) by (auto simp: live_def avail_def)
    have "data_kept ctx ctx' b e" if "(b, e) \<in> live ctx" for b e
      using that m(4,6) g(4) [of b e] new by (metis (no_types, lifting) case_prodD data_kept_trans fst_conv image_eqI insertI2)
    moreover have "umm_poison_malloc ctx sz = Some (UMM_DATA ctx c + 8, ctx')" using m(1) g(1) by (simp add: eq addr)
    ultimately show ?thesis
      using g(2,3,5,6,7) used_after(1) [OF inv1 u(1) g(2,3)] m(4) cap us seq addr
      by (intro disjI2 exI [of _ c] exI [of _ ?k] exI [of _ ctx'] exI [of _ B1] exI [of _ fs1]) auto
  qed
qed

lemma guard_check:
  assumes inv: "heap_inv ctx B fs" and c: "used_block ctx B fs c" and cap: "unat s \<le> 8 * bsize ctx c - 4" "12 \<le> unat s"
    and w: "\<And>i. i < 8 \<Longrightarrow> heap_byte (mem_write d n f ctx) (8 * c + i) = heap_byte ctx (8 * c + i)"
    and len: "\<And>i. i < 4 \<Longrightarrow> heap_byte ctx (8 * c + 4 + i) = byte_of i s"
  shows "check_poison_block (mem_write d n f ctx) c \<longleftrightarrow> guards (mem_write d n f ctx) c (unat s)"
proof (rule check_poison_block_guards)
  let ?r = "mem_write d n f ctx"
  note ok = heap_inv_ok [OF inv]
  have cB: "c \<in> B" "c \<notin> set fs" using c by (auto simp: used_block_def)
  have "placed ctx" using inv by (simp add: heap_inv_def)
  then show "placed ?r" by (simp add: placed_def)
  show "c < unat (numblocks ?r)" using heap_ok_lt [OF ok cB(1)] by simp
  have "UMM_NBLOCK ?r c = UMM_NBLOCK ctx c" by (rule header_bytes) (simp add: w)
  then show "\<not> freebit (UMM_NBLOCK ?r c)" using heap_okD(4) [OF ok cB(1)] cB(2) by simp
  show "heap_byte ?r (8 * c + 4 + i) = byte_of i s" if "i < 4" for i using w [of "4 + i"] len [OF that] that by (simp add: ac_simps)
  have "c + bsize ctx c < 0x8000" using bchain_next [OF heap_okD(1) [OF ok], of c] heap_okD(9) [OF ok, of "nxt ctx c"] c
    by (auto simp: used_block_def bsize_def)
  then have "8 * c + 4 + unat s < 0x40004" using cap(1) by linarith
  then show "8 * c + 4 + unat s < 2 ^ 32" by simp
qed (rule cap(2))

lemma user_pointer_nonzero:
  assumes inv: "heap_inv ctx B fs" and c: "(c, c + k) \<in> live ctx" and k: "2 \<le> k"
  shows "UMM_DATA ctx c + 8 \<noteq> 0"
proof -
  note ok = heap_inv_ok [OF inv]
  have u: "used_block ctx B fs c" "nxt ctx c = c + k" using c live_used [OF ok] by auto
  then have "c + k \<in> B" using bchain_next [OF heap_okD(1) [OF ok], of c] by (auto simp: used_block_def)
  then have "c + k < unat (numblocks ctx)" by (rule heap_ok_lt [OF ok])
  then have "unat (heap ctx) + c * 8 + 12 < unat (heap_end ctx)" "placed ctx" "c < unat (numblocks ctx)"
    using inv k by (auto simp: heap_inv_def placed_def umm_block_size_def)
  then have "unat (UMM_DATA ctx c + 8) = unat (UMM_DATA ctx c) + 8"
    using placed_addr(1) [of ctx c] unat_bound [of "heap_end ctx"] by (subst unat_add_lem [THEN iffD1]) simp_all
  then show ?thesis by auto
qed

text \<open>
  C13: a block handed out by the guarded \<open>umm_poison_malloc\<close> holds the user's bytes
  between its guards; the block passes the check, still passes it after any
  write inside the user's bytes, and fails it as soon as one guard byte on
  either side is changed.
\<close>

theorem umm_poison_guards:
  assumes "umm_inv ctx" and sz: "sz \<noteq> 0" and res: "umm_poison_malloc ctx sz = Some (p, ctx')" and p: "p \<noteq> 0"
  shows "\<exists>c k. p = UMM_DATA ctx c + 8 \<and> umm_inv ctx' \<and> live ctx' = insert (c, c + k) (live ctx) \<and> unat sz + 12 \<le> 8 * k - 4 \<and>
    (\<forall>(b, e) \<in> live ctx. data_kept ctx ctx' b e) \<and>
    (\<forall>x n f. x + n \<le> unat sz \<longrightarrow> check_poison_block (mem_write (8 * c + 12 + x) n f ctx') c) \<and>
    (\<forall>i v. i < 4 \<and> v \<noteq> POISON_BYTE \<longrightarrow> \<not> check_poison_block (mem_write (8 * c + 8 + i) 1 (\<lambda>_. v) ctx') c \<and>
      \<not> check_poison_block (mem_write (8 * c + 12 + unat sz + i) 1 (\<lambda>_. v) ctx') c)"
proof -
  obtain B fs where inv: "heap_inv ctx B fs" using assms(1) by (auto simp: umm_inv_def)
  obtain c k B' fs' where m: "p = UMM_DATA ctx c + 8" "heap_inv ctx' B' fs'" "used_block ctx' B' fs' c"
    "live ctx' = insert (c, c + k) (live ctx)" "unat sz + 12 \<le> 8 * k - 4" "\<forall>(b, e) \<in> live ctx. data_kept ctx ctx' b e"
    "\<forall>i < 4. heap_byte ctx' (8 * c + 4 + i) = byte_of i (sz + 12)" "guards ctx' c (unat sz + 12)" "unat (sz + 12) = unat sz + 12"
    using poison_malloc_spec [OF inv sz] res p by auto
  have "(c, c + k) \<in> live ctx'" using m(4) by blast
  then have "nxt ctx' c = c + k" using live_used [OF heap_inv_ok [OF m(2)], of c "c + k"] by simp
  then have k: "bsize ctx' c = k" by (simp add: bsize_def)
  note check = guard_check [OF m(2,3), of "sz + 12", unfolded m(9) k, OF m(5)]
  have user: "check_poison_block (mem_write (8 * c + 12 + x) n f ctx') c" if "x + n \<le> unat sz" for x n f
  proof (subst check)
    show "guards (mem_write (8 * c + 12 + x) n f ctx') c (unat sz + 12)" using m(8) that by (auto simp: guards_def heap_byte_write)
  qed (use m(7) in \<open>auto simp: heap_byte_write\<close>)
  have before: "\<not> check_poison_block (mem_write (8 * c + 8 + i) 1 (\<lambda>_. v) ctx') c" if "i < 4" "v \<noteq> POISON_BYTE" for i v
  proof (subst check)
    show "\<not> guards (mem_write (8 * c + 8 + i) 1 (\<lambda>_. v) ctx') c (unat sz + 12)"
      unfolding guards_def heap_byte_write using that by (intro notI, elim conjE) (erule allE [of _ i], simp)
  qed (use m(7) in \<open>auto simp: heap_byte_write\<close>)
  have after: "\<not> check_poison_block (mem_write (8 * c + 12 + unat sz + i) 1 (\<lambda>_. v) ctx') c" if "i < 4" "v \<noteq> POISON_BYTE" for i v
  proof (subst check)
    show "\<not> guards (mem_write (8 * c + 12 + unat sz + i) 1 (\<lambda>_. v) ctx') c (unat sz + 12)"
      unfolding guards_def heap_byte_write using that by (intro notI, elim conjE) (erule allE [of _ i] allE [of _ i], auto)
  qed (use m(7) in \<open>auto simp: heap_byte_write\<close>)
  have "umm_inv ctx'" using m(2) by (auto simp: umm_inv_def)
  then show ?thesis using m(1,4-6) user before after
    by (intro exI [of _ c] exI [of _ k] conjI allI impI) auto
qed

theorem umm_poison_guards_witness:
  "\<exists>p c ctx'. umm_poison_malloc heap10 5 = Some (p, ctx') \<and> check_poison_block (mem_write (8 * c + 12) 5 (\<lambda>_. 0x5A) ctx') c \<and>
     \<not> check_poison_block (mem_write (8 * c + 17) 1 (\<lambda>_. 0) ctx') c"
proof -
  obtain B fs where inv: "heap_inv heap10 B fs" using heap10_inv(1) by (auto simp: umm_inv_def)
  have "add_poison_size 5 = 17" by (simp add: add_poison_size_def umm_uadd_sat_def UMM_POISON_BLOCK_SIZE_def poison_sizes)
  then have "(1, 9) \<in> avail heap10 \<and> unat (umm_blocks (add_poison_size 5)) \<le> 9 - 1" by (simp add: heap10_inv umm_blocks_eq)
  then have "\<exists>c k ctx' B' fs'. umm_poison_malloc heap10 5 = Some (UMM_DATA heap10 c + 8, ctx') \<and> heap_inv ctx' B' fs' \<and>
      live ctx' = insert (c, c + k) (live heap10) \<and> unat (5 :: u32) + 12 \<le> 8 * k - 4 \<and> UMM_DATA ctx' = UMM_DATA heap10"
    using poison_malloc_spec [OF inv, of 5] by fastforce
  then obtain c k ctx' B' fs' where m: "umm_poison_malloc heap10 5 = Some (UMM_DATA heap10 c + 8, ctx')" "heap_inv ctx' B' fs'"
    "live ctx' = insert (c, c + k) (live heap10)" "17 \<le> 8 * k - 4" "UMM_DATA ctx' = UMM_DATA heap10" by auto
  have "UMM_DATA ctx' c + 8 \<noteq> 0" by (rule user_pointer_nonzero [OF m(2), of c k]) (use m(3,4) in auto)
  then have nz: "UMM_DATA heap10 c + 8 \<noteq> 0" using m(5) by simp
  have s5: "unat (5 :: u32) = 5" "(5 :: u32) \<noteq> 0" "(0 :: u8) \<noteq> POISON_BYTE" by (simp_all add: POISON_BYTE_def)
  obtain d where d: "\<forall>x n f. x + n \<le> 5 \<longrightarrow> check_poison_block (mem_write (8 * d + 12 + x) n f ctx') d"
    "\<forall>i v. i < 4 \<and> v \<noteq> POISON_BYTE \<longrightarrow> \<not> check_poison_block (mem_write (8 * d + 12 + 5 + i) 1 (\<lambda>_. v) ctx') d"
    using umm_poison_guards [OF heap10_inv(1) s5(2) m(1) nz] unfolding s5(1) by blast
  have "check_poison_block (mem_write (8 * d + 12) 5 (\<lambda>_. 0x5A) ctx') d" using d(1) [rule_format, of 0 5] by simp
  moreover have "\<not> check_poison_block (mem_write (8 * d + 17) 1 (\<lambda>_. 0) ctx') d" using d(2) [rule_format, of 0 0] s5(3) by (simp add: add.commute)
  ultimately show ?thesis using m(1) by blast
qed

lemma poison_check_loop_spec:
  assumes ok: "heap_ok ctx B fs" and "unat b \<in> B"
  shows "poison_check_loop ctx b = Some (\<forall>x \<in> B. unat b \<le> x \<and> x \<noteq> UMM_BLOCK_LAST ctx \<and> x \<notin> set fs \<longrightarrow> check_poison_block ctx x)"
  using assms(2)
proof (induction "UMM_BLOCK_LAST ctx - unat b" arbitrary: b rule: less_induct)
  case less
  note ch = heap_okD(1) [OF ok]
  let ?w = "UMM_NBLOCK ctx (unat b) AND UMM_BLOCKNO_MASK" and ?l = "UMM_BLOCK_LAST ctx"
  have w: "unat ?w = nxt ctx (unat b)" by (simp add: nxt_def)
  have zero: "?w = 0 \<longleftrightarrow> nxt ctx (unat b) = 0" unfolding nxt_def blkno_def by (simp only: unat_eq_zero)
  show ?case
  proof (cases "unat b = ?l")
    case True
    then show ?thesis using zero heap_okD(3) [OF ok] bchain_le [OF ch]
      by (subst poison_check_loop.simps) (auto dest: antisym)
  next
    case False
    note nb = bchain_next [OF ch less.prems False]
    have fb: "UMM_NBLOCK ctx (unat b) AND UMM_FREELIST_MASK = 0 \<longleftrightarrow> unat b \<notin> set fs"
      using heap_okD(4) [OF ok less.prems] unfolding freebit_def by blast
    have "?l - unat ?w < ?l - unat b" unfolding w using nb by arith
    note hyp = less.hyps [OF this, unfolded w, OF conjunct1 [OF nb]]
    have "(\<forall>x \<in> B. unat b \<le> x \<and> x \<noteq> ?l \<and> x \<notin> set fs \<longrightarrow> check_poison_block ctx x) \<longleftrightarrow>
        (unat b \<notin> set fs \<longrightarrow> check_poison_block ctx (unat b)) \<and>
        (\<forall>x \<in> B. nxt ctx (unat b) \<le> x \<and> x \<noteq> ?l \<and> x \<notin> set fs \<longrightarrow> check_poison_block ctx x)"
      using bchain_from [OF ch less.prems False] less.prems False by blast
    then show ?thesis using nb zero fb hyp by (subst poison_check_loop.simps) auto
  qed
qed

text \<open>
  \<open>umm_poison_check\<close> of a well-formed heap ends, and answers whether every block
  in use has its guards intact.
\<close>

lemma umm_poison_check_all:
  assumes "umm_inv ctx"
  shows "umm_poison_check ctx = Some (\<forall>(b, e) \<in> live ctx. check_poison_block ctx b)"
proof -
  obtain B fs where "heap_inv ctx B fs" using assms by (auto simp: umm_inv_def)
  then have ok: "heap_ok ctx B fs" by (rule heap_inv_ok)
  let ?w = "UMM_NBLOCK ctx 0 AND UMM_BLOCKNO_MASK" and ?l = "UMM_BLOCK_LAST ctx"
  note ch = heap_okD(1) [OF ok] and z = heap_okD(10,12) [OF ok]
  note n0 = bchain_next [OF ch z(1) z(2) [symmetric]]
  have w: "unat ?w = nxt ctx 0" by (simp add: nxt_def)
  have "x \<in> B \<and> nxt ctx 0 \<le> x \<and> x \<noteq> ?l \<and> x \<notin> set fs \<longleftrightarrow> used_block ctx B fs x" for x
    using bchain_gap [OF ch z(1) z(2) [symmetric], of x] n0 by (auto simp: used_block_def)
  then have "(\<forall>x \<in> B. nxt ctx 0 \<le> x \<and> x \<noteq> ?l \<and> x \<notin> set fs \<longrightarrow> check_poison_block ctx x) \<longleftrightarrow>
      (\<forall>(b, e) \<in> live ctx. check_poison_block ctx b)"
    using live_used [OF ok] by blast
  then show ?thesis using poison_check_loop_spec [OF ok, of ?w, unfolded w, OF conjunct1 [OF n0]] by (simp add: umm_poison_check_def)
qed

lemma umm_poison_check_all_witness: "umm_poison_check heap10 = Some True"
  using umm_poison_check_all [OF heap10_inv(1)] by (simp add: heap10_inv(2))

end
