(* ===== verification/Umm_Allocator.thy ===== *)
theory Umm_Allocator
  imports Umm_Realloc Umm_Info Umm_Integrity Umm_Poison
begin

text \<open>
  What the users of a heap rely on, as an interface: an invariant, the blocks in
  use, and calls that may touch some of them.  The allocator of this core is
  shown to provide it, for any sequence of calls.
\<close>

section \<open>The interface\<close>

text \<open>
  A call \<open>step s T t\<close> leads from state \<open>s\<close> to \<open>t\<close> and may release, move or change the
  blocks that start at a number in \<open>T\<close>, and no other.
\<close>

locale allocator =
  fixes inv :: "'s \<Rightarrow> bool" and blocks :: "'s \<Rightarrow> (nat \<times> nat) set" and byte :: "'s \<Rightarrow> nat \<Rightarrow> nat \<Rightarrow> 'b"
    and cap :: "nat \<times> nat \<Rightarrow> nat" and step :: "'s \<Rightarrow> nat set \<Rightarrow> 's \<Rightarrow> bool"
  assumes step_inv: "inv s \<Longrightarrow> step s T t \<Longrightarrow> inv t"
    and apart: "inv s \<Longrightarrow> (a, b) \<in> blocks s \<Longrightarrow> (c, d) \<in> blocks s \<Longrightarrow> a = c \<and> b = d \<or> b \<le> c \<or> d \<le> a"
    and step_keeps: "inv s \<Longrightarrow> step s T t \<Longrightarrow> (b, e) \<in> blocks s \<Longrightarrow> b \<notin> T \<Longrightarrow>
      (b, e) \<in> blocks t \<and> (\<forall>i < cap (b, e). byte t b i = byte s b i)"
begin

inductive run :: "'s \<Rightarrow> nat set \<Rightarrow> 's \<Rightarrow> bool" where
  stop: "run s {} s"
| call: "step s T t \<Longrightarrow> run t U u \<Longrightarrow> run s (T \<union> U) u"

lemma run_inv: "run s T t \<Longrightarrow> inv s \<Longrightarrow> inv t"
  by (induction rule: run.induct) (auto intro: step_inv)

text \<open>A block that no call of a run touches stays where it is with its contents.\<close>

lemma run_keeps:
  "run s T t \<Longrightarrow> inv s \<Longrightarrow> (b, e) \<in> blocks s \<Longrightarrow> b \<notin> T \<Longrightarrow>
   (b, e) \<in> blocks t \<and> (\<forall>i < cap (b, e). byte t b i = byte s b i)"
proof (induction rule: run.induct)
  case (call s T t U u)
  have "inv t" by (rule step_inv [OF call.prems(1) call.hyps(1)])
  moreover have "(b, e) \<in> blocks t \<and> (\<forall>i < cap (b, e). byte t b i = byte s b i)"
    by (rule step_keeps [OF call.prems(1) call.hyps(1)]) (use call.prems in auto)
  ultimately show ?case using call.IH call.prems by auto
qed simp

text \<open>Whatever is in use at the end of a run does not overlap a block held through it.\<close>

lemma run_apart:
  "run s T t \<Longrightarrow> inv s \<Longrightarrow> (b, e) \<in> blocks s \<Longrightarrow> b \<notin> T \<Longrightarrow> (c, d) \<in> blocks t \<Longrightarrow> c = b \<and> d = e \<or> d \<le> b \<or> e \<le> c"
  using run_keeps run_inv apart by blast

end

section \<open>The calls of this allocator\<close>

inductive umm_step :: "umm_heap_context \<Rightarrow> nat set \<Rightarrow> umm_heap_context \<Rightarrow> bool" where
  malloc: "umm_malloc ctx sz = Some (p, ctx') \<Longrightarrow> umm_step ctx {} ctx'"
| calloc: "umm_calloc ctx n sz = Some (p, ctx') \<Longrightarrow> umm_step ctx {} ctx'"
| realloc: "(c, e) \<in> live ctx \<Longrightarrow> umm_realloc ctx (UMM_DATA ctx c) sz = Some (Inr (p, ctx')) \<Longrightarrow> umm_step ctx {c} ctx'"
| free: "(c, e) \<in> live ctx \<Longrightarrow> umm_free ctx (UMM_DATA ctx c) = Inr ctx' \<Longrightarrow> umm_step ctx {c} ctx'"
| free_null: "umm_free ctx 0 = Inr ctx' \<Longrightarrow> umm_step ctx {} ctx'"
| store: "(c, e) \<in> live ctx \<Longrightarrow> k + n \<le> 8 * (e - c) - 4 \<Longrightarrow> umm_step ctx {c} (mem_write (8 * c + 4 + k) n f ctx)"
| survey: "umm_info ctx 0 = Some (p, ctx') \<Longrightarrow> umm_step ctx {} ctx'"
| check: "umm_integrity_check ctx = Some (r, ctx') \<Longrightarrow> umm_step ctx {} ctx'"
| guarded: "sz \<noteq> 0 \<Longrightarrow> umm_poison_malloc ctx sz = Some (p, ctx') \<Longrightarrow> umm_step ctx {} ctx'"

definition user_byte :: "umm_heap_context \<Rightarrow> nat \<Rightarrow> nat \<Rightarrow> u8" where
  "user_byte ctx b i = heap_byte ctx (8 * b + 4 + i)"

definition capacity :: "nat \<times> nat \<Rightarrow> nat" where
  "capacity be = 8 * (snd be - fst be) - 4"

definition keeps :: "umm_heap_context \<Rightarrow> nat set \<Rightarrow> umm_heap_context \<Rightarrow> bool" where
  "keeps ctx T ctx' \<longleftrightarrow> umm_inv ctx' \<and> (\<forall>(b, e) \<in> live ctx. b \<notin> T \<longrightarrow> (b, e) \<in> live ctx' \<and> data_kept ctx ctx' b e)"

lemma keepsI:
  "umm_inv ctx' \<Longrightarrow> (\<And>b e. (b, e) \<in> live ctx \<Longrightarrow> b \<notin> T \<Longrightarrow> (b, e) \<in> live ctx' \<and> data_kept ctx ctx' b e) \<Longrightarrow> keeps ctx T ctx'"
  by (auto simp: keeps_def)

lemma data_kept_refl [simp]: "data_kept ctx ctx b e"
  by (simp add: data_kept_def)

text \<open>Changes outside the blocks: the counters and the survey.\<close>

lemma live_cong: "UMM_NBLOCK ctx' = UMM_NBLOCK ctx \<Longrightarrow> numblocks ctx' = numblocks ctx \<Longrightarrow> live ctx' = live ctx"
proof -
  assume a: "UMM_NBLOCK ctx' = UMM_NBLOCK ctx" "numblocks ctx' = numblocks ctx"
  then have nx: "nxt ctx' = nxt ctx" and l: "UMM_BLOCK_LAST ctx' = UMM_BLOCK_LAST ctx"
    by (simp_all add: nxt_def [abs_def] UMM_BLOCK_LAST_def)
  have "b \<in> starts y" if "b \<in> starts x" "nxt x = nxt y" for b x y
    using that(1)
  proof induction
    case (step b)
    then show ?case using starts.step [of b y] that(2) by simp
  qed (rule starts.first)
  from this [OF _ nx] this [OF _ nx [symmetric]] have "starts ctx' = starts ctx" by (intro equalityI subsetI)
  then show ?thesis unfolding live_def a(1) nx l by (simp only:)
qed

lemma keeps_same_blocks:
  assumes "umm_inv ctx" and "umm_inv ctx' = umm_inv ctx" and "blks ctx' = blks ctx" "numblocks ctx' = numblocks ctx"
  shows "keeps ctx T ctx'"
proof -
  have "UMM_NBLOCK ctx' = UMM_NBLOCK ctx" using assms(3) by (simp add: UMM_NBLOCK_def [abs_def])
  then have "live ctx' = live ctx" using assms(4) by (rule live_cong)
  then show ?thesis using assms by (auto simp: keeps_def data_kept_def UMM_NFREE_def UMM_PFREE_def)
qed

lemma keeps_oom: "umm_inv ctx \<Longrightarrow> keeps ctx T (STATS__OOM_UPDATE ctx)"
  by (rule keeps_same_blocks) simp_all

lemma info_fields [simp]:
  "nxt (ctx\<lparr>info := i\<rparr>) = nxt ctx" "prv (ctx\<lparr>info := i\<rparr>) = prv ctx" "nfr (ctx\<lparr>info := i\<rparr>) = nfr ctx" "pfr (ctx\<lparr>info := i\<rparr>) = pfr ctx"
  "UMM_NBLOCK (ctx\<lparr>info := i\<rparr>) = UMM_NBLOCK ctx" "UMM_BLOCK_LAST (ctx\<lparr>info := i\<rparr>) = UMM_BLOCK_LAST ctx"
  by (simp_all add: nxt_def [abs_def] prv_def [abs_def] nfr_def [abs_def] pfr_def [abs_def] UMM_NBLOCK_def [abs_def]
      UMM_PBLOCK_def [abs_def] UMM_NFREE_def [abs_def] UMM_PFREE_def [abs_def] UMM_BLOCK_LAST_def)

lemma umm_inv_info [simp]: "umm_inv (ctx\<lparr>info := i\<rparr>) = umm_inv ctx"
  by (simp add: umm_inv_def heap_inv_def heap_ok_def placed_def free_total_def)

lemma keeps_info: "umm_inv ctx \<Longrightarrow> keeps ctx T (ctx\<lparr>info := i\<rparr>)"
  by (rule keeps_same_blocks) simp_all

lemma keeps_malloc:
  assumes inv: "umm_inv ctx" and m: "umm_malloc ctx sz = Some (p, ctx')"
  shows "keeps ctx {} ctx'"
proof -
  obtain B fs where inv': "heap_inv ctx B fs" using inv by (auto simp: umm_inv_def)
  consider (zero) "sz = 0" | (full) "sz \<noteq> 0" "\<forall>z e. (z, e) \<in> avail ctx \<longrightarrow> e - z < unat (umm_blocks sz)"
    | (fit) z e where "sz \<noteq> 0" "(z, e) \<in> avail ctx" "unat (umm_blocks sz) \<le> e - z" by (meson not_le)
  then show ?thesis
  proof cases
    case zero
    then show ?thesis using m inv by (simp add: umm_malloc_def keeps_def)
  next
    case full
    then show ?thesis using m inv malloc_core_oom [OF heap_inv_ok [OF inv'] full(2)] keeps_oom [OF inv] by (simp add: umm_malloc_def)
  next
    case fit
    obtain c ctx1 B1 fs1 where r: "umm_malloc_core ctx sz = Some (UMM_DATA ctx c, ctx1)" "moves ctx B fs ctx1 B1 fs1"
      "live ctx1 = insert (c, c + unat (umm_blocks sz)) (live ctx)" "\<forall>(b, e) \<in> live ctx. data_kept ctx ctx1 b e"
      by (rule malloc_core_inv [OF inv' fit(2,3)])
    then have "ctx' = ctx1" using m fit(1) by (simp add: umm_malloc_def)
    then show ?thesis using r(3,4) moves_inv [OF r(2)] by (auto simp: keeps_def)
  qed
qed

lemma keeps_calloc:
  assumes inv: "umm_inv ctx" and m: "umm_calloc ctx n sz = Some (p, ctx')"
  shows "keeps ctx {} ctx'"
proof (cases "n = 0 \<or> sz = 0")
  case True
  then have "umm_umul_sat n sz = 0" by (auto simp: umm_umul_sat_def)
  then show ?thesis using m inv by (auto simp: umm_calloc_def umm_malloc_def keeps_def)
next
  case False
  then show ?thesis using calloc_spec [OF inv, of n sz] m keeps_oom [OF inv, of "{}"] by (auto simp: keeps_def)
qed

lemma keeps_realloc:
  assumes inv: "umm_inv ctx" and c: "(c, e) \<in> live ctx" and m: "umm_realloc ctx (UMM_DATA ctx c) sz = Some (Inr (p, ctx'))"
  shows "keeps ctx {c} ctx'"
proof (cases "sz = 0")
  case True
  obtain B fs where inv': "heap_inv ctx B fs" using inv by (auto simp: umm_inv_def)
  obtain ctx1 where f: "umm_free ctx (UMM_DATA ctx c) = Inr ctx1" "umm_inv ctx1" "live ctx1 = live ctx - {(c, e)}"
    "\<forall>(b, e) \<in> live ctx1. data_kept ctx ctx1 b e" using free_spec [OF inv c] by blast
  then have "ctx' = ctx1" using m True live_heap_address [OF inv' c] by (simp add: umm_realloc_def)
  then show ?thesis using f(2-4) by (auto simp: keeps_def)
next
  case False
  consider (oom) "ctx' = STATS__OOM_UPDATE ctx"
    | (moved) c' where "umm_inv ctx'" "live ctx' = insert (c', c' + unat (umm_blocks sz)) (live ctx - {(c, e)})"
      "\<forall>(b, x) \<in> live ctx - {(c, e)}. b \<noteq> c' \<and> data_kept ctx ctx' b x"
    using realloc_spec [OF inv c False] m by auto
  then show ?thesis
  proof cases
    case oom
    then show ?thesis using keeps_oom [OF inv] by simp
  next
    case moved
    then show ?thesis by (auto simp: keeps_def)
  qed
qed

lemma keeps_free:
  assumes inv: "umm_inv ctx" and c: "(c, e) \<in> live ctx" and m: "umm_free ctx (UMM_DATA ctx c) = Inr ctx'"
  shows "keeps ctx {c} ctx'"
proof -
  have "umm_inv ctx'" "live ctx' = live ctx - {(c, e)}" "\<forall>(b, e) \<in> live ctx'. data_kept ctx ctx' b e"
    using free_spec [OF inv c] m by auto
  then show ?thesis by (auto simp: keeps_def)
qed

lemma keeps_store:
  assumes inv: "umm_inv ctx" and c: "(c, e) \<in> live ctx" and n: "k + n \<le> 8 * (e - c) - 4"
  shows "keeps ctx {c} (mem_write (8 * c + 4 + k) n f ctx)"
proof -
  obtain B fs where inv': "heap_inv ctx B fs" using inv by (auto simp: umm_inv_def)
  have u: "used_block ctx B fs c" "e = nxt ctx c" using c live_used [OF heap_inv_ok [OF inv']] by auto
  have "k + n \<le> 8 * bsize ctx c - 4" using n u(2) by (simp add: bsize_def)
  note w = data_write_inv [OF inv' u(1) this, where f = f]
  show ?thesis
  proof (rule keepsI)
    show "umm_inv (mem_write (8 * c + 4 + k) n f ctx)" using w(1) by (auto simp: umm_inv_def)
  qed (use w(2,3) in auto)
qed

lemma keeps_guarded:
  assumes inv: "umm_inv ctx" and "sz \<noteq> 0" and m: "umm_poison_malloc ctx sz = Some (p, ctx')"
  shows "keeps ctx {} ctx'"
proof -
  obtain B fs where inv': "heap_inv ctx B fs" using inv by (auto simp: umm_inv_def)
  consider (oom) "ctx' = STATS__OOM_UPDATE ctx"
    | (got) c k B' fs' where "heap_inv ctx' B' fs'" "live ctx' = insert (c, c + k) (live ctx)" "\<forall>(b, e) \<in> live ctx. data_kept ctx ctx' b e"
    using poison_malloc_spec [OF inv' assms(2)] m by auto
  then show ?thesis
  proof cases
    case oom
    then show ?thesis using keeps_oom [OF inv] by simp
  next
    case got
    have "umm_inv ctx'" using got(1) by (auto simp: umm_inv_def)
    then show ?thesis using got(2,3) by (auto simp: keeps_def)
  qed
qed

lemma umm_step_keeps: "umm_step ctx T ctx' \<Longrightarrow> umm_inv ctx \<Longrightarrow> keeps ctx T ctx'"
proof (induction rule: umm_step.induct)
  case (survey ctx p ctx')
  obtain B fs where inv: "heap_inv ctx B fs" using survey(2) by (auto simp: umm_inv_def)
  then show ?case using info_spec [OF inv] survey keeps_info by auto
next
  case (check ctx r ctx')
  then show ?case using integrity_check_inv [OF check(2)] by (simp add: keeps_def)
next
  case (free_null ctx ctx')
  then show ?case by (simp add: umm_free_def keeps_def)
qed (simp_all add: keeps_malloc keeps_calloc keeps_realloc keeps_free keeps_store keeps_guarded)

lemma live_apart:
  assumes inv: "umm_inv ctx" and "(a, b) \<in> live ctx" and "(c, d) \<in> live ctx"
  shows "a = c \<and> b = d \<or> b \<le> c \<or> d \<le> a"
  using live_bounds [OF assms] by blast

interpretation umm: allocator umm_inv live user_byte capacity umm_step
proof unfold_locales
  show "umm_inv t" if "umm_inv s" "umm_step s T t" for s T t
    using umm_step_keeps [OF that(2,1)] by (simp add: keeps_def)
  show "a = c \<and> b = d \<or> b \<le> c \<or> d \<le> a" if "umm_inv s" "(a, b) \<in> live s" "(c, d) \<in> live s" for s a b c d
    by (rule live_apart [OF that])
  show "(b, e) \<in> live t \<and> (\<forall>i < capacity (b, e). user_byte t b i = user_byte s b i)"
    if "umm_inv s" "umm_step s T t" "(b, e) \<in> live s" "b \<notin> T" for s T t b e
  proof -
    have k: "(b, e) \<in> live t" "data_kept s t b e" using umm_step_keeps [OF that(2,1)] that(3,4) by (auto simp: keeps_def)
    then show ?thesis using data_kept_bytes [OF k(2)] by (simp add: user_byte_def capacity_def)
  qed
qed

section \<open>Properties\<close>

text \<open>
  C10: along any sequence of allocator calls and of writes by the owners of blocks, a
  block that its own owner does not release, resize or write keeps its place
  and its contents, and no other block in use ever overlaps it; the invariant
  holds throughout.
\<close>

theorem umm_run_keeps:
  assumes "umm_inv s" and "umm.run s T t" and "(b, e) \<in> live s" and "b \<notin> T"
  shows "umm_inv t \<and> (b, e) \<in> live t \<and> (\<forall>i < capacity (b, e). user_byte t b i = user_byte s b i) \<and>
    (\<forall>(c, d) \<in> live t. c = b \<and> d = e \<or> d \<le> b \<or> e \<le> c)"
  using umm.run_inv [OF assms(2,1)] umm.run_keeps [OF assms(2,1,3,4)] umm.run_apart [OF assms(2,1,3,4)] by blast

theorem umm_run_keeps_witness:
  "\<exists>c s t. umm_malloc heap10 13 = Some (UMM_DATA s c, s) \<and> umm.run s {} t \<and> (c, c + 3) \<in> live t \<and> user_byte t c 5 = user_byte s c 5"
proof -
  obtain c s where m: "umm_malloc heap10 13 = Some (UMM_DATA s c, s)" "umm_inv s" "live s = {(c, c + 3)}" by (rule malloc13)
  obtain p t where a: "umm_malloc s 0 = Some (p, t)" by (simp add: umm_malloc_def)
  have r: "umm.run s {} t" using umm.call [OF umm_step.malloc [OF a] umm.stop] by simp
  have "(c, c + 3) \<in> live s" using m(3) by simp
  from umm_run_keeps [OF m(2) r this] have "(c, c + 3) \<in> live t \<and> user_byte t c 5 = user_byte s c 5" by (simp add: capacity_def)
  then show ?thesis using m(1) r by blast
qed

end
