(* ===== verification/Gdb_Packet.thy ===== *)
theory Gdb_Packet
  imports Prelude
begin

text \<open>
  The packet layer of the debugger stub, \<open>libraries/GDBStub/src/internal/gdbstub.c\<close>: hex
  numbers in the command buffer, the bytes sent to the debugger with their
  running checksum, and the receiver that fills the command buffer from the
  serial line.  Bytes arriving are a list; a receiver that runs out of it waits.
\<close>

section \<open>State\<close>

abbreviation asc :: "char \<Rightarrow> u8" where "asc c \<equiv> of_char c"

type_synonym buffer = "nat \<Rightarrow> u8"

record XTensa_exception_frame =
  r_pc :: u32
  r_ps :: u32
  r_sar :: u32
  r_vpri :: u32
  r_a :: "nat \<Rightarrow> u32"
  r_litbase :: u32
  r_sr176 :: u32
  r_sr208 :: u32
  r_reason :: u32

text \<open>
  The stub's variables, the bytes it has sent, the memory of the chip as 32-bit words
  by aligned address, the debug registers of the processor, whether the serial
  interrupt and the watchdog are enabled, and the bytes handed to the two
  callbacks of the serial driver with whether these are registered.
\<close>

record gdbstub =
  savedRegs :: XTensa_exception_frame
  gdb_attached :: bool
  cmd :: buffer
  chsum :: u8
  singleStepPs :: u32
  sent :: "u8 list"
  memory :: "u32 \<Rightarrow> u32"
  ibreakenable :: u32
  ibreaka :: u32
  dbreaka :: u32
  dbreakc :: u32
  icountlevel :: u32
  icount :: u32
  uart_intr :: bool
  wdt_enabled :: bool
  uart_putc1_callback :: bool
  uart_isr_callback :: bool
  putc1_bytes :: "u8 list"
  isr_bytes :: "u8 list"

definition PBUFLEN :: nat where "PBUFLEN = 256"

definition ST_ENDPACKET :: u32 where "ST_ENDPACKET = - 1"
definition ST_ERR :: u32 where "ST_ERR = - 2"

section \<open>Hex numbers\<close>

fun hex_loop :: "buffer \<Rightarrow> bool \<Rightarrow> nat \<Rightarrow> nat \<Rightarrow> u32 \<Rightarrow> u32 \<times> nat" where
  "hex_loop b unbounded 0 ptr v = (v, ptr)"
| "hex_loop b unbounded (Suc n) ptr v =
     (let c = b ptr in
      if asc CHR ''0'' \<le> c \<and> c \<le> asc CHR ''9''
      then hex_loop b unbounded n (ptr + 1) (push_bit 4 v OR ucast (c - asc CHR ''0''))
      else if asc CHR ''A'' \<le> c \<and> c \<le> asc CHR ''F''
      then hex_loop b unbounded n (ptr + 1) (push_bit 4 v OR (ucast (c - asc CHR ''A'') + 10))
      else if asc CHR ''a'' \<le> c \<and> c \<le> asc CHR ''f''
      then hex_loop b unbounded n (ptr + 1) (push_bit 4 v OR (ucast (c - asc CHR ''a'') + 10))
      else if c = asc CHR ''#''
      then if unbounded then (v, ptr) else (ST_ENDPACKET, ptr + 1)
      else if unbounded then (v, ptr) else (ST_ERR, ptr + 1))"

definition gdbGetHexVal :: "buffer \<Rightarrow> nat \<Rightarrow> int \<Rightarrow> u32 \<times> nat" where
  "gdbGetHexVal b ptr bits = hex_loop b (bits = - 1) (if bits = - 1 then 64 else nat (bits div 4)) ptr 0"

definition iswap :: "u32 \<Rightarrow> u32" where
  "iswap i = (drop_bit 24 i AND 0xff) OR push_bit 8 (drop_bit 16 i AND 0xff)
     OR push_bit 16 (drop_bit 8 i AND 0xff) OR push_bit 24 (i AND 0xff)"

definition gdbGetSwappedHexInt :: "buffer \<Rightarrow> nat \<Rightarrow> u32 \<times> nat" where
  "gdbGetSwappedHexInt b ptr = (case gdbGetHexVal b ptr 32 of (v, p) \<Rightarrow> (iswap v, p))"

section \<open>Sending\<close>

definition gdbSendChar :: "u8 \<Rightarrow> gdbstub \<Rightarrow> gdbstub" where
  "gdbSendChar c g = g\<lparr>sent := sent g @ [c]\<rparr>"

definition gdbPacketStart :: "gdbstub \<Rightarrow> gdbstub" where
  "gdbPacketStart g = gdbSendChar (asc CHR ''$'') (g\<lparr>chsum := 0\<rparr>)"

definition needs_escape :: "u8 \<Rightarrow> bool" where
  "needs_escape c \<longleftrightarrow> c = asc CHR ''#'' \<or> c = asc CHR ''$'' \<or> c = asc CHR ''}'' \<or> c = asc CHR ''*''"

definition gdbPacketChar :: "u8 \<Rightarrow> gdbstub \<Rightarrow> gdbstub" where
  "gdbPacketChar c g =
     (let (c1, g1) = (if needs_escape c
            then (c XOR 0x20, (gdbSendChar (asc CHR ''}'') g)\<lparr>chsum := chsum g + asc CHR ''}''\<rparr>)
            else (c, g))
      in (gdbSendChar c1 g1)\<lparr>chsum := chsum g1 + c1\<rparr>)"

definition hexChars :: "u8 list" where
  "hexChars = map of_char ''0123456789abcdef''"

fun packet_hex :: "nat \<Rightarrow> u32 \<Rightarrow> gdbstub \<Rightarrow> gdbstub" where
  "packet_hex 0 val g = g"
| "packet_hex (Suc n) val g = packet_hex n val (gdbPacketChar (hexChars ! unat (drop_bit (4 * n) val AND 0xf)) g)"

definition gdbPacketHex :: "u32 \<Rightarrow> nat \<Rightarrow> gdbstub \<Rightarrow> gdbstub" where
  "gdbPacketHex val bits g = packet_hex ((bits + 3) div 4) val g"

definition gdbPacketSwappedHexInt :: "u32 \<Rightarrow> gdbstub \<Rightarrow> gdbstub" where
  "gdbPacketSwappedHexInt val g = gdbPacketHex (iswap val) 32 g"

definition gdbPacketXXXXInt :: "gdbstub \<Rightarrow> gdbstub" where
  "gdbPacketXXXXInt g = fold (\<lambda>_. gdbPacketChar (asc CHR ''x'')) [0..<8] g"

definition gdbPacketEnd :: "gdbstub \<Rightarrow> gdbstub" where
  "gdbPacketEnd g = (let g1 = gdbSendChar (asc CHR ''#'') g in gdbPacketHex (ucast (chsum g1)) 8 g1)"

definition gdbSendPacketStr :: "u8 list \<Rightarrow> gdbstub \<Rightarrow> gdbstub" where
  "gdbSendPacketStr s g = gdbPacketEnd (fold gdbPacketChar s (gdbPacketStart g))"

definition gdbSendOutputPacketStr :: "u8 list \<Rightarrow> gdbstub \<Rightarrow> gdbstub" where
  "gdbSendOutputPacketStr buf g =
     gdbPacketEnd (fold (\<lambda>c. gdbPacketHex (ucast c) 8) buf (gdbPacketChar (asc CHR ''O'') (gdbPacketStart g)))"

definition gdbSendOutputPacketChar :: "u8 \<Rightarrow> gdbstub \<Rightarrow> gdbstub" where
  "gdbSendOutputPacketChar c g =
     gdbPacketEnd (gdbPacketHex (ucast c) 8 (gdbPacketChar (asc CHR ''O'') (gdbPacketStart g)))"

definition gdbSendPacketOK :: "gdbstub \<Rightarrow> gdbstub" where
  "gdbSendPacketOK = gdbSendPacketStr (map of_char ''OK'')"

definition gdbSendPacketE01 :: "gdbstub \<Rightarrow> gdbstub" where
  "gdbSendPacketE01 = gdbSendPacketStr (map of_char ''E01'')"

definition gdbSendEmptyPacket :: "gdbstub \<Rightarrow> gdbstub" where
  "gdbSendEmptyPacket g = gdbPacketEnd (gdbPacketStart g)"

text \<open>Console output, framed while a debugger is attached.\<close>

definition gdbstub_write_char :: "u8 \<Rightarrow> gdbstub \<Rightarrow> gdbstub" where
  "gdbstub_write_char c g =
     (if gdb_attached g then (gdbSendOutputPacketChar c (g\<lparr>uart_intr := False\<rparr>))\<lparr>uart_intr := True\<rparr>
      else gdbSendChar c g)"

definition gdbstub_write :: "u8 list \<Rightarrow> gdbstub \<Rightarrow> gdbstub" where
  "gdbstub_write buf g =
     (if gdb_attached g then (gdbSendOutputPacketStr buf (g\<lparr>uart_intr := False\<rparr>))\<lparr>uart_intr := True\<rparr>
      else fold gdbSendChar buf g)"

section \<open>Receiving\<close>

text \<open>
  The part of \<open>gdbReadCommand\<close> from the start of a packet to its end: the input ran out,
  the buffer would overflow, or the packet is complete, with the buffer, the
  checksum of the received bytes and the rest of the input.
\<close>

datatype packet_in = NeedInput buffer | TooLong buffer "u8 list" | GotPacket buffer u8 "u8 list"

fun packet_body :: "u8 list \<Rightarrow> buffer \<Rightarrow> nat \<Rightarrow> u8 \<Rightarrow> packet_in" where
  "packet_body [] b p s = NeedInput b"
| "packet_body (c # rx) b p s =
     (if c = asc CHR ''#'' then GotPacket (b(p := 0)) s rx
      else if c = asc CHR ''$'' then packet_body rx b 0 0
      else if c = asc CHR ''}''
      then (case rx of [] \<Rightarrow> NeedInput b
            | d # rx1 \<Rightarrow> let c1 = d XOR 0x20; b1 = b(p := c1) in
                if PBUFLEN \<le> p + 1 then TooLong b1 rx1 else packet_body rx1 b1 (p + 1) (s + c1))
      else let b1 = b(p := c) in
        if PBUFLEN \<le> p + 1 then TooLong b1 rx else packet_body rx b1 (p + 1) (s + c))"

section \<open>What is sent\<close>

fun escaped :: "u8 list \<Rightarrow> u8 list" where
  "escaped [] = []"
| "escaped (c # cs) = (if needs_escape c then asc CHR ''}'' # (c XOR 0x20) # escaped cs else c # escaped cs)"

definition hex2 :: "u8 \<Rightarrow> u8 list" where
  "hex2 s = [hexChars ! (unat s div 16), hexChars ! (unat s mod 16)]"

definition framed :: "u8 list \<Rightarrow> u8 list" where
  "framed s = asc CHR ''$'' # escaped s @ asc CHR ''#'' # hex2 (sum_list (escaped s))"

lemma escaped_append: "escaped (xs @ ys) = escaped xs @ escaped ys"
  by (induction xs) auto

lemma packet_char_eq:
  "gdbPacketChar c g = g\<lparr>sent := sent g @ escaped [c], chsum := chsum g + sum_list (escaped [c])\<rparr>"
  by (simp add: gdbPacketChar_def gdbSendChar_def add.assoc)

lemma packet_chars_eq:
  "fold gdbPacketChar s g = g\<lparr>sent := sent g @ escaped s, chsum := chsum g + sum_list (escaped s)\<rparr>"
  by (induction s arbitrary: g) (simp_all add: packet_char_eq add.assoc)

lemma less_16: "(\<forall>d < 16. P d) \<longleftrightarrow> P 0 \<and> P 1 \<and> P 2 \<and> P 3 \<and> P 4 \<and> P 5 \<and> P 6 \<and> P 7 \<and> P 8 \<and> P 9 \<and>
    P 10 \<and> P 11 \<and> P 12 \<and> P 13 \<and> P 14 \<and> P (15 :: nat)"
  by (simp add: numeral_eq_Suc All_less_Suc conj_ac)

lemma hex_char_plain: "d < 16 \<Longrightarrow> \<not> needs_escape (hexChars ! d)"
  using less_16 [of "\<lambda>d. \<not> needs_escape (hexChars ! d)"] by (simp add: needs_escape_def hexChars_def)

lemma and_0xf: "(w :: u32) AND 0xf = take_bit 4 w"
  by (simp add: take_bit_eq_mask mask_eq_exp_minus_1)

lemma nibble_less: "unat ((w :: u32) AND 0xf) < 16"
  unfolding and_0xf unat_take_bit by simp

definition hex_digits :: "nat \<Rightarrow> u32 \<Rightarrow> u8 list" where
  "hex_digits n val = map (\<lambda>i. hexChars ! unat (drop_bit (4 * (n - 1 - i)) val AND 0xf)) [0..<n]"

lemma hex_digits_Suc: "hex_digits (Suc n) val = hexChars ! unat (drop_bit (4 * n) val AND 0xf) # hex_digits n val"
  by (simp add: hex_digits_def upt_conv_Cons map_Suc_upt [symmetric] del: upt_Suc)

lemma packet_hex_eq:
  "packet_hex n val g = g\<lparr>sent := sent g @ hex_digits n val, chsum := chsum g + sum_list (hex_digits n val)\<rparr>"
proof (induction n arbitrary: g)
  case (Suc n)
  then show ?case using hex_char_plain [OF nibble_less] by (simp add: packet_char_eq hex_digits_Suc add.assoc)
qed (simp add: hex_digits_def)

lemma hex_digits_2: "hex_digits 2 (ucast (s :: u8)) = hex2 s"
proof -
  have s: "unat (ucast s :: u32) = unat s" "unat s < 256" using unat_bound [of s] by (simp_all add: unsigned_ucast_eq take_bit_nat_eq_self)
  then have "unat (take_bit 4 (drop_bit 4 (ucast s :: u32))) = unat s div 16"
    by (simp add: unat_take_bit drop_bit_eq_div unat_div)
  moreover have "unat (take_bit 4 (ucast s :: u32)) = unat s mod 16" using s by (simp add: unat_take_bit)
  ultimately show ?thesis by (simp add: hex_digits_def hex2_def and_0xf upt_rec)
qed

lemma send_packet_framed: "sent (gdbSendPacketStr s g) = sent g @ framed s"
  using hex_digits_2 [of "sum_list (escaped s)"]
  by (simp add: gdbSendPacketStr_def gdbPacketStart_def gdbPacketEnd_def gdbPacketHex_def gdbSendChar_def
      packet_chars_eq packet_hex_eq framed_def Let_def)

section \<open>Reading hex numbers\<close>

lemma hex_loop_digit:
  assumes "d < 16" and "b ptr = hexChars ! d"
  shows "hex_loop b u (Suc n) ptr v = hex_loop b u n (ptr + 1) (push_bit 4 v OR of_nat d)"
  using assms less_16 [of "\<lambda>d. b ptr = hexChars ! d \<longrightarrow> hex_loop b u (Suc n) ptr v = hex_loop b u n (ptr + 1) (push_bit 4 v OR of_nat d)"]
  by (simp add: hexChars_def)

lemma nibble_shift:
  "push_bit m (push_bit 4 v OR take_bit 4 (drop_bit m val)) OR take_bit m val = push_bit (m + 4) v OR take_bit (m + 4) (val :: u32)"
proof (rule bit_word_eqI)
  fix i assume "i < LENGTH(32)"
  moreover have "i - m - 4 = i - (m + 4)" by simp
  ultimately show "bit (push_bit m (push_bit 4 v OR take_bit 4 (drop_bit m val)) OR take_bit m val) i =
      bit (push_bit (m + 4) v OR take_bit (m + 4) val) i"
    by (cases "i < m"; cases "i < m + 4") (auto simp: bit_simps)
qed

lemma hex_loop_prefix:
  assumes "\<And>i. i < n \<Longrightarrow> b (ptr + i) = hex_digits n val ! i"
  shows "hex_loop b u (n + m) ptr v = hex_loop b u m (ptr + n) (push_bit (4 * n) v OR take_bit (4 * n) val)"
  using assms
proof (induction n arbitrary: ptr v)
  case (Suc n)
  let ?d = "unat (drop_bit (4 * n) val AND 0xf)"
  have "b ptr = hexChars ! ?d" using Suc.prems [of 0] by (simp add: hex_digits_Suc)
  then have "hex_loop b u (Suc (n + m)) ptr v = hex_loop b u (n + m) (ptr + 1) (push_bit 4 v OR of_nat ?d)"
    by (rule hex_loop_digit [OF nibble_less])
  also have "\<dots> = hex_loop b u m (ptr + 1 + n) (push_bit (4 * n) (push_bit 4 v OR of_nat ?d) OR take_bit (4 * n) val)"
    by (rule Suc.IH) (use Suc.prems [of "Suc _"] in \<open>simp add: hex_digits_Suc\<close>)
  also have "push_bit (4 * n) (push_bit 4 v OR of_nat ?d) OR take_bit (4 * n) val = push_bit (4 * Suc n) v OR take_bit (4 * Suc n) val"
    using nibble_shift [of "4 * n" v val] by (simp add: and_0xf add.commute)
  finally show ?case by simp
qed simp

lemma hex_loop_digits:
  "(\<And>i. i < n \<Longrightarrow> b (ptr + i) = hex_digits n val ! i) \<Longrightarrow>
   hex_loop b u n ptr v = (push_bit (4 * n) v OR take_bit (4 * n) val, ptr + n)"
  using hex_loop_prefix [of n b ptr val u 0 v] by simp

text \<open>A number with any count of digits ends before the first other character.\<close>

lemma get_hex_any:
  assumes digits: "\<And>i. i < n \<Longrightarrow> b (ptr + i) = hex_digits n val ! i" and fits: "take_bit (4 * n) val = val"
    and "n < 64" and stop: "b (ptr + n) \<in> {asc CHR '','', asc CHR '':'', 0}"
  shows "gdbGetHexVal b ptr (- 1) = (val, ptr + n)"
proof -
  have "hex_loop b True (n + (64 - n)) ptr 0 = hex_loop b True (64 - n) (ptr + n) (push_bit (4 * n) 0 OR take_bit (4 * n) val)"
    using hex_loop_prefix [OF digits] by simp
  also have "\<dots> = hex_loop b True (Suc (63 - n)) (ptr + n) val" 
  proof -
    have "64 - n = Suc (63 - n)" using \<open>n < 64\<close> by simp
    then show ?thesis using fits by (simp only: push_bit_of_0 or.left_neutral)
  qed
  also have "\<dots> = (val, ptr + n)" using stop by (auto simp: Let_def)
  finally show ?thesis using \<open>n < 64\<close> by (simp add: gdbGetHexVal_def)
qed

lemma get_hex_8:
  "b ptr = hexChars ! (unat s div 16) \<Longrightarrow> b (ptr + 1) = hexChars ! (unat s mod 16) \<Longrightarrow> gdbGetHexVal b ptr 8 = (ucast (s :: u8), ptr + 2)"
proof -
  assume a: "b ptr = hexChars ! (unat s div 16)" "b (ptr + 1) = hexChars ! (unat s mod 16)"
  have "b (ptr + i) = hex_digits 2 (ucast s) ! i" if "i < 2" for i
    using that a by (cases i) (auto simp: hex_digits_2 hex2_def)
  from hex_loop_digits [of 2 b ptr "ucast s" False 0, OF this]
  have "hex_loop b False 2 ptr 0 = (take_bit 8 (ucast s), ptr + 2)" by simp
  moreover have "take_bit 8 (ucast s :: u32) = ucast s" by (rule bit_word_eqI) (auto simp: bit_simps dest: bit_imp_le_length)
  ultimately show ?thesis by (simp add: gdbGetHexVal_def)
qed

section \<open>What is received\<close>

lemma escape_twice: "(c XOR 0x20) XOR 0x20 = (c :: u8)"
  by (simp add: xor.assoc)

lemma not_escaped: "\<not> needs_escape c \<Longrightarrow> c \<noteq> asc CHR ''#'' \<and> c \<noteq> asc CHR ''$'' \<and> c \<noteq> asc CHR ''}''"
  unfolding needs_escape_def by blast

definition buf_put :: "buffer \<Rightarrow> nat \<Rightarrow> u8 list \<Rightarrow> buffer" where
  "buf_put b p s = (\<lambda>i. if p \<le> i \<and> i < p + length s then s ! (i - p) else b i)"

lemma buf_put_Cons: "buf_put (b(p := c)) (Suc p) s = buf_put b p (c # s)"
  by (auto simp: buf_put_def fun_eq_iff nth_Cons')

lemma packet_body_escaped:
  "p + length s < PBUFLEN \<Longrightarrow>
   packet_body (escaped s @ asc CHR ''#'' # rx) b p k = GotPacket ((buf_put b p s)(p + length s := 0)) (k + sum_list s) rx"
proof (induction s arbitrary: b p k)
  case Nil
  then show ?case by (simp add: buf_put_def fun_eq_iff)
next
  case (Cons c s)
  have IH: "packet_body (escaped s @ asc CHR ''#'' # rx) (b(p := c)) (Suc p) (k + c) =
      GotPacket ((buf_put b p (c # s))(p + length (c # s) := 0)) (k + sum_list (c # s)) rx"
    using Cons.IH [of "Suc p" "b(p := c)" "k + c"] Cons.prems unfolding buf_put_Cons
    by (simp add: add.assoc del: fun_upd_apply)
  show ?case
  proof (cases "needs_escape c")
    case True
    then show ?thesis using IH Cons.prems by (simp add: escape_twice Let_def del: fun_upd_apply)
  next
    case False
    then show ?thesis using IH Cons.prems not_escaped [OF False] by (simp add: Let_def del: fun_upd_apply)
  qed
qed

text \<open>Every escaped byte adds 93 to the checksum of the bytes on the line.\<close>

definition escapes :: "u8 list \<Rightarrow> nat" where
  "escapes s = length (filter needs_escape s)"

lemma escaped_sum: "sum_list (escaped s) = sum_list s + of_nat (93 * escapes s)"
proof (induction s)
  case (Cons c s)
  have "asc CHR ''}'' + (c XOR 0x20) = c + 93" if "needs_escape c" using that by (auto simp: needs_escape_def)
  then show ?case using Cons by (simp add: escapes_def algebra_simps)
qed (simp add: escapes_def)

lemma checksum_agrees: "length s < PBUFLEN \<Longrightarrow> sum_list (escaped s) = sum_list s \<longleftrightarrow> (\<forall>c \<in> set s. \<not> needs_escape c)"
proof -
  assume len: "length s < PBUFLEN"
  have "escapes s \<le> length s" by (simp add: escapes_def)
  have "sum_list (escaped s) = sum_list s \<longleftrightarrow> (of_nat (93 * escapes s) :: u8) = 0" by (simp add: escaped_sum)
  also have "\<dots> \<longleftrightarrow> 256 dvd 93 * escapes s" by (simp add: word_of_nat_eq_0_iff del: of_nat_mult)
  also have "\<dots> \<longleftrightarrow> 256 dvd escapes s"
  proof -
    have "coprime (2 ^ 8) (93 :: nat)" unfolding coprime_power_left_iff by simp
    then have "coprime 256 (93 :: nat)" by (simp only: power_numeral Num.pow.simps Num.sqr.simps)
    then show ?thesis by (simp add: coprime_dvd_mult_right_iff)
  qed
  also have "\<dots> \<longleftrightarrow> escapes s = 0" using \<open>escapes s \<le> length s\<close> len by (auto simp: PBUFLEN_def dest: dvd_imp_le)
  also have "\<dots> \<longleftrightarrow> (\<forall>c \<in> set s. \<not> needs_escape c)" by (simp add: escapes_def filter_empty_conv)
  finally show ?thesis .
qed

text \<open>The receiver stays inside the command buffer.\<close>

fun packet_buffer :: "packet_in \<Rightarrow> buffer" where
  "packet_buffer (NeedInput b) = b" | "packet_buffer (TooLong b _) = b" | "packet_buffer (GotPacket b _ _) = b"

fun packet_rest :: "packet_in \<Rightarrow> u8 list" where
  "packet_rest (NeedInput _) = []" | "packet_rest (TooLong _ rx) = rx" | "packet_rest (GotPacket _ _ rx) = rx"

lemma packet_body_bounds: "p < PBUFLEN \<Longrightarrow> PBUFLEN \<le> i \<Longrightarrow> packet_buffer (packet_body rx b p s) i = b i"
proof (induction rx b p s rule: packet_body.induct)
  case (2 c rx b p s)
  consider (hash) "c = asc CHR ''#''" | (dollar) "c = asc CHR ''$''" | (escape) "c = asc CHR ''}''"
    | (plain) "c \<noteq> asc CHR ''#''" "c \<noteq> asc CHR ''$''" "c \<noteq> asc CHR ''}''" by blast
  then show ?case
  proof cases
    case hash with 2 show ?thesis by simp
  next
    case dollar with 2 show ?thesis by (simp add: PBUFLEN_def)
  next
    case escape with 2 show ?thesis by (cases rx) (simp_all add: Let_def fun_upd_def)
  next
    case plain with 2 show ?thesis by (simp add: Let_def fun_upd_def)
  qed
qed simp

lemma packet_body_rest: "rx \<noteq> [] \<Longrightarrow> length (packet_rest (packet_body rx b p s)) < length rx"
proof (induction rx b p s rule: packet_body.induct)
  case (2 c rx b p s)
  have rest: "length (packet_rest (packet_body r b' p' s')) \<le> n"
    if "r \<noteq> [] \<Longrightarrow> length (packet_rest (packet_body r b' p' s')) < length r" "length r \<le> n" for r b' p' s' n
    using that by (cases r) auto
  consider (hash) "c = asc CHR ''#''" | (dollar) "c = asc CHR ''$''" | (escape) "c = asc CHR ''}''"
    | (plain) "c \<noteq> asc CHR ''#''" "c \<noteq> asc CHR ''$''" "c \<noteq> asc CHR ''}''" by blast
  then show ?case
  proof cases
    case hash then show ?thesis by simp
  next
    case dollar then show ?thesis using rest [OF "2.IH"(1)] by (simp add: less_Suc_eq_le)
  next
    case escape
    show ?thesis
    proof (cases rx)
      case (Cons d rx1)
      show ?thesis
      proof (cases "PBUFLEN \<le> p + 1")
        case False
        then have "length (packet_rest (packet_body rx1 (b(p := d XOR 0x20)) (p + 1) (s + (d XOR 0x20)))) \<le> Suc (length rx1)"
          by (intro rest) (use "2.IH"(2) escape Cons in \<open>simp_all add: fun_upd_def\<close>)
        with False escape Cons show ?thesis by (simp add: Let_def)
      qed (use escape Cons in \<open>simp add: Let_def\<close>)
    qed (use escape in simp)
  next
    case plain
    show ?thesis
    proof (cases "PBUFLEN \<le> p + 1")
      case False
      then have "length (packet_rest (packet_body rx (b(p := c)) (p + 1) (s + c))) \<le> length rx"
        by (intro rest) (use "2.IH"(3) plain in \<open>simp_all add: fun_upd_def\<close>)
      with False plain show ?thesis by (simp add: Let_def)
    qed (use plain in \<open>simp add: Let_def\<close>)
  qed
qed simp

end
