(* ===== verification/Gdb_Stub.thy ===== *)
theory Gdb_Stub
  imports Gdb_Packet
begin

text \<open>
  The commands of the debugger stub, \<open>libraries/GDBStub/src/internal/gdbstub.c\<close>, with the
  hardware breakpoint routines of \<open>gdbstub-entry.S\<close>: memory and register access, the
  command loop over the serial input, and the exception and interrupt handlers that
  enter it.  The Arduino build without FreeRTOS is modelled.
\<close>

section \<open>Initial state\<close>

text \<open>The stub's variables before its first use, for a memory and a value of the other registers.\<close>

definition gdbstub_initial :: "(u32 \<Rightarrow> u32) \<Rightarrow> XTensa_exception_frame \<Rightarrow> gdbstub" where
  "gdbstub_initial m regs = \<lparr>savedRegs = regs, gdb_attached = False, cmd = (\<lambda>_. 0), chsum = 0, singleStepPs = - 1, sent = [],
     memory = m, ibreakenable = 0, ibreaka = 0, dbreaka = 0, dbreakc = 0, icountlevel = 0, icount = 0, uart_intr = True, wdt_enabled = True,
     uart_putc1_callback = False, uart_isr_callback = False, putc1_bytes = [], isr_bytes = []\<rparr>"

definition zero_frame :: XTensa_exception_frame where
  "zero_frame = \<lparr>r_pc = 0, r_ps = 0, r_sar = 0, r_vpri = 0, r_a = (\<lambda>_. 0), r_litbase = 0, r_sr176 = 0, r_sr208 = 0, r_reason = 0\<rparr>"

section \<open>Memory\<close>

definition readbyte :: "gdbstub \<Rightarrow> u32 \<Rightarrow> u8" where
  "readbyte g p =
     (if p < 0x20000000 \<or> 0x60000000 \<le> p then - 1
      else ucast (drop_bit (8 * unat (p AND 3)) (memory g (p AND NOT 3))))"

definition writeByte :: "u32 \<Rightarrow> u8 \<Rightarrow> gdbstub \<Rightarrow> gdbstub" where
  "writeByte p d g =
     (if p < 0x20000000 \<or> 0x60000000 \<le> p then g
      else let i = p AND NOT 3; v = memory g i;
        v' = (if p AND 3 = 0 then (v AND 0xffffff00) OR ucast d
              else if p AND 3 = 1 then (v AND 0xffff00ff) OR push_bit 8 (ucast d)
              else if p AND 3 = 2 then (v AND 0xff00ffff) OR push_bit 16 (ucast d)
              else (v AND 0x00ffffff) OR push_bit 24 (ucast d))
        in g\<lparr>memory := (memory g)(i := v')\<rparr>)"

definition validWrAddr :: "u32 \<Rightarrow> bool" where
  "validWrAddr p \<longleftrightarrow> (0x3ff00000 \<le> sint p \<and> sint p < 0x40000000)
     \<or> (0x40100000 \<le> sint p \<and> sint p < 0x40140000)
     \<or> (0x60000000 \<le> sint p \<and> sint p < 0x60002000)"

section \<open>Stop reason\<close>

definition exceptionSignal :: "u32 list" where
  "exceptionSignal = [4, 31, 11, 11, 2, 6, 8, 0, 6, 7, 0, 0, 7, 7, 7, 7]"

definition sendReason :: "gdbstub \<Rightarrow> gdbstub" where
  "sendReason g =
     (let g1 = gdbPacketChar (asc CHR ''T'') (gdbPacketStart g); reason = r_reason (savedRegs g); i = unat (reason AND 0x7f) in
      gdbPacketEnd
       (if reason = 0xff then gdbPacketHex 2 8 g1
        else if reason AND 0x80 \<noteq> 0
        then (if i < length exceptionSignal then gdbPacketHex (exceptionSignal ! i) 8 g1 else gdbPacketHex 11 8 g1)
        else gdbPacketHex 5 8 g1))"

section \<open>Debug registers\<close>

definition XCHAL_DEBUGLEVEL :: u32 where "XCHAL_DEBUGLEVEL = 2"

definition gdbstub_icount_ena_single_step :: "gdbstub \<Rightarrow> gdbstub" where
  "gdbstub_icount_ena_single_step g = g\<lparr>icountlevel := XCHAL_DEBUGLEVEL, icount := - 2\<rparr>"

definition gdbstub_set_hw_breakpoint :: "u32 \<Rightarrow> gdbstub \<Rightarrow> bool \<times> gdbstub" where
  "gdbstub_set_hw_breakpoint addr g =
     (if bit (ibreakenable g) 0 then (False, g) else (True, g\<lparr>ibreaka := addr, ibreakenable := 1\<rparr>))"

definition gdbstub_del_hw_breakpoint :: "u32 \<Rightarrow> gdbstub \<Rightarrow> bool \<times> gdbstub" where
  "gdbstub_del_hw_breakpoint addr g =
     (if \<not> bit (ibreakenable g) 0 then (False, g)
      else if ibreaka g \<noteq> addr then (False, g)
      else (True, g\<lparr>ibreakenable := 0\<rparr>))"

definition gdbstub_set_hw_watchpoint :: "u32 \<Rightarrow> u32 \<Rightarrow> u32 \<Rightarrow> gdbstub \<Rightarrow> bool \<times> gdbstub" where
  "gdbstub_set_hw_watchpoint addr m type g =
     (if addr AND (0x3F XOR m) \<noteq> 0 then (False, g)
      else if 0xC0000000 AND dbreakc g \<noteq> 0 then (False, g)
      else let v = (m AND 0x3F) OR push_bit 30 type
        in (v \<noteq> 0, g\<lparr>dbreaka := addr, dbreakc := v\<rparr>))"

definition gdbstub_del_hw_watchpoint :: "u32 \<Rightarrow> gdbstub \<Rightarrow> bool \<times> gdbstub" where
  "gdbstub_del_hw_watchpoint addr g =
     (if dbreaka g \<noteq> addr then (False, g)
      else if dbreakc g AND 0xC0000000 = 0 then (False, g)
      else (True, g\<lparr>dbreakc := 0\<rparr>))"

section \<open>Commands\<close>

datatype handler_result = ST_OK | ST_CONT | ST_DETACH | Restarting

text \<open>Registers are 113 slots of eight characters; the stub keeps the ones listed here.\<close>

definition packet_xs :: "nat \<Rightarrow> gdbstub \<Rightarrow> gdbstub" where
  "packet_xs n g = fold (\<lambda>_. gdbPacketXXXXInt) [0..<n] g"

definition send_registers :: "gdbstub \<Rightarrow> gdbstub" where
  "send_registers g =
     (let r = savedRegs g;
        g1 = packet_xs 35 (gdbPacketSwappedHexInt (r_pc r) (gdbPacketStart g));
        g2 = packet_xs 2 (gdbPacketSwappedHexInt (r_litbase r) (gdbPacketSwappedHexInt (r_sar r) g1));
        g3 = packet_xs 1 (gdbPacketSwappedHexInt (r_sr176 r) g2);
        g4 = packet_xs 54 (gdbPacketSwappedHexInt (r_ps r) g3)
      in gdbPacketEnd (fold (\<lambda>i. gdbPacketSwappedHexInt (r_a r i)) [0..<16] g4))"

text \<open>Skipping \<open>n\<close> slots moves the pointer as far as \<open>gdbGetHexVal\<close> reads in each.\<close>

definition skip_hex :: "buffer \<Rightarrow> nat \<Rightarrow> nat \<Rightarrow> nat" where
  "skip_hex b n data = fold (\<lambda>_ p. snd (gdbGetHexVal b p 32)) [0..<n] data"

fun receive_aregs :: "buffer \<Rightarrow> nat \<Rightarrow> nat \<Rightarrow> (nat \<Rightarrow> u32) \<Rightarrow> nat \<Rightarrow> (nat \<Rightarrow> u32)" where
  "receive_aregs b 0 i a data = a"
| "receive_aregs b (Suc n) i a data = (case gdbGetSwappedHexInt b data of (v, data1) \<Rightarrow> receive_aregs b n (Suc i) (a(i := v)) data1)"

definition receive_registers :: "gdbstub \<Rightarrow> gdbstub" where
  "receive_registers g =
     (let b = cmd g;
        (pc, d1) = gdbGetSwappedHexInt b 1;
        (sar, d2) = gdbGetSwappedHexInt b (skip_hex b 35 d1);
        (litbase, d3) = gdbGetSwappedHexInt b d2;
        (sr176, d4) = gdbGetSwappedHexInt b (skip_hex b 2 d3);
        (ps, d5) = gdbGetSwappedHexInt b (skip_hex b 1 d4);
        r = savedRegs g
      in gdbSendPacketOK (g\<lparr>savedRegs := r\<lparr>r_pc := pc, r_sar := sar, r_litbase := litbase, r_sr176 := sr176, r_ps := ps,
           r_a := receive_aregs b 16 0 (r_a r) (skip_hex b 54 d5)\<rparr>\<rparr>))"

fun send_memory :: "nat \<Rightarrow> u32 \<Rightarrow> gdbstub \<Rightarrow> gdbstub" where
  "send_memory 0 i g = g"
| "send_memory (Suc n) i g = send_memory n (i + 1) (gdbPacketHex (ucast (readbyte g i)) 8 g)"

fun write_memory :: "buffer \<Rightarrow> nat \<Rightarrow> u32 \<Rightarrow> nat \<Rightarrow> gdbstub \<Rightarrow> gdbstub" where
  "write_memory b 0 i data g = g"
| "write_memory b (Suc n) i data g =
     (case gdbGetHexVal b data 8 of (v, data1) \<Rightarrow> write_memory b n (i + 1) data1 (writeByte i (ucast v) g))"

definition handle_memory :: "gdbstub \<Rightarrow> gdbstub" where
  "handle_memory g =
     (let b = cmd g; (i, d1) = gdbGetHexVal b 1 (- 1); (j, d2) = gdbGetHexVal b (d1 + 1) (- 1); n = nat (sint j) in
      if b 0 = asc CHR ''m'' then gdbPacketEnd (send_memory n i (gdbPacketStart g))
      else if validWrAddr i \<and> validWrAddr (i + j)
      then gdbSendPacketOK (write_memory b n i (d2 + 1) g)
      else gdbSendPacketE01 g)"

text \<open>
  The access kind of a watchpoint is a variable the code sets for the kinds 2 to 4 only;
  \<open>junk\<close> is what it holds otherwise.
\<close>

definition watch_access :: "u32 \<Rightarrow> u8 \<Rightarrow> u32" where
  "watch_access junk c = (if c = asc CHR ''2'' then 2 else if c = asc CHR ''3'' then 1 else if c = asc CHR ''4'' then 3 else junk)"

definition watch_mask :: "u32 \<Rightarrow> u32" where
  "watch_mask j = (if j = 1 then 0x3F else if j = 2 then 0x3E else if j = 4 then 0x3C else if j = 8 then 0x38
     else if j = 16 then 0x30 else if j = 32 then 0x20 else 0)"

definition handle_point :: "u32 \<Rightarrow> gdbstub \<Rightarrow> gdbstub" where
  "handle_point junk g =
     (let b = cmd g; (i, d1) = gdbGetHexVal b 3 (- 1); (j, d2) = gdbGetHexVal b (d1 + 1) (- 1);
        (result, g1) =
          (if b 0 = asc CHR ''Z''
           then if b 1 = asc CHR ''1'' then gdbstub_set_hw_breakpoint i g
                else if watch_mask j \<noteq> 0 then gdbstub_set_hw_watchpoint i (watch_mask j) (watch_access junk (b 1)) g
                else (False, g)
           else if b 1 = asc CHR ''1'' then gdbstub_del_hw_breakpoint i g
                else gdbstub_del_hw_watchpoint i g)
      in if result then gdbSendPacketOK g1 else gdbSendPacketE01 g1)"

definition cmd_is :: "gdbstub \<Rightarrow> string \<Rightarrow> bool" where
  "cmd_is g s \<longleftrightarrow> map (\<lambda>i. cmd g (1 + i)) [0..<length s] = map of_char s"

definition gdbHandleCommand :: "u32 \<Rightarrow> gdbstub \<Rightarrow> handler_result \<times> gdbstub" where
  "gdbHandleCommand junk g =
     (let c = cmd g 0; r = savedRegs g in
      if c = asc CHR ''g'' then (ST_OK, send_registers g)
      else if c = asc CHR ''G'' then (ST_OK, receive_registers g)
      else if c OR 0x20 = asc CHR ''m'' then (ST_OK, handle_memory g)
      else if c = asc CHR ''?'' then (ST_OK, sendReason g)
      else if c = asc CHR ''c'' then (ST_CONT, g)
      else if c = asc CHR ''s''
      then (ST_CONT, gdbstub_icount_ena_single_step
             (g\<lparr>singleStepPs := r_ps r, savedRegs := r\<lparr>r_ps := (r_ps r AND NOT 0xf) OR (XCHAL_DEBUGLEVEL - 1)\<rparr>\<rparr>))
      else if c = asc CHR ''D'' then (ST_DETACH, gdbSendPacketOK g)
      else if c = asc CHR ''k'' then (Restarting, g)
      else if c = asc CHR ''q''
      then (ST_OK, if cmd_is g ''Supported'' then gdbSendPacketStr (map of_char ''swbreak+;hwbreak+;PacketSize=FF'') g
                   else if cmd_is g ''Attached'' then gdbSendPacketStr (map of_char ''1'') g
                   else gdbSendEmptyPacket g)
      else if c OR 0x20 = asc CHR ''z'' \<and> asc CHR ''1'' \<le> cmd g 1 \<and> cmd g 2 \<le> asc CHR ''4'' then (ST_OK, handle_point junk g)
      else (ST_OK, gdbSendEmptyPacket g))"

section \<open>The command loop\<close>

text \<open>The stub waits for more input, or stops reading with a result and the input left.\<close>

datatype gdb_outcome = Waiting gdbstub | Stopped handler_result gdbstub "u8 list"

definition sent_checksum :: "u8 \<Rightarrow> u8 \<Rightarrow> u32" where
  "sent_checksum c0 c1 = fst (gdbGetHexVal (\<lambda>i. if i = 0 then c0 else c1) 0 8)"

text \<open>One turn of the loop: it ends the loop, or leaves the input and the state for the next turn.\<close>

definition gdb_turn :: "u32 \<Rightarrow> u8 list \<Rightarrow> gdbstub \<Rightarrow> gdb_outcome + u8 list \<times> gdbstub" where
  "gdb_turn junk rx g =
     (case dropWhile (\<lambda>c. c \<noteq> asc CHR ''$'') rx of
        [] \<Rightarrow> Inl (Waiting g)
      | _ # rx1 \<Rightarrow>
        (case packet_body rx1 (cmd g) 0 0 of
           NeedInput b \<Rightarrow> Inl (Waiting (g\<lparr>cmd := b\<rparr>))
         | TooLong b rx2 \<Rightarrow> Inr (rx2, g\<lparr>cmd := b\<rparr>)
         | GotPacket b s (c0 # c1 # rx2) \<Rightarrow>
             if sent_checksum c0 c1 = ucast s
             then (case gdbHandleCommand junk (gdbSendChar (asc CHR ''+'') (g\<lparr>cmd := b, gdb_attached := True\<rparr>)) of
                     (result, g1) \<Rightarrow> if result \<noteq> ST_OK then Inl (Stopped result g1 rx2) else Inr (rx2, g1))
             else Inr (rx2, gdbSendChar (asc CHR ''-'') (g\<lparr>cmd := b\<rparr>))
         | GotPacket b s _ \<Rightarrow> Inl (Waiting (g\<lparr>cmd := b\<rparr>))))"

lemma packet_start_rest:
  assumes "dropWhile P rx = c # rx1"
  shows "length (packet_rest (packet_body rx1 b p s)) < length rx"
proof -
  have "length (c # rx1) \<le> length rx" unfolding assms [symmetric] by (rule length_dropWhile_le)
  moreover have "length (packet_rest (packet_body rx1 b p s)) \<le> length rx1"
    using packet_body_rest [of rx1 b p s] by (cases rx1) auto
  ultimately show ?thesis by simp
qed

lemma gdb_turn_cases:
  obtains (wait) b where "gdb_turn junk rx g = Inl (Waiting (g\<lparr>cmd := b\<rparr>))" "\<forall>i \<ge> PBUFLEN. b i = cmd g i"
  | (skip) b rx' where "gdb_turn junk rx g = Inr (rx', g\<lparr>cmd := b\<rparr>)" "\<forall>i \<ge> PBUFLEN. b i = cmd g i" "length rx' < length rx"
  | (refuse) b rx' where "gdb_turn junk rx g = Inr (rx', gdbSendChar (asc CHR ''-'') (g\<lparr>cmd := b\<rparr>))" "\<forall>i \<ge> PBUFLEN. b i = cmd g i"
      "length rx' < length rx"
  | (handle) b rx' where "gdb_turn junk rx g =
      (case gdbHandleCommand junk (gdbSendChar (asc CHR ''+'') (g\<lparr>cmd := b, gdb_attached := True\<rparr>)) of
         (result, g1) \<Rightarrow> if result \<noteq> ST_OK then Inl (Stopped result g1 rx') else Inr (rx', g1))"
      "\<forall>i \<ge> PBUFLEN. b i = cmd g i" "length rx' < length rx"
proof (cases "dropWhile (\<lambda>c. c \<noteq> asc CHR ''$'') rx")
  case Nil
  then show thesis by (intro wait [of "cmd g"]) (simp_all add: gdb_turn_def del: dropWhile_eq_Nil_conv)
next
  case (Cons c rx1)
  let ?r = "packet_body rx1 (cmd g) 0 0"
  have buf: "\<forall>i \<ge> PBUFLEN. packet_buffer ?r i = cmd g i" by (simp add: packet_body_bounds PBUFLEN_def)
  have rest: "length (packet_rest ?r) < length rx" by (rule packet_start_rest [OF Cons])
  show thesis
  proof (cases ?r)
    case (NeedInput b)
    then show thesis using Cons buf by (intro wait) (simp_all add: gdb_turn_def)
  next
    case (TooLong b rx2)
    then show thesis using Cons buf rest by (intro skip) (simp_all add: gdb_turn_def)
  next
    case (GotPacket b s l)
    then consider "l = []" | "\<exists>x. l = [x]" | c0 c1 rx2 where "l = c0 # c1 # rx2" by (metis list.exhaust)
    then show thesis
    proof cases
      case (3 c0 c1 rx2)
      then have rest2: "length rx2 < length rx" using rest GotPacket by simp
      show thesis
      proof (cases "sent_checksum c0 c1 = ucast s")
        case True
        then show thesis using Cons GotPacket 3 buf rest2 by (intro handle) (simp_all add: gdb_turn_def)
      next
        case False
        then show thesis using Cons GotPacket 3 buf rest2 by (intro refuse) (simp_all add: gdb_turn_def)
      qed
    qed (use Cons GotPacket buf in \<open>auto intro!: wait [of b] simp: gdb_turn_def\<close>)
  qed
qed

lemma gdb_turn_next: "gdb_turn junk rx g = Inr (rx', g') \<Longrightarrow> length rx' < length rx"
  by (rule gdb_turn_cases [of junk rx g]) (auto split: prod.splits if_splits)

function gdb_loop :: "u32 \<Rightarrow> u8 list \<Rightarrow> gdbstub \<Rightarrow> gdb_outcome" where
  "gdb_loop junk rx g = (case gdb_turn junk rx g of Inl result \<Rightarrow> result | Inr (rx', g') \<Rightarrow> gdb_loop junk rx' g')"
  by pat_completeness auto
termination
  by (relation "measure (\<lambda>(_, rx, _). length rx)") (auto dest: gdb_turn_next)

declare gdb_loop.simps [simp del]

definition gdbReadCommand :: "u32 \<Rightarrow> u8 list \<Rightarrow> gdbstub \<Rightarrow> gdb_outcome" where
  "gdbReadCommand junk rx g =
     (case gdb_loop junk rx (sendReason (g\<lparr>uart_intr := False, wdt_enabled := False\<rparr>)) of
        Waiting g1 \<Rightarrow> Waiting g1
      | Stopped Restarting g1 rx1 \<Rightarrow> Stopped Restarting g1 rx1
      | Stopped result g1 rx1 \<Rightarrow>
          Stopped result ((if result = ST_DETACH then g1\<lparr>gdb_attached := False\<rparr> else g1)\<lparr>wdt_enabled := True, uart_intr := True\<rparr>) rx1)"

section \<open>Debug exceptions\<close>

definition getaregval :: "u8 \<Rightarrow> gdbstub \<Rightarrow> u32" where
  "getaregval reg g = r_a (savedRegs g) (unat reg)"

definition setaregval :: "u8 \<Rightarrow> u32 \<Rightarrow> gdbstub \<Rightarrow> gdbstub" where
  "setaregval reg val g = g\<lparr>savedRegs := (savedRegs g)\<lparr>r_a := (r_a (savedRegs g))(unat reg := val)\<rparr>\<rparr>"

definition advance_pc :: "u32 \<Rightarrow> gdbstub \<Rightarrow> gdbstub" where
  "advance_pc n g = g\<lparr>savedRegs := (savedRegs g)\<lparr>r_pc := r_pc (savedRegs g) + n\<rparr>\<rparr>"

text \<open>
  A load or store of the 32-bit word a pointer \<open>p\<close> to an integer designates.  The
  processor raises an exception inside the stub when \<open>p\<close> is not aligned (None).
\<close>

definition load_word :: "u8 \<Rightarrow> u32 \<Rightarrow> gdbstub \<Rightarrow> gdbstub option" where
  "load_word reg p g = (if p AND 3 \<noteq> 0 then None else Some (setaregval reg (memory g p) g))"

definition store_word :: "u8 \<Rightarrow> u32 \<Rightarrow> gdbstub \<Rightarrow> gdbstub option" where
  "store_word reg p g = (if p AND 3 \<noteq> 0 then None else Some (g\<lparr>memory := (memory g)(p := getaregval reg g)\<rparr>))"

text \<open>Adding \<open>k\<close> to a pointer to a four-byte integer adds \<open>4 * k\<close> to the address.\<close>

definition int_ptr_add :: "u32 \<Rightarrow> u32 \<Rightarrow> u32" where
  "int_ptr_add p k = p + 4 * k"

definition emulLdSt :: "gdbstub \<Rightarrow> gdbstub option" where
  "emulLdSt g =
     (let pc = r_pc (savedRegs g); i0 = readbyte g pc; i1 = readbyte g (pc + 1) in
      if i0 AND 0xf = 2 \<and> i1 AND 0xb0 = 0x20
      then let i2 = readbyte g (pc + 2); p = int_ptr_add (getaregval (i1 AND 0xf) g) (ucast i2 * 4); reg = drop_bit 4 i0 in
           map_option (advance_pc 3) (if i1 AND 0xf0 = 0x20 then load_word reg p g else store_word reg p g)
      else if i0 AND 0xe = 8
      then let p = int_ptr_add (getaregval (i1 AND 0xf) g) (ucast (drop_bit 4 i1) * 4); reg = drop_bit 4 i0 in
           map_option (advance_pc 2) (if i0 AND 0xf = 8 then load_word reg p g else store_word reg p g)
      else Some g)"

datatype exception_outcome = Paused gdbstub | Rebooting gdbstub | Faulted gdbstub | Resumed gdbstub "u8 list"

definition stopped_at_break :: "gdbstub \<Rightarrow> bool" where
  "stopped_at_break g \<longleftrightarrow>
     (let pc = r_pc (savedRegs g); reason = r_reason (savedRegs g) in
      (reason AND 0x8 \<noteq> 0 \<and> readbyte g (pc + 2) = 0 \<and> readbyte g (pc + 1) AND 0xf0 = 0x40 \<and> readbyte g pc AND 0x0f = 0)
      \<or> (reason AND 0x10 \<noteq> 0 \<and> readbyte g (pc + 1) AND 0xf0 = 0xf0 \<and> readbyte g pc = 0x2d))"

definition end_single_step :: "gdbstub \<Rightarrow> gdbstub" where
  "end_single_step g =
     (if singleStepPs g \<noteq> - 1
      then g\<lparr>savedRegs := (savedRegs g)\<lparr>r_ps := (r_ps (savedRegs g) AND NOT 0xf) OR (singleStepPs g AND 0xf)\<rparr>, singleStepPs := - 1\<rparr>
      else g)"

definition gdbstub_handle_debug_exception_flash :: "u32 \<Rightarrow> u8 list \<Rightarrow> gdbstub \<Rightarrow> exception_outcome" where
  "gdbstub_handle_debug_exception_flash junk rx g =
     (case gdbReadCommand junk rx (end_single_step g) of
        Waiting g1 \<Rightarrow> Paused g1
      | Stopped Restarting g1 rx1 \<Rightarrow> Rebooting g1
      | Stopped result g1 rx1 \<Rightarrow>
          let reason = r_reason (savedRegs g1) in
          if reason AND 0x80 = 0
          then if reason AND 0x4 \<noteq> 0
               then (case emulLdSt g1 of None \<Rightarrow> Faulted g1 | Some g2 \<Rightarrow> Resumed g2 rx1)
               else if stopped_at_break g1 then Resumed (advance_pc 3 g1) rx1
               else Resumed g1 rx1
          else Resumed g1 rx1)"

section \<open>Exceptions and interrupts of the operating system\<close>

text \<open>
  The exception frame lies in memory at an aligned address: \<open>pc\<close>, \<open>ps\<close>, \<open>sar\<close>,
  \<open>vpri\<close>, \<open>a0\<close>, then \<open>a2\<close> to \<open>a15\<close>.
\<close>

definition EXCEPTION_GDB_SP_OFFSET :: u32 where "EXCEPTION_GDB_SP_OFFSET = 0x100"

definition frame_word :: "u32 \<Rightarrow> nat \<Rightarrow> u32" where
  "frame_word frame i = frame + 4 * of_nat i"

definition load_frame :: "u32 \<Rightarrow> gdbstub \<Rightarrow> gdbstub" where
  "load_frame frame g =
     (let w = (\<lambda>i. memory g (frame_word frame i)) in
      g\<lparr>savedRegs := (savedRegs g)\<lparr>r_pc := w 0, r_ps := w 1, r_sar := w 2, r_vpri := w 3,
         r_a := (\<lambda>i. if i = 0 then w 4 else if i = 1 then frame + EXCEPTION_GDB_SP_OFFSET
                     else if i < 16 then w (i + 3) else r_a (savedRegs g) i)\<rparr>\<rparr>)"

definition frame_regs :: "XTensa_exception_frame \<Rightarrow> u32 list" where
  "frame_regs r = [r_pc r, r_ps r, r_sar r, r_vpri r, r_a r 0] @ map (r_a r) [2..<16]"

definition store_frame :: "u32 \<Rightarrow> gdbstub \<Rightarrow> gdbstub" where
  "store_frame frame g =
     g\<lparr>memory := fold (\<lambda>(i, v) m. m(frame_word frame i := v)) (enumerate 0 (frame_regs (savedRegs g))) (memory g)\<rparr>"

definition gdbReadCommandWithFrame :: "u32 \<Rightarrow> u32 \<Rightarrow> u8 list \<Rightarrow> gdbstub \<Rightarrow> gdb_outcome" where
  "gdbReadCommandWithFrame junk frame rx g =
     (case gdbReadCommand junk rx (load_frame frame g) of
        Waiting g1 \<Rightarrow> Waiting g1
      | Stopped Restarting g1 rx1 \<Rightarrow> Stopped Restarting g1 rx1
      | Stopped result g1 rx1 \<Rightarrow> Stopped result (store_frame frame g1) rx1)"

text \<open>The special registers read by \<open>gdbstub_save_extra_sfrs_for_exception\<close>.\<close>

record sfrs =
  LITBASE :: u32
  SR176 :: u32
  SR208 :: u32
  EXCCAUSE :: u32

definition gdbstub_save_extra_sfrs_for_exception :: "sfrs \<Rightarrow> gdbstub \<Rightarrow> gdbstub" where
  "gdbstub_save_extra_sfrs_for_exception s g =
     g\<lparr>savedRegs := (savedRegs g)\<lparr>r_litbase := LITBASE s, r_sr176 := SR176 s, r_sr208 := SR208 s, r_reason := EXCCAUSE s\<rparr>\<rparr>"

definition set_reason :: "(u32 \<Rightarrow> u32) \<Rightarrow> gdbstub \<Rightarrow> gdbstub" where
  "set_reason f g = g\<lparr>savedRegs := (savedRegs g)\<lparr>r_reason := f (r_reason (savedRegs g))\<rparr>\<rparr>"

text \<open>Every packet taken shortens the input, so the handlers' loops end.\<close>

lemma gdb_turn_stops: "gdb_turn junk rx g = Inl (Stopped res g' rx') \<Longrightarrow> length rx' < length rx"
  by (rule gdb_turn_cases [of junk rx g]) (auto split: prod.splits if_splits)

lemma gdb_loop_consumes: "gdb_loop junk rx g = Stopped res g' rx' \<Longrightarrow> length rx' < length rx"
proof (induction junk rx g rule: gdb_loop.induct)
  case (1 junk rx g)
  then show ?case using gdb_turn_stops [of junk rx g res g' rx']
    by (fastforce simp: gdb_loop.simps [of _ rx] split: sum.splits dest: gdb_turn_next)
qed

lemma read_command_consumes: "gdbReadCommand junk rx g = Stopped res g' rx' \<Longrightarrow> length rx' < length rx"
  by (auto simp: gdbReadCommand_def split: gdb_outcome.splits handler_result.splits dest: gdb_loop_consumes)

lemma read_frame_consumes: "gdbReadCommandWithFrame junk frame rx g = Stopped res g' rx' \<Longrightarrow> length rx' < length rx"
  by (auto simp: gdbReadCommandWithFrame_def split: gdb_outcome.splits handler_result.splits dest: read_command_consumes)

function exception_loop :: "u32 \<Rightarrow> u32 \<Rightarrow> u8 list \<Rightarrow> gdbstub \<Rightarrow> exception_outcome" where
  "exception_loop junk frame rx g =
     (case gdbReadCommandWithFrame junk frame rx g of
        Waiting g1 \<Rightarrow> Paused g1
      | Stopped result g1 rx1 \<Rightarrow>
          if result = Restarting then Rebooting g1
          else if result = ST_CONT then Resumed g1 rx1
          else exception_loop junk frame rx1 g1)"
  by pat_completeness auto
termination
  by (relation "measure (\<lambda>(_, _, rx, _). length rx)") (auto dest: read_frame_consumes)

declare exception_loop.simps [simp del]

definition gdbstub_exception_handler_flash :: "u32 \<Rightarrow> u32 \<Rightarrow> u8 list \<Rightarrow> gdbstub \<Rightarrow> exception_outcome" where
  "gdbstub_exception_handler_flash junk frame rx g = exception_loop junk frame rx (set_reason (\<lambda>r. r OR 0x80) g)"

definition gdbstub_exception_handler :: "sfrs \<Rightarrow> u32 \<Rightarrow> u32 \<Rightarrow> u8 list \<Rightarrow> gdbstub \<Rightarrow> exception_outcome" where
  "gdbstub_exception_handler s junk frame rx g =
     gdbstub_exception_handler_flash junk frame rx (gdbstub_save_extra_sfrs_for_exception s g)"

text \<open>
  The serial interrupt: of the bytes in the receive queue at its start, those before a
  Ctrl-C go to the registered callback; the rest stay for the command reader.
\<close>

fun uart_fifo :: "nat \<Rightarrow> u8 list \<Rightarrow> gdbstub \<Rightarrow> bool \<times> u8 list \<times> gdbstub" where
  "uart_fifo 0 rx g = (False, rx, g)"
| "uart_fifo (Suc n) [] g = (False, [], g)"
| "uart_fifo (Suc n) (c # rx) g =
     (if c = 3 then (True, rx, g)
      else uart_fifo n rx (if \<not> gdb_attached g \<and> uart_isr_callback g then g\<lparr>isr_bytes := isr_bytes g @ [c]\<rparr> else g))"

definition gdbstub_uart_hdlr :: "sfrs \<Rightarrow> u32 \<Rightarrow> u32 \<Rightarrow> nat \<Rightarrow> u8 list \<Rightarrow> gdbstub \<Rightarrow> exception_outcome" where
  "gdbstub_uart_hdlr s junk frame fifolen rx g =
     (case uart_fifo fifolen rx ((gdbstub_save_extra_sfrs_for_exception s g)\<lparr>uart_intr := False\<rparr>) of
        (False, rx1, g1) \<Rightarrow> Resumed (g1\<lparr>uart_intr := True\<rparr>) rx1
      | (True, rx1, g1) \<Rightarrow>
          (case gdbReadCommandWithFrame junk frame rx1 (set_reason (\<lambda>_. 0xff) g1) of
             Waiting g2 \<Rightarrow> Paused g2
           | Stopped result g2 rx2 \<Rightarrow> if result = Restarting then Rebooting g2 else Resumed g2 rx2))"

section \<open>Console output\<close>

definition gdbstub_semihost_putchar1 :: "u8 \<Rightarrow> gdbstub \<Rightarrow> gdbstub" where
  "gdbstub_semihost_putchar1 c g =
     (if \<not> gdb_attached g \<and> uart_putc1_callback g then g\<lparr>putc1_bytes := putc1_bytes g @ [c]\<rparr> else gdbstub_write_char c g)"

definition gdbstub_set_putc1_callback :: "bool \<Rightarrow> gdbstub \<Rightarrow> gdbstub" where
  "gdbstub_set_putc1_callback func g = g\<lparr>uart_putc1_callback := func\<rparr>"

definition gdbstub_set_uart_isr_callback :: "bool \<Rightarrow> gdbstub \<Rightarrow> gdbstub" where
  "gdbstub_set_uart_isr_callback func g = g\<lparr>uart_isr_callback := func, uart_intr := True\<rparr>"

end
