(* ===== verification/Gdb_Session.thy ===== *)
theory Gdb_Session
  imports Gdb_Stub
begin

text \<open>
  What a debugging session does: the replies and their effect on the stub's state, the
  packets a debugger sends and how the command loop takes them, the memory commands
  from their text to the bytes in memory, and bounds that hold whatever arrives on the line.
\<close>

section \<open>Replies\<close>

definition only_sends :: "gdbstub \<Rightarrow> gdbstub \<Rightarrow> bool" where
  "only_sends g g' \<longleftrightarrow> g' = g\<lparr>sent := sent g', chsum := chsum g'\<rparr>"

named_theorems sends

lemma only_sends_refl [sends]: "only_sends g g"
  by (simp add: only_sends_def)

lemma only_sends_trans: "only_sends g g' \<Longrightarrow> only_sends g' g'' \<Longrightarrow> only_sends g g''"
  by (cases g; cases g'; cases g'') (simp add: only_sends_def)

lemma only_sends_keeps:
  assumes "only_sends g g'"
  shows "cmd g' = cmd g" "memory g' = memory g" "savedRegs g' = savedRegs g" "gdb_attached g' = gdb_attached g"
    "uart_intr g' = uart_intr g" "wdt_enabled g' = wdt_enabled g" "singleStepPs g' = singleStepPs g"
    "ibreakenable g' = ibreakenable g" "ibreaka g' = ibreaka g" "dbreaka g' = dbreaka g" "dbreakc g' = dbreakc g"
  using assms by (cases g; cases g'; simp add: only_sends_def)+

lemma only_sends_char [sends]: "only_sends g h \<Longrightarrow> only_sends g (gdbSendChar c h)"
  by (erule only_sends_trans) (simp add: only_sends_def gdbSendChar_def)

lemma only_sends_packet_char [sends]: "only_sends g h \<Longrightarrow> only_sends g (gdbPacketChar c h)"
  by (erule only_sends_trans) (simp add: only_sends_def packet_char_eq)

lemma only_sends_hex [sends]: "only_sends g h \<Longrightarrow> only_sends g (gdbPacketHex v n h)"
  by (erule only_sends_trans) (simp add: only_sends_def packet_hex_eq gdbPacketHex_def)

lemma only_sends_fold: "(\<And>x h. only_sends h (f x h)) \<Longrightarrow> only_sends g h \<Longrightarrow> only_sends g (fold f xs h)"
proof (induction xs arbitrary: h)
  case (Cons x xs)
  show ?case using Cons.IH [OF Cons.prems(1) only_sends_trans [OF Cons.prems(2,1)]] by simp
qed simp

lemma only_sends_start [sends]: "only_sends g h \<Longrightarrow> only_sends g (gdbPacketStart h)"
  by (erule only_sends_trans) (simp add: only_sends_def gdbPacketStart_def gdbSendChar_def)

lemma only_sends_end [sends]: "only_sends g h \<Longrightarrow> only_sends g (gdbPacketEnd h)"
  unfolding gdbPacketEnd_def Let_def by (intro sends)

lemma only_sends_swapped [sends]: "only_sends g h \<Longrightarrow> only_sends g (gdbPacketSwappedHexInt v h)"
  unfolding gdbPacketSwappedHexInt_def by (rule sends)

lemma only_sends_xs [sends]: "only_sends g h \<Longrightarrow> only_sends g (packet_xs n h)"
  unfolding packet_xs_def gdbPacketXXXXInt_def by (intro only_sends_fold sends)

lemma only_sends_registers [sends]: "only_sends g h \<Longrightarrow> only_sends g (send_registers h)"
  unfolding send_registers_def Let_def by (intro sends only_sends_fold)

lemma only_sends_reason [sends]: "only_sends g h \<Longrightarrow> only_sends g (sendReason h)"
  unfolding sendReason_def Let_def by (auto intro!: sends split: if_split)

lemma only_sends_str [sends]: "only_sends g h \<Longrightarrow> only_sends g (gdbSendPacketStr s h)"
  unfolding gdbSendPacketStr_def by (intro sends only_sends_fold)

lemma only_sends_ok [sends]: "only_sends g h \<Longrightarrow> only_sends g (gdbSendPacketOK h)"
  unfolding gdbSendPacketOK_def by (rule sends)

lemma only_sends_e01 [sends]: "only_sends g h \<Longrightarrow> only_sends g (gdbSendPacketE01 h)"
  unfolding gdbSendPacketE01_def by (rule sends)

lemma only_sends_empty [sends]: "only_sends g h \<Longrightarrow> only_sends g (gdbSendEmptyPacket h)"
  unfolding gdbSendEmptyPacket_def by (intro sends)

lemma only_sends_memory [sends]: "only_sends g h \<Longrightarrow> only_sends g (send_memory n i h)"
  by (induction n i h rule: send_memory.induct) (auto intro: sends)

text \<open>The bytes of the replies.\<close>

lemma packet_frame:
  assumes "only_sends (gdbPacketStart g) h" and "sent h = sent g @ asc CHR ''$'' # s" and "chsum h = sum_list s"
  shows "sent (gdbPacketEnd h) = sent g @ asc CHR ''$'' # s @ asc CHR ''#'' # hex2 (sum_list s)"
  using assms hex_digits_2 [of "sum_list s"]
  by (simp add: gdbPacketEnd_def gdbPacketHex_def gdbSendChar_def packet_hex_eq)

lemma escaped_plain: "(\<forall>c \<in> set s. \<not> needs_escape c) \<Longrightarrow> escaped s = s"
  by (induction s) auto

lemma hex2_plain: "c \<in> set (hex2 s) \<Longrightarrow> \<not> needs_escape c"
proof -
  assume "c \<in> set (hex2 s)"
  moreover have "unat s div 16 < 16" using unat_bound [of s] by simp
  ultimately show ?thesis using hex_char_plain [of "unat s div 16"] hex_char_plain [of "unat s mod 16"] by (auto simp: hex2_def)
qed

lemma send_memory_eq:
  "send_memory n i g = (let s = concat (map (\<lambda>k. hex2 (readbyte g (i + of_nat k))) [0..<n])
     in g\<lparr>sent := sent g @ s, chsum := chsum g + sum_list s\<rparr>)"
proof (induction n arbitrary: i g)
  case (Suc n)
  have step: "gdbPacketHex (ucast (readbyte g i)) 8 g =
      g\<lparr>sent := sent g @ hex2 (readbyte g i), chsum := chsum g + sum_list (hex2 (readbyte g i))\<rparr>"
    using hex_digits_2 [of "readbyte g i"] by (simp add: gdbPacketHex_def packet_hex_eq)
  have rb: "readbyte (g\<lparr>sent := a, chsum := c\<rparr>) = readbyte g" for a c by (simp add: readbyte_def fun_eq_iff)
  have "[0..<Suc n] = 0 # map Suc [0..<n]" by (simp add: upt_conv_Cons map_Suc_upt del: upt_Suc)
  then have "map (\<lambda>k. hex2 (readbyte g (i + of_nat k))) [0..<Suc n] =
      hex2 (readbyte g i) # map (\<lambda>k. hex2 (readbyte g (i + 1 + of_nat k))) [0..<n]"
    by (simp add: o_def add_ac del: upt_Suc)
  then show ?case using Suc [of "i + 1"] by (simp add: step rb Let_def add.assoc del: upt_Suc)
qed simp

lemma send_memory_framed:
  "gdbPacketEnd (send_memory n i (gdbPacketStart g)) =
     gdbSendPacketStr (concat (map (\<lambda>k. hex2 (readbyte g (i + of_nat k))) [0..<n])) g"
proof -
  let ?s = "concat (map (\<lambda>k. hex2 (readbyte g (i + of_nat k))) [0..<n])"
  have rb: "readbyte (gdbPacketStart g) = readbyte g" by (simp add: readbyte_def fun_eq_iff gdbPacketStart_def gdbSendChar_def)
  have "escaped ?s = ?s" by (rule escaped_plain) (auto dest: hex2_plain)
  then show ?thesis by (simp add: send_memory_eq rb Let_def gdbSendPacketStr_def packet_chars_eq)
qed

section \<open>Memory\<close>

text \<open>A byte of memory at any address; \<open>readbyte\<close> reads it inside the readable range.\<close>

definition mem_byte :: "gdbstub \<Rightarrow> u32 \<Rightarrow> u8" where
  "mem_byte g p = ucast (drop_bit (8 * unat (p AND 3)) (memory g (p AND NOT 3)))"

lemma readbyte_mem: "readbyte g p = (if p < 0x20000000 \<or> 0x60000000 \<le> p then - 1 else mem_byte g p)"
  by (simp add: readbyte_def mem_byte_def)

lemma and_3_cases: "unat ((p :: u32) AND 3) < 4"
proof -
  have "p AND 3 = take_bit 2 p" by (simp add: take_bit_eq_mask mask_eq_exp_minus_1)
  then show ?thesis by (simp only: unat_take_bit) simp
qed

lemma same_word_byte: "(p :: u32) AND NOT 3 = q AND NOT 3 \<Longrightarrow> p AND 3 = q AND 3 \<Longrightarrow> p = q"
proof -
  have "r = (r AND NOT 3) OR (r AND 3)" for r :: u32
    by (simp only: bit.conj_disj_distrib [symmetric] bit.disj_cancel_left bit.conj_one_right)
  then show "p AND NOT 3 = q AND NOT 3 \<Longrightarrow> p AND 3 = q AND 3 \<Longrightarrow> p = q" by metis
qed

definition set_byte :: "nat \<Rightarrow> u8 \<Rightarrow> u32 \<Rightarrow> u32" where
  "set_byte k d v = (v AND NOT (push_bit (8 * k) (mask 8))) OR push_bit (8 * k) (ucast d)"

lemma byte_of_set_byte: "j < 4 \<Longrightarrow> k < 4 \<Longrightarrow> byte_of j (set_byte k d v) = (if j = k then d else byte_of j v)"
proof (rule bit_word_eqI)
  fix n assume "j < 4" "k < 4" "n < LENGTH(8)"
  then show "bit (byte_of j (set_byte k d v)) n = bit (if j = k then d else byte_of j v) n"
    by (cases "j < k"; cases "j = k") (auto simp: byte_simps set_byte_def bit_simps dest: bit_imp_le_length)
qed

lemma less_4_cases: "k < 4 \<longleftrightarrow> k = 0 \<or> k = 1 \<or> k = 2 \<or> k = (3 :: nat)"
  by auto

lemma writeByte_set_byte:
  "writeByte p d g = (if p < 0x20000000 \<or> 0x60000000 \<le> p then g
     else g\<lparr>memory := (memory g)(p AND NOT 3 := set_byte (unat (p AND 3)) d (memory g (p AND NOT 3)))\<rparr>)"
proof -
  have m: "(0xffffff00 :: u32) = NOT (push_bit (8 * 0) (mask 8))" "(0xffff00ff :: u32) = NOT (push_bit (8 * 1) (mask 8))"
    "(0xff00ffff :: u32) = NOT (push_bit (8 * 2) (mask 8))" "(0x00ffffff :: u32) = NOT (push_bit (8 * 3) (mask 8))"
    by (simp_all add: mask_eq_exp_minus_1)
  have "p AND 3 = of_nat k" if "unat (p AND 3) = k" for k using that by auto
  then show ?thesis using and_3_cases [of p] unfolding less_4_cases
    by (elim disjE; fastforce simp: writeByte_def set_byte_def Let_def m)
qed

lemma mem_byte_eq: "mem_byte g p = byte_of (unat (p AND 3)) (memory g (p AND NOT 3))"
  by (simp add: mem_byte_def byte_of_def)

lemma mem_byte_writeByte:
  assumes "0x20000000 \<le> p" and "p < 0x60000000"
  shows "mem_byte (writeByte p d g) q = (if q = p then d else mem_byte g q)"
proof (cases "q AND NOT 3 = p AND NOT 3")
  case False
  then have "q \<noteq> p" by blast
  with False assms show ?thesis by (simp add: mem_byte_eq writeByte_set_byte)
next
  case True
  then have "q = p \<longleftrightarrow> q AND 3 = p AND 3" using same_word_byte by blast
  also have "\<dots> \<longleftrightarrow> unat (q AND 3) = unat (p AND 3)" by (rule word_unat_eq_iff)
  finally have "q = p \<longleftrightarrow> unat (q AND 3) = unat (p AND 3)" .
  then show ?thesis using assms and_3_cases [of p] and_3_cases [of q] True
    by (simp add: mem_byte_eq writeByte_set_byte byte_of_set_byte not_less [symmetric])
qed

lemma writeByte_keeps:
  "cmd (writeByte p d g) = cmd g" "savedRegs (writeByte p d g) = savedRegs g" "sent (writeByte p d g) = sent g"
  "chsum (writeByte p d g) = chsum g" "writeByte p d g = g\<lparr>memory := memory (writeByte p d g)\<rparr>"
  by (simp_all add: writeByte_def Let_def)

lemma write_memory_keeps: "write_memory b n i data g = g\<lparr>memory := memory (write_memory b n i data g)\<rparr>"
proof (induction b n i data g rule: write_memory.induct)
  case (2 b n i data g)
  obtain v data1 where v: "gdbGetHexVal b data 8 = (v, data1)" by force
  have keep: "writeByte i (ucast v) g = g\<lparr>memory := memory (writeByte i (ucast v) g)\<rparr>" by (rule writeByte_keeps(5))
  have "write_memory b n (i + 1) data1 (writeByte i (ucast v) g) =
      (writeByte i (ucast v) g)\<lparr>memory := memory (write_memory b n (i + 1) data1 (writeByte i (ucast v) g))\<rparr>"
    by (rule 2 [OF v [symmetric]])
  also have "\<dots> = g\<lparr>memory := memory (write_memory b n (i + 1) data1 (writeByte i (ucast v) g))\<rparr>"
    by (subst keep) simp
  finally show ?case by (simp add: v)
qed simp

lemma write_memory_sel [simp]:
  "sent (write_memory b n i data g) = sent g" "savedRegs (write_memory b n i data g) = savedRegs g"
  "cmd (write_memory b n i data g) = cmd g" "uart_intr (write_memory b n i data g) = uart_intr g"
  "wdt_enabled (write_memory b n i data g) = wdt_enabled g"
  by (subst write_memory_keeps, simp)+

text \<open>Whatever the text of the command, bytes outside the requested range and the writable range stay.\<close>

lemma write_memory_outside:
  "(\<And>k. k < n \<Longrightarrow> 0x20000000 \<le> i + of_nat k \<Longrightarrow> i + of_nat k < 0x60000000 \<Longrightarrow> (i + of_nat k) AND NOT 3 \<noteq> w) \<Longrightarrow>
   memory (write_memory b n i data g) w = memory g w"
proof (induction b n i data g rule: write_memory.induct)
  case (2 b n i data g)
  obtain v data1 where v: "gdbGetHexVal b data 8 = (v, data1)" by force
  have "memory (write_memory b n (i + 1) data1 (writeByte i (ucast v) g)) w = memory (writeByte i (ucast v) g) w"
  proof (rule 2(1) [OF v [symmetric]])
    fix k assume "k < n" "0x20000000 \<le> i + 1 + of_nat k" "i + 1 + of_nat k < 0x60000000"
    then show "(i + 1 + of_nat k) AND NOT 3 \<noteq> w" using "2.prems" [of "Suc k"] by (simp add: add.assoc)
  qed
  moreover have "memory (writeByte i (ucast v) g) w = memory g w"
    using "2.prems" [of 0] by (auto simp add: writeByte_set_byte not_less not_le)
  ultimately show ?case by (simp add: v)
qed simp

lemma u8_u32_u8: "ucast (ucast (d :: u8) :: u32) = d"
  by (rule bit_word_eqI) (simp add: bit_simps)

lemma write_memory_bytes:
  assumes "\<And>k. k < n \<Longrightarrow> gdbGetHexVal b (data + 2 * k) 8 = (ucast (f k), data + 2 * k + 2)"
    and "0x20000000 \<le> unat i" and "unat i + n \<le> 0x60000000"
  shows "mem_byte (write_memory b n i data g) q =
    (if unat i \<le> unat q \<and> unat q < unat i + n then f (unat q - unat i) else mem_byte g q)"
  using assms
proof (induction n arbitrary: i data g f)
  case (Suc n)
  have range: "0x20000000 \<le> i" "i < 0x60000000" using Suc.prems by (simp_all add: word_le_nat_alt word_less_nat_alt)
  have i1: "unat (i + 1) = unat i + 1" using Suc.prems(3) by (simp add: unat_word_ariths)
  have v: "gdbGetHexVal b data 8 = (ucast (f 0), data + 2)" using Suc.prems(1) [of 0] by simp
  have next_byte: "mem_byte (write_memory b n (i + 1) (data + 2) (writeByte i (f 0) g)) q =
      (if unat (i + 1) \<le> unat q \<and> unat q < unat (i + 1) + n then f (Suc (unat q - unat (i + 1))) else mem_byte (writeByte i (f 0) g) q)"
    by (rule Suc.IH) (use Suc.prems(1) [of "Suc _"] Suc.prems(2,3) in \<open>simp_all add: i1\<close>)
  consider "q = i" | "unat i < unat q" | "unat q < unat i" by (metis linorder_less_linear word_unat_eq_iff)
  then show ?case
    by cases (use next_byte in \<open>auto simp: v u8_u32_u8 mem_byte_writeByte [OF range] i1 Suc_diff_Suc\<close>)
qed auto

section \<open>Addresses\<close>

lemma validWrAddr_unat:
  "validWrAddr p \<longleftrightarrow> (0x3ff00000 \<le> unat p \<and> unat p < 0x40000000) \<or> (0x40100000 \<le> unat p \<and> unat p < 0x40140000)
     \<or> (0x60000000 \<le> unat p \<and> unat p < 0x60002000)"
proof (cases "unat p < 2 ^ 31")
  case True
  then show ?thesis unfolding validWrAddr_def sint_small [OF True] by linarith
next
  case False
  then have "unat p div 2 ^ 31 = 1" using unat_bound [of p] by (intro div_nat_eqI) simp_all
  then have "bit (unat p) 31" by (simp add: bit_iff_odd)
  then have "bit p 31" by (simp add: bit_unsigned_iff)
  then have "sint p < 0" using bit_last_iff [of p] by simp
  then show ?thesis using False unfolding validWrAddr_def by auto
qed

section \<open>Packets\<close>

definition received :: "buffer \<Rightarrow> u8 list \<Rightarrow> buffer" where
  "received b s = (buf_put b 0 s)(length s := 0)"

lemma sent_checksum_hex2: "hex2 k = [c0, c1] \<Longrightarrow> sent_checksum c0 c1 = ucast k"
  using get_hex_8 [of "\<lambda>i. if i = 0 then c0 else c1" 0 k] by (simp add: sent_checksum_def hex2_def)

lemma framed_turn:
  assumes "length s < PBUFLEN"
  shows "gdb_turn junk (framed s @ rx) g =
    (if \<forall>c \<in> set s. \<not> needs_escape c
     then (case gdbHandleCommand junk (gdbSendChar (asc CHR ''+'') (g\<lparr>cmd := received (cmd g) s, gdb_attached := True\<rparr>)) of
             (result, g1) \<Rightarrow> if result \<noteq> ST_OK then Inl (Stopped result g1 rx) else Inr (rx, g1))
     else Inr (rx, gdbSendChar (asc CHR ''-'') (g\<lparr>cmd := received (cmd g) s\<rparr>)))"
proof -
  let ?k = "sum_list (escaped s)"
  obtain c0 c1 where h: "hex2 ?k = [c0, c1]" by (simp add: hex2_def)
  have "packet_body (escaped s @ asc CHR ''#'' # c0 # c1 # rx) (cmd g) 0 0 = GotPacket (received (cmd g) s) (sum_list s) (c0 # c1 # rx)"
    using packet_body_escaped [of 0 s] assms by (simp add: received_def)
  moreover have "sent_checksum c0 c1 = ucast (sum_list s) \<longleftrightarrow> (\<forall>c \<in> set s. \<not> needs_escape c)"
  proof -
    have "sent_checksum c0 c1 = ucast (sum_list s) \<longleftrightarrow> (ucast ?k :: u32) = ucast (sum_list s)" by (simp add: sent_checksum_hex2 [OF h])
    also have "\<dots> \<longleftrightarrow> ?k = sum_list s" by (metis u8_u32_u8)
    finally show ?thesis using checksum_agrees [OF assms] by blast
  qed
  ultimately show ?thesis by (simp add: gdb_turn_def framed_def h split: prod.splits)
qed

lemma loop_turn: "gdb_turn junk rx g = Inr (rx', g') \<Longrightarrow> gdb_loop junk rx g = gdb_loop junk rx' g'"
  by (simp add: gdb_loop.simps [of junk rx])

text \<open>C14: A packet framed as the protocol asks and short enough for the command buffer
  reaches the command handler, after an acknowledgement, exactly when none of its bytes is
  one of the four that have to be escaped.  With such a byte the stub always answers with a
  refusal, since it sums the bytes after removing the escapes and the sender before.\<close>

theorem gdb_packet_received:
  assumes "length s < PBUFLEN"
  shows "gdb_loop junk (framed s @ rx) g =
    (if \<forall>c \<in> set s. \<not> needs_escape c
     then (case gdbHandleCommand junk (gdbSendChar (asc CHR ''+'') (g\<lparr>cmd := received (cmd g) s, gdb_attached := True\<rparr>)) of
             (result, g1) \<Rightarrow> if result \<noteq> ST_OK then Stopped result g1 rx else gdb_loop junk rx g1)
     else gdb_loop junk rx (gdbSendChar (asc CHR ''-'') (g\<lparr>cmd := received (cmd g) s\<rparr>)))"
  by (subst gdb_loop.simps) (simp add: framed_turn [OF assms] split: prod.split)

theorem gdb_packet_received_witness:
  "(\<exists>g1. gdb_loop 0 (framed (map of_char ''k'')) (gdbstub_initial (\<lambda>_. 0) zero_frame) = Stopped Restarting g1 []) \<and>
   (\<exists>b. gdb_loop 0 (framed (map of_char ''m*'')) (gdbstub_initial (\<lambda>_. 0) zero_frame) =
      gdb_loop 0 [] (gdbSendChar (asc CHR ''-'') ((gdbstub_initial (\<lambda>_. 0) zero_frame)\<lparr>cmd := b\<rparr>)))"
  using gdb_packet_received [of "map of_char ''k''" 0 "[]" "gdbstub_initial (\<lambda>_. 0) zero_frame"]
    gdb_packet_received [of "map of_char ''m*''" 0 "[]" "gdbstub_initial (\<lambda>_. 0) zero_frame"]
  by (auto simp: PBUFLEN_def needs_escape_def gdbHandleCommand_def received_def buf_put_def gdbSendChar_def)

section \<open>Text in the command buffer\<close>

definition holds :: "buffer \<Rightarrow> nat \<Rightarrow> u8 list \<Rightarrow> bool" where
  "holds b p s \<longleftrightarrow> (\<forall>i < length s. b (p + i) = s ! i)"

lemma holds_received: "holds (received b s) 0 (s @ [0])"
  by (auto simp: holds_def received_def buf_put_def nth_append less_Suc_eq)

lemma holds_append: "holds b p (s @ t) \<longleftrightarrow> holds b p s \<and> holds b (p + length s) t"
proof
  assume h: "holds b p (s @ t)"
  have "b (p + length s + i) = t ! i" if "i < length t" for i
    using h [unfolded holds_def, rule_format, of "length s + i"] that by (simp add: add.assoc)
  with h show "holds b p s \<and> holds b (p + length s) t" by (force simp: holds_def nth_append)
next
  assume h: "holds b p s \<and> holds b (p + length s) t"
  show "holds b p (s @ t)" unfolding holds_def
  proof (intro allI impI)
    fix i assume "i < length (s @ t)"
    then show "b (p + i) = (s @ t) ! i"
      using h [unfolded holds_def] by (cases "i < length s") (auto simp: nth_append dest: spec [of _ "i - length s"])
  qed
qed

lemma holds_Cons: "holds b p (c # s) \<longleftrightarrow> b p = c \<and> holds b (Suc p) s"
  using holds_append [of b p "[c]" s] by (simp add: holds_def)

lemma length_hex_digits [simp]: "length (hex_digits n v) = n"
  by (simp add: hex_digits_def)

lemma holds_number:
  assumes "holds b p (hex_digits n v @ c # s)" and "take_bit (4 * n) v = v" and "n < 64" and "c \<in> {asc CHR '','', asc CHR '':'', 0}"
  shows "gdbGetHexVal b p (- 1) = (v, p + n)"
proof (rule get_hex_any)
  from assms(1) have "holds b p (hex_digits n v)" and "b (p + n) = c" by (simp_all add: holds_append holds_Cons)
  then show "b (p + i) = hex_digits n v ! i" if "i < n" for i using that by (simp add: holds_def)
  show "b (p + n) \<in> {asc CHR '','', asc CHR '':'', 0}" using \<open>b (p + n) = c\<close> assms(4) by simp
qed (use assms in simp_all)

lemma holds_hex2:
  assumes "holds b p (concat (map hex2 bs))" and "k < length bs"
  shows "gdbGetHexVal b (p + 2 * k) 8 = (ucast (bs ! k), p + 2 * k + 2)"
  using assms
proof (induction bs arbitrary: p k)
  case (Cons d bs)
  show ?case
  proof (cases k)
    case 0
    then show ?thesis using Cons.prems get_hex_8 [of b p d] by (auto simp: hex2_def holds_Cons)
  next
    case (Suc j)
    have "holds b (p + 2) (concat (map hex2 bs))" using Cons.prems(1)
      by (simp only: list.map concat.simps holds_append) (simp add: hex2_def)
    from Cons.IH [OF this, of j] show ?thesis using Cons.prems(2) Suc by simp
  qed
qed simp

section \<open>The memory commands\<close>

definition M_text :: "nat \<Rightarrow> u32 \<Rightarrow> nat \<Rightarrow> u8 list \<Rightarrow> u8 list" where
  "M_text na addr nl bs = asc CHR ''M'' # hex_digits na addr @ asc CHR '','' # hex_digits nl (of_nat (length bs)) @
     asc CHR '':'' # concat (map hex2 bs)"

definition m_text :: "nat \<Rightarrow> u32 \<Rightarrow> nat \<Rightarrow> nat \<Rightarrow> u8 list" where
  "m_text na addr nl n = asc CHR ''m'' # hex_digits na addr @ asc CHR '','' # hex_digits nl (of_nat n)"

text \<open>\<open>n\<close> hex digits are enough for \<open>v\<close>, and no more than the stub reads.\<close>

definition digits_fit :: "nat \<Rightarrow> u32 \<Rightarrow> bool" where
  "digits_fit n v \<longleftrightarrow> take_bit (4 * n) v = v \<and> n < 64"

lemma hex_digits_plain: "c \<in> set (hex_digits n v) \<Longrightarrow> \<not> needs_escape c"
  using hex_char_plain [OF nibble_less] by (auto simp: hex_digits_def)

lemma M_text_plain: "c \<in> set (M_text na addr nl bs) \<Longrightarrow> \<not> needs_escape c"
  by (auto simp: M_text_def dest: hex_digits_plain hex2_plain) (simp_all add: needs_escape_def)

lemma m_text_plain: "c \<in> set (m_text na addr nl n) \<Longrightarrow> \<not> needs_escape c"
  by (auto simp: m_text_def dest: hex_digits_plain) (simp_all add: needs_escape_def)

lemma sint_of_small: "n < 2 ^ 31 \<Longrightarrow> nat (sint (of_nat n :: u32)) = n"
  using sint_small [of "of_nat n"] by (simp add: unat_of_nat_u32)

lemma length_M_text: "length (M_text na addr nl bs) = 3 + na + nl + 2 * length bs"
  by (induction bs) (simp_all add: M_text_def hex2_def)

lemma handle_M:
  assumes "holds (cmd g) 0 (M_text na addr nl bs @ [0])" and "digits_fit na addr" and "digits_fit nl (of_nat (length bs))"
    and "length bs < 2 ^ 31"
  shows "handle_memory g = (if validWrAddr addr \<and> validWrAddr (addr + of_nat (length bs))
    then gdbSendPacketOK (write_memory (cmd g) (length bs) addr (na + nl + 3) g) else gdbSendPacketE01 g)"
    and "holds (cmd g) (na + nl + 3) (concat (map hex2 bs))"
proof -
  have h: "cmd g 0 = asc CHR ''M''" "holds (cmd g) 1 (hex_digits na addr @ asc CHR '','' # hex_digits nl (of_nat (length bs)) @ asc CHR '':'' # concat (map hex2 bs) @ [0])"
    using assms(1) by (simp_all add: M_text_def holds_Cons)
  then have h2: "holds (cmd g) (1 + na + 1) (hex_digits nl (of_nat (length bs)) @ asc CHR '':'' # concat (map hex2 bs) @ [0])"
    by (simp add: holds_append holds_Cons)
  show "holds (cmd g) (na + nl + 3) (concat (map hex2 bs))"
    using h2 by (simp add: holds_append holds_Cons eval_nat_numeral)
  have "gdbGetHexVal (cmd g) 1 (- 1) = (addr, 1 + na)"
    by (rule holds_number [OF h(2)]) (use assms(2) in \<open>simp_all add: digits_fit_def\<close>)
  moreover have "gdbGetHexVal (cmd g) (1 + na + 1) (- 1) = (of_nat (length bs), 1 + na + 1 + nl)"
    by (rule holds_number [OF h2]) (use assms(3) in \<open>simp_all add: digits_fit_def\<close>)
  moreover have three: "na + nl + 3 = Suc (Suc (Suc (na + nl)))" by simp
  ultimately show "handle_memory g = (if validWrAddr addr \<and> validWrAddr (addr + of_nat (length bs))
      then gdbSendPacketOK (write_memory (cmd g) (length bs) addr (na + nl + 3) g) else gdbSendPacketE01 g)"
    by (simp add: handle_memory_def h(1) sint_of_small [OF assms(4)] three Let_def)
qed

lemma handle_m:
  assumes "holds (cmd g) 0 (m_text na addr nl n @ [0])" and "digits_fit na addr" and "digits_fit nl (of_nat n)" and "n < 2 ^ 31"
  shows "handle_memory g = gdbSendPacketStr (concat (map (\<lambda>k. hex2 (readbyte g (addr + of_nat k))) [0..<n])) g"
proof -
  have h: "cmd g 0 = asc CHR ''m''" "holds (cmd g) 1 (hex_digits na addr @ asc CHR '','' # hex_digits nl (of_nat n) @ [0])"
    using assms(1) by (simp_all add: m_text_def holds_Cons)
  then have h2: "holds (cmd g) (1 + na + 1) (hex_digits nl (of_nat n) @ [0])" by (simp add: holds_append holds_Cons)
  have "gdbGetHexVal (cmd g) 1 (- 1) = (addr, 1 + na)"
    by (rule holds_number [OF h(2)]) (use assms(2) in \<open>simp_all add: digits_fit_def\<close>)
  moreover have "gdbGetHexVal (cmd g) (1 + na + 1) (- 1) = (of_nat n, 1 + na + 1 + nl)"
    by (rule holds_number [OF h2]) (use assms(3) in \<open>simp_all add: digits_fit_def\<close>)
  ultimately show ?thesis
    by (simp add: handle_memory_def h(1) sint_of_small [OF assms(4)] send_memory_framed Let_def)
qed

lemma handle_memory_command:
  "cmd g 0 = asc CHR ''m'' \<or> cmd g 0 = asc CHR ''M'' \<Longrightarrow> gdbHandleCommand junk g = (ST_OK, handle_memory g)"
  by (auto simp: gdbHandleCommand_def Let_def)

text \<open>The state in which the handler of an accepted packet starts.\<close>

definition accepted :: "u8 list \<Rightarrow> gdbstub \<Rightarrow> gdbstub" where
  "accepted s g = gdbSendChar (asc CHR ''+'') (g\<lparr>cmd := received (cmd g) s, gdb_attached := True\<rparr>)"

lemma accepted_sel [simp]:
  "cmd (accepted s g) = received (cmd g) s" "memory (accepted s g) = memory g" "savedRegs (accepted s g) = savedRegs g"
  "sent (accepted s g) = sent g @ [asc CHR ''+'']"
  by (simp_all add: accepted_def gdbSendChar_def)

lemma memory_turn:
  assumes "length s < PBUFLEN" and "\<forall>c \<in> set s. \<not> needs_escape c" and "hd s = asc CHR ''m'' \<or> hd s = asc CHR ''M''" and "s \<noteq> []"
  shows "gdb_loop junk (framed s @ rx) g = gdb_loop junk rx (handle_memory (accepted s g))"
proof -
  have "cmd (accepted s g) 0 = hd s" using assms(4) by (cases s) (simp_all add: received_def buf_put_def)
  then have "gdbHandleCommand junk (accepted s g) = (ST_OK, handle_memory (accepted s g))"
    using assms(3) by (intro handle_memory_command) simp
  then show ?thesis by (intro loop_turn) (simp add: framed_turn [OF assms(1)] assms(2) accepted_def)
qed

lemma sent_packet_ok: "sent (gdbSendPacketOK g) = sent g @ framed (map of_char ''OK'')"
  unfolding gdbSendPacketOK_def by (rule send_packet_framed)

lemma sent_packet_e01: "sent (gdbSendPacketE01 g) = sent g @ framed (map of_char ''E01'')"
  unfolding gdbSendPacketE01_def by (rule send_packet_framed)

lemma readbyte_cong: "memory g = memory h \<Longrightarrow> readbyte g = readbyte h"
  by (simp add: readbyte_def fun_eq_iff)

lemma valid_range:
  assumes "validWrAddr addr" "validWrAddr (addr + of_nat n)" "n < 2 ^ 31"
  shows "unat (addr + of_nat n) = unat addr + n" "0x20000000 \<le> unat addr" "unat addr < 0x60002000"
proof -
  show "0x20000000 \<le> unat addr" "unat addr < 0x60002000" using assms(1) by (auto simp: validWrAddr_unat)
  then show "unat (addr + of_nat n) = unat addr + n" using assms(3) by (simp add: unat_word_ariths unat_of_nat_u32)
qed

text \<open>The command that writes memory, sent in full with its address, length and bytes
  in hex, stores exactly these bytes at the address when the range ends below 0x60000000 and its two
  ends are writable; every other readable byte and the registers keep their values, and the reply is OK.\<close>

lemma gdb_M_writes:
  assumes "length (M_text na addr nl bs) < PBUFLEN" and "digits_fit na addr" and "digits_fit nl (of_nat (length bs))"
    and "validWrAddr addr" and "validWrAddr (addr + of_nat (length bs))" and "unat addr + length bs \<le> 0x60000000"
  shows "\<exists>g'. gdb_loop junk (framed (M_text na addr nl bs) @ rx) g = gdb_loop junk rx g' \<and>
    sent g' = sent g @ asc CHR ''+'' # framed (map of_char ''OK'') \<and> savedRegs g' = savedRegs g \<and>
    (\<forall>q. readbyte g' q = (if unat addr \<le> unat q \<and> unat q < unat addr + length bs then bs ! (unat q - unat addr) else readbyte g q))"
proof (intro exI conjI allI)
  let ?t = "M_text na addr nl bs"
  let ?w = "write_memory (cmd (accepted ?t g)) (length bs) addr (na + nl + 3) (accepted ?t g)"
  have len: "length bs < 2 ^ 31" using assms(1) by (simp add: length_M_text PBUFLEN_def)
  have h: "holds (cmd (accepted ?t g)) 0 (?t @ [0])" by (simp add: holds_received)
  note hm = handle_M [OF h assms(2,3) len]
  have "gdb_loop junk (framed ?t @ rx) g = gdb_loop junk rx (handle_memory (accepted ?t g))"
    by (rule memory_turn [OF assms(1)]) (use M_text_plain in \<open>auto simp: M_text_def\<close>)
  then show "gdb_loop junk (framed ?t @ rx) g = gdb_loop junk rx (gdbSendPacketOK ?w)" using hm(1) assms(4,5) by simp
  show "sent (gdbSendPacketOK ?w) = sent g @ asc CHR ''+'' # framed (map of_char ''OK'')"
    "savedRegs (gdbSendPacketOK ?w) = savedRegs g"
    using only_sends_keeps(3) [OF only_sends_ok [OF only_sends_refl, of ?w]] by (simp_all add: sent_packet_ok)
  fix q
  have "mem_byte ?w q = (if unat addr \<le> unat q \<and> unat q < unat addr + length bs then bs ! (unat q - unat addr) else mem_byte (accepted ?t g) q)"
    by (rule write_memory_bytes [OF holds_hex2 [OF hm(2)]]) (use valid_range [OF assms(4,5) len] assms(6) in simp_all)
  moreover have "mem_byte (accepted ?t g) q = mem_byte g q" by (simp add: mem_byte_def)
  moreover have "readbyte (gdbSendPacketOK ?w) = readbyte ?w"
    by (rule readbyte_cong) (rule only_sends_keeps(2) [OF only_sends_ok [OF only_sends_refl]])
  ultimately show "readbyte (gdbSendPacketOK ?w) q =
      (if unat addr \<le> unat q \<and> unat q < unat addr + length bs then bs ! (unat q - unat addr) else readbyte g q)"
    using valid_range [OF assms(4,5) len] assms(6) by (auto simp: readbyte_mem word_less_nat_alt word_le_nat_alt)
qed

lemma gdb_M_writes_witness:
  "\<exists>g'. gdb_loop 0 (framed (M_text 8 0x3ffe8000 1 [7, 9])) (gdbstub_initial (\<lambda>_. 0) zero_frame) = gdb_loop 0 [] g' \<and>
    readbyte g' 0x3ffe8001 = 9 \<and> readbyte g' 0x3ffe8002 = 0"
proof -
  let ?g = "gdbstub_initial (\<lambda>_. 0) zero_frame"
  have "\<exists>g'. gdb_loop 0 (framed (M_text 8 0x3ffe8000 1 [7, 9]) @ []) ?g = gdb_loop 0 [] g' \<and>
      sent g' = sent ?g @ asc CHR ''+'' # framed (map of_char ''OK'') \<and> savedRegs g' = savedRegs ?g \<and>
      (\<forall>q. readbyte g' q = (if unat (0x3ffe8000 :: u32) \<le> unat q \<and> unat q < unat (0x3ffe8000 :: u32) + length [7 :: u8, 9]
         then [7, 9] ! (unat q - unat (0x3ffe8000 :: u32)) else readbyte ?g q))"
    by (rule gdb_M_writes) (simp_all add: length_M_text PBUFLEN_def digits_fit_def validWrAddr_unat take_bit_eq_mask mask_eq_exp_minus_1)
  then obtain g' where g': "gdb_loop 0 (framed (M_text 8 0x3ffe8000 1 [7, 9])) ?g = gdb_loop 0 [] g'"
    and q: "\<And>q. readbyte g' q = (if unat (0x3ffe8000 :: u32) \<le> unat q \<and> unat q < unat (0x3ffe8000 :: u32) + length [7 :: u8, 9]
         then [7, 9] ! (unat q - unat (0x3ffe8000 :: u32)) else readbyte ?g q)" by auto
  have "readbyte ?g 0x3ffe8002 = 0" by (simp add: readbyte_def gdbstub_initial_def)
  then have "readbyte g' 0x3ffe8001 = 9" "readbyte g' 0x3ffe8002 = 0" using q [of "0x3ffe8001"] q [of "0x3ffe8002"] by simp_all
  with g' show ?thesis by blast
qed

text \<open>The command that reads memory is answered with the hex digits of the bytes at
  the address, and changes neither memory nor registers.\<close>

lemma gdb_m_reads:
  assumes "length (m_text na addr nl n) < PBUFLEN" and "digits_fit na addr" and "digits_fit nl (of_nat n)" and "n < 2 ^ 31"
  shows "\<exists>g'. gdb_loop junk (framed (m_text na addr nl n) @ rx) g = gdb_loop junk rx g' \<and>
    sent g' = sent g @ asc CHR ''+'' # framed (concat (map (\<lambda>k. hex2 (readbyte g (addr + of_nat k))) [0..<n])) \<and>
    memory g' = memory g \<and> savedRegs g' = savedRegs g"
proof (intro exI conjI)
  let ?t = "m_text na addr nl n"
  let ?s = "concat (map (\<lambda>k. hex2 (readbyte g (addr + of_nat k))) [0..<n])"
  have h: "holds (cmd (accepted ?t g)) 0 (?t @ [0])" by (simp add: holds_received)
  have "readbyte (accepted ?t g) = readbyte g" by (rule readbyte_cong) simp
  then have hm: "handle_memory (accepted ?t g) = gdbSendPacketStr ?s (accepted ?t g)" using handle_m [OF h assms(2,3,4)] by simp
  have "gdb_loop junk (framed ?t @ rx) g = gdb_loop junk rx (handle_memory (accepted ?t g))"
    by (rule memory_turn [OF assms(1)]) (use m_text_plain in \<open>auto simp: m_text_def\<close>)
  then show "gdb_loop junk (framed ?t @ rx) g = gdb_loop junk rx (gdbSendPacketStr ?s (accepted ?t g))" using hm by simp
  show "sent (gdbSendPacketStr ?s (accepted ?t g)) = sent g @ asc CHR ''+'' # framed ?s" by (simp add: send_packet_framed)
  show "memory (gdbSendPacketStr ?s (accepted ?t g)) = memory g" "savedRegs (gdbSendPacketStr ?s (accepted ?t g)) = savedRegs g"
    using only_sends_keeps(2,3) [OF only_sends_str [OF only_sends_refl [of "accepted ?t g"], where s = ?s]] by simp_all
qed

lemma gdb_m_reads_witness:
  "\<exists>g'. gdb_loop 0 (framed (m_text 8 0x3ffe8000 1 2)) (gdbstub_initial (\<lambda>_. 0x102) zero_frame) = gdb_loop 0 [] g' \<and>
    sent g' = asc CHR ''+'' # framed (map of_char ''0201'')"
  using gdb_m_reads [of 8 "0x3ffe8000" 1 2 0 "[]" "gdbstub_initial (\<lambda>_. 0x102) zero_frame"]
  by (auto simp: m_text_def PBUFLEN_def digits_fit_def readbyte_def gdbstub_initial_def take_bit_eq_mask mask_eq_exp_minus_1
      upt_rec hex2_def hexChars_def)

text \<open>C16: A write whose first address or end address is not writable is answered with an
  error and changes no memory.  A write inside the range 0x60000000 to 0x60001fff is acknowledged
  with OK and changes no memory either.\<close>

theorem gdb_M_refused:
  assumes "length (M_text na addr nl bs) < PBUFLEN" and "digits_fit na addr" and "digits_fit nl (of_nat (length bs))"
    and "\<not> (validWrAddr addr \<and> validWrAddr (addr + of_nat (length bs))) \<or> 0x60000000 \<le> unat addr"
  shows "\<exists>g'. gdb_loop junk (framed (M_text na addr nl bs) @ rx) g = gdb_loop junk rx g' \<and> memory g' = memory g \<and>
    savedRegs g' = savedRegs g \<and> sent g' = sent g @ asc CHR ''+'' #
      framed (if validWrAddr addr \<and> validWrAddr (addr + of_nat (length bs)) then map of_char ''OK'' else map of_char ''E01'')"
proof -
  let ?t = "M_text na addr nl bs"
  let ?v = "validWrAddr addr \<and> validWrAddr (addr + of_nat (length bs))"
  let ?w = "write_memory (cmd (accepted ?t g)) (length bs) addr (na + nl + 3) (accepted ?t g)"
  have len: "length bs < 2 ^ 31" using assms(1) by (simp add: length_M_text PBUFLEN_def)
  have h: "holds (cmd (accepted ?t g)) 0 (?t @ [0])" by (simp add: holds_received)
  have loop: "gdb_loop junk (framed ?t @ rx) g = gdb_loop junk rx (if ?v then gdbSendPacketOK ?w else gdbSendPacketE01 (accepted ?t g))"
    using memory_turn [OF assms(1), of junk rx g] M_text_plain handle_M(1) [OF h assms(2,3) len] by (auto simp: M_text_def)
  have w: "?w = accepted ?t g" if v: "?v"
  proof -
    have "memory ?w a = memory (accepted ?t g) a" for a
    proof (rule write_memory_outside)
      fix k assume k: "k < length bs" and "addr + of_nat k < 0x60000000"
      moreover have "unat (addr + of_nat k) = unat addr + k"
        using valid_range [OF conjunct1 [OF v] conjunct2 [OF v] len] k len by (simp add: unat_word_ariths unat_of_nat_u32)
      ultimately show "(addr + of_nat k) AND NOT 3 \<noteq> a" using v assms(4) by (simp add: word_less_nat_alt)
    qed
    then have "memory ?w = memory (accepted ?t g)" by blast
    then show ?thesis by (subst write_memory_keeps) simp
  qed
  show ?thesis
    by (intro exI [of _ "if ?v then gdbSendPacketOK ?w else gdbSendPacketE01 (accepted ?t g)"] conjI loop)
      (use w only_sends_keeps(2,3) [OF only_sends_ok [OF only_sends_refl, of "accepted ?t g"]]
        only_sends_keeps(2,3) [OF only_sends_e01 [OF only_sends_refl, of "accepted ?t g"]]
        in \<open>auto simp: sent_packet_ok sent_packet_e01\<close>)
qed

theorem gdb_M_refused_witness:
  "\<exists>g'. gdb_loop 0 (framed (M_text 8 0x40200000 1 [7])) (gdbstub_initial (\<lambda>_. 0) zero_frame) = gdb_loop 0 [] g' \<and>
    sent g' = asc CHR ''+'' # framed (map of_char ''E01'')"
  using gdb_M_refused [of 8 "0x40200000" 1 "[7]" 0 "[]" "gdbstub_initial (\<lambda>_. 0) zero_frame"]
  by (auto simp: length_M_text PBUFLEN_def digits_fit_def validWrAddr_unat gdbstub_initial_def take_bit_eq_mask mask_eq_exp_minus_1)

end
