(* ===== verification/Gdb_Safety.thy ===== *)
theory Gdb_Safety
  imports Gdb_Session
begin

text \<open>
  Properties of the debugger stub that hold for every input: an invariant kept by the
  parts of the command loop is kept by the loop and the handlers built on it, stated as
  an interface and used for the command buffer, the memory and the interrupt state.
  Then the register command that cannot arrive, and the exception handlers.
\<close>

section \<open>Invariants of the command loop\<close>

fun outcome_state :: "gdb_outcome \<Rightarrow> gdbstub" where
  "outcome_state (Waiting g) = g" | "outcome_state (Stopped _ g _) = g"

locale session_invariant =
  fixes inv :: "gdbstub \<Rightarrow> bool"
  assumes inv_receive: "inv g \<Longrightarrow> \<forall>i \<ge> PBUFLEN. b i = cmd g i \<Longrightarrow> inv (g\<lparr>cmd := b\<rparr>)"
    and inv_attach: "inv g \<Longrightarrow> inv (g\<lparr>gdb_attached := a\<rparr>)"
    and inv_send: "inv g \<Longrightarrow> only_sends g g' \<Longrightarrow> inv g'"
    and inv_handle: "inv g \<Longrightarrow> inv (snd (gdbHandleCommand junk g))"
begin

lemma turn_keeps:
  assumes "inv g"
  shows "case gdb_turn junk rx g of Inl r \<Rightarrow> inv (outcome_state r) | Inr (rx', g') \<Rightarrow> inv g'"
proof (rule gdb_turn_cases [of junk rx g])
  fix b rx' assume turn: "gdb_turn junk rx g =
      (case gdbHandleCommand junk (gdbSendChar (asc CHR ''+'') (g\<lparr>cmd := b, gdb_attached := True\<rparr>)) of
         (result, g1) \<Rightarrow> if result \<noteq> ST_OK then Inl (Stopped result g1 rx') else Inr (rx', g1))" and b: "\<forall>i \<ge> PBUFLEN. b i = cmd g i"
  have "inv (gdbSendChar (asc CHR ''+'') (g\<lparr>cmd := b, gdb_attached := True\<rparr>))"
    using inv_send [OF inv_attach [OF inv_receive [OF assms b]] only_sends_char [OF only_sends_refl]] by simp
  from inv_handle [OF this, of junk] show ?thesis by (auto simp: turn split: prod.splits)
qed (use assms in \<open>auto intro: inv_receive inv_send [OF _ only_sends_char [OF only_sends_refl]]\<close>)

lemma loop_keeps: "inv g \<Longrightarrow> inv (outcome_state (gdb_loop junk rx g))"
proof (induction junk rx g rule: gdb_loop.induct)
  case (1 junk rx g)
  show ?case using turn_keeps [OF "1.prems", of junk rx] "1.IH"
    by (subst gdb_loop.simps) (auto split: sum.splits)
qed

end

section \<open>What a command changes\<close>

inductive command_effect :: "gdbstub \<Rightarrow> gdbstub \<Rightarrow> bool" where
  Nothing: "command_effect g g"
| Memory: "validWrAddr i \<Longrightarrow> validWrAddr (i + j) \<Longrightarrow> command_effect g (write_memory (cmd g) (nat (sint j)) i data g)"
| Registers: "command_effect g (g\<lparr>savedRegs := r\<rparr>)"
| Step: "command_effect g (g\<lparr>singleStepPs := p, savedRegs := r, icountlevel := l, icount := c\<rparr>)"
| Breakpoint: "command_effect g (g\<lparr>ibreaka := a, ibreakenable := e\<rparr>)"
| Watchpoint: "command_effect g (g\<lparr>dbreaka := a, dbreakc := c\<rparr>)"

definition answers :: "gdbstub \<Rightarrow> gdbstub \<Rightarrow> bool" where
  "answers g g' \<longleftrightarrow> (\<exists>g1. command_effect g g1 \<and> only_sends g1 g')"

lemma answersI: "command_effect g g1 \<Longrightarrow> only_sends g1 g' \<Longrightarrow> answers g g'"
  unfolding answers_def by blast

lemma answers_sends: "only_sends g g' \<Longrightarrow> answers g g'"
  by (rule answersI [OF Nothing])

lemma answers_memory: "answers g (handle_memory g)"
proof -
  obtain i d1 where i: "gdbGetHexVal (cmd g) 1 (- 1) = (i, d1)" by force
  obtain j d2 where j: "gdbGetHexVal (cmd g) (d1 + 1) (- 1) = (j, d2)" by force
  consider (read) "cmd g 0 = asc CHR ''m''" | (store) "cmd g 0 \<noteq> asc CHR ''m''" "validWrAddr i \<and> validWrAddr (i + j)"
    | (refuse) "cmd g 0 \<noteq> asc CHR ''m''" "\<not> (validWrAddr i \<and> validWrAddr (i + j))" by blast
  then show ?thesis
  proof cases
    case read
    then have "handle_memory g = gdbPacketEnd (send_memory (nat (sint j)) i (gdbPacketStart g))"
      by (simp only: handle_memory_def Let_def i j prod.case if_True simp_thms)
    then show ?thesis by (simp only:) (intro answers_sends sends)
  next
    case store
    then have "handle_memory g = gdbSendPacketOK (write_memory (cmd g) (nat (sint j)) i (d2 + 1) g)"
      by (simp only: handle_memory_def Let_def i j prod.case if_True if_False simp_thms)
    with answersI [OF Memory only_sends_ok [OF only_sends_refl], of i j g "d2 + 1"] store show ?thesis by simp
  next
    case refuse
    then have "handle_memory g = gdbSendPacketE01 g"
      by (simp only: handle_memory_def Let_def i j prod.case if_True if_False simp_thms)
    then show ?thesis by (simp only:) (intro answers_sends sends)
  qed
qed

lemma answers_registers: "answers g (receive_registers g)"
  unfolding receive_registers_def Let_def by (auto split: prod.split intro!: answersI [OF Registers] sends)

lemma point_effect:
  "command_effect g (snd (gdbstub_set_hw_breakpoint a g))" "command_effect g (snd (gdbstub_del_hw_breakpoint a g))"
  "command_effect g (snd (gdbstub_set_hw_watchpoint a m t g))" "command_effect g (snd (gdbstub_del_hw_watchpoint a g))"
proof -
  show "command_effect g (snd (gdbstub_set_hw_breakpoint a g))"
    by (simp add: gdbstub_set_hw_breakpoint_def Nothing Breakpoint)
  show "command_effect g (snd (gdbstub_del_hw_breakpoint a g))"
    using Breakpoint [where g = g and a = "ibreaka g" and e = 0] by (simp add: gdbstub_del_hw_breakpoint_def Nothing)
  show "command_effect g (snd (gdbstub_set_hw_watchpoint a m t g))"
    by (simp add: gdbstub_set_hw_watchpoint_def Let_def Nothing Watchpoint)
  show "command_effect g (snd (gdbstub_del_hw_watchpoint a g))"
    using Watchpoint [where g = g and a = "dbreaka g" and c = 0] by (simp add: gdbstub_del_hw_watchpoint_def Nothing)
qed

lemma answers_result: "command_effect g (snd p) \<Longrightarrow> answers g (if fst p then gdbSendPacketOK (snd p) else gdbSendPacketE01 (snd p))"
  by (auto intro!: answersI sends)

lemma answers_point: "answers g (handle_point junk g)"
  unfolding handle_point_def Let_def case_prod_beta
  by (rule answers_result) (simp add: point_effect Nothing)

lemma answers_if: "answers g a \<Longrightarrow> answers g b \<Longrightarrow> answers g (if c then a else b)"
  by simp

lemma answers_step: "answers g (gdbstub_icount_ena_single_step (g\<lparr>singleStepPs := p, savedRegs := r\<rparr>))"
  using answersI [OF Step [where g = g and p = p and r = r and l = XCHAL_DEBUGLEVEL and c = "- 2"] only_sends_refl]
  by (simp add: gdbstub_icount_ena_single_step_def)

lemma answers_command: "answers g (snd (gdbHandleCommand junk g))"
  unfolding gdbHandleCommand_def Let_def if_distrib [of snd] snd_conv
  by (rule answers_if | rule answers_memory | rule answers_registers | rule answers_point | rule answers_step
    | (rule answers_sends, intro sends))+

lemma effect_keeps: "command_effect g g1 \<Longrightarrow> cmd g1 = cmd g \<and> uart_intr g1 = uart_intr g \<and> wdt_enabled g1 = wdt_enabled g"
  by (induction rule: command_effect.induct) simp_all

lemma command_keeps:
  "cmd (snd (gdbHandleCommand junk g)) = cmd g" "uart_intr (snd (gdbHandleCommand junk g)) = uart_intr g"
  "wdt_enabled (snd (gdbHandleCommand junk g)) = wdt_enabled g"
  using answers_command [of g junk] unfolding answers_def by (auto dest!: effect_keeps simp: only_sends_keeps)

text \<open>The memory commands can only change words from 0x3ff00000 up to 0x60000000.\<close>

definition writable_word :: "u32 \<Rightarrow> bool" where
  "writable_word w \<longleftrightarrow> 0x3ff00000 \<le> unat w \<and> unat w < 0x60000000"

lemma unat_word_start: "unat ((p :: u32) AND NOT 3) = unat p - unat p mod 4"
  using unat_and_not_mask [of p 2] by (simp add: mask_eq_exp_minus_1)

lemma write_window:
  assumes "validWrAddr i" and "validWrAddr (i + j)" and "\<not> writable_word w"
  shows "memory (write_memory b (nat (sint j)) i data g) w = memory g w"
proof (rule write_memory_outside)
  fix k assume k: "k < nat (sint j)" and hi: "i + of_nat k < 0x60000000"
  then have "k < 2 ^ 31" using sint_less [of j] by simp
  then have "unat (i + of_nat k) = unat i + k" using assms(1) by (auto simp: validWrAddr_unat unat_word_ariths unat_of_nat_u32)
  moreover have "0x3ff00000 \<le> unat i" using assms(1) by (auto simp: validWrAddr_unat)
  ultimately have "writable_word ((i + of_nat k) AND NOT 3)"
    using hi unfolding writable_word_def unat_word_start word_less_nat_alt by simp presburger
  with assms(3) show "(i + of_nat k) AND NOT 3 \<noteq> w" by blast
qed

lemma effect_window: "command_effect g g1 \<Longrightarrow> \<not> writable_word w \<Longrightarrow> memory g1 w = memory g w"
  by (induction rule: command_effect.induct) (simp_all add: write_window)

lemma command_window: "\<not> writable_word w \<Longrightarrow> memory (snd (gdbHandleCommand junk g)) w = memory g w"
  using answers_command [of g junk] unfolding answers_def by (auto dest: effect_window simp: only_sends_keeps)

interpretation paused: session_invariant
  "\<lambda>g. (\<forall>i \<ge> PBUFLEN. cmd g i = b0 i) \<and> \<not> uart_intr g \<and> \<not> wdt_enabled g" for b0
  by unfold_locales (auto simp: command_keeps only_sends_keeps)

interpretation window: session_invariant "\<lambda>g. \<forall>w. \<not> writable_word w \<longrightarrow> memory g w = m0 w" for m0
  by unfold_locales (auto simp: command_window only_sends_keeps)

lemma read_command_state:
  obtains g0 where "only_sends (g\<lparr>uart_intr := False, wdt_enabled := False\<rparr>) g0"
    "cmd (outcome_state (gdbReadCommand junk rx g)) = cmd (outcome_state (gdb_loop junk rx g0))"
    "memory (outcome_state (gdbReadCommand junk rx g)) = memory (outcome_state (gdb_loop junk rx g0))"
    "gdbReadCommand junk rx g = (case gdb_loop junk rx g0 of Waiting g1 \<Rightarrow> Waiting g1
       | Stopped result g1 rx1 \<Rightarrow> if result = Restarting then Stopped result g1 rx1 else
          Stopped result ((if result = ST_DETACH then g1\<lparr>gdb_attached := False\<rparr> else g1)\<lparr>wdt_enabled := True, uart_intr := True\<rparr>) rx1)"
proof
  let ?g0 = "sendReason (g\<lparr>uart_intr := False, wdt_enabled := False\<rparr>)"
  show "only_sends (g\<lparr>uart_intr := False, wdt_enabled := False\<rparr>) ?g0" by (intro sends)
  show eq: "gdbReadCommand junk rx g = (case gdb_loop junk rx ?g0 of Waiting g1 \<Rightarrow> Waiting g1
       | Stopped result g1 rx1 \<Rightarrow> if result = Restarting then Stopped result g1 rx1 else
          Stopped result ((if result = ST_DETACH then g1\<lparr>gdb_attached := False\<rparr> else g1)\<lparr>wdt_enabled := True, uart_intr := True\<rparr>) rx1)"
    by (simp add: gdbReadCommand_def split: gdb_outcome.split handler_result.split)
  show "cmd (outcome_state (gdbReadCommand junk rx g)) = cmd (outcome_state (gdb_loop junk rx ?g0))"
    "memory (outcome_state (gdbReadCommand junk rx g)) = memory (outcome_state (gdb_loop junk rx ?g0))"
    by (simp_all add: eq split: gdb_outcome.split)
qed



section \<open>Replies to commands\<close>

definition packs :: "gdbstub \<Rightarrow> gdbstub \<Rightarrow> bool" where
  "packs g h \<longleftrightarrow> (\<exists>s. h = fold gdbPacketChar s g)"

named_theorems packing

lemma packs_refl [packing]: "packs g g"
  unfolding packs_def by (rule exI [of _ "[]"]) simp

lemma packs_char [packing]: "packs g h \<Longrightarrow> packs g (gdbPacketChar c h)"
  unfolding packs_def by (metis fold.simps fold_append comp_apply id_apply)

lemma packs_fold: "(\<And>x h. packs g h \<Longrightarrow> packs g (f x h)) \<Longrightarrow> packs g h \<Longrightarrow> packs g (fold f xs h)"
  by (induction xs arbitrary: h) auto

lemma packs_hex [packing]: "packs g h \<Longrightarrow> packs g (gdbPacketHex v n h)"
proof -
  have "packs g h \<Longrightarrow> packs g (packet_hex m v h)" for m by (induction m arbitrary: h) (auto intro: packing)
  then show "packs g h \<Longrightarrow> packs g (gdbPacketHex v n h)" by (simp add: gdbPacketHex_def)
qed

lemma packs_swapped [packing]: "packs g h \<Longrightarrow> packs g (gdbPacketSwappedHexInt v h)"
  unfolding gdbPacketSwappedHexInt_def by (rule packing)

lemma packs_xs [packing]: "packs g h \<Longrightarrow> packs g (packet_xs n h)"
  unfolding packet_xs_def gdbPacketXXXXInt_def by (intro packs_fold packing)

definition replies :: "gdbstub \<Rightarrow> gdbstub \<Rightarrow> bool" where
  "replies g g' \<longleftrightarrow> (\<exists>s. sent g' = sent g @ framed s)"

lemma replies_packed: "packs (gdbPacketStart g) h \<Longrightarrow> replies g (gdbPacketEnd h)"
  unfolding replies_def packs_def using send_packet_framed gdbSendPacketStr_def by metis

lemma replies_str: "sent g1 = sent g \<Longrightarrow> replies g (gdbSendPacketStr s g1)"
  unfolding replies_def by (auto simp: send_packet_framed)

lemma replies_ok: "sent g1 = sent g \<Longrightarrow> replies g (gdbSendPacketOK g1)" "sent g1 = sent g \<Longrightarrow> replies g (gdbSendPacketE01 g1)"
  unfolding gdbSendPacketOK_def gdbSendPacketE01_def by (rule replies_str; assumption)+

lemma replies_registers: "replies g (send_registers g)"
  unfolding send_registers_def Let_def by (intro replies_packed packing packs_fold)

lemma replies_reason: "replies g (sendReason g)"
  unfolding sendReason_def Let_def by (intro replies_packed) (auto intro!: packing)

lemma replies_memory: "replies g (handle_memory g)"
proof -
  have "replies g (gdbPacketEnd (send_memory n i (gdbPacketStart g)))" for n i
    unfolding send_memory_framed by (rule replies_str) simp
  then show ?thesis unfolding handle_memory_def Let_def by (auto split: prod.split intro!: replies_ok)
qed

lemma replies_result: "sent (snd p) = sent g \<Longrightarrow> replies g (if fst p then gdbSendPacketOK (snd p) else gdbSendPacketE01 (snd p))"
  by (simp add: replies_ok)

lemma point_sent:
  "sent (snd (gdbstub_set_hw_breakpoint a g)) = sent g" "sent (snd (gdbstub_del_hw_breakpoint a g)) = sent g"
  "sent (snd (gdbstub_set_hw_watchpoint a m t g)) = sent g" "sent (snd (gdbstub_del_hw_watchpoint a g)) = sent g"
  by (simp_all add: gdbstub_set_hw_breakpoint_def gdbstub_del_hw_breakpoint_def gdbstub_set_hw_watchpoint_def
      gdbstub_del_hw_watchpoint_def Let_def)

lemma replies_point: "replies g (handle_point junk g)"
  unfolding handle_point_def Let_def case_prod_beta by (rule replies_result) (simp add: point_sent)

lemma replies_receive: "replies g (receive_registers g)"
  unfolding receive_registers_def Let_def by (auto split: prod.split intro!: replies_ok)

lemma replies_empty: "replies g (gdbSendEmptyPacket g)"
  unfolding gdbSendEmptyPacket_def by (rule replies_packed) (rule packing)

definition answered :: "gdbstub \<Rightarrow> handler_result \<times> gdbstub \<Rightarrow> bool" where
  "answered g r \<longleftrightarrow> (if fst r = ST_OK \<or> fst r = ST_DETACH then replies g (snd r) else sent (snd r) = sent g)"

lemma answered_if: "answered g a \<Longrightarrow> answered g b \<Longrightarrow> answered g (if c then a else b)"
  by simp

lemma command_answered: "answered g (gdbHandleCommand junk g)"
  unfolding gdbHandleCommand_def Let_def
  by (rule answered_if | simp add: answered_def replies_registers replies_receive replies_memory replies_reason
    replies_ok replies_point replies_empty replies_str gdbstub_icount_ena_single_step_def)+

text \<open>Every command is answered with exactly one well-formed packet, except those that resume
  or restart the program, which are answered with none.\<close>

lemma gdb_one_reply:
  "case gdbHandleCommand junk g of (result, g') \<Rightarrow>
     if result = ST_OK \<or> result = ST_DETACH then \<exists>s. sent g' = sent g @ framed s else sent g' = sent g"
  using command_answered [of g junk] by (auto simp: answered_def replies_def split: prod.split)

section \<open>Setting all registers\<close>

lemma packet_body_long:
  assumes "\<forall>c \<in> set s. \<not> needs_escape c" and "PBUFLEN \<le> p + length s" and "p < PBUFLEN"
  shows "\<exists>b'. packet_body (s @ rx) b p k = TooLong b' (drop (PBUFLEN - p) s @ rx)"
  using assms
proof (induction s arbitrary: b p k)
  case (Cons c s)
  have c: "c \<noteq> asc CHR ''#''" "c \<noteq> asc CHR ''$''" "c \<noteq> asc CHR ''}''" using not_escaped [of c] Cons.prems(1) by auto
  show ?case
  proof (cases "PBUFLEN \<le> p + 1")
    case True
    then have "PBUFLEN - p = 1" using Cons.prems(3) by simp
    with True c show ?thesis by (simp add: Let_def)
  next
    case False
    then have "drop (PBUFLEN - p) (c # s) = drop (PBUFLEN - (p + 1)) s" by (simp add: drop_Cons' )
    then show ?thesis using False c Cons.IH [of "p + 1" "b(p := c)" "k + c"] Cons.prems by (simp add: Let_def fun_upd_def)
  qed
qed simp

lemma turn_no_start: "(\<forall>c \<in> set rx. c \<noteq> asc CHR ''$'') \<Longrightarrow> gdb_loop junk rx g = Waiting g"
  by (subst gdb_loop.simps) (simp add: gdb_turn_def dropWhile_eq_Nil_conv [THEN iffD2])

text \<open>The text of the command that sets all 113 register slots.\<close>

definition G_text :: "u32 list \<Rightarrow> u8 list" where
  "G_text rs = asc CHR ''G'' # concat (map (hex_digits 8) rs)"

lemma length_G_text: "length (G_text rs) = 1 + 8 * length rs"
  by (induction rs) (simp_all add: G_text_def)

lemma G_text_plain: "c \<in> set (G_text rs) \<Longrightarrow> \<not> needs_escape c"
  by (auto simp: G_text_def dest: hex_digits_plain) (simp add: needs_escape_def)

text \<open>The command that sets all 113 register slots never takes effect: it is longer than the
  command buffer, so the stub drops it without an acknowledgement and leaves every register as it is.\<close>

lemma gdb_G_lost:
  assumes "length rs = 113"
  shows "\<exists>b. gdb_loop junk (framed (G_text rs)) g = Waiting (g\<lparr>cmd := b\<rparr>)"
proof -
  let ?s = "G_text rs"
  let ?k = "hex2 (sum_list (escaped ?s))"
  have plain: "\<forall>c \<in> set ?s. \<not> needs_escape c" using G_text_plain by blast
  then have framed: "framed ?s = asc CHR ''$'' # ?s @ asc CHR ''#'' # ?k" by (simp add: framed_def escaped_plain)
  obtain b where "packet_body (?s @ asc CHR ''#'' # ?k) (cmd g) 0 0 = TooLong b (drop PBUFLEN ?s @ asc CHR ''#'' # ?k)"
    using packet_body_long [OF plain, of 0 "asc CHR ''#'' # ?k" "cmd g" 0] assms by (auto simp: length_G_text PBUFLEN_def)
  then have "gdb_turn junk (framed ?s) g = Inr (drop PBUFLEN ?s @ asc CHR ''#'' # ?k, g\<lparr>cmd := b\<rparr>)"
    by (simp add: gdb_turn_def framed)
  then have "gdb_loop junk (framed ?s) g = gdb_loop junk (drop PBUFLEN ?s @ asc CHR ''#'' # ?k) (g\<lparr>cmd := b\<rparr>)" by (rule loop_turn)
  also have "\<dots> = Waiting (g\<lparr>cmd := b\<rparr>)"
  proof (rule turn_no_start, intro ballI)
    fix c assume "c \<in> set (drop PBUFLEN ?s @ asc CHR ''#'' # ?k)"
    then have "c = asc CHR ''#'' \<or> \<not> needs_escape c" using plain hex2_plain by (auto dest: in_set_dropD)
    then show "c \<noteq> asc CHR ''$''" by (auto simp: needs_escape_def)
  qed
  finally show ?thesis by blast
qed

lemma gdb_G_lost_witness:
  "\<exists>b. gdb_loop 0 (framed (G_text (replicate 113 0))) (gdbstub_initial (\<lambda>_. 0) zero_frame) =
     Waiting ((gdbstub_initial (\<lambda>_. 0) zero_frame)\<lparr>cmd := b\<rparr>)"
  by (rule gdb_G_lost) simp

section \<open>Exception frames\<close>

lemma store_same: "(\<And>i v. (i, v) \<in> set xs \<Longrightarrow> v = m (f i)) \<Longrightarrow> fold (\<lambda>(i, v) m. m(f i := v)) xs m = m"
proof (induction xs)
  case (Cons x xs)
  obtain i v where x: "x = (i, v)" by force
  then have "m(f i := v) = m" using Cons.prems [of i v] by simp
  then show ?case using Cons.IH Cons.prems by (simp add: x del: fun_upd_apply)
qed simp

lemma store_loaded: "savedRegs h = savedRegs (load_frame frame g) \<Longrightarrow> memory h = memory g \<Longrightarrow> store_frame frame h = h"
proof -
  assume h: "savedRegs h = savedRegs (load_frame frame g)" "memory h = memory g"
  have "fold (\<lambda>(i, v) m. m(frame_word frame i := v)) (enumerate 0 (frame_regs (savedRegs h))) (memory h) = memory h"
    by (rule store_same) (auto simp: h frame_regs_def load_frame_def Let_def enumerate_eq_zip nth_append in_set_zip less_Suc_eq numeral_nat upt_rec)
  then show ?thesis by (simp add: store_frame_def)
qed

lemma continue_turn:
  "gdb_loop junk (framed [asc CHR ''c''] @ rx) g = Stopped ST_CONT (accepted [asc CHR ''c''] g) rx"
proof -
  have "gdbHandleCommand junk (accepted [asc CHR ''c''] g) = (ST_CONT, accepted [asc CHR ''c''] g)"
    by (simp add: gdbHandleCommand_def received_def buf_put_def)
  then have "gdb_turn junk (framed [asc CHR ''c''] @ rx) g = Inl (Stopped ST_CONT (accepted [asc CHR ''c''] g) rx)"
    by (simp add: framed_turn PBUFLEN_def needs_escape_def accepted_def)
  then show ?thesis by (subst gdb_loop.simps) simp
qed

lemma load_frame_sel [simp]: "memory (load_frame frame g) = memory g"
  by (simp add: load_frame_def Let_def)

text \<open>When the debugger answers an exception with a continue command, the program resumes
  with all of memory as it was, the exception frame with the registers in it included, and with the
  interrupt and the watchdog on.\<close>

lemma gdb_exception_continue:
  "\<exists>g'. gdbstub_exception_handler s junk frame (framed [asc CHR ''c''] @ rx) g = Resumed g' rx \<and>
     memory g' = memory g \<and> uart_intr g' \<and> wdt_enabled g' \<and> gdb_attached g'"
proof -
  let ?g1 = "load_frame frame (set_reason (\<lambda>r. r OR 0x80) (gdbstub_save_extra_sfrs_for_exception s g))"
  let ?g2 = "sendReason (?g1\<lparr>uart_intr := False, wdt_enabled := False\<rparr>)"
  let ?g3 = "(accepted [asc CHR ''c''] ?g2)\<lparr>wdt_enabled := True, uart_intr := True\<rparr>"
  have keep: "only_sends (?g1\<lparr>uart_intr := False, wdt_enabled := False\<rparr>) ?g2" by (intro sends)
  have g3: "memory ?g3 = memory g" "savedRegs ?g3 = savedRegs ?g1"
    using only_sends_keeps(2,3) [OF keep] by (simp_all add: set_reason_def gdbstub_save_extra_sfrs_for_exception_def)
  have "gdbReadCommand junk (framed [asc CHR ''c''] @ rx) ?g1 = Stopped ST_CONT ?g3 rx"
    unfolding gdbReadCommand_def continue_turn by simp
  moreover have "store_frame frame ?g3 = ?g3"
    by (rule store_loaded [OF g3(2)]) (simp only: g3(1), simp add: set_reason_def gdbstub_save_extra_sfrs_for_exception_def)
  ultimately have "gdbstub_exception_handler s junk frame (framed [asc CHR ''c''] @ rx) g = Resumed ?g3 rx"
    unfolding gdbstub_exception_handler_def gdbstub_exception_handler_flash_def
    by (subst exception_loop.simps) (simp add: gdbReadCommandWithFrame_def)
  with g3(1) show ?thesis by (auto simp: accepted_def gdbSendChar_def)
qed

section \<open>Emulated loads and stores\<close>

lemma less_16_word: "(t :: u8) < 16 \<Longrightarrow> (\<And>d. d < 16 \<Longrightarrow> P (of_nat d)) \<Longrightarrow> P t"
proof -
  assume t: "t < 16" and P: "\<And>d. d < 16 \<Longrightarrow> P (of_nat d)"
  from t have "unat t < 16" by (simp add: word_less_nat_alt)
  from P [OF this] show "P t" by simp
qed

lemma load_opcode:
  assumes "t < (16 :: u8)"
  shows "(push_bit 4 t OR 2) AND 0xf = 2" "drop_bit 4 (push_bit 4 t OR 2) = t"
    "(0x20 OR t) AND 0xb0 = 0x20" "(0x20 OR t) AND 0xf0 = 0x20" "(0x20 OR t) AND 0xf = t"
proof -
  have "(push_bit 4 t OR 2) AND 0xf = 2 \<and> drop_bit 4 (push_bit 4 t OR 2) = t \<and> (0x20 OR t) AND 0xb0 = 0x20 \<and>
      (0x20 OR t) AND 0xf0 = 0x20 \<and> (0x20 OR t) AND 0xf = t"
  proof (rule less_16_word [OF assms])
    have "\<forall>d < 16. let t = of_nat d :: u8 in (push_bit 4 t OR 2) AND 0xf = 2 \<and> drop_bit 4 (push_bit 4 t OR 2) = t \<and>
        (0x20 OR t) AND 0xb0 = 0x20 \<and> (0x20 OR t) AND 0xf0 = 0x20 \<and> (0x20 OR t) AND 0xf = t"
      unfolding less_16 by (simp add: Let_def)
    then show "(push_bit 4 (of_nat d) OR 2) AND 0xf = (2 :: u8) \<and> drop_bit 4 (push_bit 4 (of_nat d) OR 2) = (of_nat d :: u8) \<and>
        (0x20 OR of_nat d) AND 0xb0 = (0x20 :: u8) \<and> (0x20 OR of_nat d) AND 0xf0 = (0x20 :: u8) \<and>
        (0x20 OR of_nat d) AND 0xf = (of_nat d :: u8)" if "d < 16" for d using that by (simp only: Let_def)
  qed
  then show "(push_bit 4 t OR 2) AND 0xf = 2" "drop_bit 4 (push_bit 4 t OR 2) = t"
    "(0x20 OR t) AND 0xb0 = 0x20" "(0x20 OR t) AND 0xf0 = 0x20" "(0x20 OR t) AND 0xf = t" by simp_all
qed

lemma aligned_add_16: "(b :: u32) AND 3 = 0 \<Longrightarrow> (b + 16 * i) AND 3 = 0"
proof -
  have m: "w AND 3 = 0 \<longleftrightarrow> 4 dvd unat w" for w :: u32
  proof -
    have "w AND 3 = take_bit 2 w" by (simp add: take_bit_eq_mask mask_eq_exp_minus_1)
    then show ?thesis using unat_take_bit [of 2 w] by (simp add: unat_eq_zero [symmetric] dvd_eq_mod_eq_0)
  qed
  have "4 dvd unat (16 * i)" by (simp add: unat_word_ariths dvd_mod)
  then show "b AND 3 = 0 \<Longrightarrow> (b + 16 * i) AND 3 = 0" unfolding m unat_word_ariths(1)
    by (intro dvd_mod dvd_add) simp_all
qed

text \<open>After a watchpoint the stub emulates the load \<open>l32i at, as, imm\<close> it stopped at: it
  reads the word at the address in \<open>as\<close> plus sixteen times the immediate, four times the offset the
  instruction has, and moves the program counter behind the instruction.\<close>

lemma gdb_emulated_load:
  assumes "readbyte g (r_pc (savedRegs g)) = push_bit 4 t OR 2" and "readbyte g (r_pc (savedRegs g) + 1) = 0x20 OR as"
    and "readbyte g (r_pc (savedRegs g) + 2) = imm" and "t < 16" and "as < 16"
    and "r_a (savedRegs g) (unat as) AND 3 = 0"
  shows "emulLdSt g = Some (advance_pc 3 (setaregval t (memory g (r_a (savedRegs g) (unat as) + 16 * ucast imm)) g))"
proof -
  have p: "int_ptr_add (getaregval as g) (ucast imm * 4) = r_a (savedRegs g) (unat as) + 16 * ucast imm"
    by (simp add: int_ptr_add_def getaregval_def)
  show ?thesis
    by (simp only: emulLdSt_def Let_def assms(1-3) load_opcode [OF assms(4)] load_opcode [OF assms(5)] p load_word_def
        aligned_add_16 [OF assms(6)] if_True if_False simp_thms option.map)
qed

lemma gdb_emulated_load_witness:
  "let g = gdbstub_initial (\<lambda>w. if w = 0x40100000 then 0x012232 else if w = 0x3ffe8010 then 7 else 0)
      (zero_frame\<lparr>r_pc := 0x40100000, r_a := (\<lambda>i. if i = 2 then 0x3ffe8000 else 0)\<rparr>)
   in map_option (\<lambda>g'. r_a (savedRegs g') 3) (emulLdSt g) = Some 7"
  using gdb_emulated_load [of "gdbstub_initial (\<lambda>w. if w = 0x40100000 then 0x012232 else if w = 0x3ffe8010 then 7 else 0)
      (zero_frame\<lparr>r_pc := 0x40100000, r_a := (\<lambda>i. if i = 2 then 0x3ffe8000 else 0)\<rparr>)" 3 2 1]
  by (simp add: gdbstub_initial_def zero_frame_def readbyte_def advance_pc_def setaregval_def Let_def)

end
