(* ===== verification/Cbuf.thy ===== *)
theory Cbuf
  imports Prelude
begin

text \<open>
  The circular byte buffer of \<open>cores/esp8266/cbuf.cpp\<close> and \<open>cbuf.h\<close>.  Pointers into the array are
  offsets from its start, \<open>_bufend\<close> is the size; \<open>char\<close> is unsigned on this machine.  One place always stays free, so a buffer of size \<open>n\<close>
  holds \<open>n - 1\<close> bytes.  The buffer refines a bounded queue: the interface \<open>byte_queue\<close> states what a
  client of the queue relies on.
\<close>

section \<open>The buffer\<close>

record cbuf =
  cb_size :: nat
  cb_buf :: "u8 list"
  cb_begin :: nat
  cb_end :: nat

text \<open>A new array holds indeterminate bytes, given as \<open>junk\<close>.\<close>

definition cbuf_new :: "(nat \<Rightarrow> u8) \<Rightarrow> nat \<Rightarrow> cbuf" where
  "cbuf_new junk sz = \<lparr>cb_size = sz, cb_buf = map junk [0..<sz], cb_begin = 0, cb_end = 0\<rparr>"

definition wrap_if_bufend :: "cbuf \<Rightarrow> nat \<Rightarrow> nat" where
  "wrap_if_bufend c p = (if p = cb_size c then 0 else p)"

definition cbuf_empty :: "cbuf \<Rightarrow> bool" where
  "cbuf_empty c \<longleftrightarrow> cb_begin c = cb_end c"

definition cbuf_full :: "cbuf \<Rightarrow> bool" where
  "cbuf_full c \<longleftrightarrow> wrap_if_bufend c (cb_end c + 1) = cb_begin c"

definition available :: "cbuf \<Rightarrow> nat" where
  "available c = (if cb_begin c \<le> cb_end c then cb_end c - cb_begin c else cb_size c - (cb_begin c - cb_end c))"

text \<open>The free room; an array of size 0 makes it wrap around.\<close>

definition room :: "cbuf \<Rightarrow> nat" where
  "room c = (if cb_begin c \<le> cb_end c then (cb_size c - (cb_end c - cb_begin c) + 2 ^ 32 - 1) mod 2 ^ 32
     else cb_begin c - cb_end c - 1)"

definition memcpy_to :: "nat \<Rightarrow> u8 list \<Rightarrow> u8 list \<Rightarrow> u8 list" where
  "memcpy_to p d b = take p b @ d @ drop (p + length d) b"

definition memcpy_from :: "nat \<Rightarrow> nat \<Rightarrow> u8 list \<Rightarrow> u8 list" where
  "memcpy_from p n b = take n (drop p b)"

section \<open>Reading\<close>

definition peek :: "cbuf \<Rightarrow> int" where
  "peek c = (if cbuf_empty c then - 1 else int (unat (cb_buf c ! cb_begin c)))"

definition peek_block :: "nat \<Rightarrow> cbuf \<Rightarrow> u8 list" where
  "peek_block sz c =
     (let n = (if sz < available c then sz else available c); top_size = cb_size c - cb_begin c in
      if cb_end c < cb_begin c \<and> top_size < n
      then memcpy_from (cb_begin c) top_size (cb_buf c) @ memcpy_from 0 (n - top_size) (cb_buf c)
      else memcpy_from (cb_begin c) n (cb_buf c))"

definition read :: "cbuf \<Rightarrow> int \<times> cbuf" where
  "read c = (if cbuf_empty c then (- 1, c)
     else (int (unat (cb_buf c ! cb_begin c)), c\<lparr>cb_begin := wrap_if_bufend c (cb_begin c + 1)\<rparr>))"

definition read_block :: "nat \<Rightarrow> cbuf \<Rightarrow> u8 list \<times> cbuf" where
  "read_block sz c =
     (let n = (if sz < available c then sz else available c); top_size = cb_size c - cb_begin c in
      if cb_end c < cb_begin c \<and> top_size < n
      then (memcpy_from (cb_begin c) top_size (cb_buf c) @ memcpy_from 0 (n - top_size) (cb_buf c),
            c\<lparr>cb_begin := wrap_if_bufend c (n - top_size)\<rparr>)
      else (memcpy_from (cb_begin c) n (cb_buf c), c\<lparr>cb_begin := wrap_if_bufend c (cb_begin c + n)\<rparr>))"

section \<open>Writing\<close>

definition write_char :: "u8 \<Rightarrow> cbuf \<Rightarrow> nat \<times> cbuf" where
  "write_char d c = (if cbuf_full c then (0, c)
     else (1, c\<lparr>cb_buf := (cb_buf c)[cb_end c := d], cb_end := wrap_if_bufend c (cb_end c + 1)\<rparr>))"

definition write_block :: "u8 list \<Rightarrow> cbuf \<Rightarrow> nat \<times> cbuf" where
  "write_block src c =
     (let n = (if length src < room c then length src else room c); top_size = cb_size c - cb_end c in
      if cb_begin c \<le> cb_end c \<and> top_size < n
      then (n, c\<lparr>cb_buf := memcpy_to 0 (take (n - top_size) (drop top_size src)) (memcpy_to (cb_end c) (take top_size src) (cb_buf c)),
                 cb_end := wrap_if_bufend c (n - top_size)\<rparr>)
      else (n, c\<lparr>cb_buf := memcpy_to (cb_end c) (take n src) (cb_buf c), cb_end := wrap_if_bufend c (cb_end c + n)\<rparr>))"

section \<open>Dropping and resizing\<close>

definition flush :: "cbuf \<Rightarrow> cbuf" where
  "flush c = c\<lparr>cb_begin := 0, cb_end := 0\<rparr>"

definition cbuf_remove :: "nat \<Rightarrow> cbuf \<Rightarrow> nat \<times> cbuf" where
  "cbuf_remove sz c =
     (if available c \<le> sz then (0, flush c)
      else let top_size = cb_size c - cb_begin c;
        c1 = (if cb_end c < cb_begin c \<and> top_size < sz
              then c\<lparr>cb_begin := wrap_if_bufend c (sz - top_size)\<rparr>
              else c\<lparr>cb_begin := wrap_if_bufend c (cb_begin c + sz)\<rparr>)
      in (available c1, c1))"

text \<open>\<open>ok\<close> is whether the allocation of the new array succeeds.\<close>

definition resize :: "bool \<Rightarrow> nat \<Rightarrow> cbuf \<Rightarrow> nat \<times> cbuf" where
  "resize ok newSize c =
     (if newSize \<le> available c \<or> newSize = cb_size c then (cb_size c, c)
      else if \<not> ok then (cb_size c, c)
      else let n = available c; d = fst (read_block n c) in
        (newSize, \<lparr>cb_size = newSize, cb_buf = d @ replicate (newSize - n) 0, cb_begin = 0, cb_end = n\<rparr>))"

definition resizeAdd :: "bool \<Rightarrow> nat \<Rightarrow> cbuf \<Rightarrow> nat \<times> cbuf" where
  "resizeAdd ok addSize c = resize ok ((cb_size c + addSize) mod 2 ^ 32) c"

section \<open>The queue it stands for\<close>

definition cbuf_inv :: "cbuf \<Rightarrow> bool" where
  "cbuf_inv c \<longleftrightarrow> length (cb_buf c) = cb_size c \<and> cb_begin c < cb_size c \<and> cb_end c < cb_size c \<and> cb_size c < 2 ^ 32"

definition items :: "cbuf \<Rightarrow> u8 list" where
  "items c = (if cb_begin c \<le> cb_end c then take (cb_end c - cb_begin c) (drop (cb_begin c) (cb_buf c))
     else drop (cb_begin c) (cb_buf c) @ take (cb_end c) (cb_buf c))"

lemma new_inv: "0 < n \<Longrightarrow> n < 2 ^ 32 \<Longrightarrow> cbuf_inv (cbuf_new junk n) \<and> items (cbuf_new junk n) = []"
  by (simp add: cbuf_inv_def cbuf_new_def items_def)

lemma available_items: "cbuf_inv c \<Longrightarrow> available c = length (items c)"
  by (auto simp: cbuf_inv_def available_def items_def)

lemma room_items: "cbuf_inv c \<Longrightarrow> room c = cb_size c - 1 - length (items c)"
proof -
  assume i: "cbuf_inv c"
  have wrap: "(n + 2 ^ 32 - 1) mod 2 ^ 32 = n - 1" if "0 < n" "n \<le> 2 ^ 32" for n :: nat
  proof -
    have "n + 2 ^ 32 - 1 = (n - 1) + 2 ^ 32" using that by simp
    then show ?thesis using that by (simp only: mod_add_self2) simp
  qed
  show ?thesis
  proof (cases "cb_begin c \<le> cb_end c")
    case True
    have "room c = (cb_size c - (cb_end c - cb_begin c) + 2 ^ 32 - 1) mod 2 ^ 32" by (simp only: room_def True if_True)
    also have "\<dots> = cb_size c - (cb_end c - cb_begin c) - 1" by (rule wrap) (use i in \<open>auto simp: cbuf_inv_def\<close>)
    finally show ?thesis using available_items [OF i] True by (simp add: available_def)
  next
    case False
    have "room c = cb_begin c - cb_end c - 1" "length (items c) = cb_size c - (cb_begin c - cb_end c)" "cb_begin c < cb_size c"
      using False i available_items [OF i] by (simp_all add: room_def available_def cbuf_inv_def)
    with False show ?thesis by arith
  qed
qed

lemma items_bound: "cbuf_inv c \<Longrightarrow> length (items c) < cb_size c"
  by (auto simp: cbuf_inv_def items_def)

text \<open>Reading at most the available bytes, in one or two pieces.\<close>

lemma read_pieces:
  assumes "cbuf_inv c" and "n \<le> length (items c)"
  shows "(if cb_end c < cb_begin c \<and> cb_size c - cb_begin c < n
      then memcpy_from (cb_begin c) (cb_size c - cb_begin c) (cb_buf c) @ memcpy_from 0 (n - (cb_size c - cb_begin c)) (cb_buf c)
      else memcpy_from (cb_begin c) n (cb_buf c)) = take n (items c)"
proof (cases "cb_begin c \<le> cb_end c")
  case True
  then show ?thesis using assms available_items [OF assms(1)] by (simp add: items_def memcpy_from_def available_def min_def)
next
  case False
  have "n - (cb_size c - cb_begin c) \<le> cb_end c" using assms False by (auto simp: items_def cbuf_inv_def)
  then show ?thesis using assms(1) False
    by (cases "cb_size c - cb_begin c < n") (simp_all add: items_def memcpy_from_def cbuf_inv_def min_absorb1)
qed

text \<open>Moving the start past some of the available bytes drops them.\<close>

lemma drop_items:
  assumes "cbuf_inv c" and "n \<le> length (items c)"
  defines "c' \<equiv> (if cb_end c < cb_begin c \<and> cb_size c - cb_begin c < n
      then c\<lparr>cb_begin := wrap_if_bufend c (n - (cb_size c - cb_begin c))\<rparr>
      else c\<lparr>cb_begin := wrap_if_bufend c (cb_begin c + n)\<rparr>)"
  shows "cbuf_inv c' \<and> items c' = drop n (items c)"
proof -
  have i: "length (cb_buf c) = cb_size c" "cb_begin c < cb_size c" "cb_end c < cb_size c" using assms(1) by (simp_all add: cbuf_inv_def)
  consider (straight) "cb_begin c \<le> cb_end c" | (front) "cb_end c < cb_begin c" "cb_size c - cb_begin c < n"
    | (fit) "cb_end c < cb_begin c" "cb_begin c + n < cb_size c" | (edge) "cb_end c < cb_begin c" "cb_begin c + n = cb_size c"
    using i(2) by linarith
  then show ?thesis
  proof cases
    case straight
    then have n: "cb_begin c + n \<le> cb_end c" using assms(2) i by (simp add: items_def)
    then have "c' = c\<lparr>cb_begin := cb_begin c + n\<rparr>" using straight i(3) by (simp add: c'_def wrap_if_bufend_def)
    then show ?thesis using straight n assms(1) by (simp add: cbuf_inv_def items_def drop_take add.commute)
  next
    case front
    then have n: "n - (cb_size c - cb_begin c) \<le> cb_end c" using assms(2) i by (simp add: items_def)
    then have "c' = c\<lparr>cb_begin := n - (cb_size c - cb_begin c)\<rparr>" using front i by (simp add: c'_def wrap_if_bufend_def)
    then show ?thesis using front n assms(1) by (simp add: cbuf_inv_def items_def drop_take)
  next
    case fit
    then have "c' = c\<lparr>cb_begin := cb_begin c + n\<rparr>" by (simp add: c'_def wrap_if_bufend_def)
    then show ?thesis using fit assms(1) by (simp add: cbuf_inv_def items_def add.commute)
  next
    case edge
    then have "c' = c\<lparr>cb_begin := 0\<rparr>" by (auto simp: c'_def wrap_if_bufend_def)
    then show ?thesis using edge assms(1) by (simp add: cbuf_inv_def items_def)
  qed
qed

lemma peek_block_spec: "cbuf_inv c \<Longrightarrow> peek_block n c = take n (items c)"
proof -
  assume i: "cbuf_inv c"
  define m where "m = (if n < length (items c) then n else length (items c))"
  have "peek_block n c = (if cb_end c < cb_begin c \<and> cb_size c - cb_begin c < m
      then memcpy_from (cb_begin c) (cb_size c - cb_begin c) (cb_buf c) @ memcpy_from 0 (m - (cb_size c - cb_begin c)) (cb_buf c)
      else memcpy_from (cb_begin c) m (cb_buf c))"
    unfolding peek_block_def available_items [OF i] m_def Let_def by (rule refl)
  also have "\<dots> = take m (items c)" by (rule read_pieces [OF i]) (simp add: m_def)
  finally show ?thesis by (simp add: m_def)
qed

lemma read_block_spec:
  assumes "cbuf_inv c"
  shows "fst (read_block n c) = take n (items c)" "cbuf_inv (snd (read_block n c))" "items (snd (read_block n c)) = drop n (items c)"
proof -
  define m where "m = (if n < length (items c) then n else length (items c))"
  have m: "m \<le> length (items c)" "take m (items c) = take n (items c)" "drop m (items c) = drop n (items c)" by (simp_all add: m_def)
  have f: "fst (read_block n c) = peek_block n c" by (simp add: read_block_def peek_block_def Let_def)
  have s: "snd (read_block n c) = (if cb_end c < cb_begin c \<and> cb_size c - cb_begin c < m
      then c\<lparr>cb_begin := wrap_if_bufend c (m - (cb_size c - cb_begin c))\<rparr>
      else c\<lparr>cb_begin := wrap_if_bufend c (cb_begin c + m)\<rparr>)"
    unfolding read_block_def available_items [OF assms] m_def Let_def if_distrib [of snd] snd_conv by (rule refl)
  show "fst (read_block n c) = take n (items c)" using f peek_block_spec [OF assms] by simp
  show "cbuf_inv (snd (read_block n c))" "items (snd (read_block n c)) = drop n (items c)"
    using drop_items [OF assms m(1)] unfolding s m(3) by blast+
qed

lemma read_spec:
  assumes "cbuf_inv c"
  shows "read c = (case items c of [] \<Rightarrow> (- 1, c) | d # _ \<Rightarrow> (int (unat d), snd (read c)))"
    and "cbuf_inv (snd (read c))" and "items (snd (read c)) = tl (items c)"
proof -
  have i: "length (cb_buf c) = cb_size c" "cb_begin c < cb_size c" "cb_end c < cb_size c" using assms by (simp_all add: cbuf_inv_def)
  have e: "cbuf_empty c \<longleftrightarrow> items c = []" using i by (auto simp: cbuf_empty_def items_def)
  have h: "items c \<noteq> [] \<Longrightarrow> hd (items c) = cb_buf c ! cb_begin c" using i by (auto simp: items_def hd_drop_conv_nth hd_append)
  have r: "\<not> cbuf_empty c \<Longrightarrow> read c = (int (unat (hd (items c))), c\<lparr>cb_begin := wrap_if_bufend c (cb_begin c + 1)\<rparr>)"
    using e h by (simp add: read_def)
  show "read c = (case items c of [] \<Rightarrow> (- 1, c) | d # _ \<Rightarrow> (int (unat d), snd (read c)))"
    using r e by (cases "items c") (auto simp: read_def)
  show "cbuf_inv (snd (read c))" "items (snd (read c)) = tl (items c)"
  proof -
    have d: "cbuf_inv (c\<lparr>cb_begin := wrap_if_bufend c (cb_begin c + 1)\<rparr>) \<and> items (c\<lparr>cb_begin := wrap_if_bufend c (cb_begin c + 1)\<rparr>) = tl (items c)"
      if "items c \<noteq> []" using drop_items [OF assms, of 1] that i by (cases "items c") (auto split: if_splits)
    show "cbuf_inv (snd (read c))" "items (snd (read c)) = tl (items c)"
      using d r e assms by (cases "cbuf_empty c"; simp add: read_def)+
  qed
qed

lemma write_block_spec:
  fixes src :: "u8 list"
  assumes "cbuf_inv c"
  defines "n \<equiv> min (length src) (cb_size c - 1 - length (items c))"
  shows "fst (write_block src c) = n" "cbuf_inv (snd (write_block src c))" "items (snd (write_block src c)) = items c @ take n src"
    "cb_size (snd (write_block src c)) = cb_size c"
proof -
  have i: "length (cb_buf c) = cb_size c" "cb_begin c < cb_size c" "cb_end c < cb_size c" using assms(1) by (simp_all add: cbuf_inv_def)
  define top where "top = cb_size c - cb_end c"
  have n: "(if length src < room c then length src else room c) = n" by (simp add: n_def room_items [OF assms(1)])
  have w: "write_block src c = (if cb_begin c \<le> cb_end c \<and> top < n
      then (n, c\<lparr>cb_buf := memcpy_to 0 (take (n - top) (drop top src)) (memcpy_to (cb_end c) (take top src) (cb_buf c)),
                 cb_end := wrap_if_bufend c (n - top)\<rparr>)
      else (n, c\<lparr>cb_buf := memcpy_to (cb_end c) (take n src) (cb_buf c), cb_end := wrap_if_bufend c (cb_end c + n)\<rparr>))"
    unfolding write_block_def n top_def Let_def by (rule refl)
  then show "fst (write_block src c) = n" "cb_size (snd (write_block src c)) = cb_size c" by simp_all
  have ns: "n \<le> length src" by (simp add: n_def)
  have len: "length (items c) = (if cb_begin c \<le> cb_end c then cb_end c - cb_begin c else cb_size c - (cb_begin c - cb_end c))"
    using available_items [OF assms(1)] by (simp add: available_def)
  have nr: "length (items c) + n < cb_size c" using items_bound [OF assms(1)] by (simp add: n_def)
  have "cbuf_inv (snd (write_block src c)) \<and> items (snd (write_block src c)) = items c @ take n src"
  proof -
    consider (split) "cb_begin c \<le> cb_end c" "top < n" | (fit) "cb_begin c \<le> cb_end c" "cb_end c + n < cb_size c"
      | (edge) "cb_begin c \<le> cb_end c" "cb_end c + n = cb_size c" | (behind) "cb_end c < cb_begin c"
      using i(3) by (auto simp: top_def) linarith
    then show ?thesis
    proof cases
      case split
      define k where "k = n - top"
      have k: "k < cb_begin c" "top + k = n" using split nr len i(3) by (auto simp: k_def top_def)
      have tl: "length (take top src) = top" using split ns by simp
      have b1: "memcpy_to (cb_end c) (take top src) (cb_buf c) = take (cb_end c) (cb_buf c) @ take top src"
        using i tl by (simp add: memcpy_to_def top_def)
      have dl: "length (take k (drop top src)) = k" using k ns by simp
      have mk: "min (length src - top) k = k" using k ns by simp
      have w': "snd (write_block src c) = c\<lparr>cb_buf := take k (drop top src) @ drop k (take (cb_end c) (cb_buf c) @ take top src), cb_end := k\<rparr>"
        using split k i(2) unfolding w b1 k_def [symmetric] by (simp add: memcpy_to_def mk wrap_if_bufend_def)
      have "take n src = take top src @ take k (drop top src)" unfolding k(2) [symmetric] by (rule take_add)
      then show ?thesis unfolding w' using i k split(1) dl tl assms(1)
        by (simp add: cbuf_inv_def items_def drop_take top_def)
    next
      case fit
      then have "snd (write_block src c) = c\<lparr>cb_buf := memcpy_to (cb_end c) (take n src) (cb_buf c), cb_end := cb_end c + n\<rparr>"
        by (simp add: w top_def wrap_if_bufend_def)
      then show ?thesis using fit i ns assms(1) by (simp add: cbuf_inv_def items_def memcpy_to_def drop_take)
    next
      case edge
      then have "snd (write_block src c) = c\<lparr>cb_buf := memcpy_to (cb_end c) (take n src) (cb_buf c), cb_end := 0\<rparr>"
        by (simp add: w top_def wrap_if_bufend_def)
      moreover have "0 < cb_begin c" using edge nr len by (cases "cb_begin c") auto
      ultimately show ?thesis using edge i ns assms(1) by (simp add: cbuf_inv_def items_def memcpy_to_def drop_take)
    next
      case behind
      then have n': "cb_end c + n < cb_begin c" using nr len i by auto
      then have "snd (write_block src c) = c\<lparr>cb_buf := memcpy_to (cb_end c) (take n src) (cb_buf c), cb_end := cb_end c + n\<rparr>"
        using behind i by (simp add: w wrap_if_bufend_def)
      then show ?thesis using behind n' i ns assms(1) by (simp add: cbuf_inv_def items_def memcpy_to_def)
    qed
  qed
  then show "cbuf_inv (snd (write_block src c))" "items (snd (write_block src c)) = items c @ take n src" by blast+
qed

lemma write_char_spec:
  assumes "cbuf_inv c"
  shows "write_char d c = write_block [d] c"
proof -
  have i: "length (cb_buf c) = cb_size c" "cb_begin c < cb_size c" "cb_end c < cb_size c" using assms by (simp_all add: cbuf_inv_def)
  have len: "length (items c) = (if cb_begin c \<le> cb_end c then cb_end c - cb_begin c else cb_size c - (cb_begin c - cb_end c))"
    using available_items [OF assms] by (simp add: available_def)
  have f: "cbuf_full c \<longleftrightarrow> room c = 0"
    using i len unfolding room_items [OF assms] by (auto simp: cbuf_full_def wrap_if_bufend_def)
  have u: "(cb_buf c)[cb_end c := d] = memcpy_to (cb_end c) [d] (cb_buf c)" using i by (simp add: memcpy_to_def upd_conv_take_nth_drop)
  have same: "c\<lparr>cb_buf := memcpy_to (cb_end c) [] (cb_buf c), cb_end := wrap_if_bufend c (cb_end c)\<rparr> = c"
    using i by (simp add: memcpy_to_def wrap_if_bufend_def)
  have n: "(if length [d] < room c then length [d] else room c) = (if room c = 0 then 0 else 1)" by auto
  show ?thesis unfolding write_block_def n using f i u same by (auto simp: write_char_def Let_def)
qed

lemma cbuf_remove_spec:
  assumes "cbuf_inv c"
  shows "cbuf_inv (snd (cbuf_remove n c))" "items (snd (cbuf_remove n c)) = drop n (items c)"
    "fst (cbuf_remove n c) = length (drop n (items c))"
proof -
  have "cbuf_inv (snd (cbuf_remove n c)) \<and> items (snd (cbuf_remove n c)) = drop n (items c) \<and>
      fst (cbuf_remove n c) = length (drop n (items c))"
  proof (cases "available c \<le> n")
    case True
    then show ?thesis using assms available_items [OF assms] by (auto simp: cbuf_remove_def flush_def cbuf_inv_def items_def)
  next
    case False
    then have n: "n \<le> length (items c)" using available_items [OF assms] by simp
    define c' where "c' = (if cb_end c < cb_begin c \<and> cb_size c - cb_begin c < n
      then c\<lparr>cb_begin := wrap_if_bufend c (n - (cb_size c - cb_begin c))\<rparr>
      else c\<lparr>cb_begin := wrap_if_bufend c (cb_begin c + n)\<rparr>)"
    have c': "cbuf_inv c'" "items c' = drop n (items c)" using drop_items [OF assms n] unfolding c'_def by blast+
    have "cbuf_remove n c = (available c', c')" unfolding cbuf_remove_def c'_def Let_def using False by (simp only: if_False)
    then show ?thesis using c' available_items [OF c'(1)] by simp
  qed
  then show "cbuf_inv (snd (cbuf_remove n c))" "items (snd (cbuf_remove n c)) = drop n (items c)"
    "fst (cbuf_remove n c) = length (drop n (items c))" by blast+
qed

lemma resize_spec:
  assumes "cbuf_inv c" and "n < 2 ^ 32"
  shows "cbuf_inv (snd (resize ok n c))" "items (snd (resize ok n c)) = items c" "fst (resize ok n c) = cb_size (snd (resize ok n c))"
proof -
  have a: "available c = length (items c)" by (rule available_items [OF assms(1)])
  have d: "fst (read_block (length (items c)) c) = items c" by (simp add: read_block_spec [OF assms(1)])
  show "cbuf_inv (snd (resize ok n c))" "items (snd (resize ok n c)) = items c" "fst (resize ok n c) = cb_size (snd (resize ok n c))"
    using assms by (simp_all add: resize_def a d Let_def cbuf_inv_def items_def [of "\<lparr>cb_size = _, cb_buf = _, cb_begin = _, cb_end = _\<rparr>"])
qed

section \<open>Bounded queues\<close>

text \<open>
  What a client of a bounded queue of bytes relies on: putting takes as many bytes, in order, as there is
  room for, and says how many; getting gives the oldest bytes.
\<close>

datatype queue_op = Put "u8 list" | Get nat

text \<open>A run of operations, with all bytes taken in and all bytes given out.\<close>

fun queue_run :: "(u8 list \<Rightarrow> 'q \<Rightarrow> nat \<times> 'q) \<Rightarrow> (nat \<Rightarrow> 'q \<Rightarrow> u8 list \<times> 'q) \<Rightarrow> queue_op list \<Rightarrow> 'q \<Rightarrow> u8 list \<times> u8 list \<times> 'q" where
  "queue_run put get [] q = ([], [], q)"
| "queue_run put get (Put d # ops) q =
     (case put d q of (n, q1) \<Rightarrow> case queue_run put get ops q1 of (ins, outs, q2) \<Rightarrow> (take n d @ ins, outs, q2))"
| "queue_run put get (Get n # ops) q =
     (case get n q of (d, q1) \<Rightarrow> case queue_run put get ops q1 of (ins, outs, q2) \<Rightarrow> (ins, d @ outs, q2))"

locale byte_queue =
  fixes inv :: "'q \<Rightarrow> bool" and queued :: "'q \<Rightarrow> u8 list" and limit :: "'q \<Rightarrow> nat"
    and put :: "u8 list \<Rightarrow> 'q \<Rightarrow> nat \<times> 'q" and get :: "nat \<Rightarrow> 'q \<Rightarrow> u8 list \<times> 'q"
  assumes bounded: "inv q \<Longrightarrow> length (queued q) \<le> limit q"
    and put_law: "inv q \<Longrightarrow> put d q = (n, q') \<Longrightarrow>
      n = min (length d) (limit q - length (queued q)) \<and> inv q' \<and> queued q' = queued q @ take n d \<and> limit q' = limit q"
    and get_law: "inv q \<Longrightarrow> get n q = (d, q') \<Longrightarrow> d = take n (queued q) \<and> inv q' \<and> queued q' = drop n (queued q) \<and> limit q' = limit q"
begin

lemma run_fifo:
  "inv q \<Longrightarrow> queue_run put get ops q = (ins, outs, q') \<Longrightarrow> inv q' \<and> limit q' = limit q \<and> queued q @ ins = outs @ queued q'"
proof (induction ops arbitrary: q ins outs q')
  case (Cons op ops)
  show ?case
  proof (cases op)
    case (Put d)
    obtain n q1 where p: "put d q = (n, q1)" by force
    obtain ins1 outs1 q2 where r: "queue_run put get ops q1 = (ins1, outs1, q2)" by (metis prod_cases3)
    from put_law [OF Cons.prems(1) p] Cons.IH [OF _ r] Cons.prems(2) show ?thesis by (auto simp: Put p r)
  next
    case (Get n)
    obtain d q1 where g: "get n q = (d, q1)" by force
    obtain ins1 outs1 q2 where r: "queue_run put get ops q1 = (ins1, outs1, q2)" by (metis prod_cases3)
    from get_law [OF Cons.prems(1) g] Cons.IH [OF _ r] Cons.prems(2) show ?thesis
      by (auto simp: Get g r) (metis append.assoc append_take_drop_id)
  qed
qed simp

end

interpretation ring: byte_queue cbuf_inv items "\<lambda>c. cb_size c - 1" write_block read_block
proof
  fix c d n c' assume c: "cbuf_inv c"
  show "length (items c) \<le> cb_size c - 1" using items_bound [OF c] by simp
  show "write_block d c = (n, c') \<Longrightarrow> n = min (length d) (cb_size c - 1 - length (items c)) \<and> cbuf_inv c' \<and>
      items c' = items c @ take n d \<and> cb_size c' - 1 = cb_size c - 1"
    using write_block_spec [OF c, of d] by simp
next
  fix c n d c' assume c: "cbuf_inv c" and r: "read_block n c = (d, c')"
  have "cb_size (snd (read_block n c)) = cb_size c" by (simp add: read_block_def Let_def)
  then show "d = take n (items c) \<and> cbuf_inv c' \<and> items c' = drop n (items c) \<and> cb_size c' - 1 = cb_size c - 1"
    using read_block_spec [OF c, of n] r by simp
qed

text \<open>C19: Over any sequence of block writes and reads the circular buffer is a first-in first-out
  queue: the bytes it held followed by the bytes it took in are the bytes it gave out followed by the bytes it
  holds, it never holds more than its size less one, and no write leaves the array.\<close>

theorem cbuf_fifo:
  assumes "cbuf_inv c" and "queue_run write_block read_block ops c = (ins, outs, c')"
  shows "cbuf_inv c' \<and> cb_size c' - 1 = cb_size c - 1 \<and> items c @ ins = outs @ items c'"
  by (rule ring.run_fifo [OF assms])

theorem cbuf_fifo_witness:
  "\<exists>ins outs c'. queue_run write_block read_block [Put [1, 2, 3], Get 2, Put [4, 5]] (cbuf_new (\<lambda>_. 0) 4) = (ins, outs, c') \<and>
     items (cbuf_new (\<lambda>_. 0) 4) @ ins = outs @ items c'"
proof -
  obtain ins outs c' where r: "queue_run write_block read_block [Put [1, 2, 3], Get 2, Put [4, 5]] (cbuf_new (\<lambda>_. 0) 4) = (ins, outs, c')"
    by (metis prod_cases3)
  from cbuf_fifo [OF conjunct1 [OF new_inv] r] r show ?thesis by simp
qed

end
