(* ===== verification/Wstring.thy ===== *)
theory Wstring
  imports Prelude "HOL-Library.Monad_Syntax"
begin

text \<open>
  The class \<open>String\<close> of the core, \<open>cores/esp8266/WString.cpp\<close> and \<open>WString.h\<close>: its storage, inside the
  object for short strings and on the heap for others, and the operations that change it.
  A string is the bytes of its current buffer with the length and capacity the object records.
  Every access to the buffer is checked: an operation returns None when it would read or
  write outside the buffer.  Texts passed to an operation are lists of bytes, a null
  pointer is None; only \<open>concat\<close> of a string with itself is modelled with shared storage.
\<close>

section \<open>Storage\<close>

record String =
  isHeap :: bool
  slen :: nat
  cap :: nat
  buff :: "u8 list"

text \<open>
  What the string relies on outside: whether a request for a number of bytes to \<open>realloc\<close> succeeds
  (a request for none releases the block and returns the null pointer), and the bytes
  found in the object's own buffer when it stops pointing to the heap.
\<close>

record alloc_env =
  gives :: "nat \<Rightarrow> bool"
  leftover :: "nat \<Rightarrow> u8"

definition SSOSIZE :: nat where "SSOSIZE = 11"
definition CAPACITY_MAX :: nat where "CAPACITY_MAX = 65535"

definition capacity :: "String \<Rightarrow> nat" where
  "capacity s = (if isHeap s then cap s else SSOSIZE - 1)"

definition setLen :: "nat \<Rightarrow> String \<Rightarrow> String" where
  "setLen n s = s\<lparr>slen := if isHeap s then n mod 2 ^ 16 else n mod 2 ^ 7\<rparr>"

definition init_String :: String where
  "init_String = \<lparr>isHeap = False, slen = 0, cap = 0, buff = replicate SSOSIZE 0\<rparr>"

text \<open>Reading and writing a range of the buffer.\<close>

definition get_range :: "nat \<Rightarrow> nat \<Rightarrow> String \<Rightarrow> u8 list option" where
  "get_range i n s = (if i + n \<le> length (buff s) then Some (take n (drop i (buff s))) else None)"

definition put_range :: "nat \<Rightarrow> u8 list \<Rightarrow> String \<Rightarrow> String option" where
  "put_range i d s = (if i + length d \<le> length (buff s)
     then Some (s\<lparr>buff := take i (buff s) @ d @ drop (i + length d) (buff s)\<rparr>) else None)"

section \<open>Memory management\<close>

definition invalidate :: "String \<Rightarrow> String" where
  "invalidate s = init_String"

definition new_size :: "nat \<Rightarrow> nat" where
  "new_size maxStrLen = ((maxStrLen + 16) mod 2 ^ 32) div 16 * 16"

definition changeBuffer :: "alloc_env \<Rightarrow> nat \<Rightarrow> String \<Rightarrow> bool \<times> String" where
  "changeBuffer al maxStrLen s =
     (if maxStrLen < SSOSIZE - 1
      then (True, setLen (slen s)
        (if \<not> isHeap s then s
         else s\<lparr>isHeap := False, buff := take maxStrLen (buff s) @ map (leftover al) [maxStrLen..<SSOSIZE]\<rparr>))
      else let newSize = new_size maxStrLen; oldSize = capacity s + 1; b = take newSize (buff s) in
        if CAPACITY_MAX < newSize then (False, s)
        else if newSize = 0 then (False, if isHeap s then s\<lparr>buff := []\<rparr> else s)
        else if \<not> gives al newSize then (False, s)
        else (True, setLen (slen s) (s\<lparr>isHeap := True, cap := newSize - 1,
               buff := if oldSize < newSize then take oldSize b @ replicate (newSize - oldSize) 0 else b\<rparr>)))"

definition reserve :: "alloc_env \<Rightarrow> nat \<Rightarrow> String \<Rightarrow> (bool \<times> String) option" where
  "reserve al sz s =
     (if sz \<le> capacity s then Some (True, s)
      else case changeBuffer al sz s of (ok, s1) \<Rightarrow>
        if ok then (if slen s1 = 0 then map_option (Pair True) (put_range 0 [0] s1) else Some (True, s1))
        else Some (False, s1))"

definition clear_String :: "String \<Rightarrow> String" where
  "clear_String s = setLen 0 s"

section \<open>Copy and move\<close>

definition copy_String :: "alloc_env \<Rightarrow> u8 list \<Rightarrow> String \<Rightarrow> String option" where
  "copy_String al cstr s = do {
     (ok, s1) \<leftarrow> reserve al (length cstr) s;
     if \<not> ok then Some (invalidate s1)
     else do { s2 \<leftarrow> put_range 0 cstr (setLen (length cstr) s1); put_range (length cstr) [0] s2 } }"

definition move_String :: "String \<Rightarrow> String \<Rightarrow> String \<times> String" where
  "move_String rhs s = (rhs, init_String)"

definition assign_cstr :: "alloc_env \<Rightarrow> u8 list option \<Rightarrow> String \<Rightarrow> String option" where
  "assign_cstr al cstr s = (case cstr of Some t \<Rightarrow> copy_String al t s | None \<Rightarrow> Some (invalidate s))"

definition assign_String :: "alloc_env \<Rightarrow> String \<Rightarrow> String \<Rightarrow> String option" where
  "assign_String al rhs s = do { t \<leftarrow> get_range 0 (slen rhs) rhs; copy_String al t s }"

definition assign_char :: "alloc_env \<Rightarrow> u8 \<Rightarrow> String \<Rightarrow> String option" where
  "assign_char al c s = assign_cstr al (Some (takeWhile (\<lambda>d. d \<noteq> 0) [c])) s"

definition new_String :: "alloc_env \<Rightarrow> u8 list option \<Rightarrow> String option" where
  "new_String al cstr = (case cstr of Some t \<Rightarrow> copy_String al t init_String | None \<Rightarrow> Some init_String)"

section \<open>Concatenation\<close>

definition concat_bytes :: "alloc_env \<Rightarrow> u8 list option \<Rightarrow> String \<Rightarrow> (bool \<times> String) option" where
  "concat_bytes al cstr s = (case cstr of None \<Rightarrow> Some (False, s)
     | Some t \<Rightarrow>
        let newlen = (slen s + length t) mod 2 ^ 32 in
        if t = [] then Some (True, s)
        else do {
          (ok, s1) \<leftarrow> reserve al newlen s;
          if \<not> ok then Some (False, s1)
          else do { s2 \<leftarrow> put_range (slen s1) t s1; s3 \<leftarrow> put_range newlen [0] (setLen newlen s2); Some (True, s3) } })"

definition concat_String :: "alloc_env \<Rightarrow> String \<Rightarrow> String \<Rightarrow> (bool \<times> String) option" where
  "concat_String al t s = do { d \<leftarrow> get_range 0 (slen t) t; concat_bytes al (Some d) s }"

definition concat_self :: "alloc_env \<Rightarrow> String \<Rightarrow> (bool \<times> String) option" where
  "concat_self al s =
     (let newlen = (2 * slen s) mod 2 ^ 32 in
      if slen s = 0 then Some (True, s)
      else do {
        (ok, s1) \<leftarrow> reserve al newlen s;
        if \<not> ok then Some (False, s1)
        else do { d \<leftarrow> get_range 0 (slen s1) s1; s2 \<leftarrow> put_range (slen s1) d s1;
                  s3 \<leftarrow> put_range newlen [0] (setLen newlen s2); Some (True, s3) } })"

definition concat_char :: "alloc_env \<Rightarrow> u8 \<Rightarrow> String \<Rightarrow> (bool \<times> String) option" where
  "concat_char al c s = concat_bytes al (Some [c]) s"

section \<open>Insertion\<close>

definition insert_bytes :: "alloc_env \<Rightarrow> nat \<Rightarrow> u8 list \<Rightarrow> String \<Rightarrow> String option" where
  "insert_bytes al position other s =
     (if slen s < position then Some s
      else let total = (slen s + length other) mod 2 ^ 32 in do {
        (ok, s1) \<leftarrow> reserve al total s;
        if \<not> ok then Some s1
        else let left = slen s - position in do {
          d \<leftarrow> get_range position left (setLen total s1);
          s2 \<leftarrow> put_range (position + length other) d (setLen total s1);
          s3 \<leftarrow> put_range position other s2;
          put_range total [0] s3 } })"

definition insert_String :: "alloc_env \<Rightarrow> nat \<Rightarrow> String \<Rightarrow> String \<Rightarrow> String option" where
  "insert_String al position other s = do { d \<leftarrow> get_range 0 (slen other) other; insert_bytes al position d s }"

text \<open>Sums of strings; the operand that may be reused is the one passed by rvalue reference.\<close>

definition plus_right :: "alloc_env \<Rightarrow> String \<Rightarrow> String \<Rightarrow> String option" where
  "plus_right al lhs rhs =
     (let total = slen lhs + slen rhs in
      if total < capacity rhs then insert_String al 0 lhs rhs
      else do {
        (_, r1) \<leftarrow> reserve al total init_String;
        (_, r2) \<leftarrow> concat_String al lhs r1;
        (_, r3) \<leftarrow> concat_String al rhs r2;
        Some r3 })"

definition plus_both :: "alloc_env \<Rightarrow> String \<Rightarrow> String \<Rightarrow> String option" where
  "plus_both al lhs rhs =
     (let total = slen lhs + slen rhs in
      if capacity lhs < total \<and> total < capacity rhs then insert_String al 0 lhs rhs
      else do { (_, r) \<leftarrow> concat_String al rhs lhs; Some r })"

definition plus_char :: "alloc_env \<Rightarrow> u8 \<Rightarrow> String \<Rightarrow> String option" where
  "plus_char al lhs rhs = do {
     (_, r1) \<leftarrow> reserve al (slen rhs + 1) init_String;
     (_, r2) \<leftarrow> concat_char al lhs r1;
     (_, r3) \<leftarrow> concat_String al rhs r2;
     Some r3 }"

definition plus_cstr :: "alloc_env \<Rightarrow> u8 list \<Rightarrow> String \<Rightarrow> String option" where
  "plus_cstr al lhs rhs = do {
     (_, r1) \<leftarrow> reserve al (length lhs + slen rhs) init_String;
     (_, r2) \<leftarrow> concat_bytes al (Some lhs) r1;
     (_, r3) \<leftarrow> concat_String al rhs r2;
     Some r3 }"

section \<open>Removal\<close>

definition remove_String :: "nat \<Rightarrow> nat \<Rightarrow> String \<Rightarrow> String option" where
  "remove_String index count s =
     (if slen s \<le> index \<or> count = 0 then Some s
      else let count1 = (if slen s - index < count then slen s - index else count); newlen = slen s - count1; s1 = setLen newlen s in do {
        d \<leftarrow> get_range (index + count1) (newlen - index) s1;
        s2 \<leftarrow> put_range index d s1;
        put_range newlen [0] s2 })"

definition substring :: "alloc_env \<Rightarrow> nat \<Rightarrow> nat \<Rightarrow> String \<Rightarrow> String option" where
  "substring al left right s =
     (let (l, r) = (if right < left then (right, left) else (left, right)) in
      if slen s \<le> l then Some init_String
      else let r1 = (if slen s < r then slen s else r) in do {
        d \<leftarrow> get_range l (r1 - l) s;
        (_, out) \<leftarrow> concat_bytes al (Some d) init_String;
        Some out })"

section \<open>Invariant and contents\<close>

definition wf_String :: "String \<Rightarrow> bool" where
  "wf_String s \<longleftrightarrow> length (buff s) = capacity s + 1 \<and> slen s \<le> capacity s \<and> buff s ! slen s = 0 \<and>
     (isHeap s \<longrightarrow> SSOSIZE - 1 \<le> cap s \<and> cap s < CAPACITY_MAX)"

definition content :: "String \<Rightarrow> u8 list" where
  "content s = take (slen s) (buff s)"

lemma capacity_bounds: "wf_String s \<Longrightarrow> SSOSIZE - 1 \<le> capacity s \<and> capacity s < CAPACITY_MAX"
  by (auto simp: wf_String_def capacity_def SSOSIZE_def CAPACITY_MAX_def)

lemma wf_init [simp]: "wf_String init_String"
  by (simp add: wf_String_def init_String_def capacity_def SSOSIZE_def)

lemma content_init [simp]: "content init_String = []"
  by (simp add: content_def init_String_def)

lemma length_content: "wf_String s \<Longrightarrow> length (content s) = slen s"
  by (simp add: wf_String_def content_def)

lemma capacity_setLen [simp]: "capacity (setLen n s) = capacity s"
  by (simp add: capacity_def setLen_def)

lemma buff_setLen [simp]: "buff (setLen n s) = buff s" "isHeap (setLen n s) = isHeap s" "cap (setLen n s) = cap s"
  by (simp_all add: setLen_def)

text \<open>The length field holds every length the buffer has room for.\<close>

lemma slen_setLen: "wf_String s \<Longrightarrow> n \<le> capacity s \<Longrightarrow> slen (setLen n s) = n"
  using capacity_bounds [of s] by (auto simp: setLen_def capacity_def SSOSIZE_def CAPACITY_MAX_def split: if_splits)

lemma put_range_sel:
  assumes "put_range i d s = Some s'"
  shows "isHeap s' = isHeap s" "slen s' = slen s" "cap s' = cap s" "capacity s' = capacity s" "length (buff s') = length (buff s)"
    "buff s' = take i (buff s) @ d @ drop (i + length d) (buff s)"
  using assms by (auto simp: put_range_def capacity_def split: if_splits)

lemma put_range_Some: "i + length d \<le> length (buff s) \<Longrightarrow>
    put_range i d s = Some (s\<lparr>buff := take i (buff s) @ d @ drop (i + length d) (buff s)\<rparr>)"
  by (simp add: put_range_def)

lemma put_range_upd2: "put_range i d s = Some s1 \<Longrightarrow> put_range j e s1 = Some s2 \<Longrightarrow> s\<lparr>buff := buff s2\<rparr> = s2"
  by (auto simp: put_range_def split: if_splits)

lemma get_range_Some: "i + n \<le> length (buff s) \<Longrightarrow> get_range i n s = Some (take n (drop i (buff s)))"
  by (simp add: get_range_def)

lemma get_content: "wf_String s \<Longrightarrow> get_range 0 (slen s) s = Some (content s)"
  by (simp add: get_range_def wf_String_def content_def)

section \<open>Reserving room\<close>

text \<open>Whether \<open>sz\<close> bytes fit, in the present buffer or in one the allocator gives.\<close>

definition fits :: "alloc_env \<Rightarrow> nat \<Rightarrow> String \<Rightarrow> bool" where
  "fits al sz s \<longleftrightarrow> sz \<le> capacity s \<or> (new_size sz \<le> CAPACITY_MAX \<and> gives al (new_size sz))"

lemma new_size_bounds: "sz < 2 ^ 32 - 16 \<Longrightarrow> sz < new_size sz \<and> new_size sz \<le> sz + 16"
  by (simp add: new_size_def)

lemma change_buffer_spec:
  assumes "wf_String s" and "capacity s < sz" and "sz < 2 ^ 32 - 16"
  shows "fst (changeBuffer al sz s) \<longleftrightarrow> fits al sz s"
    and "\<not> fits al sz s \<Longrightarrow> snd (changeBuffer al sz s) = s"
    and "fits al sz s \<Longrightarrow> wf_String (snd (changeBuffer al sz s)) \<and> content (snd (changeBuffer al sz s)) = content s \<and>
      slen (snd (changeBuffer al sz s)) = slen s \<and> sz \<le> capacity (snd (changeBuffer al sz s))"
proof -
  let ?n = "new_size sz"
  have n: "sz < ?n" using new_size_bounds assms(3) by blast
  have big: "\<not> sz < SSOSIZE - 1" using capacity_bounds [OF assms(1)] assms(2) by simp
  have len: "length (buff s) = capacity s + 1" using assms(1) by (simp add: wf_String_def)
  have res: "changeBuffer al sz s = (if fits al sz s
      then (True, setLen (slen s) (s\<lparr>isHeap := True, cap := ?n - 1, buff := buff s @ replicate (?n - (capacity s + 1)) 0\<rparr>)) else (False, s))"
    using big n assms(2) len by (auto simp: changeBuffer_def Let_def fits_def)
  then show "fst (changeBuffer al sz s) \<longleftrightarrow> fits al sz s" "\<not> fits al sz s \<Longrightarrow> snd (changeBuffer al sz s) = s" by simp_all
  assume f: "fits al sz s"
  let ?s = "s\<lparr>isHeap := True, cap := ?n - 1, buff := buff s @ replicate (?n - (capacity s + 1)) 0\<rparr>"
  have c: "?n \<le> CAPACITY_MAX" using f assms(2) by (simp add: fits_def)
  then have sl: "slen (setLen (slen s) ?s) = slen s"
    using assms(1) n assms(2) by (simp add: setLen_def wf_String_def CAPACITY_MAX_def)
  have cp: "capacity ?s = ?n - 1" by (simp add: capacity_def)
  have "wf_String (setLen (slen s) ?s)" unfolding wf_String_def capacity_setLen cp sl
    using assms(1,2) c n capacity_bounds [OF assms(1)] len by (auto simp: wf_String_def nth_append CAPACITY_MAX_def)
  moreover have "content (setLen (slen s) ?s) = content s" unfolding content_def sl using assms(1) by (simp add: wf_String_def)
  moreover have "sz \<le> capacity (setLen (slen s) ?s)" unfolding capacity_setLen cp using n by simp
  ultimately show "wf_String (snd (changeBuffer al sz s)) \<and> content (snd (changeBuffer al sz s)) = content s \<and>
      slen (snd (changeBuffer al sz s)) = slen s \<and> sz \<le> capacity (snd (changeBuffer al sz s))" using res f sl by simp
qed

lemma wf_put_0: "wf_String s \<Longrightarrow> slen s = 0 \<Longrightarrow> put_range 0 [0] s = Some s"
proof -
  assume "wf_String s" "slen s = 0"
  then obtain b where "buff s = 0 # b" by (cases "buff s") (auto simp: wf_String_def)
  then show ?thesis by (cases s) (simp add: put_range_def)
qed

lemma reserve_spec:
  assumes "wf_String s" and "sz < 2 ^ 32 - 16"
  obtains s1 where "reserve al sz s = Some (fits al sz s, s1)" "wf_String s1" "content s1 = content s" "slen s1 = slen s"
    "fits al sz s \<longrightarrow> sz \<le> capacity s1" "\<not> fits al sz s \<longrightarrow> s1 = s"
proof (cases "sz \<le> capacity s")
  case True
  then show thesis using assms(1) by (intro that [of s]) (simp_all add: reserve_def fits_def)
next
  case False
  then have cap: "capacity s < sz" by simp
  note cb = change_buffer_spec [OF assms(1) cap assms(2), of al]
  obtain ok s1 where c: "changeBuffer al sz s = (ok, s1)" by force
  show thesis
  proof (rule that [of s1])
    show "reserve al sz s = Some (fits al sz s, s1)"
      using cb cap wf_put_0 [of s1] by (auto simp: reserve_def c)
  qed (use cb assms(1) in \<open>cases "fits al sz s"; simp add: c\<close>)+
qed

text \<open>Writing a new text of at most the capacity and ending it with a zero.\<close>

lemma write_text:
  assumes "wf_String s" and "length t \<le> capacity s" and "put_range i d (setLen (length t) s) = Some s2"
    and "take (length t) (buff s2) = t"
  shows "\<exists>s3. put_range (length t) [0] s2 = Some s3 \<and> wf_String s3 \<and> content s3 = t"
proof -
  note sel = put_range_sel [OF assms(3)]
  have len: "length (buff s2) = capacity s + 1" using assms(1) sel by (simp add: wf_String_def)
  have sl: "slen s2 = length t" using sel slen_setLen [OF assms(1,2)] by simp
  let ?s3 = "s2\<lparr>buff := take (length t) (buff s2) @ [0] @ drop (length t + 1) (buff s2)\<rparr>"
  have "put_range (length t) [0] s2 = Some ?s3" using assms(2) len by (simp add: put_range_def)
  moreover have "wf_String ?s3"
  proof -
    have cap3: "capacity ?s3 = capacity s" by (simp add: capacity_def sel)
    have l3: "length (buff ?s3) = capacity s + 1" using len assms(2) by simp
    have z3: "buff ?s3 ! length t = 0" using len assms(2) by (simp add: nth_append)
    have f3: "slen ?s3 = length t" "isHeap ?s3 = isHeap s" "cap ?s3 = cap s" using sl sel(1,3) by simp_all
    show ?thesis unfolding wf_String_def cap3 f3 using l3 z3 assms(2) assms(1) [unfolded wf_String_def] by blast
  qed
  moreover have "content ?s3 = t" using assms(2,4) len sl by (simp add: content_def)
  ultimately show ?thesis by blast
qed

section \<open>What the operations do\<close>

lemma copy_spec:
  assumes "wf_String s" and "length t < 2 ^ 32 - 16"
  shows "\<exists>s'. copy_String al t s = Some s' \<and> wf_String s' \<and> content s' = (if fits al (length t) s then t else [])"
proof -
  obtain s1 where r: "reserve al (length t) s = Some (fits al (length t) s, s1)" "wf_String s1"
    "fits al (length t) s \<longrightarrow> length t \<le> capacity s1" using reserve_spec [OF assms, of al] by metis
  show ?thesis
  proof (cases "fits al (length t) s")
    case True
    then have le: "length t \<le> capacity s1" using r(3) by simp
    then have fit: "0 + length t \<le> length (buff (setLen (length t) s1))" using r(2) by (simp add: wf_String_def)
    from put_range_Some [OF this] obtain s2 where s2: "put_range 0 t (setLen (length t) s1) = Some s2" by blast
    from write_text [OF r(2) le s2] put_range_sel(6) [OF s2] True show ?thesis by (simp add: copy_String_def r(1) s2)
  next
    case False
    then show ?thesis by (simp add: copy_String_def r(1) invalidate_def)
  qed
qed

lemma concat_spec:
  assumes "wf_String s" and "slen s + length t < 2 ^ 32 - 16"
  shows "\<exists>s'. concat_bytes al (Some t) s = Some (t = [] \<or> fits al (slen s + length t) s, s') \<and> wf_String s' \<and>
    content s' = (if t = [] \<or> fits al (slen s + length t) s then content s @ t else content s) \<and>
    (\<not> fits al (slen s + length t) s \<longrightarrow> s' = s)"
proof (cases "t = []")
  case True
  then show ?thesis using assms(1) by (simp add: concat_bytes_def)
next
  case False
  let ?n = "slen s + length t"
  have md: "?n mod 2 ^ 32 = ?n" using assms(2) by simp
  obtain s1 where r: "reserve al ?n s = Some (fits al ?n s, s1)" "wf_String s1" "content s1 = content s" "slen s1 = slen s"
    "fits al ?n s \<longrightarrow> ?n \<le> capacity s1" "\<not> fits al ?n s \<longrightarrow> s1 = s" using reserve_spec [OF assms, of al] by metis
  show ?thesis
  proof (cases "fits al ?n s")
    case True
    then have le: "?n \<le> capacity s1" using r(5) by simp
    have len: "length (buff s1) = capacity s1 + 1" using r(2) by (simp add: wf_String_def)
    from put_range_Some [of "slen s1" t s1] obtain s2 where s2: "put_range (slen s1) t s1 = Some s2" using le len r(4) by auto
    have s2': "put_range (slen s1) t (setLen (length (content s @ t)) s1) = Some (setLen ?n s2)"
      using s2 le len r(4) length_content [OF assms(1)] by (auto simp: put_range_def setLen_def)
    have tk: "take (length (content s @ t)) (buff (setLen ?n s2)) = content s @ t"
      using put_range_sel(6) [OF s2] le len r(3,4) length_content [OF assms(1)] by (auto simp: content_def)
    have le2: "length (content s @ t) \<le> capacity s1" using le length_content [OF assms(1)] by simp
    from write_text [OF r(2) le2 s2' tk] show ?thesis
      using False True r(1) s2 md length_content [OF assms(1)] by (auto simp: concat_bytes_def Let_def)
  next
    case f: False
    then show ?thesis using False r(1,6) md assms(1) by (simp add: concat_bytes_def Let_def)
  qed
qed

lemma insert_spec:
  assumes "wf_String s" and "slen s + length t < 2 ^ 32 - 16" and "i \<le> slen s"
  shows "\<exists>s'. insert_bytes al i t s = Some s' \<and> wf_String s' \<and>
    content s' = (if fits al (slen s + length t) s then take i (content s) @ t @ drop i (content s) else content s)"
proof -
  let ?n = "slen s + length t"
  have md: "?n mod 2 ^ 32 = ?n" using assms(2) by simp
  obtain s1 where r: "reserve al ?n s = Some (fits al ?n s, s1)" "wf_String s1" "content s1 = content s" "slen s1 = slen s"
    "fits al ?n s \<longrightarrow> ?n \<le> capacity s1" "\<not> fits al ?n s \<longrightarrow> s1 = s" using reserve_spec [OF assms(1,2), of al] by metis
  show ?thesis
  proof (cases "fits al ?n s")
    case False
    then show ?thesis using r(1,6) assms(1,3) md by (simp add: insert_bytes_def)
  next
    case True
    then have le: "?n \<le> capacity s1" using r(5) by simp
    have len: "length (buff s1) = capacity s1 + 1" using r(2) by (simp add: wf_String_def)
    let ?t = "take i (content s) @ t @ drop i (content s)"
    have lt: "length ?t = ?n" using assms(3) by (simp add: length_content [OF assms(1)])
    have c: "take (slen s) (buff s1) = content s" using r(3,4) by (simp add: content_def)
    let ?d = "drop i (content s)"
    have g: "get_range i (slen s - i) (setLen ?n s1) = Some ?d"
      using assms(3) le len by (simp add: get_range_def drop_take flip: c)
    obtain s2 where s2: "put_range (i + length t) ?d (setLen ?n s1) = Some s2"
      using le len length_content [OF assms(1)] assms(3) by (auto simp: put_range_def)
    note sel2 = put_range_sel [OF s2]
    obtain s3 where s3: "put_range i t s2 = Some s3" using sel2(5) le len assms(3) by (auto simp: put_range_def)
    note sel3 = put_range_sel [OF s3]
    have b3: "take ?n (buff s3) = ?t"
    proof -
      have "take i (buff s2) = take i (buff s1)" using sel2(6) assms(3) le len by simp
      also have "\<dots> = take i (content s)" unfolding c [symmetric] using assms(3) by (simp add: min_def)
      finally have "take i (buff s2) = take i (content s)" .
      moreover have "drop (i + length t) (buff s2) = ?d @ drop ?n (buff s1)"
        using sel2(6) assms(3) le len length_content [OF assms(1)] by (simp add: add.commute)
      ultimately have b: "buff s3 = ?t @ drop ?n (buff s1)" using sel3(6) by simp
      have "take (length x) (x @ y) = x" for x y :: "u8 list" by simp
      from this [of ?t] show ?thesis unfolding b lt by blast
    qed
    have len3: "length (buff s3) = capacity s1 + 1" using sel2(5) sel3(5) len by simp
    have p3: "put_range 0 (buff s3) (setLen (length ?t) s1) = Some s3"
      unfolding lt using put_range_upd2 [OF s2 s3] put_range_Some [of 0 "buff s3" "setLen ?n s1"] len len3 by simp
    have "length ?t \<le> capacity s1" "take (length ?t) (buff s3) = ?t" unfolding lt using le b3 by simp_all
    from write_text [OF r(2) this(1) p3 this(2)] obtain s4 where "put_range ?n [0] s3 = Some s4" "wf_String s4" "content s4 = ?t"
      unfolding lt by blast
    then show ?thesis using True r(1,4) assms(3) md g s2 s3 by (simp add: insert_bytes_def Let_def)
  qed
qed

lemma remove_spec:
  assumes "wf_String s"
  shows "\<exists>s'. remove_String i n s = Some s' \<and> wf_String s' \<and> content s' = take i (content s) @ drop (i + n) (content s)"
proof (cases "slen s \<le> i \<or> n = 0")
  case True
  then show ?thesis using assms length_content [OF assms] by (auto simp: remove_String_def)
next
  case False
  define m where "m = (if slen s - i < n then slen s - i else n)"
  let ?t = "take i (content s) @ drop (i + m) (content s)"
  let ?k = "slen s - m"
  have m: "i + m \<le> slen s" using False by (auto simp: m_def)
  have drops: "drop (i + m) (content s) = drop (i + n) (content s)" using length_content [OF assms] False by (auto simp: m_def)
  have len: "length (buff s) = capacity s + 1" "slen s \<le> capacity s" using assms by (simp_all add: wf_String_def)
  have lt: "length ?t = ?k" using m by (simp add: length_content [OF assms])
  have kle: "?k \<le> capacity s" using len(2) by simp
  have g: "get_range (i + m) (?k - i) (setLen ?k s) = Some (drop (i + m) (content s))"
    using m len by (auto simp: get_range_def content_def drop_take add.commute)
  have "i + length (drop (i + m) (content s)) \<le> length (buff (setLen ?k s))" using m len length_content [OF assms] by simp
  from put_range_Some [OF this] obtain s2 where s2: "put_range i (drop (i + m) (content s)) (setLen ?k s) = Some s2" by blast
  have "?k \<le> i \<Longrightarrow> ?k = i" using m by simp
  then have "take ?k (buff s2) = ?t" using put_range_sel(6) [OF s2] m len lt by (auto simp add: content_def min_def)
  then obtain s3 where "put_range ?k [0] s2 = Some s3" "wf_String s3" "content s3 = ?t"
    using write_text [OF assms, of ?t i "drop (i + m) (content s)" s2] s2 kle unfolding lt by blast
  then show ?thesis using False g s2 drops by (simp add: remove_String_def Let_def m_def [symmetric])
qed

lemma substring_spec:
  assumes "wf_String s"
  shows "\<exists>s'. substring al l r s = Some s' \<and> wf_String s' \<and>
    content s' = (let t = drop (min l r) (take (max l r) (content s)) in if fits al (length t) init_String then t else [])"
proof -
  define a where "a = min l r"
  define b where "b = min (max l r) (slen s)"
  let ?t = "drop a (take b (content s))"
  have lr: "(if r < l then (r, l) else (l, r)) = (a, max l r)" by (auto simp: a_def)
  have t: "drop (min l r) (take (max l r) (content s)) = ?t" using length_content [OF assms] by (auto simp: a_def b_def min_def)
  have cap: "capacity s < 65535" using capacity_bounds [OF assms] by (simp add: CAPACITY_MAX_def)
  have sl: "slen s \<le> capacity s" "length (buff s) = capacity s + 1" using assms by (simp_all add: wf_String_def)
  show ?thesis
  proof (cases "slen s \<le> a")
    case True
    then have "?t = []" using length_content [OF assms] by (simp add: b_def)
    then show ?thesis using True by (simp add: substring_def lr t Let_def)
  next
    case False
    have ab: "a \<le> b" "b \<le> slen s" using False by (auto simp: a_def b_def)
    have "take b (content s) = take b (buff s)" using ab by (simp add: content_def min_absorb1)
    then have g: "get_range a (b - a) s = Some ?t" using ab sl by (simp add: get_range_def drop_take)
    have bb: "(if slen s < max l r then slen s else max l r) = b" by (auto simp: b_def)
    have res: "substring al l r s = do { (_, out) \<leftarrow> concat_bytes al (Some ?t) init_String; Some out }"
      using False g by (simp add: substring_def lr bb Let_def)
    have "slen init_String + length ?t < 2 ^ 32 - 16" using sl cap ab by (simp add: init_String_def length_content [OF assms])
    from concat_spec [OF wf_init this, of al] obtain s' where s': "wf_String s'"
      "concat_bytes al (Some ?t) init_String = Some (?t = [] \<or> fits al (slen init_String + length ?t) init_String, s')"
      "content s' = (if ?t = [] \<or> fits al (slen init_String + length ?t) init_String then content init_String @ ?t else content init_String)"
      by blast
    have "slen init_String = 0" by (simp add: init_String_def)
    with s' show ?thesis unfolding t Let_def by (intro exI [of _ s'] conjI) (simp_all add: res)
  qed
qed

section \<open>Texts built in steps\<close>

text \<open>
  What a client that only appends relies on: an append adds its bytes at the end or leaves the text
  as it was, and says which.
\<close>

locale text_store =
  fixes inv :: "'s \<Rightarrow> bool" and bytes :: "'s \<Rightarrow> u8 list" and app :: "u8 list \<Rightarrow> 's \<Rightarrow> (bool \<times> 's) option"
    and room :: nat
  assumes text_room: "inv s \<Longrightarrow> length (bytes s) < room"
    and app_text: "inv s \<Longrightarrow> length d < room \<Longrightarrow>
      \<exists>ok s'. app d s = Some (ok, s') \<and> inv s' \<and> bytes s' = (if ok then bytes s @ d else bytes s)"
begin

text \<open>Appending piece after piece, going on after a refusal, with the pieces taken.\<close>

fun app_all :: "u8 list list \<Rightarrow> 's \<Rightarrow> (bool list \<times> 's) option" where
  "app_all [] s = Some ([], s)"
| "app_all (d # ds) s = do { (ok, s1) \<leftarrow> app d s; (oks, s2) \<leftarrow> app_all ds s1; Some (ok # oks, s2) }"

lemma app_all_text:
  "inv s \<Longrightarrow> \<forall>d \<in> set ds. length d < room \<Longrightarrow>
   \<exists>oks s'. app_all ds s = Some (oks, s') \<and> inv s' \<and> length oks = length ds \<and>
     bytes s' = bytes s @ List.concat (map snd (filter fst (zip oks ds)))"
proof (induction ds arbitrary: s)
  case (Cons d ds)
  obtain ok s1 where s1: "app d s = Some (ok, s1)" "inv s1" "bytes s1 = (if ok then bytes s @ d else bytes s)"
    using app_text [OF Cons.prems(1), of d] Cons.prems(2) by (metis list.set_intros(1))
  from Cons.IH [OF s1(2)] Cons.prems(2) obtain oks s2 where "app_all ds s1 = Some (oks, s2)" "inv s2" "length oks = length ds"
    "bytes s2 = bytes s1 @ List.concat (map snd (filter fst (zip oks ds)))" by auto
  with s1 show ?case by auto
qed simp

end

lemma content_room: "wf_String s \<Longrightarrow> length (content s) < CAPACITY_MAX"
  using capacity_bounds [of s] by (simp add: length_content wf_String_def)

interpretation string: text_store wf_String content "\<lambda>d. concat_bytes al (Some d)" CAPACITY_MAX for al
proof
  fix s d assume s: "wf_String s" "length (d :: u8 list) < CAPACITY_MAX"
  then have "slen s + length d < 2 ^ 32 - 16" using content_room [OF s(1)] by (simp add: length_content CAPACITY_MAX_def)
  from concat_spec [OF s(1) this, of al]
  show "\<exists>ok s'. concat_bytes al (Some d) s = Some (ok, s') \<and> wf_String s' \<and> content s' = (if ok then content s @ d else content s)"
    by blast
qed (rule content_room)

end
