(* ===== verification/Wstring_Search.thy ===== *)
theory Wstring_Search
  imports Wstring
begin

text \<open>
  The rest of the class \<open>String\<close> of \<open>cores/esp8266/WString.cpp\<close>: comparison, character access, search, and
  the operations that rewrite characters in place.  These work on the buffer as a
  C string, which ends at the first zero byte; reading past the end of the buffer is None.
\<close>

section \<open>C strings\<close>

definition cstr :: "nat \<Rightarrow> String \<Rightarrow> u8 list option" where
  "cstr i s = (if 0 \<in> set (drop i (buff s)) then Some (takeWhile (\<lambda>c. c \<noteq> 0) (drop i (buff s))) else None)"

fun strcmp :: "u8 list \<Rightarrow> u8 list \<Rightarrow> int" where
  "strcmp [] [] = 0"
| "strcmp [] (d # ds) = - int (unat d)"
| "strcmp (c # cs) [] = int (unat c)"
| "strcmp (c # cs) (d # ds) = (if c = d then strcmp cs ds else int (unat c) - int (unat d))"

definition strncmp :: "u8 list \<Rightarrow> u8 list \<Rightarrow> nat \<Rightarrow> int" where
  "strncmp cs ds n = strcmp (take n cs) (take n ds)"

fun strstr :: "u8 list \<Rightarrow> u8 list \<Rightarrow> nat option" where
  "strstr [] pat = (if pat = [] then Some 0 else None)"
| "strstr (c # cs) pat = (if take (length pat) (c # cs) = pat then Some 0 else map_option Suc (strstr cs pat))"

fun strchr :: "u8 list \<Rightarrow> u8 \<Rightarrow> nat option" where
  "strchr [] c = (if c = 0 then Some 0 else None)"
| "strchr (d # ds) c = (if d = c then Some 0 else map_option Suc (strchr ds c))"

definition tolower :: "u8 \<Rightarrow> u8" where
  "tolower c = (if 65 \<le> c \<and> c \<le> 90 then c + 32 else c)"

definition toupper :: "u8 \<Rightarrow> u8" where
  "toupper c = (if 97 \<le> c \<and> c \<le> 122 then c - 32 else c)"

definition isspace :: "u8 \<Rightarrow> bool" where
  "isspace c \<longleftrightarrow> c = 32 \<or> (9 \<le> c \<and> c \<le> 13)"

section \<open>Comparison\<close>

definition compareTo :: "String \<Rightarrow> String \<Rightarrow> int option" where
  "compareTo t s = do { a \<leftarrow> cstr 0 s; b \<leftarrow> cstr 0 t; Some (strcmp a b) }"

definition equals :: "String \<Rightarrow> String \<Rightarrow> bool option" where
  "equals t s = (if slen s = slen t then do { c \<leftarrow> compareTo t s; Some (c = 0) } else Some False)"

definition equals_cstr :: "u8 list option \<Rightarrow> String \<Rightarrow> bool option" where
  "equals_cstr t s =
     (if slen s = 0 then Some (t = None \<or> t = Some [])
      else do { a \<leftarrow> cstr 0 s; Some (case t of None \<Rightarrow> a = [] | Some b \<Rightarrow> strcmp a b = 0) })"

definition less_than :: "String \<Rightarrow> String \<Rightarrow> bool option" where
  "less_than s t = do { c \<leftarrow> compareTo t s; Some (c < 0) }"

definition greater_than :: "String \<Rightarrow> String \<Rightarrow> bool option" where
  "greater_than s t = do { c \<leftarrow> compareTo t s; Some (c > 0) }"

definition less_equal :: "String \<Rightarrow> String \<Rightarrow> bool option" where
  "less_equal s t = do { c \<leftarrow> compareTo t s; Some (c \<le> 0) }"

definition greater_equal :: "String \<Rightarrow> String \<Rightarrow> bool option" where
  "greater_equal s t = do { c \<leftarrow> compareTo t s; Some (c \<ge> 0) }"

fun ignore_case_loop :: "u8 list \<Rightarrow> u8 list \<Rightarrow> bool option" where
  "ignore_case_loop [] ds = None"
| "ignore_case_loop (c # cs) ds =
     (if c = 0 then Some True
      else case ds of [] \<Rightarrow> None
        | d # ds1 \<Rightarrow> if tolower c \<noteq> tolower d then Some False else ignore_case_loop cs ds1)"

definition equalsIgnoreCase :: "String \<Rightarrow> String \<Rightarrow> bool option" where
  "equalsIgnoreCase t s =
     (if slen s \<noteq> slen t then Some False else if slen s = 0 then Some True else ignore_case_loop (buff s) (buff t))"

fun constant_time_loop :: "u8 list \<Rightarrow> u8 list \<Rightarrow> nat \<Rightarrow> nat \<Rightarrow> (nat \<times> nat) option" where
  "constant_time_loop [] ds e d = None"
| "constant_time_loop (c # cs) ds equalchars diffchars =
     (if c = 0 then Some (equalchars, diffchars)
      else case ds of [] \<Rightarrow> None
        | d # ds1 \<Rightarrow> if c = d then constant_time_loop cs ds1 (equalchars + 1) diffchars
            else constant_time_loop cs ds1 equalchars (diffchars + 1))"

definition equalsConstantTime :: "String \<Rightarrow> String \<Rightarrow> nat option" where
  "equalsConstantTime t s =
     (if slen s \<noteq> slen t then Some 0
      else if slen s = 0 then Some 1
      else do { (equalchars, diffchars) \<leftarrow> constant_time_loop (buff s) (buff t) 0 0;
                Some (if equalchars = slen s \<and> diffchars = 0 then 1 else 0) })"

definition startsWith_at :: "String \<Rightarrow> nat \<Rightarrow> String \<Rightarrow> bool option" where
  "startsWith_at t offset s =
     (if (slen s + 2 ^ 32 - slen t) mod 2 ^ 32 < offset then Some False
      else do { a \<leftarrow> cstr offset s; b \<leftarrow> cstr 0 t; Some (strncmp a b (slen t) = 0) })"

definition startsWith :: "String \<Rightarrow> String \<Rightarrow> bool option" where
  "startsWith t s = (if slen s < slen t then Some False else startsWith_at t 0 s)"

definition endsWith :: "String \<Rightarrow> String \<Rightarrow> bool option" where
  "endsWith t s =
     (if slen s < slen t then Some False
      else do { a \<leftarrow> cstr (slen s - slen t) s; b \<leftarrow> cstr 0 t; Some (strcmp a b = 0) })"

section \<open>Character access\<close>

definition setCharAt :: "nat \<Rightarrow> u8 \<Rightarrow> String \<Rightarrow> String option" where
  "setCharAt loc c s = (if loc < slen s then put_range loc [c] s else Some s)"

definition charAt :: "nat \<Rightarrow> String \<Rightarrow> u8 option" where
  "charAt index s = (if slen s \<le> index then Some 0 else map_option hd (get_range index 1 s))"

text \<open>The bytes stored at the start of the caller's array; those behind them stay.\<close>

definition getBytes :: "nat \<Rightarrow> nat \<Rightarrow> String \<Rightarrow> u8 list option" where
  "getBytes bufsize index s =
     (if bufsize = 0 then Some []
      else if slen s \<le> index then Some [0]
      else let n = (if slen s - index < bufsize - 1 then slen s - index else bufsize - 1) in do {
        d \<leftarrow> get_range index n s;
        let t = takeWhile (\<lambda>c. c \<noteq> 0) d;
        Some (t @ replicate (n - length t) 0 @ [0]) })"

section \<open>Search\<close>

text \<open>Positions are integers, with -1 for a text that is not found.\<close>

definition indexOf_char :: "u8 \<Rightarrow> nat \<Rightarrow> String \<Rightarrow> int option" where
  "indexOf_char ch fromIndex s =
     (if slen s \<le> fromIndex then Some (- 1)
      else do { h \<leftarrow> cstr fromIndex s; Some (case strchr h ch of None \<Rightarrow> - 1 | Some k \<Rightarrow> int (fromIndex + k)) })"

definition indexOf_cstr :: "u8 list \<Rightarrow> nat \<Rightarrow> String \<Rightarrow> int option" where
  "indexOf_cstr t fromIndex s =
     (if slen s \<le> fromIndex then Some (- 1)
      else do { h \<leftarrow> cstr fromIndex s; Some (case strstr h t of None \<Rightarrow> - 1 | Some k \<Rightarrow> int (fromIndex + k)) })"

definition indexOf :: "String \<Rightarrow> nat \<Rightarrow> String \<Rightarrow> int option" where
  "indexOf t fromIndex s = do { b \<leftarrow> cstr 0 t; indexOf_cstr b fromIndex s }"

fun last_char_loop :: "u8 \<Rightarrow> nat \<Rightarrow> u8 list \<Rightarrow> int option" where
  "last_char_loop ch 0 b = Some (- 1)"
| "last_char_loop ch (Suc i) b =
     (if length b \<le> i then None else if b ! i \<noteq> ch then last_char_loop ch i b else Some (int i))"

definition lastIndexOf_char_from :: "u8 \<Rightarrow> nat \<Rightarrow> String \<Rightarrow> int option" where
  "lastIndexOf_char_from ch fromIndex s = (if slen s \<le> fromIndex then Some (- 1) else last_char_loop ch (fromIndex + 1) (buff s))"

definition lastIndexOf_char :: "u8 \<Rightarrow> String \<Rightarrow> int option" where
  "lastIndexOf_char ch s = lastIndexOf_char_from ch ((slen s + 2 ^ 32 - 1) mod 2 ^ 32) s"

function last_loop :: "u8 list \<Rightarrow> nat \<Rightarrow> String \<Rightarrow> nat \<Rightarrow> int \<Rightarrow> int option" where
  "last_loop pat fromIndex s p found =
     (if fromIndex < p then Some found
      else case cstr p s of
          None \<Rightarrow> None
        | Some h \<Rightarrow> (case strstr h pat of
              None \<Rightarrow> Some found
            | Some k \<Rightarrow> last_loop pat fromIndex s (p + k + 1) (if p + k \<le> fromIndex then int (p + k) else found)))"
  by pat_completeness auto
termination
  by (relation "measure (\<lambda>(_, fromIndex, _, p, _). fromIndex + 1 - p)") auto

declare last_loop.simps [simp del]

definition lastIndexOf_from :: "String \<Rightarrow> nat \<Rightarrow> String \<Rightarrow> int option" where
  "lastIndexOf_from t fromIndex s =
     (if slen t = 0 \<or> slen s = 0 \<or> slen s < slen t then Some (- 1)
      else do { pat \<leftarrow> cstr 0 t; last_loop pat (if slen s \<le> fromIndex then slen s - 1 else fromIndex) s 0 (- 1) })"

definition lastIndexOf :: "String \<Rightarrow> String \<Rightarrow> int option" where
  "lastIndexOf t s = lastIndexOf_from t ((slen s + 2 ^ 32 - slen t) mod 2 ^ 32) s"

section \<open>Rewriting characters\<close>

fun map_chars :: "(u8 \<Rightarrow> u8) \<Rightarrow> u8 list \<Rightarrow> u8 list option" where
  "map_chars f [] = None"
| "map_chars f (c # cs) = (if c = 0 then Some (c # cs) else map_option ((#) (f c)) (map_chars f cs))"

definition rewrite_chars :: "(u8 \<Rightarrow> u8) \<Rightarrow> String \<Rightarrow> String option" where
  "rewrite_chars f s = map_option (\<lambda>b. s\<lparr>buff := b\<rparr>) (map_chars f (buff s))"

definition replace_char :: "u8 \<Rightarrow> u8 \<Rightarrow> String \<Rightarrow> String option" where
  "replace_char old new s = rewrite_chars (\<lambda>c. if c = old then new else c) s"

definition toLowerCase :: "String \<Rightarrow> String option" where
  "toLowerCase s = rewrite_chars tolower s"

definition toUpperCase :: "String \<Rightarrow> String option" where
  "toUpperCase s = rewrite_chars toupper s"

fun skip_spaces :: "u8 list \<Rightarrow> nat option" where
  "skip_spaces [] = None"
| "skip_spaces (c # cs) = (if isspace c then map_option Suc (skip_spaces cs) else Some 0)"

fun trim_end :: "u8 list \<Rightarrow> nat \<Rightarrow> nat \<Rightarrow> nat option" where
  "trim_end b begin_pos 0 = None"
| "trim_end b begin_pos (Suc e) =
     (if length b \<le> e then None
      else if isspace (b ! e) \<and> begin_pos \<le> e then trim_end b begin_pos e else Some (Suc e))"

definition trim :: "String \<Rightarrow> String option" where
  "trim s =
     (if slen s = 0 then Some s
      else do {
        i \<leftarrow> skip_spaces (buff s);
        e \<leftarrow> trim_end (buff s) i (slen s);
        let newlen = e - i; s1 = setLen newlen s in do {
        s2 \<leftarrow> (if 0 < i then do { d \<leftarrow> get_range i newlen s1; put_range 0 d s1 } else Some s1);
        put_range newlen [0] s2 } })"

section \<open>Replacing texts\<close>

text \<open>
  The three loops of \<open>replace\<close>.  The first two go from left to right, the third,
  for a replacement longer than the text it replaces, from right to left.
\<close>

partial_function (option) replace_same :: "String \<Rightarrow> String \<Rightarrow> nat \<Rightarrow> String \<Rightarrow> String option" where
  "replace_same old new readFrom s = do {
     pat \<leftarrow> cstr 0 old;
     h \<leftarrow> cstr readFrom s;
     case strstr h pat of
       None \<Rightarrow> Some s
     | Some k \<Rightarrow> do {
         d \<leftarrow> get_range 0 (slen new) new;
         s1 \<leftarrow> put_range (readFrom + k) d s;
         replace_same old new (readFrom + k + slen new) s1 } }"

partial_function (option) replace_shrink :: "String \<Rightarrow> String \<Rightarrow> nat \<Rightarrow> nat \<Rightarrow> String \<Rightarrow> String option" where
  "replace_shrink old new readFrom writeTo s = do {
     pat \<leftarrow> cstr 0 old;
     h \<leftarrow> cstr readFrom s;
     case strstr h pat of
       None \<Rightarrow> put_range writeTo (h @ [0]) s
     | Some n \<Rightarrow> do {
         d \<leftarrow> get_range readFrom n s;
         s1 \<leftarrow> put_range writeTo d s;
         e \<leftarrow> get_range 0 (slen new) new;
         s2 \<leftarrow> put_range (writeTo + n) e s1;
         replace_shrink old new (readFrom + n + slen old) (writeTo + n + slen new) (setLen (slen s2 - (slen old - slen new)) s2) } }"

partial_function (option) grown_size :: "String \<Rightarrow> nat \<Rightarrow> nat \<Rightarrow> nat \<Rightarrow> String \<Rightarrow> nat option" where
  "grown_size old diff readFrom sz s = do {
     pat \<leftarrow> cstr 0 old;
     h \<leftarrow> cstr readFrom s;
     case strstr h pat of None \<Rightarrow> Some sz | Some k \<Rightarrow> grown_size old diff (readFrom + k + slen old) (sz + diff) s }"

partial_function (option) replace_grow :: "String \<Rightarrow> String \<Rightarrow> int \<Rightarrow> String \<Rightarrow> String option" where
  "replace_grow old new index s =
     (if index < 0 then Some s
      else do {
        i \<leftarrow> lastIndexOf_from old (nat index) s;
        if i < 0 then Some s
        else let readFrom = nat i + slen old; diff = slen new - slen old; newLen = slen s + diff in
          if slen s < readFrom then None
          else do {
            d \<leftarrow> get_range readFrom (slen s - readFrom) s;
            s1 \<leftarrow> put_range (readFrom + diff) d s;
            e \<leftarrow> get_range 0 (slen new) new;
            s2 \<leftarrow> put_range (nat i) e s1;
            s3 \<leftarrow> put_range newLen [0] (setLen newLen s2);
            replace_grow old new (i - 1) s3 } })"

definition replace_String :: "alloc_env \<Rightarrow> String \<Rightarrow> String \<Rightarrow> String \<Rightarrow> String option" where
  "replace_String al old new s =
     (if slen s = 0 \<or> slen old = 0 then Some s
      else if slen new = slen old then replace_same old new 0 s
      else if slen new < slen old then replace_shrink old new 0 0 s
      else do {
        sz \<leftarrow> grown_size old (slen new - slen old) 0 (slen s) s;
        if sz = slen s then Some s
        else if capacity s < sz
        then (case changeBuffer al sz s of (ok, s1) \<Rightarrow> if \<not> ok then Some s1 else replace_grow old new (int (slen s1) - 1) s1)
        else replace_grow old new (int (slen s) - 1) s })"

text \<open>A short string in the object's own buffer.\<close>

definition short_String :: "string \<Rightarrow> String" where
  "short_String t = \<lparr>isHeap = False, slen = length t, cap = 0, buff = map of_char t @ replicate (SSOSIZE - length t) 0\<rparr>"

section \<open>Strings without embedded zero bytes\<close>

definition plain :: "String \<Rightarrow> bool" where
  "plain s \<longleftrightarrow> wf_String s \<and> 0 \<notin> set (content s)"

lemma plain_buff: "plain s \<Longrightarrow> \<exists>r. buff s = content s @ 0 # r"
proof -
  assume p: "plain s"
  then have "slen s < length (buff s)" "buff s ! slen s = 0" by (auto simp: plain_def wf_String_def)
  then have "buff s = take (slen s) (buff s) @ 0 # drop (Suc (slen s)) (buff s)" by (metis id_take_nth_drop)
  then show ?thesis unfolding content_def by blast
qed

lemma plain_length: "plain s \<Longrightarrow> length (content s) = slen s"
  by (simp add: plain_def length_content)

lemma cstr_plain: "plain s \<Longrightarrow> i \<le> slen s \<Longrightarrow> cstr i s = Some (drop i (content s))"
proof -
  assume p: "plain s" and i: "i \<le> slen s"
  obtain r where r: "buff s = content s @ 0 # r" using plain_buff [OF p] by blast
  have d: "drop i (buff s) = drop i (content s) @ 0 # r" using i plain_length [OF p] by (simp add: r)
  have z: "c \<noteq> 0" if "c \<in> set (drop i (content s))" for c using that p in_set_dropD unfolding plain_def by metis
  have "takeWhile (\<lambda>c. c \<noteq> 0) (drop i (content s) @ 0 # r) = drop i (content s)" using z by (subst takeWhile_append2) auto
  then show ?thesis by (simp add: cstr_def d)
qed

lemma strcmp_eq_0: "0 \<notin> set cs \<Longrightarrow> 0 \<notin> set ds \<Longrightarrow> strcmp cs ds = 0 \<longleftrightarrow> cs = ds"
  by (induction cs ds rule: strcmp.induct) (auto simp: uint_0_iff dest: word_uint_eq_iff [THEN iffD2])

lemma compareTo_plain: "plain s \<Longrightarrow> plain t \<Longrightarrow> compareTo t s = Some (strcmp (content s) (content t))"
  by (simp add: compareTo_def cstr_plain)

lemma equals_plain: "plain s \<Longrightarrow> plain t \<Longrightarrow> equals t s = Some (content s = content t)"
  using plain_length [of s] plain_length [of t] by (auto simp: equals_def compareTo_plain strcmp_eq_0 plain_def)

lemma constant_time_run:
  "0 \<notin> set cs \<Longrightarrow> 0 \<notin> set ds \<Longrightarrow> length cs = length ds \<Longrightarrow>
   \<exists>e' d'. constant_time_loop (cs @ 0 # r) (ds @ q) e d = Some (e', d') \<and> (d' = d \<longleftrightarrow> cs = ds) \<and> d \<le> d' \<and> e' + d' = e + d + length cs"
proof (induction cs arbitrary: ds e d)
  case (Cons c cs)
  then obtain x ds1 where ds: "ds = x # ds1" by (cases ds) auto
  then have h: "0 \<notin> set cs" "0 \<notin> set ds1" "length cs = length ds1" "c \<noteq> 0" using Cons.prems by auto
  show ?case
  proof (cases "c = x")
    case True
    then show ?thesis using Cons.IH [OF h(1-3), of "e + 1" d] h(4) by (auto simp: ds)
  next
    case False
    then show ?thesis using Cons.IH [OF h(1-3), of e "d + 1"] h(4) by (auto simp: ds)
  qed
qed simp

lemma constant_time_plain: "plain s \<Longrightarrow> plain t \<Longrightarrow> equalsConstantTime t s = Some (if content s = content t then 1 else 0)"
proof -
  assume s: "plain s" and t: "plain t"
  note len = plain_length [OF s] plain_length [OF t]
  show ?thesis
  proof (cases "slen s = slen t \<and> slen s \<noteq> 0")
    case True
    obtain r where r: "buff s = content s @ 0 # r" using plain_buff [OF s] by blast
    obtain q where q: "buff t = content t @ 0 # q" using plain_buff [OF t] by blast
    obtain e d where "constant_time_loop (buff s) (buff t) 0 0 = Some (e, d)" "d = 0 \<longleftrightarrow> content s = content t" "e + d = slen s"
      using constant_time_run [of "content s" "content t" r "0 # q" 0 0] True len s t by (auto simp: r q plain_def)
    then show ?thesis using True by (auto simp: equalsConstantTime_def)
  qed (use len in \<open>auto simp: equalsConstantTime_def\<close>)
qed

lemma startsWith_plain: "plain s \<Longrightarrow> plain t \<Longrightarrow> startsWith t s = Some (take (slen t) (content s) = content t)"
proof -
  assume s: "plain s" and t: "plain t"
  note len = plain_length [OF s] plain_length [OF t]
  have z: "0 \<notin> set (take n (content s))" "0 \<notin> set (content t)" for n
    using s t in_set_takeD unfolding plain_def by metis+
  show ?thesis
  proof (cases "slen s < slen t")
    case True
    then show ?thesis using len by (auto simp: startsWith_def dest: arg_cong [of _ _ length])
  next
    case False
    then show ?thesis using len z
      by (simp add: startsWith_def startsWith_at_def cstr_plain [OF s] cstr_plain [OF t] strncmp_def strcmp_eq_0)
  qed
qed

lemma endsWith_plain: "plain s \<Longrightarrow> plain t \<Longrightarrow> endsWith t s = Some (\<exists>u. content s = u @ content t)"
proof -
  assume s: "plain s" and t: "plain t"
  note len = plain_length [OF s] plain_length [OF t]
  have z: "0 \<notin> set (drop n (content s))" "0 \<notin> set (content t)" for n
    using s t in_set_dropD unfolding plain_def by metis+
  show ?thesis
  proof (cases "slen s < slen t")
    case True
    then show ?thesis using len by (auto simp: endsWith_def)
  next
    case False
    have "drop (slen s - slen t) (content s) = content t \<longleftrightarrow> (\<exists>u. content s = u @ content t)"
    proof
      assume "drop (slen s - slen t) (content s) = content t"
      then show "\<exists>u. content s = u @ content t" by (metis append_take_drop_id)
    next
      assume "\<exists>u. content s = u @ content t"
      then obtain u where "content s = u @ content t" by blast
      then show "drop (slen s - slen t) (content s) = content t" using len by auto
    qed
    then show ?thesis using False len z by (simp add: endsWith_def cstr_plain [OF s] cstr_plain [OF t] strcmp_eq_0)
  qed
qed

text \<open>\<open>strstr\<close> finds the first place where the text occurs.\<close>

definition occurs :: "u8 list \<Rightarrow> nat \<Rightarrow> u8 list \<Rightarrow> bool" where
  "occurs pat i h \<longleftrightarrow> i + length pat \<le> length h \<and> take (length pat) (drop i h) = pat"

lemma occurs_Suc [simp]: "occurs pat (Suc i) (c # h) \<longleftrightarrow> occurs pat i h"
  by (simp add: occurs_def)

lemma occurs_0: "occurs pat 0 h \<longleftrightarrow> take (length pat) h = pat"
  by (auto simp: occurs_def dest: arg_cong [of _ _ length])

lemma strstr_first:
  "case strstr h pat of None \<Rightarrow> (\<forall>i. \<not> occurs pat i h) | Some k \<Rightarrow> occurs pat k h \<and> (\<forall>i < k. \<not> occurs pat i h)"
proof (induction h)
  case Nil
  then show ?case by (auto simp: occurs_def)
next
  case (Cons c h)
  show ?case
  proof (cases "take (length pat) (c # h) = pat")
    case True
    then show ?thesis by (simp add: occurs_0)
  next
    case False
    then have n: "\<not> occurs pat 0 (c # h)" by (simp add: occurs_0)
    have "\<not> occurs pat i (c # h)" if "\<And>j. i = Suc j \<Longrightarrow> \<not> occurs pat j h" for i using that n by (cases i) auto
    then show ?thesis using Cons False n by (auto split: option.splits simp: less_Suc_eq_0_disj)
  qed
qed

lemma occurs_drop: "i \<le> length h \<Longrightarrow> occurs pat k (drop i h) \<longleftrightarrow> occurs pat (i + k) h"
  by (auto simp: occurs_def add.commute)

lemma indexOf_plain:
  assumes "plain s" and "plain t" and "i < slen s"
  shows "\<exists>r. indexOf t i s = Some r \<and>
    (if r = - 1 then \<forall>k \<ge> i. \<not> occurs (content t) k (content s)
     else i \<le> nat r \<and> 0 \<le> r \<and> occurs (content t) (nat r) (content s) \<and> (\<forall>k. i \<le> k \<and> k < nat r \<longrightarrow> \<not> occurs (content t) k (content s)))"
proof -
  have shift: "occurs (content t) k (drop i (content s)) \<longleftrightarrow> occurs (content t) (i + k) (content s)" for k
    using assms(3) plain_length [OF assms(1)] by (intro occurs_drop) simp
  have up: "\<exists>j. k = i + j" if "i \<le> k" for k using that le_Suc_ex by blast
  show ?thesis using strstr_first [where h = "drop i (content s)" and pat = "content t"] assms(3)
    by (auto simp: indexOf_def indexOf_cstr_def cstr_plain [OF assms(1)] cstr_plain [OF assms(2)] shift nat_int_add split: option.splits dest!: up)
qed

lemma map_chars_plain: "0 \<notin> set cs \<Longrightarrow> map_chars f (cs @ 0 # r) = Some (map f cs @ 0 # r)"
  by (induction cs) auto

text \<open>Rewriting characters keeps the length and maps the text.\<close>

lemma rewrite_plain: "plain s \<Longrightarrow> \<exists>s'. rewrite_chars f s = Some s' \<and> wf_String s' \<and> content s' = map f (content s)"
proof -
  assume s: "plain s"
  obtain r where r: "buff s = content s @ 0 # r" using plain_buff [OF s] by blast
  let ?s = "s\<lparr>buff := map f (content s) @ 0 # r\<rparr>"
  have "rewrite_chars f s = Some ?s" using s by (subst rewrite_chars_def) (simp add: r map_chars_plain plain_def)
  moreover have "wf_String ?s"
  proof -
    have "length (buff ?s) = length (buff s)" "capacity ?s = capacity s" "buff ?s ! slen s = 0"
      using plain_length [OF s] by (simp_all add: r capacity_def nth_append)
    then show ?thesis using s unfolding plain_def wf_String_def by simp
  qed
  moreover have "content ?s = map f (content s)" using plain_length [OF s] by (simp add: content_def)
  ultimately show ?thesis by blast
qed

lemma replace_char_plain: "plain s \<Longrightarrow>
    \<exists>s'. replace_char a b s = Some s' \<and> wf_String s' \<and> content s' = map (\<lambda>c. if c = a then b else c) (content s)"
  unfolding replace_char_def by (rule rewrite_plain)

lemma short_String_wf: "length t < SSOSIZE \<Longrightarrow> wf_String (short_String t)"
  by (auto simp: wf_String_def short_String_def capacity_def SSOSIZE_def nth_append)

lemma short_String_content: "length t < SSOSIZE \<Longrightarrow> content (short_String t) = map of_char t"
  by (simp add: content_def short_String_def)

lemma short_String_sel: "slen (short_String t) = length t" "capacity (short_String t) = 10"
  by (simp_all add: short_String_def capacity_def SSOSIZE_def)

section \<open>Properties\<close>

text \<open>C17: Appending bytes to a well-formed string stays inside its buffer, says whether it took
  place, and does exactly when the new length fits the present buffer or the allocator gives a larger one of at most 65535
  bytes; then the text is the old one followed by the bytes, and otherwise the string is unchanged.\<close>

theorem string_append:
  assumes "wf_String s" and "slen s + length t < 2 ^ 32 - 16"
  shows "\<exists>s'. concat_bytes al (Some t) s = Some (t = [] \<or> fits al (slen s + length t) s, s') \<and> wf_String s' \<and>
    content s' = (if t = [] \<or> fits al (slen s + length t) s then content s @ t else content s) \<and>
    (\<not> fits al (slen s + length t) s \<longrightarrow> s' = s)"
  by (rule concat_spec [OF assms])

theorem string_append_witness:
  "\<exists>s'. concat_bytes \<lparr>gives = (\<lambda>_. False), leftover = (\<lambda>_. 0)\<rparr> (Some (map of_char ''cd'')) (short_String ''ab'') = Some (True, s') \<and>
     content s' = map of_char ''abcd''"
  using string_append [of "short_String ''ab''" "map of_char ''cd''" "\<lparr>gives = (\<lambda>_. False), leftover = (\<lambda>_. 0)\<rparr>"]
  by (auto simp: short_String_wf short_String_content fits_def short_String_sel SSOSIZE_def)

text \<open>Inserting a text and removing a range act on the text of a well-formed string as on a
  list, keep the string well-formed and never leave the buffer; an insertion that does not fit changes nothing of the text.\<close>

lemma string_insert_remove:
  assumes "wf_String s" and "slen s + length t < 2 ^ 32 - 16" and "i \<le> slen s"
  shows "(\<exists>s'. insert_bytes al i t s = Some s' \<and> wf_String s' \<and>
      content s' = (if fits al (slen s + length t) s then take i (content s) @ t @ drop i (content s) else content s)) \<and>
    (\<exists>s'. remove_String i n s = Some s' \<and> wf_String s' \<and> content s' = take i (content s) @ drop (i + n) (content s))"
  using insert_spec [OF assms, of al] remove_spec [OF assms(1), of i n] by (rule conjI)

lemma string_insert_remove_witness:
  "\<exists>s'. remove_String 1 2 (short_String ''abcd'') = Some s' \<and> content s' = map of_char ''ad''"
  using string_insert_remove [of "short_String ''abcd''" "[]" 1 "\<lparr>gives = (\<lambda>_. False), leftover = (\<lambda>_. 0)\<rparr>" 2]
  by (auto simp: short_String_wf short_String_content short_String_sel SSOSIZE_def)

text \<open>On strings without embedded zero bytes the tests for equality, the constant-time one
  included, for a prefix and for a suffix decide what they say of the texts, and \<open>indexOf\<close> gives the first place of the
  text from the start position on, or -1 when there is none.\<close>

lemma string_queries:
  assumes "plain s" and "plain t" and "i < slen s"
  shows "equals t s = Some (content s = content t) \<and>
    equalsConstantTime t s = Some (if content s = content t then 1 else 0) \<and>
    startsWith t s = Some (take (slen t) (content s) = content t) \<and>
    endsWith t s = Some (\<exists>u. content s = u @ content t) \<and>
    (\<exists>r. indexOf t i s = Some r \<and>
      (if r = - 1 then \<forall>k \<ge> i. \<not> occurs (content t) k (content s)
       else i \<le> nat r \<and> 0 \<le> r \<and> occurs (content t) (nat r) (content s) \<and>
         (\<forall>k. i \<le> k \<and> k < nat r \<longrightarrow> \<not> occurs (content t) k (content s))))"
  by (intro conjI equals_plain constant_time_plain startsWith_plain endsWith_plain indexOf_plain assms)

lemma string_queries_witness:
  "equals (short_String ''b'') (short_String ''ab'') = Some False \<and> startsWith (short_String ''b'') (short_String ''ab'') = Some False"
proof -
  have "plain (short_String ''ab'')" "plain (short_String ''b'')" "0 < slen (short_String ''ab'')"
    by (simp_all add: plain_def short_String_wf short_String_content SSOSIZE_def) (simp add: short_String_def)
  from string_queries [OF this] show ?thesis by (simp add: short_String_content SSOSIZE_def) (simp add: short_String_def)
qed



text \<open>A cleared string keeps its text in the buffer, and is not equal to an empty string.\<close>

lemma clear_keeps_text:
  "slen (clear_String (short_String ''abc'')) = 0 \<and> equals init_String (clear_String (short_String ''abc'')) = Some False"
  by (simp add: clear_String_def setLen_def short_String_def equals_def init_String_def compareTo_def cstr_def SSOSIZE_def)

end
