(* ===== verification/Base64.thy ===== *)
theory Base64
  imports Wstring_Search
begin

text \<open>
  The Base64 coder \<open>cores/esp8266/libb64\<close> and its use by \<open>cores/esp8266/base64.cpp\<close>.  Coder and decoder keep their
  place inside a group of characters between calls, so both are state machines stepped by one character.
\<close>

section \<open>Encoder\<close>

definition BASE64_CHARS_PER_LINE :: nat where "BASE64_CHARS_PER_LINE = 72"

datatype base64_encodestep = step_A | step_B | step_C

record base64_encodestate =
  e_step :: base64_encodestep
  e_result :: u8
  stepcount :: int
  stepsnewline :: int

definition base64_init_encodestate :: base64_encodestate where
  "base64_init_encodestate = \<lparr>e_step = step_A, e_result = 0, stepcount = 0, stepsnewline = int BASE64_CHARS_PER_LINE\<rparr>"

definition base64_init_encodestate_nonewlines :: base64_encodestate where
  "base64_init_encodestate_nonewlines = base64_init_encodestate\<lparr>stepsnewline := - 1\<rparr>"

definition base64_encode_value :: "u8 \<Rightarrow> u8" where
  "base64_encode_value n =
     (if n < 26 then n + of_char CHR ''A''
      else if n < 26 + 26 then n - 26 + of_char CHR ''a''
      else if n < 26 + 26 + 10 then n - 26 - 26 + of_char CHR ''0''
      else if n = 62 then of_char CHR ''+''
      else of_char CHR ''/'')"

fun encode_char :: "u8 \<Rightarrow> base64_encodestate \<Rightarrow> u8 list \<times> base64_encodestate" where
  "encode_char fragment st = (case e_step st of
     step_A \<Rightarrow>
       ([base64_encode_value (drop_bit 2 (fragment AND 0xfc))],
        st\<lparr>e_step := step_B, e_result := push_bit 4 (fragment AND 0x03)\<rparr>)
   | step_B \<Rightarrow>
       ([base64_encode_value (e_result st OR drop_bit 4 (fragment AND 0xf0))],
        st\<lparr>e_step := step_C, e_result := push_bit 2 (fragment AND 0x0f)\<rparr>)
   | step_C \<Rightarrow>
       (let r = fragment AND 0x3f; out = [base64_encode_value (e_result st OR drop_bit 6 (fragment AND 0xc0)), base64_encode_value r];
          n = stepcount st + 1 in
        if n = int (BASE64_CHARS_PER_LINE div 4) \<and> 0 < stepsnewline st
        then (out @ [of_char CHR 0x0A], st\<lparr>e_step := step_A, e_result := r, stepcount := 0\<rparr>)
        else (out, st\<lparr>e_step := step_A, e_result := r, stepcount := n\<rparr>)))"

declare encode_char.simps [simp del]

fun base64_encode_block :: "u8 list \<Rightarrow> base64_encodestate \<Rightarrow> u8 list \<times> base64_encodestate" where
  "base64_encode_block [] st = ([], st)"
| "base64_encode_block (c # cs) st =
     (case encode_char c st of (out, st1) \<Rightarrow> case base64_encode_block cs st1 of (outs, st2) \<Rightarrow> (out @ outs, st2))"

definition base64_encode_blockend :: "base64_encodestate \<Rightarrow> u8 list" where
  "base64_encode_blockend st = (case e_step st of
     step_B \<Rightarrow> [base64_encode_value (e_result st), of_char CHR ''='', of_char CHR ''='']
   | step_C \<Rightarrow> [base64_encode_value (e_result st), of_char CHR ''='']
   | step_A \<Rightarrow> [])"

definition base64_encode_chars :: "u8 list \<Rightarrow> u8 list" where
  "base64_encode_chars plaintext = (case base64_encode_block plaintext base64_init_encodestate of (out, st) \<Rightarrow> out @ base64_encode_blockend st)"

section \<open>Decoder\<close>

definition decoding :: "int list" where
  "decoding = [62, -1, -1, -1, 63, 52, 53, 54, 55, 56, 57, 58, 59, 60, 61, -1, -1, -1, -2, -1, -1, -1,
     0, 1, 2, 3, 4, 5, 6, 7, 8, 9, 10, 11, 12, 13, 14, 15, 16, 17, 18, 19, 20, 21, 22, 23, 24, 25,
     -1, -1, -1, -1, -1, -1,
     26, 27, 28, 29, 30, 31, 32, 33, 34, 35, 36, 37, 38, 39, 40, 41, 42, 43, 44, 45, 46, 47, 48, 49, 50, 51]"

text \<open>
  The table is read as unsigned bytes.  The bound check lets one index past it through; \<open>beyond\<close> is the byte found there.
\<close>

definition base64_decode_value :: "u8 \<Rightarrow> u8 \<Rightarrow> int" where
  "base64_decode_value beyond value_in =
     (let v = sint (value_in - 43) in
      if v < 0 \<or> int (length decoding) < v then - 1
      else int (unat (if nat v < length decoding then of_int (decoding ! nat v) else beyond)))"

datatype base64_decodestep = step_a | step_b | step_c | step_d

record base64_decodestate =
  d_step :: base64_decodestep
  plainchar :: u8

definition base64_init_decodestate :: base64_decodestate where
  "base64_init_decodestate = \<lparr>d_step = step_a, plainchar = 0\<rparr>"

text \<open>
  One character: the bytes completed and the state after it.  Behind a completed group the
  state keeps the byte it wrote; the code keeps there what the output array holds, and overwrites it in
  the next step in both cases.
\<close>

definition decode_fragment :: "u8 \<Rightarrow> base64_decodestate \<Rightarrow> u8 list \<times> base64_decodestate" where
  "decode_fragment fragment st = (case d_step st of
     step_a \<Rightarrow> ([], \<lparr>d_step = step_b, plainchar = push_bit 2 (fragment AND 0x3f)\<rparr>)
   | step_b \<Rightarrow> ([plainchar st OR drop_bit 4 (fragment AND 0x30)], \<lparr>d_step = step_c, plainchar = push_bit 4 (fragment AND 0x0f)\<rparr>)
   | step_c \<Rightarrow> ([plainchar st OR drop_bit 2 (fragment AND 0x3c)], \<lparr>d_step = step_d, plainchar = push_bit 6 (fragment AND 0x03)\<rparr>)
   | step_d \<Rightarrow> ([plainchar st OR (fragment AND 0x3f)], \<lparr>d_step = step_a, plainchar = plainchar st OR (fragment AND 0x3f)\<rparr>))"

fun base64_decode_block :: "u8 \<Rightarrow> u8 list \<Rightarrow> base64_decodestate \<Rightarrow> u8 list \<times> base64_decodestate" where
  "base64_decode_block beyond [] st = ([], st)"
| "base64_decode_block beyond (c # cs) st =
     (let fragment = signed_take_bit 7 (base64_decode_value beyond c) in
      if fragment < 0 then base64_decode_block beyond cs st
      else case decode_fragment (of_int fragment) st of (out, st1) \<Rightarrow>
           case base64_decode_block beyond cs st1 of (outs, st2) \<Rightarrow> (out @ outs, st2))"

definition base64_decode_chars :: "u8 \<Rightarrow> u8 list \<Rightarrow> u8 list" where
  "base64_decode_chars beyond code = fst (base64_decode_block beyond code base64_init_decodestate)"

section \<open>Round trip\<close>

lemma u8_eqI: "(\<And>n. n < 8 \<Longrightarrow> bit a n = bit b n) \<Longrightarrow> a = (b :: u8)"
  by (rule bit_word_eqI) simp

lemma less_8: "n < 8 \<longleftrightarrow> n = 0 \<or> n = 1 \<or> n = 2 \<or> n = 3 \<or> n = 4 \<or> n = 5 \<or> n = 6 \<or> n = (7 :: nat)"
  by auto

lemma decode_encode_all: "list_all (\<lambda>n. signed_take_bit 7 (base64_decode_value b (base64_encode_value (of_nat n))) = int n) [0..<64]"
  by (simp add: base64_decode_value_def base64_encode_value_def decoding_def upt_rec)

lemma decode_encode: "n < 64 \<Longrightarrow> signed_take_bit 7 (base64_decode_value b (base64_encode_value n)) = int (unat n)"
proof -
  assume n: "n < 64"
  have "unat n < 64" using n by (simp add: word_less_nat_alt)
  then have "unat n \<in> set [0..<64]" by simp
  with decode_encode_all [of b] have "signed_take_bit 7 (base64_decode_value b (base64_encode_value (of_nat (unat n)))) = int (unat n)"
    unfolding list_all_iff by blast
  then show ?thesis by simp
qed

lemma decode_append:
  "base64_decode_block b (xs @ ys) st = (case base64_decode_block b xs st of (o1, st1) \<Rightarrow>
     case base64_decode_block b ys st1 of (o2, st2) \<Rightarrow> (o1 @ o2, st2))"
  by (induction xs arbitrary: st) (simp_all add: Let_def split: prod.splits)

lemma decode_value_step: "n < 64 \<Longrightarrow> base64_decode_block b (base64_encode_value n # cs) st =
    (case decode_fragment n st of (out, st1) \<Rightarrow> case base64_decode_block b cs st1 of (outs, st2) \<Rightarrow> (out @ outs, st2))"
  using decode_encode [of n b] by (simp add: Let_def split: prod.splits)

lemma decode_skip: "base64_decode_block b (of_char CHR 0x0A # cs) st = base64_decode_block b cs st"
    "base64_decode_block b (of_char CHR ''='' # cs) st = base64_decode_block b cs st"
  by (simp_all add: base64_decode_value_def decoding_def Let_def)

text \<open>
  Encoder and decoder after the same text: the bits of a byte the decoder has not completed
  are those the encoder has not sent.
\<close>

fun in_step :: "base64_encodestate \<Rightarrow> base64_decodestate \<Rightarrow> u8 list \<Rightarrow> bool" where
  "in_step es ds [] \<longleftrightarrow> e_step es = step_A \<and> d_step ds = step_a"
| "in_step es ds [c] \<longleftrightarrow>
     (e_step es = step_B \<and> e_result es = push_bit 4 (c AND 0x03) \<and> d_step ds = step_b \<and> plainchar ds = c AND 0xfc) \<or>
     (e_step es = step_C \<and> e_result es = push_bit 2 (c AND 0x0f) \<and> d_step ds = step_c \<and> plainchar ds = c AND 0xf0)"
| "in_step es ds _ \<longleftrightarrow> False"

lemma small_value: "(w :: u8) AND 0xc0 = 0 \<Longrightarrow> w < 64"
proof -
  assume w: "w AND 0xc0 = 0"
  have "take_bit 6 w = w"
  proof (rule u8_eqI)
    fix n :: nat assume n: "n < 8"
    have "\<not> bit (w AND 0xc0) n" unfolding w by simp
    with n show "bit (take_bit 6 w) n = bit w n" unfolding less_8 by (elim disjE) (simp_all add: bit_simps)
  qed
  moreover have "unat (take_bit 6 w) < 64" unfolding unat_take_bit by simp
  ultimately show ?thesis by (simp add: word_less_nat_alt)
qed

lemma u8_all: "a = (b :: u8) \<longleftrightarrow> (\<forall>n < 8. bit a n = bit b n)"
  using u8_eqI by blast

lemma all_less_8: "(\<forall>n < 8. P n) \<longleftrightarrow> P 0 \<and> P 1 \<and> P 2 \<and> P 3 \<and> P 4 \<and> P 5 \<and> P 6 \<and> P (7 :: nat)"
  by (simp add: numeral_eq_Suc All_less_Suc conj_ac)

lemmas u8_bits = u8_all all_less_8 bit_simps

lemma fragment_small:
  "drop_bit 2 (c AND 0xfc) < (64 :: u8)" "push_bit 4 (p AND 0x03) OR drop_bit 4 (c AND 0xf0) < (64 :: u8)"
  "push_bit 2 (p AND 0x0f) OR drop_bit 6 (c AND 0xc0) < (64 :: u8)" "c AND 0x3f < (64 :: u8)"
  "push_bit 4 (p AND 0x03) < (64 :: u8)" "push_bit 2 (p AND 0x0f) < (64 :: u8)"
proof -
  show "drop_bit 2 (c AND 0xfc) < (64 :: u8)" by (rule small_value) (simp add: u8_bits)
  show "push_bit 4 (p AND 0x03) OR drop_bit 4 (c AND 0xf0) < (64 :: u8)" by (rule small_value) (simp add: u8_bits)
  show "push_bit 2 (p AND 0x0f) OR drop_bit 6 (c AND 0xc0) < (64 :: u8)" by (rule small_value) (simp add: u8_bits)
  show "c AND 0x3f < (64 :: u8)" by (rule small_value) (simp add: u8_bits)
  show "push_bit 4 (p AND 0x03) < (64 :: u8)" by (rule small_value) (simp add: u8_bits)
  show "push_bit 2 (p AND 0x0f) < (64 :: u8)" by (rule small_value) (simp add: u8_bits)
qed

lemma fragment_bits:
  "push_bit 2 (drop_bit 2 (c AND 0xfc) AND 0x3f) = (c AND 0xfc :: u8)"
  "(p AND 0xfc) OR drop_bit 4 ((push_bit 4 (p AND 0x03) OR drop_bit 4 (c AND 0xf0)) AND 0x30) = (p :: u8)"
  "push_bit 4 ((push_bit 4 (p AND 0x03) OR drop_bit 4 (c AND 0xf0)) AND 0x0f) = (c AND 0xf0 :: u8)"
  "(p AND 0xf0) OR drop_bit 2 ((push_bit 2 (p AND 0x0f) OR drop_bit 6 (c AND 0xc0)) AND 0x3c) = (p :: u8)"
  "push_bit 6 ((push_bit 2 (p AND 0x0f) OR drop_bit 6 (c AND 0xc0)) AND 0x03) OR (c AND 0x3f AND 0x3f) = (c :: u8)"
  "(p AND 0xfc) OR drop_bit 4 (push_bit 4 (p AND 0x03) AND 0x30) = (p :: u8)"
  "(p AND 0xf0) OR drop_bit 2 (push_bit 2 (p AND 0x0f) AND 0x3c) = (p :: u8)"
  by (simp_all add: u8_bits) (simp_all add: numeral_2_eq_2 numeral_3_eq_3, blast?)

lemma in_step_char:
  assumes "in_step es ds pend" and "encode_char c es = (out, es')"
  shows "\<exists>o1 ds' pend'. base64_decode_block b out ds = (o1, ds') \<and> in_step es' ds' pend' \<and> o1 @ pend' = pend @ [c]"
proof (cases "e_step es")
  case step_A
  with assms(1) have p: "pend = []" "d_step ds = step_a" by (cases "(es, ds, pend)" rule: in_step.cases; simp)+
  have "base64_decode_block b out ds = ([], \<lparr>d_step = step_b, plainchar = c AND 0xfc\<rparr>)"
    using assms(2) step_A p decode_value_step [OF fragment_small(1), of b c "[]" ds] fragment_bits(1) [of c]
    by (auto simp: encode_char.simps decode_fragment_def)
  moreover have "in_step es' \<lparr>d_step = step_b, plainchar = c AND 0xfc\<rparr> [c]" using assms(2) step_A by (auto simp: encode_char.simps)
  ultimately show ?thesis using p(1) by auto
next
  case step_B
  then obtain p where p: "pend = [p]" "e_result es = push_bit 4 (p AND 0x03)" "d_step ds = step_b" "plainchar ds = p AND 0xfc"
    using assms(1) by (cases "(es, ds, pend)" rule: in_step.cases) auto
  have "base64_decode_block b out ds = ([p], \<lparr>d_step = step_c, plainchar = c AND 0xf0\<rparr>)"
    using assms(2) step_B p decode_value_step [OF fragment_small(2), of b p c "[]" ds] fragment_bits(2,3) [of p c]
    by (auto simp: encode_char.simps decode_fragment_def)
  moreover have "in_step es' \<lparr>d_step = step_c, plainchar = c AND 0xf0\<rparr> [c]" using assms(2) step_B by (auto simp: encode_char.simps)
  ultimately show ?thesis using p(1) by auto
next
  case step_C
  then obtain p where p: "pend = [p]" "e_result es = push_bit 2 (p AND 0x0f)" "d_step ds = step_c" "plainchar ds = p AND 0xf0"
    using assms(1) by (cases "(es, ds, pend)" rule: in_step.cases) auto
  let ?v = "base64_encode_value (push_bit 2 (p AND 0x0f) OR drop_bit 6 (c AND 0xc0))"
  let ?w = "base64_encode_value (c AND 0x3f)"
  obtain tl where out: "out = ?v # ?w # tl" "tl = [] \<or> tl = [of_char CHR 0x0A]" "e_step es' = step_A"
    using assms(2) step_C p(2) by (auto simp: encode_char.simps Let_def split: if_splits)
  have "base64_decode_block b tl st = ([], st)" for st using out(2) decode_skip(1) [of b "[]"] by auto
  then have d: "base64_decode_block b out ds = ([p, c], \<lparr>d_step = step_a, plainchar = c\<rparr>)"
    unfolding out(1) decode_value_step [OF fragment_small(3)] decode_value_step [OF fragment_small(4)]
    using p fragment_bits(4,5) [of p c] by (simp add: decode_fragment_def)
  have i: "in_step es' \<lparr>d_step = step_a, plainchar = c\<rparr> []" using out(3) by simp
  show ?thesis
    by (rule exI [of _ "[p, c]"], rule exI [of _ "\<lparr>d_step = step_a, plainchar = c\<rparr>"], rule exI [of _ "[]"])
      (use d i p(1) in simp)
qed

lemma in_step_block:
  "in_step es ds pend \<Longrightarrow> base64_encode_block cs es = (out, es') \<Longrightarrow>
   \<exists>o1 ds' pend'. base64_decode_block b out ds = (o1, ds') \<and> in_step es' ds' pend' \<and> o1 @ pend' = pend @ cs"
proof (induction cs arbitrary: es ds pend out es')
  case (Cons c cs)
  obtain out1 es1 where e1: "encode_char c es = (out1, es1)" by force
  obtain outs es2 where e2: "base64_encode_block cs es1 = (outs, es2)" by force
  have out: "out = out1 @ outs" "es' = es2" using Cons.prems(2) by (simp_all add: e1 e2)
  obtain o1 ds1 p1 where d1: "base64_decode_block b out1 ds = (o1, ds1)" "in_step es1 ds1 p1" "o1 @ p1 = pend @ [c]"
    using in_step_char [OF Cons.prems(1) e1] by blast
  obtain o2 ds2 p2 where d2: "base64_decode_block b outs ds1 = (o2, ds2)" "in_step es2 ds2 p2" "o2 @ p2 = p1 @ cs"
    using Cons.IH [OF d1(2) e2] by blast
  have "o1 @ o2 @ p2 = pend @ c # cs" unfolding d2(3) using d1(3) by (metis append.assoc append_Cons append_Nil)
  with d1(1) d2(1,2) show ?case unfolding out by (auto simp: decode_append)
qed simp

lemma in_step_end:
  assumes "in_step es ds pend"
  shows "fst (base64_decode_block b (base64_encode_blockend es) ds) = pend"
proof (cases "e_step es")
  case step_A
  then show ?thesis using assms by (cases "(es, ds, pend)" rule: in_step.cases) (auto simp: base64_encode_blockend_def)
next
  case step_B
  then obtain p where p: "pend = [p]" "e_result es = push_bit 4 (p AND 0x03)" "d_step ds = step_b" "plainchar ds = p AND 0xfc"
    using assms by (cases "(es, ds, pend)" rule: in_step.cases) auto
  have out: "base64_encode_blockend es = base64_encode_value (push_bit 4 (p AND 0x03)) # [of_char CHR ''='', of_char CHR ''='']"
    unfolding base64_encode_blockend_def step_B p(2) by simp
  show ?thesis unfolding out decode_value_step [OF fragment_small(5)] decode_skip
    using p fragment_bits(6) [of p] by (simp add: decode_fragment_def)
next
  case step_C
  then obtain p where p: "pend = [p]" "e_result es = push_bit 2 (p AND 0x0f)" "d_step ds = step_c" "plainchar ds = p AND 0xf0"
    using assms by (cases "(es, ds, pend)" rule: in_step.cases) auto
  have out: "base64_encode_blockend es = base64_encode_value (push_bit 2 (p AND 0x0f)) # [of_char CHR ''='']"
    unfolding base64_encode_blockend_def step_C p(2) by simp
  show ?thesis unfolding out decode_value_step [OF fragment_small(6)] decode_skip
    using p fragment_bits(7) [of p] by (simp add: decode_fragment_def)
qed

lemma roundtrip_from:
  assumes "in_step es ds []"
  shows "fst (base64_decode_block b (fst (base64_encode_block cs es) @ base64_encode_blockend (snd (base64_encode_block cs es))) ds) = cs"
proof -
  obtain out es' where e: "base64_encode_block cs es = (out, es')" by force
  obtain o1 ds' p where d: "base64_decode_block b out ds = (o1, ds')" "in_step es' ds' p" "o1 @ p = cs"
    using in_step_block [OF assms e] by force
  show ?thesis using in_step_end [OF d(2), of b] d(1,3) by (simp add: e decode_append case_prod_beta)
qed

text \<open>C20: Decoding what the encoder makes of any bytes gives these bytes back, with its line breaks
  and its padding at the end, whatever their number.\<close>

theorem base64_roundtrip: "base64_decode_chars beyond (base64_encode_chars bs) = bs"
  using roundtrip_from [of base64_init_encodestate base64_init_decodestate beyond bs]
  by (simp add: base64_decode_chars_def base64_encode_chars_def base64_init_encodestate_def base64_init_decodestate_def case_prod_beta)

section \<open>Encoding into a String\<close>

text \<open>
  \<open>base64::encode\<close> encodes blocks of 36 bytes, each into an array of 50 bytes, and appends
  them to a \<open>String\<close> with room for the whole text.
\<close>

definition base64_encode_expected_len_nonewlines :: "nat \<Rightarrow> nat" where
  "base64_encode_expected_len_nonewlines n = (4 * n div 3 + 3) div 4 * 4"

definition base64_encode_expected_len :: "nat \<Rightarrow> nat" where
  "base64_encode_expected_len n = base64_encode_expected_len_nonewlines n + (n div (BASE64_CHARS_PER_LINE * 3 div 4) + 1)"

definition BUFSIZE :: nat where "BUFSIZE = 48"

text \<open>Storing a text and a zero byte in the array \<open>buf\<close>; None when it does not fit.\<close>

definition fill_buf :: "u8 list \<Rightarrow> u8 list option" where
  "fill_buf t = (if length t + 1 \<le> BUFSIZE + 2 then Some (takeWhile (\<lambda>c. c \<noteq> 0) t) else None)"

text \<open>\<open>base64 += buf\<close>.\<close>

definition append_buf :: "alloc_env \<Rightarrow> u8 list \<Rightarrow> String \<Rightarrow> String option" where
  "append_buf al out s = do { t \<leftarrow> fill_buf out; map_option snd (concat_bytes al (Some t) s) }"

function encode_blocks :: "alloc_env \<Rightarrow> u8 list \<Rightarrow> base64_encodestate \<Rightarrow> String \<Rightarrow> (base64_encodestate \<times> String) option" where
  "encode_blocks al data st s =
     (if data = [] then Some (st, s)
      else case base64_encode_block (take (BUFSIZE * 3 div 4) data) st of (out, st1) \<Rightarrow>
        case append_buf al out s of None \<Rightarrow> None
        | Some s1 \<Rightarrow> encode_blocks al (drop (BUFSIZE * 3 div 4) data) st1 s1)"
  by pat_completeness auto
termination by (relation "measure (\<lambda>(al, data, st, s). length data)") (auto simp: BUFSIZE_def)

declare encode_blocks.simps [simp del]

definition base64_room :: "nat \<Rightarrow> bool \<Rightarrow> nat" where
  "base64_room n doNewLines = (if doNewLines then base64_encode_expected_len n else base64_encode_expected_len_nonewlines n) + 1"

definition init_for :: "bool \<Rightarrow> base64_encodestate" where
  "init_for doNewLines = (if doNewLines then base64_init_encodestate else base64_init_encodestate_nonewlines)"

definition base64_encode :: "alloc_env \<Rightarrow> u8 list \<Rightarrow> bool \<Rightarrow> String option" where
  "base64_encode al data doNewLines = do {
     (ok, s) \<leftarrow> reserve al (base64_room (length data) doNewLines) init_String;
     if ok then do {
       (st, s1) \<leftarrow> encode_blocks al data (init_for doNewLines) s;
       if base64_encode_blockend st \<noteq> [] then append_buf al (base64_encode_blockend st) s1 else Some s1 }
     else assign_cstr al (Some (map of_char ''-FAIL-'')) s }"

text \<open>
  How much the encoder puts out: one character per byte, one more per group, and a line break
  every 18 groups when it breaks lines.
\<close>

definition phase :: "base64_encodestate \<Rightarrow> nat" where
  "phase st = (case e_step st of step_A \<Rightarrow> 0 | step_B \<Rightarrow> 1 | step_C \<Rightarrow> 2)"

definition lines_of :: "base64_encodestate \<Rightarrow> nat \<Rightarrow> nat" where
  "lines_of st k = (if 0 < stepsnewline st then (nat (stepcount st) + k) div 18 else 0)"

definition counting :: "base64_encodestate \<Rightarrow> bool" where
  "counting st \<longleftrightarrow> 0 \<le> stepcount st \<and> (0 < stepsnewline st \<longrightarrow> stepcount st < 18)"

lemma base64_value_nonzero: "base64_encode_value n \<noteq> 0"
proof -
  consider "n < 26" | "\<not> n < 26" "n < 52" | "\<not> n < 52" "n < 62" | "\<not> n < 62" by blast
  then show ?thesis
    by cases (auto simp: base64_encode_value_def word_less_nat_alt unat_word_ariths unat_arith_simps)
qed

lemma encode_char_count:
  assumes "counting st" and "encode_char c st = (out, st')"
  shows "counting st'" "stepsnewline st' = stepsnewline st" "phase st' = (phase st + 1) mod 3" "0 \<notin> set out"
    "length out + lines_of st 0 = 1 + (phase st + 1) div 3 + lines_of st ((phase st + 1) div 3)"
    "lines_of st' k + lines_of st ((phase st + 1) div 3) = lines_of st ((phase st + 1) div 3 + k)"
  using assms base64_value_nonzero
  by (cases "e_step st"; auto simp: encode_char.simps counting_def phase_def lines_of_def Let_def BASE64_CHARS_PER_LINE_def split: if_splits)+


lemma encode_block_count:
  assumes "counting st" and "base64_encode_block cs st = (out, st')"
  shows "counting st' \<and> stepsnewline st' = stepsnewline st \<and> phase st' = (phase st + length cs) mod 3 \<and> 0 \<notin> set out \<and>
    length out + lines_of st 0 = length cs + (phase st + length cs) div 3 + lines_of st ((phase st + length cs) div 3) \<and>
    (\<forall>k. lines_of st' k + lines_of st ((phase st + length cs) div 3) = lines_of st ((phase st + length cs) div 3 + k))"
  using assms
proof (induction cs arbitrary: st out st')
  case Nil
  then show ?case by (auto simp: counting_def phase_def lines_of_def split: base64_encodestep.splits)
next
  case (Cons c cs)
  obtain o1 st1 where e1: "encode_char c st = (o1, st1)" by force
  obtain o2 st2 where e2: "base64_encode_block cs st1 = (o2, st2)" by force
  have out: "out = o1 @ o2" "st' = st2" using Cons.prems(2) by (simp_all add: e1 e2)
  note c1 = encode_char_count [OF Cons.prems(1) e1]
  note c2 = Cons.IH [OF c1(1) e2]
  let ?j = "(phase st + 1) div 3" and ?k = "(phase st1 + length cs) div 3"
  have jk: "(phase st + length (c # cs)) div 3 = ?j + ?k" unfolding c1(3) list.size by presburger
  have ph: "(phase st1 + length cs) mod 3 = (phase st + length (c # cs)) mod 3" unfolding c1(3) by (simp add: mod_simps)
  have ln: "length out + lines_of st 0 = length (c # cs) + (?j + ?k) + lines_of st (?j + ?k)"
    using c2 c1(5) c1(6) [of 0] c1(6) [of ?k] by (simp add: out)
  have kk: "lines_of st2 k + lines_of st (?j + ?k) = lines_of st (?j + ?k + k)" for k
  proof -
    have "lines_of st2 k + lines_of st1 ?k = lines_of st1 (?k + k)" using c2 by blast
    then show ?thesis using c1(6) [of ?k] c1(6) [of "?k + k"] unfolding add.assoc by linarith
  qed
  show ?case unfolding jk out(2) using c2 c1(2,4) ph ln kk out(1) by auto
qed

text \<open>36 bytes and what ends the text fit in the array, with their zero.\<close>

lemma blockend_count: "length (base64_encode_blockend st) = (if phase st = 0 then 0 else 4 - phase st)" "0 \<notin> set (base64_encode_blockend st)"
  using base64_value_nonzero by (auto simp: base64_encode_blockend_def phase_def split: base64_encodestep.splits)

lemma fill_buf_whole: "length out \<le> 49 \<Longrightarrow> 0 \<notin> set out \<Longrightarrow> fill_buf out = Some out"
  by (auto simp: fill_buf_def BUFSIZE_def takeWhile_eq_all_conv)

lemma chunk_fits:
  assumes "counting st" and "phase st = 0" and "length cs \<le> 36" and "base64_encode_block cs st = (out, st')"
  shows "fill_buf out = Some out"
proof (rule fill_buf_whole)
  have k: "length cs div 3 \<le> 12" using assms(3) by linarith
  have l: "length out + lines_of st 0 = length cs + length cs div 3 + lines_of st (length cs div 3)"
    using encode_block_count [OF assms(1,4)] assms(2) by simp
  have "lines_of st (length cs div 3) \<le> 1"
    using assms(1) k by (auto simp: lines_of_def counting_def)
  then show "length out \<le> 49" using l k assms(3) by linarith
  show "0 \<notin> set out" using encode_block_count [OF assms(1,4)] by simp
qed

lemma append_buf_spec:
  assumes "wf_String s" and "fill_buf out = Some out" and "slen s + length out \<le> capacity s"
  shows "\<exists>s'. append_buf al out s = Some s' \<and> wf_String s' \<and> content s' = content s @ out \<and> capacity s' = capacity s"
proof -
  have f: "fits al (slen s + length out) s" using assms(3) by (simp add: fits_def)
  have lt: "slen s + length out < 2 ^ 32 - 16" using assms(3) capacity_bounds [OF assms(1)] by (simp add: CAPACITY_MAX_def)
  obtain s' where s': "concat_bytes al (Some out) s = Some (True, s')" "wf_String s'" "content s' = content s @ out"
    using concat_spec [OF assms(1) lt, of al] f by auto
  have "capacity s' = capacity s"
    using s'(1) assms(3) lt
    by (auto simp: concat_bytes_def reserve_def Let_def bind_eq_Some_conv put_range_sel(4) split: if_splits dest!: put_range_sel(4))
  with s' assms(2) show ?thesis by (simp add: append_buf_def)
qed


lemma encode_block_append: "base64_encode_block (xs @ ys) st = (case base64_encode_block xs st of (o1, st1) \<Rightarrow>
     case base64_encode_block ys st1 of (o2, st2) \<Rightarrow> (o1 @ o2, st2))"
  by (induction xs arbitrary: st) (simp_all split: prod.splits)

lemma encode_blocks_spec:
  assumes "counting st" and "data = [] \<or> phase st = 0" and "wf_String s"
    and "base64_encode_block data st = (out, st')" and "length (content s @ out) \<le> capacity s"
  shows "\<exists>s'. encode_blocks al data st s = Some (st', s') \<and> wf_String s' \<and> content s' = content s @ out \<and> capacity s' = capacity s"
  using assms
proof (induction "length data" arbitrary: data st s out rule: less_induct)
  case less
  show ?case
  proof (cases "data = []")
    case True
    then show ?thesis using less.prems by (simp add: encode_blocks.simps)
  next
    case False
    let ?c = "take 36 data" and ?d = "drop 36 data"
    obtain o1 st1 where e1: "base64_encode_block ?c st = (o1, st1)" by force
    obtain o2 st2 where e2: "base64_encode_block ?d st1 = (o2, st2)" by force
    have out: "out = o1 @ o2" "st' = st2"
      using less.prems(4) encode_block_append [of ?c ?d st] by (simp_all add: e1 e2)
    have n1: "counting st1" "phase st1 = length ?c mod 3"
      using encode_block_count [OF less.prems(1) e1] less.prems(2) False by simp_all
    have f: "fill_buf o1 = Some o1" using chunk_fits [OF less.prems(1) _ _ e1] less.prems(2) False by simp
    have "slen s + length o1 \<le> capacity s" using less.prems(5) out(1) length_content [OF less.prems(3)] by simp
    from append_buf_spec [OF less.prems(3) f this, of al] obtain s1 where
      a: "append_buf al o1 s = Some s1" "wf_String s1" "content s1 = content s @ o1" "capacity s1 = capacity s" by blast
    have d: "?d = [] \<or> phase st1 = 0" unfolding n1(2) by (cases "length data \<le> 36") (simp_all add: min_def)
    have "length ?d < length data" using False by simp
    moreover have "length (content s1 @ o2) \<le> capacity s1" using less.prems(5) a(3,4) out(1) by simp
    moreover note less.hyps [OF _ n1(1) d a(2)] e2 out(2)
    ultimately obtain s2 where
      r: "encode_blocks al ?d st1 s1 = Some (st', s2)" "wf_String s2" "content s2 = content s1 @ o2" "capacity s2 = capacity s1" by blast
    have "encode_blocks al data st s = Some (st', s2)"
      using False e1 a(1) r(1) by (subst encode_blocks.simps) (simp add: BUFSIZE_def)
    with r a out show ?thesis by simp
  qed
qed

lemma init_for_facts: "counting (init_for nl)" "phase (init_for nl) = 0" "lines_of (init_for nl) k = (if nl then k div 18 else 0)"
  by (simp_all add: init_for_def base64_init_encodestate_nonewlines_def base64_init_encodestate_def counting_def phase_def
      lines_of_def BASE64_CHARS_PER_LINE_def)

text \<open>The room asked for holds the whole text.\<close>

lemma groups_room: "n + n div 3 + (if n mod 3 = 0 then 0 else 4 - n mod 3) \<le> (4 * n div 3 + 3) div 4 * (4 :: nat)"
proof -
  define q where "q = n div 3"
  have n: "n = 3 * q + n mod 3" unfolding q_def by simp
  have "n mod 3 = 0 \<or> n mod 3 = 1 \<or> n mod 3 = 2" using mod_less_divisor [of 3 n] by linarith
  with n consider "n mod 3 = 0" "n = 3 * q" | "n mod 3 = 1" "n = 3 * q + 1" | "n mod 3 = 2" "n = 3 * q + 2" by (metis add_0_right)
  then show ?thesis
  proof cases
    case 1
    then show ?thesis by (simp add: q_def [symmetric])
  next
    case 2
    have "4 * n div 3 = 4 * q + 1" by (rule div_nat_eqI) (use 2 in simp_all)
    with 2 show ?thesis unfolding q_def [symmetric] by simp
  next
    case 3
    have "4 * n div 3 = 4 * q + 2" by (rule div_nat_eqI) (use 3 in simp_all)
    with 3 show ?thesis unfolding q_def [symmetric] by simp
  qed
qed

lemma room_enough:
  assumes "base64_encode_block data (init_for nl) = (out, st)"
  shows "length out + length (base64_encode_blockend st) \<le> base64_room (length data) nl"
proof -
  let ?n = "length data"
  have c: "phase st = ?n mod 3" "length out = ?n + ?n div 3 + (if nl then ?n div 3 div 18 else 0)"
    using encode_block_count [OF init_for_facts(1) assms] by (cases nl; simp add: init_for_facts)+
  have "?n + ?n div 3 + (if ?n mod 3 = 0 then 0 else 4 - ?n mod 3) \<le> (4 * ?n div 3 + 3) div 4 * 4" by (rule groups_room)
  moreover have "?n div 3 div 18 = ?n div 54" by (simp add: div_mult2_eq [symmetric])
  ultimately show ?thesis
    unfolding c(2) blockend_count(1) c(1) base64_room_def base64_encode_expected_len_def base64_encode_expected_len_nonewlines_def
    by (simp add: BASE64_CHARS_PER_LINE_def)
qed

lemma room_bound: "n < 2 ^ 30 \<Longrightarrow> base64_room n nl < 2 ^ 32 - 16"
proof -
  assume n: "n < 2 ^ 30"
  have "(4 * n div 3 + 3) div 4 * 4 \<le> 4 * n div 3 + 3" by (rule div_times_less_eq_dividend)
  also have "\<dots> \<le> 2 * n + 3" by linarith
  finally have "base64_room n nl \<le> 2 * n + 3 + n div 54 + 2"
    by (simp add: base64_room_def base64_encode_expected_len_def base64_encode_expected_len_nonewlines_def BASE64_CHARS_PER_LINE_def)
  moreover have "n div 54 \<le> n" by (rule div_le_dividend)
  ultimately show ?thesis using n by simp
qed

text \<open>Encoding into a \<open>String\<close> never writes outside the 50 byte array or the string's buffer.  When the room
  asked for is granted the string then holds the whole encoded text, whatever the number of blocks it was built
  from; when it is refused it reads \<open>-FAIL-\<close>.\<close>

lemma base64_encode_text:
  assumes "length data < 2 ^ 30"
  shows "\<exists>s. base64_encode al data nl = Some s \<and> wf_String s \<and>
    content s = (if fits al (base64_room (length data) nl) init_String
      then (case base64_encode_block data (init_for nl) of (out, st) \<Rightarrow> out @ base64_encode_blockend st)
      else map of_char ''-FAIL-'')"
proof -
  let ?n = "base64_room (length data) nl"
  obtain s where r: "reserve al ?n init_String = Some (fits al ?n init_String, s)" "wf_String s" "content s = []"
    "fits al ?n init_String \<longrightarrow> ?n \<le> capacity s" "\<not> fits al ?n init_String \<longrightarrow> s = init_String"
    using reserve_spec [OF wf_init room_bound [OF assms], of al nl] by (metis content_init)
  obtain out st where e: "base64_encode_block data (init_for nl) = (out, st)" by force
  show ?thesis
  proof (cases "fits al ?n init_String")
    case True
    have l: "length out + length (base64_encode_blockend st) \<le> capacity s" using room_enough [OF e] True r(4) by simp
    obtain s1 where b: "encode_blocks al data (init_for nl) s = Some (st, s1)" "wf_String s1" "content s1 = out" "capacity s1 = capacity s"
      using encode_blocks_spec [OF init_for_facts(1) _ r(2) e, of al] l r(3) init_for_facts(2) by auto
    have f: "fill_buf (base64_encode_blockend st) = Some (base64_encode_blockend st)"
      by (rule fill_buf_whole) (auto simp: blockend_count)
    have "slen s1 + length (base64_encode_blockend st) \<le> capacity s1" using l b(3,4) length_content [OF b(2)] by simp
    from append_buf_spec [OF b(2) f this, of al] show ?thesis
      using True r(1) b e by (auto simp: base64_encode_def)
  next
    case False
    have six: "fits al (Suc (Suc (Suc (Suc (Suc (Suc 0)))))) init_String" by (simp add: fits_def init_String_def capacity_def SSOSIZE_def)
    have "\<exists>s'. copy_String al (map of_char ''-FAIL-'') init_String = Some s' \<and> wf_String s' \<and> content s' = map of_char ''-FAIL-''"
      using copy_spec [OF wf_init, of "map of_char ''-FAIL-''" al] six by simp
    then show ?thesis using False r(1,5) by (simp add: base64_encode_def assign_cstr_def)
  qed
qed

lemma base64_encode_text_witness:
  "\<exists>s. base64_encode \<lparr>gives = (\<lambda>n. True), leftover = (\<lambda>n. 0)\<rparr> [77, 97] False = Some s \<and> content s = map of_char ''TWE=''"
  using base64_encode_text [of "[77, 97]" "\<lparr>gives = (\<lambda>n. True), leftover = (\<lambda>n. 0)\<rparr>" False]
  by (simp add: fits_def base64_room_def base64_encode_expected_len_nonewlines_def new_size_def CAPACITY_MAX_def init_for_def
      base64_init_encodestate_nonewlines_def base64_init_encodestate_def encode_char.simps base64_encode_value_def base64_encode_blockend_def
      init_String_def capacity_def SSOSIZE_def) auto

end
