(* ===== verification/Flash_Area.thy ===== *)
theory Flash_Area
  imports Prelude
begin

text \<open>
  The boot loader's view of the SPI flash (\<open>bootloaders/eboot/flash.h\<close>,
  \<open>flash.c\<close>): the image headers, the routines of the mask ROM as parameters, and
  \<open>SPIEraseAreaEx\<close>, which erases an area by sectors and blocks.

  The ROM routines are not part of the repository.  They are the fields of the
  record \<open>spi_rom\<close>, over an abstract device state; \<open>nor_flash\<close> states what
  the code relies on: the documented behaviour of a NOR flash, in terms of the
  byte contents of the device.
\<close>

section \<open>Geometry and headers\<close>

definition FLASH_SECTOR_SIZE :: nat where "FLASH_SECTOR_SIZE = 0x1000"
definition FLASH_BLOCK_SIZE :: nat where "FLASH_BLOCK_SIZE = 0x10000"
definition APP_START_OFFSET :: u32 where "APP_START_OFFSET = 0x1000"

record image_header_t =
  image_magic :: u8
  num_segments :: u8
  flash_mode :: u8
  flash_size_freq :: u8
  entry :: u32

record section_header_t =
  address :: u32
  section_size :: u32

definition image_header_of :: "u8 list \<Rightarrow> image_header_t" where
  "image_header_of bs =
     \<lparr>image_magic = bs ! 0, num_segments = bs ! 1, flash_mode = bs ! 2, flash_size_freq = bs ! 3,
      entry = word_of (bs ! 4) (bs ! 5) (bs ! 6) (bs ! 7)\<rparr>"

definition section_header_of :: "u8 list \<Rightarrow> section_header_t" where
  "section_header_of bs =
     \<lparr>address = word_of (bs ! 0) (bs ! 1) (bs ! 2) (bs ! 3),
      section_size = word_of (bs ! 4) (bs ! 5) (bs ! 6) (bs ! 7)\<rparr>"

section \<open>The ROM routines\<close>

text \<open>Each routine returns 0 for success; a read also returns the bytes of its buffer.\<close>

record 'f spi_rom =
  SPIRead :: "'f \<Rightarrow> u32 \<Rightarrow> nat \<Rightarrow> int \<times> u8 list"
  SPIWrite :: "'f \<Rightarrow> u32 \<Rightarrow> u8 list \<Rightarrow> int \<times> 'f"
  SPIEraseSector :: "'f \<Rightarrow> u32 \<Rightarrow> int \<times> 'f"
  SPIEraseBlock :: "'f \<Rightarrow> u32 \<Rightarrow> int \<times> 'f"

definition nor_flash :: "'f spi_rom \<Rightarrow> ('f \<Rightarrow> nat \<Rightarrow> u8) \<Rightarrow> bool" where
  "nor_flash rom content \<longleftrightarrow>
     (\<forall>f a n bs. SPIRead rom f a n = (0, bs) \<longrightarrow> bs = map (content f) [unat a ..< unat a + n]) \<and>
     (\<forall>f a bs f'. SPIWrite rom f a bs = (0, f') \<longrightarrow>
        (\<forall>i. content f' i = (if unat a \<le> i \<and> i < unat a + length bs
               then content f i AND bs ! (i - unat a) else content f i))) \<and>
     (\<forall>f s f'. SPIEraseSector rom f s = (0, f') \<longrightarrow>
        (\<forall>i. content f' i = (if i div FLASH_SECTOR_SIZE = unat s then 0xff else content f i))) \<and>
     (\<forall>f b f'. SPIEraseBlock rom f b = (0, f') \<longrightarrow>
        (\<forall>i. content f' i = (if i div FLASH_BLOCK_SIZE = unat b then 0xff else content f i)))"

lemma nor_flash_read:
  "nor_flash rom content \<Longrightarrow> SPIRead rom f a n = (0, bs) \<Longrightarrow> bs = map (content f) [unat a ..< unat a + n]"
  by (simp add: nor_flash_def)

lemma nor_flash_write:
  "nor_flash rom content \<Longrightarrow> SPIWrite rom f a bs = (0, f') \<Longrightarrow>
   content f' i = (if unat a \<le> i \<and> i < unat a + length bs
     then content f i AND bs ! (i - unat a) else content f i)"
  by (simp add: nor_flash_def)

lemma nor_flash_erase_sector:
  "nor_flash rom content \<Longrightarrow> SPIEraseSector rom f s = (0, f') \<Longrightarrow>
   content f' i = (if i div FLASH_SECTOR_SIZE = unat s then 0xff else content f i)"
  by (simp add: nor_flash_def)

lemma nor_flash_erase_block:
  "nor_flash rom content \<Longrightarrow> SPIEraseBlock rom f b = (0, f') \<Longrightarrow>
   content f' i = (if i div FLASH_BLOCK_SIZE = unat b then 0xff else content f i)"
  by (simp add: nor_flash_def)

section \<open>Erasing an area\<close>

text \<open>
  Sector numbers are below \<open>2 ^ 20\<close> and sector counts at most \<open>2 ^ 20\<close>, so the
  32-bit sums of the loops never wrap and the loops run on natural numbers; the
  rounding of \<open>size\<close> is done at 32 bits, where it can wrap.  The alignment test is
  written in the source as \<open>start & (FLASH_SECTOR_SIZE - 1) != 0\<close>, which C parses
  as \<open>start & ((FLASH_SECTOR_SIZE - 1) != 0)\<close>, that is \<open>start & 1\<close>.
\<close>

definition sectors_per_block :: nat where
  "sectors_per_block = FLASH_BLOCK_SIZE div FLASH_SECTOR_SIZE"

function erase_head :: "'f spi_rom \<Rightarrow> nat \<Rightarrow> nat \<Rightarrow> 'f \<Rightarrow> int \<times> nat \<times> 'f" where
  "erase_head rom stop cur f =
     (if cur < stop \<and> cur mod sectors_per_block \<noteq> 0
      then (case SPIEraseSector rom f (of_nat cur) of (res, f') \<Rightarrow>
              if res \<noteq> 0 then (2, cur, f') else erase_head rom stop (cur + 1) f')
      else (0, cur, f))"
  by pat_completeness auto
termination by (relation "measure (\<lambda>(rom, stop, cur, f). stop - cur)") auto

function erase_blocks :: "'f spi_rom \<Rightarrow> nat \<Rightarrow> nat \<Rightarrow> 'f \<Rightarrow> int \<times> nat \<times> 'f" where
  "erase_blocks rom stop cur f =
     (if cur + sectors_per_block \<le> stop
      then (case SPIEraseBlock rom f (of_nat (cur div sectors_per_block)) of (res, f') \<Rightarrow>
              if res \<noteq> 0 then (3, cur, f') else erase_blocks rom stop (cur + sectors_per_block) f')
      else (0, cur, f))"
  by pat_completeness auto
termination
  by (relation "measure (\<lambda>(rom, stop, cur, f). stop - cur)")
    (auto simp: sectors_per_block_def FLASH_BLOCK_SIZE_def FLASH_SECTOR_SIZE_def)

function erase_tail :: "'f spi_rom \<Rightarrow> nat \<Rightarrow> nat \<Rightarrow> 'f \<Rightarrow> int \<times> nat \<times> 'f" where
  "erase_tail rom stop cur f =
     (if cur < stop
      then (case SPIEraseSector rom f (of_nat cur) of (res, f') \<Rightarrow>
              if res \<noteq> 0 then (4, cur, f') else erase_tail rom stop (cur + 1) f')
      else (0, cur, f))"
  by pat_completeness auto
termination by (relation "measure (\<lambda>(rom, stop, cur, f). stop - cur)") auto

declare erase_head.simps [simp del] erase_blocks.simps [simp del] erase_tail.simps [simp del]

definition area_first :: "u32 \<Rightarrow> nat" where
  "area_first start = unat start div FLASH_SECTOR_SIZE"

definition area_count :: "u32 \<Rightarrow> nat" where
  "area_count sz = unat (sz + of_nat FLASH_SECTOR_SIZE - 1) div FLASH_SECTOR_SIZE"

definition SPIEraseAreaEx :: "'f spi_rom \<Rightarrow> u32 \<Rightarrow> u32 \<Rightarrow> 'f \<Rightarrow> int \<times> 'f" where
  "SPIEraseAreaEx rom start sz f =
     (if start AND (if FLASH_SECTOR_SIZE - 1 \<noteq> 0 then 1 else 0) \<noteq> 0 then (1, f)
      else let stop = area_first start + area_count sz in
        case erase_head rom stop (area_first start) f of (r1, c1, f1) \<Rightarrow>
        if r1 \<noteq> 0 then (r1, f1)
        else case erase_blocks rom stop c1 f1 of (r2, c2, f2) \<Rightarrow>
        if r2 \<noteq> 0 then (r2, f2)
        else case erase_tail rom stop c2 f2 of (r3, c3, f3) \<Rightarrow> (r3, f3))"

section \<open>What is erased\<close>

definition erased :: "(nat \<Rightarrow> u8) \<Rightarrow> (nat \<Rightarrow> u8) \<Rightarrow> nat \<Rightarrow> nat \<Rightarrow> bool" where
  "erased c c' lo hi \<longleftrightarrow>
     (\<forall>i. c' i = (if lo \<le> i div FLASH_SECTOR_SIZE \<and> i div FLASH_SECTOR_SIZE < hi then 0xff else c i))"

lemma erased_refl [simp]: "erased c c lo lo"
  by (auto simp: erased_def)

lemma erased_trans: "erased a b lo mid \<Longrightarrow> erased b c mid hi \<Longrightarrow> lo \<le> mid \<Longrightarrow> mid \<le> hi \<Longrightarrow> erased a c lo hi"
  by (auto simp: erased_def)

lemma erased_sector:
  "nor_flash rom content \<Longrightarrow> SPIEraseSector rom f (of_nat cur) = (0, f') \<Longrightarrow> cur < 2 ^ 32 \<Longrightarrow>
   erased (content f) (content f') cur (cur + 1)"
  by (auto simp: erased_def nor_flash_erase_sector unat_of_nat_u32)

lemma block_of_sector: "i div FLASH_BLOCK_SIZE = i div FLASH_SECTOR_SIZE div sectors_per_block"
  by (simp add: FLASH_BLOCK_SIZE_def FLASH_SECTOR_SIZE_def sectors_per_block_def div_mult2_eq [symmetric])

lemma erased_block:
  assumes "nor_flash rom content" and "SPIEraseBlock rom f (of_nat (cur div sectors_per_block)) = (0, f')"
    and "cur < 2 ^ 32" and "cur mod sectors_per_block = 0"
  shows "erased (content f) (content f') cur (cur + sectors_per_block)"
proof -
  have cur: "cur = sectors_per_block * (cur div sectors_per_block)"
    using assms(4) mult_div_mod_eq [of sectors_per_block cur] by simp
  have "cur div sectors_per_block < 2 ^ 32"
    using assms(3) by (meson div_le_dividend le_less_trans)
  then have "unat (of_nat (cur div sectors_per_block) :: u32) = cur div sectors_per_block"
    by (rule unat_of_nat_u32)
  moreover have "x div sectors_per_block = cur div sectors_per_block \<longleftrightarrow>
      cur \<le> x \<and> x < cur + sectors_per_block" for x
  proof -
    have "0 < sectors_per_block"
      by (simp add: sectors_per_block_def FLASH_BLOCK_SIZE_def FLASH_SECTOR_SIZE_def)
    then show ?thesis using cur
      by (metis add.commute add_less_cancel_left div_nat_eqI dividend_less_times_div less_eq_nat.simps(1)
          mult.commute mult_Suc_right times_div_less_eq_dividend)
  qed
  ultimately show ?thesis
    using nor_flash_erase_block [OF assms(1,2)] by (simp add: erased_def block_of_sector)
qed

lemma erase_head_erased:
  "nor_flash rom content \<Longrightarrow> erase_head rom stop cur f = (0, c, f') \<Longrightarrow> stop < 2 ^ 32 \<Longrightarrow> cur \<le> stop \<Longrightarrow>
   erased (content f) (content f') cur c \<and> cur \<le> c \<and> c \<le> stop \<and> (c = stop \<or> c mod sectors_per_block = 0)"
proof (induction rom stop cur f rule: erase_head.induct)
  case (1 rom stop cur f)
  show ?case
  proof (cases "cur < stop \<and> cur mod sectors_per_block \<noteq> 0")
    case True
    then obtain f1 where e: "SPIEraseSector rom f (of_nat cur) = (0, f1)"
      and r: "erase_head rom stop (cur + 1) f1 = (0, c, f')"
      using "1.prems"(2) by (auto simp: erase_head.simps [of rom stop cur f] split: prod.splits if_splits)
    have "erased (content f) (content f1) cur (cur + 1)"
      using e True "1.prems" by (intro erased_sector) auto
    with "1.IH" [OF True e [symmetric]] r True "1.prems" show ?thesis
      by (auto intro: erased_trans)
  next
    case False
    with "1.prems" show ?thesis by (auto simp: erase_head.simps [of rom stop cur f])
  qed
qed

lemma erase_blocks_erased:
  "nor_flash rom content \<Longrightarrow> erase_blocks rom stop cur f = (0, c, f') \<Longrightarrow> stop < 2 ^ 32 \<Longrightarrow> cur \<le> stop \<Longrightarrow>
   cur = stop \<or> cur mod sectors_per_block = 0 \<Longrightarrow>
   erased (content f) (content f') cur c \<and> cur \<le> c \<and> c \<le> stop"
proof (induction rom stop cur f rule: erase_blocks.induct)
  case (1 rom stop cur f)
  have pos: "0 < sectors_per_block"
    by (simp add: sectors_per_block_def FLASH_BLOCK_SIZE_def FLASH_SECTOR_SIZE_def)
  show ?case
  proof (cases "cur + sectors_per_block \<le> stop")
    case True
    then obtain f1 where e: "SPIEraseBlock rom f (of_nat (cur div sectors_per_block)) = (0, f1)"
      and r: "erase_blocks rom stop (cur + sectors_per_block) f1 = (0, c, f')"
      using "1.prems"(2) by (auto simp: erase_blocks.simps [of rom stop cur f] split: prod.splits if_splits)
    have al: "cur mod sectors_per_block = 0" using True pos "1.prems" by auto
    have "erased (content f) (content f1) cur (cur + sectors_per_block)"
      using e al True "1.prems" by (intro erased_block) auto
    with "1.IH" [OF True e [symmetric]] r True al "1.prems" show ?thesis
      by (auto intro: erased_trans)
  next
    case False
    with "1.prems" show ?thesis by (auto simp: erase_blocks.simps [of rom stop cur f])
  qed
qed

lemma erase_tail_erased:
  "nor_flash rom content \<Longrightarrow> erase_tail rom stop cur f = (0, c, f') \<Longrightarrow> stop < 2 ^ 32 \<Longrightarrow> cur \<le> stop \<Longrightarrow>
   erased (content f) (content f') cur c \<and> c = stop"
proof (induction rom stop cur f rule: erase_tail.induct)
  case (1 rom stop cur f)
  show ?case
  proof (cases "cur < stop")
    case True
    then obtain f1 where e: "SPIEraseSector rom f (of_nat cur) = (0, f1)"
      and r: "erase_tail rom stop (cur + 1) f1 = (0, c, f')"
      using "1.prems"(2) by (auto simp: erase_tail.simps [of rom stop cur f] split: prod.splits if_splits)
    have "erased (content f) (content f1) cur (cur + 1)"
      using e True "1.prems" by (intro erased_sector) auto
    with "1.IH" [OF True e [symmetric]] r True "1.prems" show ?thesis
      by (auto intro: erased_trans)
  next
    case False
    with "1.prems" show ?thesis by (auto simp: erase_tail.simps [of rom stop cur f])
  qed
qed

lemma area_bound: "area_first start + area_count sz < 2 ^ 32"
proof -
  have "area_first start < 2 ^ 20" "area_count sz < 2 ^ 20"
    using unat_bound [of start] unat_bound [of "sz + of_nat FLASH_SECTOR_SIZE - 1"]
    by (auto simp: area_first_def area_count_def FLASH_SECTOR_SIZE_def)
  then show ?thesis by simp
qed

text \<open>
  when \<open>SPIEraseAreaEx\<close> reports success, exactly the sectors
  \<open>start / 4096\<close> up to the rounded-up end of the area read as \<open>0xff\<close>, and every
  other byte of the flash is unchanged, however the area lies across blocks.
\<close>

lemma SPIEraseAreaEx_erases:
  assumes rom: "nor_flash rom content" and ok: "SPIEraseAreaEx rom start sz f = (0, f')"
  shows "erased (content f) (content f') (area_first start) (area_first start + area_count sz)"
proof -
  let ?stop = "area_first start + area_count sz"
  obtain c1 f1 c2 f2 c3 where
    1: "erase_head rom ?stop (area_first start) f = (0, c1, f1)" and
    2: "erase_blocks rom ?stop c1 f1 = (0, c2, f2)" and
    3: "erase_tail rom ?stop c2 f2 = (0, c3, f')"
    using ok by (auto simp: SPIEraseAreaEx_def Let_def split: prod.splits if_splits)
  note h = erase_head_erased [OF rom 1 area_bound le_add1]
  then have b: "erased (content f1) (content f2) c1 c2 \<and> c1 \<le> c2 \<and> c2 \<le> ?stop"
    by (intro erase_blocks_erased [OF rom 2 area_bound]) auto
  then have t: "erased (content f2) (content f') c2 c3 \<and> c3 = ?stop"
    by (intro erase_tail_erased [OF rom 3 area_bound]) auto
  show ?thesis using h b t by (auto intro: erased_trans)
qed

text \<open>A simulated device: its state is its contents and every routine succeeds.\<close>

definition sim_rom :: "(nat \<Rightarrow> u8) spi_rom" where
  "sim_rom =
     \<lparr>SPIRead = (\<lambda>f a n. (0, map f [unat a ..< unat a + n])),
      SPIWrite = (\<lambda>f a bs. (0, \<lambda>i. if unat a \<le> i \<and> i < unat a + length bs
         then f i AND bs ! (i - unat a) else f i)),
      SPIEraseSector = (\<lambda>f s. (0, \<lambda>i. if i div FLASH_SECTOR_SIZE = unat s then 0xff else f i)),
      SPIEraseBlock = (\<lambda>f b. (0, \<lambda>i. if i div FLASH_BLOCK_SIZE = unat b then 0xff else f i))\<rparr>"

lemma nor_flash_sim: "nor_flash sim_rom (\<lambda>f. f)"
  by (auto simp: nor_flash_def sim_rom_def)

lemma SPIEraseAreaEx_erases_witness:
  "\<exists>f'. SPIEraseAreaEx sim_rom 0x1000 0x1801 (\<lambda>_. 0) = (0, f') \<and> erased (\<lambda>_. 0) f' 1 3"
proof -
  have "fst (SPIEraseAreaEx sim_rom 0x1000 0x1801 (\<lambda>_. 0)) = 0"
    by (simp add: SPIEraseAreaEx_def area_first_def area_count_def FLASH_SECTOR_SIZE_def
        erase_head.simps erase_blocks.simps erase_tail.simps sectors_per_block_def FLASH_BLOCK_SIZE_def sim_rom_def)
  then obtain f' where ok: "SPIEraseAreaEx sim_rom 0x1000 0x1801 (\<lambda>_. 0) = (0, f')"
    by (metis prod.collapse)
  with SPIEraseAreaEx_erases [OF nor_flash_sim ok] show ?thesis
    by (simp add: area_first_def area_count_def FLASH_SECTOR_SIZE_def numeral_3_eq_3)
qed

lemma erase_head_result: "fst (erase_head rom s c g) \<in> {0, 2}"
  by (induction rom s c g rule: erase_head.induct, subst erase_head.simps) (auto split: prod.split)

lemma erase_blocks_result: "fst (erase_blocks rom s c g) \<in> {0, 3}"
  by (induction rom s c g rule: erase_blocks.induct, subst erase_blocks.simps) (auto split: prod.split)

lemma erase_tail_result: "fst (erase_tail rom s c g) \<in> {0, 4}"
  by (induction rom s c g rule: erase_tail.induct, subst erase_tail.simps) (auto split: prod.split)

text \<open>
  the alignment test of \<open>SPIEraseAreaEx\<close> only looks at the lowest bit of the
  start address: error 1 is returned for odd addresses and for no other, so an
  area that starts inside a sector is not refused and the bytes of that sector
  before \<open>start\<close> are erased too.
\<close>

lemma SPIEraseAreaEx_alignment_test:
  "fst (SPIEraseAreaEx rom start sz f) = 1 \<longleftrightarrow> odd (unat start)"
proof (cases "odd (unat start)")
  case True
  then show ?thesis by (simp add: SPIEraseAreaEx_def FLASH_SECTOR_SIZE_def and_1_eq_0_iff)
next
  case False
  let ?stop = "area_first start + area_count sz"
  obtain r1 c1 f1 where 1: "erase_head rom ?stop (area_first start) f = (r1, c1, f1)" by (metis prod.collapse)
  obtain r2 c2 f2 where 2: "erase_blocks rom ?stop c1 f1 = (r2, c2, f2)" by (metis prod.collapse)
  obtain r3 c3 f3 where 3: "erase_tail rom ?stop c2 f2 = (r3, c3, f3)" by (metis prod.collapse)
  have "r1 \<noteq> 1" "r2 \<noteq> 1" "r3 \<noteq> 1"
    using erase_head_result [of rom ?stop "area_first start" f] erase_blocks_result [of rom ?stop c1 f1]
      erase_tail_result [of rom ?stop c2 f2] 1 2 3 by auto
  then show ?thesis using False 1 2 3
    by (simp add: SPIEraseAreaEx_def FLASH_SECTOR_SIZE_def and_1_eq_0_iff Let_def)
qed

end
