(* ===== verification/Esp_Flash.thy ===== *)
theory Esp_Flash
  imports Flash_Area
begin

text \<open>
  The application's access to the SPI flash, \<open>cores/esp8266/Esp.cpp\<close>: reads and writes of any
  alignment built from the word routines of the vendor SDK, in page sized pieces, with the read-modify-write
  that PUYA chips need.  Addresses are natural numbers brought to 32 bits at the call of an SDK routine; the
  only other use of an address, its remainder modulo a power of two, does not see the difference.
\<close>

section \<open>The SDK\<close>

text \<open>
  The SDK routines are not part of the repository.  \<open>puya_buf\<close> is whether there is memory for the page
  buffer that PUYA chips need.
\<close>

record 'f sdk_flash =
  spi_flash_read :: "'f \<Rightarrow> u32 \<Rightarrow> nat \<Rightarrow> int \<times> u8 list"
  spi_flash_write :: "'f \<Rightarrow> u32 \<Rightarrow> u8 list \<Rightarrow> int \<times> 'f"
  spi_flash_erase_sector :: "'f \<Rightarrow> u32 \<Rightarrow> int \<times> 'f"
  spi_flash_get_id :: u32
  puya_buf :: bool

text \<open>
  What the code relies on: the routines act on a NOR flash with the bytes \<open>content\<close>, a result of 0 is success,
  and a routine that fails still leaves the bytes it was not asked to change.
\<close>

definition sdk_nor :: "'f sdk_flash \<Rightarrow> ('f \<Rightarrow> nat \<Rightarrow> u8) \<Rightarrow> bool" where
  "sdk_nor sdk content \<longleftrightarrow>
     (\<forall>f a n bs. spi_flash_read sdk f a n = (0, bs) \<longrightarrow> bs = map (content f) [unat a ..< unat a + n]) \<and>
     (\<forall>f a bs f'. spi_flash_write sdk f a bs = (0, f') \<longrightarrow>
        (\<forall>i. unat a \<le> i \<and> i < unat a + length bs \<longrightarrow> content f' i = content f i AND bs ! (i - unat a))) \<and>
     (\<forall>f a bs r f'. spi_flash_write sdk f a bs = (r, f') \<longrightarrow>
        (\<forall>i. \<not> (unat a \<le> i \<and> i < unat a + length bs) \<longrightarrow> content f' i = content f i)) \<and>
     (\<forall>f s f'. spi_flash_erase_sector sdk f s = (0, f') \<longrightarrow> (\<forall>i. i div FLASH_SECTOR_SIZE = unat s \<longrightarrow> content f' i = 0xff)) \<and>
     (\<forall>f s r f'. spi_flash_erase_sector sdk f s = (r, f') \<longrightarrow>
        (\<forall>i. i div FLASH_SECTOR_SIZE \<noteq> unat s \<longrightarrow> content f' i = content f i))"

definition FLASH_PAGE_SIZE :: nat where "FLASH_PAGE_SIZE = 0x100"

section \<open>The chip\<close>

definition SPI_FLASH_VENDOR_PUYA :: u32 where "SPI_FLASH_VENDOR_PUYA = 0x85"

definition getFlashChipVendorId :: "'f sdk_flash \<Rightarrow> u32" where
  "getFlashChipVendorId sdk = spi_flash_get_id sdk AND 0xff"

definition puya :: "'f sdk_flash \<Rightarrow> bool" where
  "puya sdk \<longleftrightarrow> getFlashChipVendorId sdk = SPI_FLASH_VENDOR_PUYA"

definition getFlashChipRealSize :: "'f sdk_flash \<Rightarrow> u32" where
  "getFlashChipRealSize sdk = push_bit (unat (drop_bit 16 (spi_flash_get_id sdk) AND 0xff)) 1"

definition magicFlashChipSize :: "u8 \<Rightarrow> u32" where
  "magicFlashChipSize b = (let k = b AND 0x0f in
     if k = 0 then 0x80000 else if k = 1 then 0x40000 else if k = 2 then 0x100000 else if k = 3 then 0x200000
     else if k = 4 then 0x400000 else if k = 8 then 0x800000 else if k = 9 then 0x1000000 else 0)"

definition getFlashChipSize :: "'f sdk_flash \<Rightarrow> 'f \<Rightarrow> u32" where
  "getFlashChipSize sdk f = (case spi_flash_read sdk f 0 4 of (r, bs) \<Rightarrow>
     if r = 0 then magicFlashChipSize (drop_bit 4 (bs ! 3 AND 0xf0)) else 0)"

definition checkFlashConfig :: "'f sdk_flash \<Rightarrow> bool \<Rightarrow> 'f \<Rightarrow> bool" where
  "checkFlashConfig sdk needsEquals f = (if needsEquals then getFlashChipRealSize sdk = getFlashChipSize sdk f
     else getFlashChipSize sdk f \<le> getFlashChipRealSize sdk)"

definition FM_UNKNOWN :: u8 where "FM_UNKNOWN = 0xff"

definition magicFlashChipMode :: "u8 \<Rightarrow> u8" where
  "magicFlashChipMode b = (if 3 < b then FM_UNKNOWN else b)"

definition getFlashChipMode :: "'f sdk_flash \<Rightarrow> 'f \<Rightarrow> u8" where
  "getFlashChipMode sdk f = (case spi_flash_read sdk f 0 4 of (r, bs) \<Rightarrow>
     if r = 0 then magicFlashChipMode (bs ! 2) else FM_UNKNOWN)"

text \<open>The size of the sketch in flash, from its headers; \<open>cache\<close> is the result of an earlier call, or 0.\<close>

fun sketch_sections :: "'f sdk_flash \<Rightarrow> 'f \<Rightarrow> nat \<Rightarrow> u32 \<Rightarrow> u32 option" where
  "sketch_sections sdk f 0 pos = Some pos"
| "sketch_sections sdk f (Suc n) pos = (case spi_flash_read sdk f pos 8 of (r, bs) \<Rightarrow>
     if r \<noteq> 0 then None else sketch_sections sdk f n (pos + 8 + section_size (section_header_of bs)))"

definition getSketchSize :: "'f sdk_flash \<Rightarrow> u32 \<Rightarrow> 'f \<Rightarrow> u32" where
  "getSketchSize sdk cache f =
     (if cache \<noteq> 0 then cache
      else case spi_flash_read sdk f APP_START_OFFSET 8 of (r, bs) \<Rightarrow>
        if r \<noteq> 0 then 0
        else case sketch_sections sdk f (unat (num_segments (image_header_of bs))) (APP_START_OFFSET + 8) of
          None \<Rightarrow> 0 | Some pos \<Rightarrow> (pos + 16) AND NOT 15)"

text \<open>The last four sectors, where the SDK keeps its configuration.\<close>

fun erase_config_loop :: "'f sdk_flash \<Rightarrow> nat \<Rightarrow> u32 \<Rightarrow> 'f \<Rightarrow> bool \<times> 'f" where
  "erase_config_loop sdk 0 a f = (True, f)"
| "erase_config_loop sdk (Suc n) a f = (case spi_flash_erase_sector sdk f (of_nat (unat a div FLASH_SECTOR_SIZE)) of (rc, f1) \<Rightarrow>
     if rc \<noteq> 0 then (False, f1) else erase_config_loop sdk n (a + of_nat FLASH_SECTOR_SIZE) f1)"

definition eraseConfig :: "'f sdk_flash \<Rightarrow> 'f \<Rightarrow> bool \<times> 'f" where
  "eraseConfig sdk f = erase_config_loop sdk 4 (getFlashChipSize sdk f - 0x4000) f"

section \<open>Writing\<close>

definition flashEraseSector :: "'f sdk_flash \<Rightarrow> nat \<Rightarrow> 'f \<Rightarrow> bool \<times> 'f" where
  "flashEraseSector sdk sector f = (case spi_flash_erase_sector sdk f (of_nat sector) of (rc, f1) \<Rightarrow> (rc = 0, f1))"

text \<open>The pages behind the first piece, and the rest.\<close>

fun write_pages :: "'f sdk_flash \<Rightarrow> nat \<Rightarrow> nat \<Rightarrow> u8 list \<Rightarrow> 'f \<Rightarrow> int \<times> 'f" where
  "write_pages sdk 0 offset data f = spi_flash_write sdk f (of_nat offset) data"
| "write_pages sdk (Suc page) offset data f =
     (case spi_flash_write sdk f (of_nat offset) (take FLASH_PAGE_SIZE data) of (r, f1) \<Rightarrow>
      if r \<noteq> 0 then (r, f1) else write_pages sdk page (offset + FLASH_PAGE_SIZE) (drop FLASH_PAGE_SIZE data) f1)"

definition spi_flash_write_page_break :: "'f sdk_flash \<Rightarrow> nat \<Rightarrow> u8 list \<Rightarrow> 'f \<Rightarrow> int \<times> 'f" where
  "spi_flash_write_page_break sdk offset data f =
     (let first = FLASH_PAGE_SIZE - offset mod FLASH_PAGE_SIZE in
      if length data < first then spi_flash_write sdk f (of_nat offset) data
      else case spi_flash_write sdk f (of_nat offset) (take first data) of (r, f1) \<Rightarrow>
        if r \<noteq> 0 then (r, f1)
        else write_pages sdk ((length data - first) div FLASH_PAGE_SIZE) (offset + first) (drop first data) f1)"

function puya_loop :: "'f sdk_flash \<Rightarrow> nat \<Rightarrow> u8 list \<Rightarrow> 'f \<Rightarrow> int \<times> 'f" where
  "puya_loop sdk pos data f =
     (if data = [] then (0, f)
      else let d = take FLASH_PAGE_SIZE data in
        case spi_flash_read sdk f (of_nat pos) (length d) of (r, bs) \<Rightarrow>
        if r \<noteq> 0 then (r, f)
        else case spi_flash_write sdk f (of_nat pos) (map2 (AND) bs d) of (r1, f1) \<Rightarrow>
        if r1 \<noteq> 0 then (r1, f1)
        else puya_loop sdk (pos + length d) (drop FLASH_PAGE_SIZE data) f1)"
  by pat_completeness auto
termination by (relation "measure (\<lambda>(sdk, pos, data, f). length data)") (auto simp: FLASH_PAGE_SIZE_def)

declare puya_loop.simps [simp del]

definition spi_flash_write_puya :: "'f sdk_flash \<Rightarrow> nat \<Rightarrow> u8 list \<Rightarrow> 'f \<Rightarrow> int \<times> 'f" where
  "spi_flash_write_puya sdk offset data f =
     (if length data mod 4 \<noteq> 0 then (1, f) else if \<not> puya_buf sdk then (1, f) else puya_loop sdk offset data f)"

definition flashWrite_words :: "'f sdk_flash \<Rightarrow> nat \<Rightarrow> u8 list \<Rightarrow> 'f \<Rightarrow> bool \<times> 'f" where
  "flashWrite_words sdk addr data f =
     (case (if puya sdk then spi_flash_write_puya sdk addr data f else spi_flash_write_page_break sdk addr data f)
      of (r, f1) \<Rightarrow> (r = 0, f1))"

definition aligned :: "nat \<Rightarrow> nat" where "aligned v = (v + 3) div 4 * 4"
definition alignBefore :: "nat \<Rightarrow> nat" where "alignBefore v = aligned v - 4"

text \<open>The words that lie wholly or partly behind an aligned address.\<close>

function unaligned_loop :: "'f sdk_flash \<Rightarrow> nat \<Rightarrow> u8 list \<Rightarrow> nat \<Rightarrow> 'f \<Rightarrow> nat \<times> 'f" where
  "unaligned_loop sdk addr data written f =
     (if data = [] then (written, f)
      else let len = min (length data) FLASH_PAGE_SIZE; wlen = aligned len; part = wlen - 4;
               (r, bs) = (if wlen \<noteq> len then spi_flash_read sdk f (of_nat (addr + part)) 4 else (0, [])) in
        if r \<noteq> 0 then (written, f)
        else case flashWrite_words sdk addr (take len data @ (if wlen \<noteq> len then drop (len - part) bs else [])) f of (ok, f1) \<Rightarrow>
        if \<not> ok then (written, f1)
        else unaligned_loop sdk (addr + len) (drop FLASH_PAGE_SIZE data) (written + len) f1)"
  by pat_completeness auto
termination by (relation "measure (\<lambda>(sdk, addr, data, written, f). length data)") (auto simp: FLASH_PAGE_SIZE_def)

declare unaligned_loop.simps [simp del]

definition flashWriteUnalignedMemory :: "'f sdk_flash \<Rightarrow> nat \<Rightarrow> u8 list \<Rightarrow> 'f \<Rightarrow> nat \<times> 'f" where
  "flashWriteUnalignedMemory sdk addr data f =
     (if addr mod 4 = 0 then unaligned_loop sdk addr data 0 f
      else let before = alignBefore addr; offset = addr - before; wlen = min (4 - offset) (length data) in
        case spi_flash_read sdk f (of_nat before) 4 of (r, bs) \<Rightarrow>
        if r \<noteq> 0 then (0, f)
        else let old = take wlen (drop offset bs);
                 new = (if puya sdk then map2 (AND) old (take wlen data) else take wlen data) in
        case spi_flash_write sdk f (of_nat before) (take offset bs @ new @ drop (offset + wlen) bs) of (r1, f1) \<Rightarrow>
        if r1 \<noteq> 0 then (0, f1)
        else unaligned_loop sdk (addr + wlen) (drop wlen data) wlen f1)"

text \<open>\<open>ptr\<close> is whether the data in memory is aligned.\<close>

definition flashWrite :: "'f sdk_flash \<Rightarrow> nat \<Rightarrow> bool \<Rightarrow> u8 list \<Rightarrow> 'f \<Rightarrow> bool \<times> 'f" where
  "flashWrite sdk addr ptr data f =
     (if data = [] then (False, f)
      else if addr mod 4 \<noteq> 0 \<or> \<not> ptr \<or> length data mod 4 \<noteq> 0
      then case flashWriteUnalignedMemory sdk addr data f of (n, f1) \<Rightarrow> (n = length data, f1)
      else flashWrite_words sdk addr data f)"

section \<open>Reading\<close>

text \<open>Each read gives whether it succeeded and the bytes of the destination after it.\<close>

definition flashRead_words :: "'f sdk_flash \<Rightarrow> nat \<Rightarrow> nat \<Rightarrow> 'f \<Rightarrow> bool \<times> u8 list" where
  "flashRead_words sdk addr n f = (case spi_flash_read sdk f (of_nat addr) n of (r, bs) \<Rightarrow> (r = 0, bs))"

function read_pieces :: "'f sdk_flash \<Rightarrow> nat \<Rightarrow> nat \<Rightarrow> u8 list \<Rightarrow> 'f \<Rightarrow> bool \<times> u8 list" where
  "read_pieces sdk addr left dst f =
     (if left = 0 then (True, dst)
      else let n = min left (FLASH_PAGE_SIZE div 4) in
        case flashRead_words sdk addr n f of (ok, bs) \<Rightarrow>
        if \<not> ok then (False, dst) else read_pieces sdk (addr + n) (left - n) (dst @ bs) f)"
  by pat_completeness auto
termination by (relation "measure (\<lambda>(sdk, addr, left, dst, f). left)") (auto simp: FLASH_PAGE_SIZE_def)

declare read_pieces.simps [simp del]

text \<open>
  \<open>old\<close> is what the destination holds; the bytes read replace its first ones.
\<close>

definition flashRead :: "'f sdk_flash \<Rightarrow> nat \<Rightarrow> bool \<Rightarrow> u8 list \<Rightarrow> 'f \<Rightarrow> bool \<times> u8 list" where
  "flashRead sdk addr ptr old f =
     (let n = length old; na = n div 4 * 4;
          (ok, bs) = (if ptr then flashRead_words sdk addr na f else read_pieces sdk addr na [] f);
          dst = bs @ drop (length bs) old in
      if \<not> ok then (False, dst)
      else if na < n
      then case spi_flash_read sdk f (of_nat (addr + na)) 4 of (r, t) \<Rightarrow>
        if r \<noteq> 0 then (False, dst) else (True, take na dst @ take (n - na) t @ drop n dst)
      else (True, dst))"


section \<open>What a write does\<close>

text \<open>
  A write of \<open>bs\<close> at \<open>a\<close> that succeeded (\<open>ok\<close>) has cleared the bits that are clear in \<open>bs\<close>; in any case it changed no
  other byte.
\<close>

definition wrote :: "bool \<Rightarrow> (nat \<Rightarrow> u8) \<Rightarrow> (nat \<Rightarrow> u8) \<Rightarrow> nat \<Rightarrow> u8 list \<Rightarrow> bool" where
  "wrote ok c c' a bs \<longleftrightarrow> (\<forall>i. if a \<le> i \<and> i < a + length bs then ok \<longrightarrow> c' i = c i AND bs ! (i - a) else c' i = c i)"

lemma wroteI:
  assumes "\<And>i. ok \<Longrightarrow> a \<le> i \<Longrightarrow> i < a + length bs \<Longrightarrow> c' i = c i AND bs ! (i - a)"
    and "\<And>i. i < a \<or> a + length bs \<le> i \<Longrightarrow> c' i = c i"
  shows "wrote ok c c' a bs"
  unfolding wrote_def using assms by (metis not_less)

lemma wrote_in: "wrote ok c c' a bs \<Longrightarrow> ok \<Longrightarrow> a \<le> i \<Longrightarrow> i < a + length bs \<Longrightarrow> c' i = c i AND bs ! (i - a)"
  unfolding wrote_def by metis

lemma wrote_out: "wrote ok c c' a bs \<Longrightarrow> i < a \<or> a + length bs \<le> i \<Longrightarrow> c' i = c i"
  unfolding wrote_def by (metis not_less)

lemma wrote_refl_nil [simp]: "wrote ok c c a []"
  by (rule wroteI) simp_all

lemma wrote_refl [simp]: "wrote False c c a bs"
  by (rule wroteI) simp_all

lemma wrote_append:
  assumes x: "wrote True c c1 a xs" and y: "wrote ok c1 c2 (a + length xs) ys"
  shows "wrote ok c c2 a (xs @ ys)"
proof (rule wroteI)
  fix i assume i: ok "a \<le> i" "i < a + length (xs @ ys)"
  show "c2 i = c i AND (xs @ ys) ! (i - a)"
  proof (cases "i < a + length xs")
    case True
    moreover from this have "i - a < length xs" using i(2) by linarith
    ultimately show ?thesis using wrote_in [OF x _ i(2)] wrote_out [OF y, of i] i by (simp add: nth_append)
  next
    case False
    then have "c1 i = c i" "(xs @ ys) ! (i - a) = ys ! (i - (a + length xs))"
      using wrote_out [OF x, of i] i by (auto simp: nth_append)
    then show ?thesis using wrote_in [OF y i(1), of i] i False by simp
  qed
next
  fix i assume "i < a \<or> a + length (xs @ ys) \<le> i"
  then show "c2 i = c i" using wrote_out [OF x, of i] wrote_out [OF y, of i] by auto
qed

lemma wrote_prefix: "wrote False c c1 a xs \<Longrightarrow> wrote False c c1 a (xs @ ys)"
proof (rule wroteI)
  show "wrote False c c1 a xs \<Longrightarrow> i < a \<or> a + length (xs @ ys) \<le> i \<Longrightarrow> c1 i = c i" for i
    using wrote_out [of False c c1 a xs i] by auto
qed simp

lemma wrote_pieces:
  assumes "wrote (r = 0) c c1 a (take n bs)" and "n \<le> length bs" and "r = 0 \<Longrightarrow> wrote ok c1 c2 (a + n) (drop n bs)"
    and "r \<noteq> 0 \<Longrightarrow> \<not> ok \<and> c2 = c1"
  shows "wrote ok c c2 a bs"
proof (cases "r = 0")
  case True
  with assms wrote_append [of c c1 a "take n bs" ok c2 "drop n bs"] show ?thesis by simp
next
  case False
  with assms wrote_prefix [of c c1 a "take n bs" "drop n bs"] show ?thesis by simp
qed

text \<open>Clearing bits that are clear already changes nothing.\<close>

lemma wrote_same:
  assumes w: "wrote True c c' a (xs @ map c [a + length xs ..< e])"
  shows "wrote True c c' a xs"
proof (rule wroteI)
  show "a \<le> i \<Longrightarrow> i < a + length xs \<Longrightarrow> c' i = c i AND xs ! (i - a)" for i
  proof -
    assume i: "a \<le> i" "i < a + length xs"
    then have "i - a < length xs" by linarith
    then show ?thesis using wrote_in [OF w, of i] i by (simp add: nth_append)
  qed
  show "i < a \<or> a + length xs \<le> i \<Longrightarrow> c' i = c i" for i
    using wrote_in [OF w, of i] wrote_out [OF w, of i] by (cases "i < e") (auto simp: nth_append)
qed

lemma wrote_same_before:
  assumes w: "wrote True c c' b (map c [b ..< a] @ xs)" and b: "b \<le> a"
  shows "wrote True c c' a xs"
proof (rule wroteI)
  have len: "length (map c [b ..< a] @ xs) = a - b + length xs" by simp
  show "a \<le> i \<Longrightarrow> i < a + length xs \<Longrightarrow> c' i = c i AND xs ! (i - a)" for i
  proof -
    assume i: "a \<le> i" "i < a + length xs"
    then have "\<not> i - b < a - b" "i - b - (a - b) = i - a" using b by linarith+
    then show ?thesis using wrote_in [OF w, of i] i b by (simp add: nth_append)
  qed
  show "i < a \<or> a + length xs \<le> i \<Longrightarrow> c' i = c i" for i
    using wrote_in [OF w, of i] wrote_out [OF w, of i] b by (cases "b \<le> i"; cases "i < a") (auto simp: nth_append)
qed

lemma wrote_and:
  assumes w: "wrote ok c c' a (map2 (AND) (map c [a ..< a + length d]) d)"
  shows "wrote ok c c' a d"
  by (rule wroteI) (use wrote_in [OF w] wrote_out [OF w] in \<open>simp_all add: and.left_idem\<close>)

section \<open>The SDK routines\<close>

lemma sdk_write:
  assumes "sdk_nor sdk content" and "spi_flash_write sdk f (of_nat a) bs = (r, f')" and "a < 2 ^ 32"
  shows "wrote (r = 0) (content f) (content f') a bs"
proof (rule wroteI)
  note u = unat_of_nat_u32 [OF assms(3)]
  show "r = 0 \<Longrightarrow> a \<le> i \<Longrightarrow> i < a + length bs \<Longrightarrow> content f' i = content f i AND bs ! (i - a)" for i
    using assms(1,2) u unfolding sdk_nor_def by metis
  show "i < a \<or> a + length bs \<le> i \<Longrightarrow> content f' i = content f i" for i
    using assms(1,2) u unfolding sdk_nor_def by (metis not_less)
qed

lemma sdk_read:
  assumes "sdk_nor sdk content" and "spi_flash_read sdk f (of_nat a) n = (0, bs)" and "a < 2 ^ 32"
  shows "bs = map (content f) [a ..< a + n]"
  using assms(1,2) unat_of_nat_u32 [OF assms(3)] unfolding sdk_nor_def by metis

lemma write_pages_spec:
  assumes "sdk_nor sdk content"
  shows "write_pages sdk n a data f = (r, f') \<Longrightarrow> n * FLASH_PAGE_SIZE \<le> length data \<Longrightarrow> a + length data < 2 ^ 32 \<Longrightarrow>
    wrote (r = 0) (content f) (content f') a data"
proof (induction n arbitrary: a data f)
  case 0
  then show ?case using sdk_write [OF assms] by simp
next
  case (Suc n)
  obtain r1 f1 where w: "spi_flash_write sdk f (of_nat a) (take FLASH_PAGE_SIZE data) = (r1, f1)" by force
  have p: "FLASH_PAGE_SIZE \<le> length data" "n * FLASH_PAGE_SIZE \<le> length (drop FLASH_PAGE_SIZE data)"
    "a + FLASH_PAGE_SIZE + length (drop FLASH_PAGE_SIZE data) < 2 ^ 32" using Suc.prems(2,3) by auto
  show ?case
  proof (rule wrote_pieces [OF sdk_write [OF assms w] p(1)])
    show "r1 = 0 \<Longrightarrow> wrote (r = 0) (content f1) (content f') (a + FLASH_PAGE_SIZE) (drop FLASH_PAGE_SIZE data)"
      using Suc.IH [OF _ p(2,3)] Suc.prems(1) by (simp add: w)
  qed (use Suc.prems in \<open>auto simp: w\<close>)
qed

lemma page_break_spec:
  assumes "sdk_nor sdk content" and "spi_flash_write_page_break sdk a data f = (r, f')" and "a + length data < 2 ^ 32"
  shows "wrote (r = 0) (content f) (content f') a data"
proof -
  let ?n = "FLASH_PAGE_SIZE - a mod FLASH_PAGE_SIZE"
  show ?thesis
  proof (cases "length data < ?n")
    case True
    then show ?thesis using sdk_write [OF assms(1)] assms(2,3) by (simp add: spi_flash_write_page_break_def Let_def)
  next
    case False
    obtain r1 f1 where w: "spi_flash_write sdk f (of_nat a) (take ?n data) = (r1, f1)" by force
    have n: "?n \<le> length data" "a + ?n + length (drop ?n data) < 2 ^ 32" using False assms(3) by auto
    have m: "(length data - ?n) div FLASH_PAGE_SIZE * FLASH_PAGE_SIZE \<le> length (drop ?n data)" by (simp add: div_times_less_eq_dividend)
    show ?thesis
    proof (rule wrote_pieces [OF sdk_write [OF assms(1) w] n(1)])
      show "r1 = 0 \<Longrightarrow> wrote (r = 0) (content f1) (content f') (a + ?n) (drop ?n data)"
        using write_pages_spec [OF assms(1) _ m n(2)] assms(2) False by (simp add: spi_flash_write_page_break_def Let_def w)
    qed (use assms False in \<open>auto simp: spi_flash_write_page_break_def Let_def w\<close>)
  qed
qed

lemma puya_loop_spec:
  assumes "sdk_nor sdk content"
  shows "puya_loop sdk a data f = (r, f') \<Longrightarrow> a + length data < 2 ^ 32 \<Longrightarrow> wrote (r = 0) (content f) (content f') a data"
proof (induction "length data" arbitrary: a data f rule: less_induct)
  case less
  show ?case
  proof (cases "data = []")
    case True
    then show ?thesis using less.prems by (simp add: puya_loop.simps)
  next
    case False
    let ?d = "take FLASH_PAGE_SIZE data"
    obtain r1 bs where rd: "spi_flash_read sdk f (of_nat a) (length ?d) = (r1, bs)" by force
    obtain r2 f1 where wr: "spi_flash_write sdk f (of_nat a) (map2 (AND) bs ?d) = (r2, f1)" by force
    have loop: "puya_loop sdk a data f = (if r1 \<noteq> 0 then (r1, f) else if r2 \<noteq> 0 then (r2, f1)
        else puya_loop sdk (a + length ?d) (drop FLASH_PAGE_SIZE data) f1)"
      by (subst puya_loop.simps) (simp only: False if_False Let_def rd wr prod.case)
    show ?thesis
    proof (cases "r1 = 0")
      case False
      then show ?thesis using loop less.prems(1) by simp
    next
      case True
      have lim: "a < 2 ^ 32" using less.prems(2) by simp
      note bs = sdk_read [OF assms rd [unfolded True] lim]
      have w: "wrote (r2 = 0) (content f) (content f1) a ?d"
        by (rule wrote_and) (rule sdk_write [OF assms wr lim, unfolded bs])
      have lt: "length (drop FLASH_PAGE_SIZE data) < length data" using False by (simp add: FLASH_PAGE_SIZE_def)
      have t: "take (length ?d) data = ?d" "drop (length ?d) data = drop FLASH_PAGE_SIZE data" by (simp_all add: min_def)
      have b: "a + length ?d + length (drop FLASH_PAGE_SIZE data) < 2 ^ 32" using less.prems(2) by simp
      show ?thesis
      proof (rule wrote_pieces)
        show "wrote (r2 = 0) (content f) (content f1) a (take (length ?d) data)" unfolding t(1) by (rule w)
        show "r2 = 0 \<Longrightarrow> wrote (r = 0) (content f1) (content f') (a + length ?d) (drop (length ?d) data)"
          unfolding t(2) using less.hyps [OF lt _ b] loop True less.prems(1) by simp
        show "length ?d \<le> length data" by simp
        show "r2 \<noteq> 0 \<Longrightarrow> \<not> r = 0 \<and> content f' = content f1" using loop True less.prems(1) by simp
      qed
    qed
  qed
qed

lemma words_spec:
  assumes "sdk_nor sdk content" and "flashWrite_words sdk a data f = (ok, f')" and "a + length data < 2 ^ 32"
  shows "wrote ok (content f) (content f') a data"
proof (cases "puya sdk")
  case True
  then show ?thesis using assms(2) puya_loop_spec [OF assms(1) _ assms(3), of f]
    by (simp add: flashWrite_words_def spi_flash_write_puya_def split: prod.splits if_splits)
next
  case False
  then show ?thesis using assms(2) page_break_spec [OF assms(1) _ assms(3), of f]
    by (simp add: flashWrite_words_def split: prod.splits)
qed

section \<open>Writing at any alignment\<close>

text \<open>
  What a write of any alignment does: in the words it touches, only the bytes of the data when it succeeds.
\<close>

definition wrote_any :: "bool \<Rightarrow> (nat \<Rightarrow> u8) \<Rightarrow> (nat \<Rightarrow> u8) \<Rightarrow> nat \<Rightarrow> u8 list \<Rightarrow> bool" where
  "wrote_any ok c c' a bs \<longleftrightarrow> (ok \<longrightarrow> wrote True c c' a bs) \<and> (\<forall>i. i < a div 4 * 4 \<or> aligned (a + length bs) \<le> i \<longrightarrow> c' i = c i)"

lemma aligned_bounds: "n \<le> aligned n" "aligned n < n + 4" "aligned n mod 4 = 0" "n mod 4 = 0 \<Longrightarrow> aligned n = n"
  "m \<le> n \<Longrightarrow> aligned m \<le> aligned n"
  unfolding aligned_def by (linarith, linarith, simp, auto simp: div_le_mono)

lemma aligned_add: "a mod 4 = 0 \<Longrightarrow> aligned (a + n) = a + aligned n"
  unfolding aligned_def by presburger

lemma wrote_any_words:
  assumes "wrote ok c c' a bs"
  shows "wrote_any ok c c' a bs"
proof -
  have below: "a div 4 * 4 \<le> a" by simp
  have "c' i = c i" if "i < a div 4 * 4 \<or> aligned (a + length bs) \<le> i" for i
    using that
  proof
    assume "i < a div 4 * 4"
    from less_le_trans [OF this below] show ?thesis by (intro wrote_out [OF assms] disjI1)
  next
    assume "aligned (a + length bs) \<le> i"
    then show ?thesis using aligned_bounds(1) [of "a + length bs"] by (intro wrote_out [OF assms]) simp
  qed
  with assms show ?thesis by (cases ok) (simp_all add: wrote_any_def)
qed

lemma unaligned_loop_spec:
  assumes "sdk_nor sdk content"
  shows "unaligned_loop sdk a data w f = (n, f') \<Longrightarrow> a mod 4 = 0 \<Longrightarrow> a + length data + 4 < 2 ^ 32 \<Longrightarrow>
    n \<le> w + length data \<and> wrote_any (n = w + length data) (content f) (content f') a data"
proof (induction "length data" arbitrary: a data w f rule: less_induct)
  case less
  show ?case
  proof (cases "data = []")
    case True
    then show ?thesis using less.prems by (simp add: unaligned_loop.simps wrote_any_def)
  next
    case False
    define len where "len = min (length data) FLASH_PAGE_SIZE"
    define wl where "wl = aligned len"
    define rd where "rd = (if wl \<noteq> len then spi_flash_read sdk f (of_nat (a + (wl - 4))) 4 else (0, []))"
    define d where "d = take len data @ (if wl \<noteq> len then drop (len - (wl - 4)) (snd rd) else [])"
    obtain ok f1 where fw: "flashWrite_words sdk a d f = (ok, f1)" by force
    have loop: "unaligned_loop sdk a data w f = (if fst rd \<noteq> 0 then (w, f) else if \<not> ok then (w, f1)
        else unaligned_loop sdk (a + len) (drop FLASH_PAGE_SIZE data) (w + len) f1)"
      by (subst unaligned_loop.simps) (simp only: False if_False Let_def case_prod_beta len_def [symmetric] wl_def [symmetric]
          rd_def [symmetric] d_def [symmetric] fw fst_conv snd_conv)
    have len: "0 < len" "len \<le> length data" "len \<le> 256" using False by (auto simp: len_def FLASH_PAGE_SIZE_def)
    show ?thesis
    proof (cases "fst rd = 0")
      case r: False
      have "n = w" "f' = f" using loop r less.prems(1) by simp_all
      then show ?thesis using False by (simp add: wrote_any_def)
    next
      case r: True
      have wl: "len \<le> wl" "wl < len + 4" "wl mod 4 = 0" using aligned_bounds [of len] by (simp_all add: wl_def)
      have d: "d = take len data @ map (content f) [a + len ..< a + wl]"
      proof (cases "wl = len")
        case True
        then show ?thesis by (simp add: d_def)
      next
        case False
        have "4 \<le> wl" using wl len(1) by presburger
        have "snd rd = map (content f) [a + (wl - 4) ..< a + (wl - 4) + 4]"
          using sdk_read [OF assms, of f "a + (wl - 4)" 4 "snd rd"] r False less.prems(3) len(2) wl(2)
          by (cases rd) (simp add: rd_def)
        with False wl \<open>4 \<le> wl\<close> show ?thesis by (simp add: d_def drop_map)
      qed
      have ld: "length d = wl" using d wl len by simp
      have fit: "a + length d < 2 ^ 32" using ld wl len less.prems(3) by simp
      note w1 = words_spec [OF assms fw fit]
      have end_le: "a + wl \<le> aligned (a + length data)"
        using aligned_bounds(5) [OF len(2)] less.prems(2) by (simp add: aligned_add wl_def)
      have fr1: "i < a div 4 * 4 \<or> aligned (a + length data) \<le> i \<Longrightarrow> content f1 i = content f i" for i
      proof (rule wrote_out [OF w1], unfold ld)
        assume "i < a div 4 * 4 \<or> aligned (a + length data) \<le> i"
        moreover have "a div 4 * 4 \<le> a" by simp
        ultimately show "i < a \<or> a + wl \<le> i" using end_le by linarith
      qed
      show ?thesis
      proof (cases ok)
        case f: False
        have "n = w" "f' = f1" using loop r f less.prems(1) by simp_all
        then show ?thesis using False fr1 by (simp add: wrote_any_def)
      next
        case ok: True
        have "wrote True (content f) (content f1) a (take len data @ map (content f) [a + length (take len data) ..< a + wl])"
          using w1 ok len(2) unfolding d by simp
        from wrote_same [OF this] have w2: "wrote True (content f) (content f1) a (take len data)" .
        have dl: "drop FLASH_PAGE_SIZE data = drop len data" by (simp add: len_def min_def)
        let ?d = "drop len data"
        have l3: "unaligned_loop sdk (a + len) ?d (w + len) f1 = (n, f')" using loop r ok less.prems(1) dl by simp
        show ?thesis
        proof (cases "?d = []")
          case True
          then have "n = w + length data" "f' = f1" using l3 len(2) by (simp_all add: unaligned_loop.simps)
          then show ?thesis using w2 True fr1 by (simp add: wrote_any_def)
        next
          case False
          then have l256: "len = 256" using len(2) by (auto simp: len_def FLASH_PAGE_SIZE_def)
          have "length ?d < length data" using len by simp
          from less.hyps [OF this l3] less.prems(2,3) len(2) l256 have
            ih: "n \<le> w + length data" "wrote_any (n = w + length data) (content f1) (content f') (a + len) ?d" by auto
          have "wrote_any (n = w + length data) (content f) (content f') a data"
            unfolding wrote_any_def
          proof (intro conjI impI allI)
            assume "n = w + length data"
            then have "wrote True (content f1) (content f') (a + length (take len data)) ?d"
              using ih(2) len(2) by (simp add: wrote_any_def)
            from wrote_append [OF w2 this] show "wrote True (content f) (content f') a data" by simp
          next
            fix i assume i: "i < a div 4 * 4 \<or> aligned (a + length data) \<le> i"
            have "a div 4 * 4 \<le> (a + len) div 4 * 4" by (intro mult_le_mono div_le_mono) simp_all
            moreover have "a + len + length ?d = a + length data" using len(2) by simp
            ultimately have "content f' i = content f1 i" using ih(2) i unfolding wrote_any_def by auto
            then show "content f' i = content f i" using fr1 [OF i] by simp
          qed
          with ih(1) show ?thesis by simp
        qed
      qed
    qed
  qed
qed


lemma unaligned_spec:
  assumes "sdk_nor sdk content" and "flashWriteUnalignedMemory sdk a data f = (n, f')" and "a + length data + 4 < 2 ^ 32"
    and ne: "data \<noteq> []"
  shows "wrote_any (n = length data) (content f) (content f') a data"
proof (cases "a mod 4 = 0")
  case True
  then show ?thesis using unaligned_loop_spec [OF assms(1), of a data 0 f n f'] assms(2,3) by (simp add: flashWriteUnalignedMemory_def)
next
  case False
  define b where "b = a div 4 * 4"
  define k where "k = a - b"
  define wl where "wl = min (4 - k) (length data)"
  have "b + a mod 4 = a" by (simp add: b_def)
  then have km: "k = a mod 4" "b \<le> a" unfolding k_def by linarith+
  then have k: "a = b + k" "0 < k" "k < 4" "b mod 4 = 0" using False by (simp_all add: k_def) (simp_all add: b_def)
  have "(4 * q + k + 3) div 4 = q + 1" for q by (rule div_nat_eqI) (use k(2,3) in simp_all)
  from this [of "a div 4"] have "(a + 3) div 4 = a div 4 + 1" unfolding km(1) by simp
  then have b: "alignBefore a = b" by (simp add: alignBefore_def aligned_def b_def)
  obtain r bs where rd: "spi_flash_read sdk f (of_nat b) 4 = (r, bs)" by force
  define new where "new = (if puya sdk then map2 (AND) (take wl (drop k bs)) (take wl data) else take wl data)"
  obtain r1 f1 where wr: "spi_flash_write sdk f (of_nat b) (take k bs @ new @ drop (k + wl) bs) = (r1, f1)" by force
  have run: "flashWriteUnalignedMemory sdk a data f = (if r \<noteq> 0 then (0, f) else if r1 \<noteq> 0 then (0, f1)
      else unaligned_loop sdk (a + wl) (drop wl data) wl f1)"
    unfolding flashWriteUnalignedMemory_def Let_def b k_def [symmetric] wl_def [symmetric] rd
    using False wr by (simp add: new_def)
  have wl: "wl \<le> length data" "wl \<le> 4 - k" by (simp_all add: wl_def)
  have ba: "b = a div 4 * 4" "a \<le> b + 4" using k by (simp_all add: b_def)
  have "aligned (b + 1) \<le> aligned (a + length data)" if "data \<noteq> []"
    using that k(1,2) by (intro aligned_bounds(5)) simp
  moreover have "aligned (b + 1) = b + 4" unfolding aligned_add [OF k(4)] by (simp add: aligned_def)
  ultimately have be: "data \<noteq> [] \<Longrightarrow> b + 4 \<le> aligned (a + length data)" by simp
  from be ne have be: "b + 4 \<le> aligned (a + length data)" by blast
    show ?thesis
    proof (cases "r = 0")
      case False
      then have "n = 0" "f' = f" using run assms(2) by simp_all
      then show ?thesis using ne by (simp add: wrote_any_def)
    next
      case r: True
      have bs: "bs = map (content f) [b ..< b + 4]" using sdk_read [OF assms(1) rd [unfolded r]] assms(3) k(1) by simp
      have lw: "length (take k bs @ new @ drop (k + wl) bs) = 4" "length new = wl"
        using k(3) wl by (simp_all add: bs new_def)
      have bl: "b < 2 ^ 32" using assms(3) k(1) by simp
      note w = sdk_write [OF assms(1) wr bl]
      have fr1: "i < b \<or> aligned (a + length data) \<le> i \<Longrightarrow> content f1 i = content f i" for i
      proof (rule wrote_out [OF w], unfold lw(1))
        assume "i < b \<or> aligned (a + length data) \<le> i"
        with be show "i < b \<or> b + 4 \<le> i" by linarith
      qed
      show ?thesis
      proof (cases "r1 = 0")
        case False
        then have "n = 0" "f' = f1" using run r assms(2) by simp_all
        then show ?thesis using ne fr1 by (simp add: wrote_any_def ba(1))
      next
        case r1: True
        have parts: "take k bs = map (content f) [b ..< a]" "drop (k + wl) bs = map (content f) [a + length new ..< b + 4]"
          using k wl by (simp_all add: bs take_map drop_map lw(2) add.assoc)
        have "wrote True (content f) (content f1) b (map (content f) [b ..< a] @ new @ map (content f) [a + length new ..< b + 4])"
          using w r1 by (simp only: parts simp_thms)
        from wrote_same [OF wrote_same_before [OF this]] k(1) have wn: "wrote True (content f) (content f1) a new" by simp
        have w1: "wrote True (content f) (content f1) a (take wl data)"
        proof (cases "puya sdk")
          case True
          have "length (take wl data) = wl" using wl(1) by simp
          moreover have "take wl (drop k [b ..< b + 4]) = [a ..< a + wl]" unfolding drop_upt k(1) [symmetric]
            by (rule take_upt) (use k(1,3) wl(2) in linarith)
          ultimately have "take wl (drop k bs) = map (content f) [a ..< a + length (take wl data)]"
            unfolding bs drop_map take_map by (simp only:)
          with True have "new = map2 (AND) (map (content f) [a ..< a + length (take wl data)]) (take wl data)"
            by (simp only: new_def if_True)
          from wn [unfolded this] show ?thesis by (rule wrote_and)
        next
          case False
          then show ?thesis using wn by (simp add: new_def)
        qed
        have l: "unaligned_loop sdk (a + wl) (drop wl data) wl f1 = (n, f')" using run r r1 assms(2) by simp
        show ?thesis
        proof (cases "drop wl data = []")
          case True
          then have "n = wl" "f' = f1" "wl = length data" using l wl by (simp_all add: unaligned_loop.simps)
          then show ?thesis using w1 fr1 by (simp add: wrote_any_def ba(1))
        next
          case False
          then have e: "a + wl = b + 4" using wl k by (auto simp: wl_def min_def split: if_splits)
          have len: "length (drop wl data) = length data - wl" by simp
          from unaligned_loop_spec [OF assms(1) l] e k(4) assms(3) wl have
            ih: "wrote_any (n = wl + length (drop wl data)) (content f1) (content f') (a + wl) (drop wl data)" by simp
          have eq: "wl + length (drop wl data) = length data" "a + wl + length (drop wl data) = a + length data" using wl by simp_all
          have b4: "(a + wl) div 4 * 4 = b + 4" unfolding e by (simp add: b_def)
          show ?thesis unfolding wrote_any_def ba(1) [symmetric]
          proof (intro conjI impI allI)
            assume "n = length data"
            moreover have "length (take wl data) = wl" using wl(1) by simp
            ultimately have "wrote True (content f1) (content f') (a + length (take wl data)) (drop wl data)"
              using ih unfolding wrote_any_def eq(1) by metis
            from wrote_append [OF w1 this] show "wrote True (content f) (content f') a data" by simp
          next
            fix i assume i: "i < b \<or> aligned (a + length data) \<le> i"
            then have "content f' i = content f1 i" using ih unfolding wrote_any_def eq(2) b4 by auto
            then show "content f' i = content f i" using fr1 [OF i] by simp
          qed
        qed
      qed
    qed
qed

lemma flashWrite_spec:
  assumes "sdk_nor sdk content" and "flashWrite sdk a ptr data f = (ok, f')" and "a + length data + 4 < 2 ^ 32"
  shows "wrote_any ok (content f) (content f') a data"
proof (cases "data = []")
  case True
  then show ?thesis using assms(2) by (simp add: flashWrite_def wrote_any_def)
next
  case False
  show ?thesis
  proof (cases "a mod 4 \<noteq> 0 \<or> \<not> ptr \<or> length data mod 4 \<noteq> 0")
    case True
    then show ?thesis using False assms(2) unaligned_spec [OF assms(1) _ assms(3) False, of f]
      by (simp add: flashWrite_def split: prod.splits)
  next
    case f: False
    then have "flashWrite_words sdk a data f = (ok, f')" using False assms(2) by (simp add: flashWrite_def)
    then show ?thesis using assms(3) by (intro wrote_any_words words_spec [OF assms(1)]) simp_all
  qed
qed

section \<open>Reading at any alignment\<close>

lemma read_pieces_spec:
  assumes "sdk_nor sdk content"
  shows "read_pieces sdk a n dst f = (True, bs) \<Longrightarrow> a + n < 2 ^ 32 \<Longrightarrow> bs = dst @ map (content f) [a ..< a + n]"
proof (induction n arbitrary: a dst rule: less_induct)
  case (less n)
  show ?case
  proof (cases "n = 0")
    case True
    then show ?thesis using less.prems by (simp add: read_pieces.simps)
  next
    case False
    define m where "m = min n (FLASH_PAGE_SIZE div 4)"
    have m: "0 < m" "m \<le> n" using False by (auto simp: m_def FLASH_PAGE_SIZE_def)
    obtain ok b1 where r: "flashRead_words sdk a m f = (ok, b1)" by force
    have "read_pieces sdk a n dst f = (if ok then read_pieces sdk (a + m) (n - m) (dst @ b1) f else (False, dst))"
      by (subst read_pieces.simps) (simp add: False r m_def [symmetric])
    with less.prems(1) have ok: ok "read_pieces sdk (a + m) (n - m) (dst @ b1) f = (True, bs)" by (simp_all split: if_splits)
    have "b1 = map (content f) [a ..< a + m]" using sdk_read [OF assms, of f a m b1] r ok(1) less.prems(2)
      by (simp add: flashRead_words_def split: prod.splits)
    moreover have "bs = (dst @ b1) @ map (content f) [a + m ..< a + m + (n - m)]"
      using less.IH [OF _ ok(2)] less.prems(2) m by simp
    moreover have "[a ..< a + n] = [a ..< a + m] @ [a + m ..< a + m + (n - m)]" using m upt_add_eq_append [of a "a + m" "n - m"] by simp
    ultimately show ?thesis by simp
  qed
qed

lemma flashRead_spec:
  assumes "sdk_nor sdk content" and "flashRead sdk a ptr old f = (True, bs)" and "a + length old + 4 < 2 ^ 32"
  shows "bs = map (content f) [a ..< a + length old]"
proof -
  let ?n = "length old"
  define na where "na = ?n div 4 * 4"
  have na: "na \<le> ?n" "?n < na + 4" by (simp_all add: na_def)
  obtain ok b1 where b1: "(if ptr then flashRead_words sdk a na f else read_pieces sdk a na [] f) = (ok, b1)" by force
  have run: "flashRead sdk a ptr old f = (let dst = b1 @ drop (length b1) old in if \<not> ok then (False, dst)
      else if na < ?n then case spi_flash_read sdk f (of_nat (a + na)) 4 of (r, t) \<Rightarrow>
        if r \<noteq> 0 then (False, dst) else (True, take na dst @ take (?n - na) t @ drop ?n dst)
      else (True, dst))"
    unfolding flashRead_def Let_def na_def [symmetric] b1 prod.case by (rule refl)
  then have ok: ok using assms(2) by (auto simp: Let_def split: if_splits)
  have e1: "b1 = map (content f) [a ..< a + na]"
  proof (cases ptr)
    case True
    then show ?thesis using b1 ok sdk_read [OF assms(1), of f a na b1] assms(3) na(1)
      by (simp add: flashRead_words_def split: prod.splits)
  next
    case False
    then show ?thesis using b1 ok read_pieces_spec [OF assms(1), of a na "[]" f b1] assms(3) na(1) by simp
  qed
  show ?thesis
  proof (cases "na < ?n")
    case False
    then have "na = ?n" using na(1) by simp
    then show ?thesis using assms(2) b1 ok e1 by (simp add: run)
  next
    case True
    obtain r t where t: "spi_flash_read sdk f (of_nat (a + na)) 4 = (r, t)" by force
    have r: "r = 0" "bs = take na (b1 @ drop na old) @ take (?n - na) t @ drop ?n (b1 @ drop na old)"
      using assms(2) ok e1 True t by (simp_all add: run Let_def del: of_nat_add split: if_splits)
    have "t = map (content f) [a + na ..< a + na + 4]" using sdk_read [OF assms(1) t [unfolded r(1)]] assms(3) na(1) by simp
    then have "bs = map (content f) ([a ..< a + na] @ [a + na ..< a + ?n])" using r(2) e1 na by (simp add: take_map)
    also have "[a ..< a + na] @ [a + na ..< a + ?n] = [a ..< a + ?n]" using na(1) upt_add_eq_append [of a "a + na" "?n - na"] by simp
    finally show ?thesis .
  qed
qed


text \<open>A flash in memory, for the concrete instances: every routine succeeds.\<close>

definition ram_sdk :: "(nat \<Rightarrow> u8) sdk_flash" where
  "ram_sdk = \<lparr>spi_flash_read = (\<lambda>f a n. (0, map f [unat a ..< unat a + n])),
     spi_flash_write = (\<lambda>f a bs. (0, \<lambda>i. if unat a \<le> i \<and> i < unat a + length bs then f i AND bs ! (i - unat a) else f i)),
     spi_flash_erase_sector = (\<lambda>f s. (0, \<lambda>i. if i div FLASH_SECTOR_SIZE = unat s then 0xff else f i)),
     spi_flash_get_id = 0x1640ef, puya_buf = True\<rparr>"

lemma ram_sdk_nor: "sdk_nor ram_sdk (\<lambda>f. f)"
  by (auto simp: sdk_nor_def ram_sdk_def)



end
