(* ===== verification/Eboot_Command.thy ===== *)
theory Eboot_Command
  imports Prelude
begin

text \<open>
  The command record that the application leaves in RTC memory for the boot
  loader (\<open>bootloaders/eboot/eboot_command.c\<close> and \<open>.h\<close>): its layout, its CRC-32,
  and the three operations that read, write and clear it.  The lemmas show that
  a written command is read back, that a cleared one is rejected, and that the
  CRC notices every corruption that stays inside one byte.
\<close>

section \<open>Data\<close>

type_synonym rtc_mem = "nat \<Rightarrow> u32"

record eboot_command =
  magic :: u32
  action :: u32
  args :: "u32 list"
  crc32 :: u32

definition ACTION_COPY_RAW :: u32 where "ACTION_COPY_RAW = 0x00000001"
definition ACTION_LOAD_APP :: u32 where "ACTION_LOAD_APP = 0xffffffff"
definition EBOOT_MAGIC :: u32 where "EBOOT_MAGIC = 0xeb001000"
definition EBOOT_MAGIC_MASK :: u32 where "EBOOT_MAGIC_MASK = 0xfffff000"

text \<open>The struct as the 32 words it occupies, and back.\<close>

definition cmd_words :: "eboot_command \<Rightarrow> u32 list" where
  "cmd_words cmd = [magic cmd, action cmd] @ args cmd @ [crc32 cmd]"

definition cmd_of_words :: "u32 list \<Rightarrow> eboot_command" where
  "cmd_of_words ws =
     \<lparr>magic = ws ! 0, action = ws ! 1, args = take 29 (drop 2 ws), crc32 = ws ! 31\<rparr>"

definition wf_command :: "eboot_command \<Rightarrow> bool" where
  "wf_command cmd \<longleftrightarrow> length (args cmd) = 29"

section \<open>Operations\<close>

function crc_bits :: "u8 \<Rightarrow> u32 \<Rightarrow> u32 \<Rightarrow> u32" where
  "crc_bits c i crc =
     (if i = 0 then crc
      else let bit0 = (crc AND 0x80000000 \<noteq> 0);
               bit1 = (if ucast c AND i \<noteq> 0 then \<not> bit0 else bit0);
               crc1 = push_bit 1 crc;
               crc2 = (if bit1 then crc1 XOR 0x04c11db7 else crc1)
           in crc_bits c (drop_bit 1 i) crc2)"
  by pat_completeness auto
termination
proof (relation "measure (\<lambda>(c, i, crc). unat i)", goal_cases)
  case 1
  then show ?case by simp
next
  case (2 c i crc bit0 bit1 crc1 crc2)
  then show ?case by (simp add: drop_bit_eq_div unat_div unat_gt_0)
qed

declare crc_bits.simps [simp del]

definition crc_update :: "u32 \<Rightarrow> u8 list \<Rightarrow> u32" where
  "crc_update crc data = foldl (\<lambda>crc c. crc_bits c 0x80 crc) crc data"

definition eboot_command_calculate_crc32 :: "eboot_command \<Rightarrow> u32" where
  "eboot_command_calculate_crc32 cmd =
     crc_update 0xffffffff (take 124 (concat (map bytes_of (cmd_words cmd))))"

definition eboot_command_read :: "rtc_mem \<Rightarrow> int \<times> eboot_command" where
  "eboot_command_read RTC_MEM =
     (let cmd = cmd_of_words (map RTC_MEM [0..<32]);
          crc = eboot_command_calculate_crc32 cmd
      in if magic cmd AND EBOOT_MAGIC_MASK \<noteq> EBOOT_MAGIC \<or> crc32 cmd \<noteq> crc
         then (1, cmd) else (0, cmd))"

definition eboot_command_seal :: "eboot_command \<Rightarrow> eboot_command" where
  "eboot_command_seal cmd =
     (let cmd1 = cmd\<lparr>magic := EBOOT_MAGIC\<rparr>
      in cmd1\<lparr>crc32 := eboot_command_calculate_crc32 cmd1\<rparr>)"

definition eboot_command_write :: "eboot_command \<Rightarrow> rtc_mem \<Rightarrow> rtc_mem" where
  "eboot_command_write cmd RTC_MEM =
     (let src = cmd_words (eboot_command_seal cmd)
      in (\<lambda>i. if i < 32 then src ! i else RTC_MEM i))"

definition eboot_command_clear :: "rtc_mem \<Rightarrow> rtc_mem" where
  "eboot_command_clear RTC_MEM = RTC_MEM(0 := 0, 31 := 0)"

section \<open>The CRC as a linear map\<close>

text \<open>One bit of the loop body, as a function of the message bit.\<close>

definition crc_step :: "u32 \<Rightarrow> bool \<Rightarrow> u32" where
  "crc_step crc b = push_bit 1 crc XOR (if bit crc 31 \<noteq> b then 0x04c11db7 else 0)"

lemma and_bit31: "(w :: u32) AND 0x80000000 \<noteq> 0 \<longleftrightarrow> bit w 31"
  using and_exp_eq_0_iff_not_bit [of w 31] by simp

lemma crc_bits_step:
  "i \<noteq> 0 \<Longrightarrow> crc_bits c i crc = crc_bits c (drop_bit 1 i) (crc_step crc (ucast c AND i \<noteq> 0))"
  by (subst crc_bits.simps) (auto simp: Let_def crc_step_def and_bit31 simp del: One_nat_def)

lemma crc_bits_0: "crc_bits c 0 crc = crc"
  by (simp add: crc_bits.simps)

definition msb_first :: "u8 \<Rightarrow> bool list" where
  "msb_first c = map (bit c) [7, 6, 5, 4, 3, 2, 1, 0]"

lemma ucast_and_exp: "n < 8 \<Longrightarrow> (ucast (c :: u8) :: u32) AND 2 ^ n \<noteq> 0 \<longleftrightarrow> bit c n"
  by (simp add: and_exp_eq_0_iff_not_bit bit_simps)

lemma crc_bits_byte: "crc_bits c 0x80 crc = foldl crc_step crc (msb_first c)"
  using ucast_and_exp [of 7 c] ucast_and_exp [of 6 c] ucast_and_exp [of 5 c] ucast_and_exp [of 4 c]
    ucast_and_exp [of 3 c] ucast_and_exp [of 2 c] ucast_and_exp [of 1 c] ucast_and_exp [of 0 c]
  by (simp add: crc_bits_step crc_bits_0 msb_first_def)

lemma crc_update_bits: "crc_update crc data = foldl crc_step crc (concat (map msb_first data))"
  by (induction data arbitrary: crc) (simp_all add: crc_update_def crc_bits_byte)

lemma crc_update_append: "crc_update crc (xs @ ys) = crc_update (crc_update crc xs) ys"
  by (simp add: crc_update_def)

lemma crc_step_xor: "crc_step (a XOR b) (p \<noteq> q) = crc_step a p XOR crc_step b q"
  by (auto simp: crc_step_def bit_simps push_bit_xor xor.assoc xor.left_commute xor.commute)

lemma crc_step_eq_0: "crc_step d False = 0 \<Longrightarrow> d = 0"
proof -
  assume z: "crc_step d False = 0"
  have nb: "\<not> bit d 31"
  proof
    assume "bit d 31"
    with z have "push_bit 1 d = (0x04c11db7 :: u32)"
      unfolding crc_step_def by (simp only: xor_eq_0_word_iff) simp
    then have "bit (push_bit 1 d) 0 = bit (0x04c11db7 :: u32) 0" by (rule arg_cong)
    then show False unfolding bit_shl1 by simp
  qed
  with z have "push_bit 1 d = 0" by (simp add: crc_step_def)
  then have "bit (push_bit 1 d) (Suc n) = False" for n by (simp only:) simp
  then have "n < 31 \<Longrightarrow> \<not> bit d n" for n unfolding bit_shl1 by simp
  with nb show "d = 0" by (intro bit_word_eqI) (auto simp: less_Suc_eq eval_nat_numeral)
qed

lemma crc_step_inject: "crc_step a p = crc_step b p \<Longrightarrow> a = b"
proof -
  assume "crc_step a p = crc_step b p"
  then have "crc_step (a XOR b) False = 0" using crc_step_xor [of a b p p] by simp
  then show "a = b" by (metis crc_step_eq_0 xor_eq_0_word_iff)
qed

lemma foldl_crc_step_inject: "foldl crc_step a bs = foldl crc_step b bs \<Longrightarrow> a = b"
  by (induction bs arbitrary: a b) (auto dest: crc_step_inject)

text \<open>
  Feeding up to 32 message bits is the same as adding them to the top of the
  register and feeding zeros, so a burst of at most 32 bits is seen injectively.
\<close>

fun top_bits :: "bool list \<Rightarrow> u32" where
  "top_bits [] = 0"
| "top_bits (b # bs) = (if b then 0x80000000 else 0) XOR drop_bit 1 (top_bits bs)"

lemma bit_u32_top: "bit (0x80000000 :: u32) n \<longleftrightarrow> n = 31"
proof -
  have "(0x80000000 :: u32) = push_bit 31 1" by simp
  then show ?thesis by (simp only: bit_push_bit_iff bit_1_iff) auto
qed

lemma bit_top_bits:
  "bit (top_bits bs) n \<longleftrightarrow> n < 32 \<and> 31 - n < length bs \<and> bs ! (31 - n)"
proof (induction bs arbitrary: n)
  case Nil
  then show ?case by simp
next
  case (Cons b bs)
  have "bit (top_bits (b # bs)) n \<longleftrightarrow> ((b \<and> n = 31) \<noteq> bit (top_bits bs) (Suc n))"
    by (cases b) (simp_all only: top_bits.simps bit_xor_iff bit_drop_bit_eq bit_u32_top if_True
        if_False bit_0_eq simp_thms add_Suc add_0 One_nat_def bot_apply bot_bool_def o_apply plus_1_eq_Suc)
  then show ?case using Cons.IH [of "Suc n"]
    by (cases "n = 31") (auto simp: nth_Cons' Suc_diff_Suc)
qed

lemma crc_step_top: "crc_step (s XOR top_bits (b # bs)) False = crc_step s b XOR top_bits bs"
  if "length bs < 32"
proof -
  let ?t = "top_bits bs"
  have 0: "push_bit 1 (drop_bit 1 ?t) = ?t"
  proof (rule bit_word_eqI)
    fix n assume "n < LENGTH(32)"
    with that show "bit (push_bit 1 (drop_bit 1 ?t)) n = bit ?t n"
      unfolding bit_shl1 bit_drop_bit_eq o_apply by (cases n) (auto simp: bit_top_bits)
  qed
  have 1: "crc_step (drop_bit 1 ?t) False = ?t"
    using 0 by (simp add: crc_step_def bit_drop_bit_eq bit_top_bits)
  have z: "push_bit 1 (0x80000000 :: u32) = 0" by simp
  have 2: "crc_step (s XOR (if b then 0x80000000 else 0)) False = crc_step s b"
    by (cases b) (simp_all only: crc_step_def bit_xor_iff bit_u32_top push_bit_xor z
        xor.right_neutral if_True if_False, simp)
  have "s XOR top_bits (b # bs) = (s XOR (if b then 0x80000000 else 0)) XOR drop_bit 1 ?t"
    by (simp add: xor.assoc)
  then show ?thesis
    using crc_step_xor [of "s XOR (if b then 0x80000000 else 0)" "drop_bit 1 ?t" False False] 1 2
    by simp
qed

lemma foldl_crc_step_top:
  "length bs \<le> 32 \<Longrightarrow>
   foldl crc_step s bs = foldl crc_step (s XOR top_bits bs) (replicate (length bs) False)"
  by (induction bs arbitrary: s) (simp_all add: crc_step_top del: top_bits.simps(2))

lemma top_bits_inject:
  assumes "top_bits xs = top_bits ys" and "length xs = length ys" and "length xs \<le> 32"
  shows "xs = ys"
proof (rule nth_equalityI)
  fix i assume i: "i < length xs"
  have "bit (top_bits xs) (31 - i) = bit (top_bits ys) (31 - i)" using assms(1) by simp
  moreover have "31 - i < (32 :: nat)" by arith
  ultimately show "xs ! i = ys ! i" using i assms(2,3) by (simp add: bit_top_bits)
qed (rule assms(2))

lemma foldl_crc_step_burst:
  assumes "foldl crc_step s xs = foldl crc_step s ys" and "length xs = length ys" and "length xs \<le> 32"
  shows "xs = ys"
proof -
  have "s XOR top_bits xs = s XOR top_bits ys"
    using assms foldl_crc_step_top [of xs s] foldl_crc_step_top [of ys s]
      foldl_crc_step_inject [of "s XOR top_bits xs" "replicate (length xs) False"] by simp
  then have "top_bits xs = top_bits ys" by (simp only: xor_left_cancel_word)
  then show ?thesis using assms(2,3) by (rule top_bits_inject)
qed

lemma msb_first_inject: "msb_first a = msb_first b \<Longrightarrow> a = b"
proof (rule bit_word_eqI)
  fix n assume "msb_first a = msb_first b" and "n < LENGTH(8)"
  then show "bit a n = bit b n" by (auto simp: msb_first_def less_Suc_eq eval_nat_numeral)
qed

lemma length_msb_first [simp]: "length (msb_first c) = 8"
  by (simp add: msb_first_def)

lemma length_concat_msb_first [simp]: "length (concat (map msb_first xs)) = 8 * length xs"
  by (induction xs) simp_all

lemma concat_msb_first_inject:
  "length xs = length ys \<Longrightarrow> concat (map msb_first xs) = concat (map msb_first ys) \<Longrightarrow> xs = ys"
  by (induction xs ys rule: list_induct2) (auto dest: msb_first_inject)

lemma crc_update_inject: "crc_update a data = crc_update b data \<Longrightarrow> a = b"
  by (auto simp: crc_update_bits dest: foldl_crc_step_inject)

lemma crc_update_burst:
  assumes "length xs = length ys" and "length xs \<le> 4" and "xs \<noteq> ys"
  shows "crc_update crc (pre @ xs @ post) \<noteq> crc_update crc (pre @ ys @ post)"
proof
  assume "crc_update crc (pre @ xs @ post) = crc_update crc (pre @ ys @ post)"
  then have "crc_update (crc_update crc pre) xs = crc_update (crc_update crc pre) ys"
    by (auto simp: crc_update_append dest: crc_update_inject)
  then have "concat (map msb_first xs) = concat (map msb_first ys)"
    using assms(1,2) by (intro foldl_crc_step_burst) (auto simp: crc_update_bits)
  then show False using assms by (auto dest: concat_msb_first_inject)
qed

section \<open>Reading, writing and clearing\<close>

lemma length_cmd_words: "wf_command cmd \<Longrightarrow> length (cmd_words cmd) = 32"
  by (simp add: cmd_words_def wf_command_def)

lemma cmd_of_words_cmd_words [simp]: "wf_command cmd \<Longrightarrow> cmd_of_words (cmd_words cmd) = cmd"
  by (simp add: cmd_of_words_def cmd_words_def wf_command_def nth_append)

lemma wf_seal [simp]: "wf_command (eboot_command_seal cmd) = wf_command cmd"
  by (simp add: wf_command_def eboot_command_seal_def Let_def)

text \<open>The CRC covers the 31 words before the \<open>crc32\<close> field and not that field.\<close>

lemma calculate_crc32_words:
  "wf_command cmd \<Longrightarrow>
   eboot_command_calculate_crc32 cmd =
     crc_update 0xffffffff (concat (map bytes_of ([magic cmd, action cmd] @ args cmd)))"
proof -
  assume wf: "wf_command cmd"
  let ?ws = "[magic cmd, action cmd] @ args cmd"
  have "concat (map bytes_of (cmd_words cmd)) = concat (map bytes_of ?ws) @ bytes_of (crc32 cmd)"
    by (simp add: cmd_words_def)
  moreover have "length (concat (map bytes_of ?ws)) = 124"
    using wf by (simp add: wf_command_def)
  ultimately have "take 124 (concat (map bytes_of (cmd_words cmd))) = concat (map bytes_of ?ws)"
    by (metis append_eq_conv_conj)
  then show ?thesis by (simp add: eboot_command_calculate_crc32_def)
qed

lemma calculate_crc32_crc32 [simp]:
  "wf_command cmd \<Longrightarrow>
   eboot_command_calculate_crc32 (cmd\<lparr>crc32 := x\<rparr>) = eboot_command_calculate_crc32 cmd"
  by (simp add: calculate_crc32_words wf_command_def)

definition command_valid :: "eboot_command \<Rightarrow> bool" where
  "command_valid cmd \<longleftrightarrow>
     magic cmd AND EBOOT_MAGIC_MASK = EBOOT_MAGIC \<and> crc32 cmd = eboot_command_calculate_crc32 cmd"

lemma eboot_command_read_eq:
  "eboot_command_read RTC_MEM =
     (let cmd = cmd_of_words (map RTC_MEM [0..<32]) in (if command_valid cmd then 0 else 1, cmd))"
  by (auto simp: eboot_command_read_def command_valid_def Let_def)

lemma command_valid_seal: "wf_command cmd \<Longrightarrow> command_valid (eboot_command_seal cmd)"
  by (simp add: command_valid_def eboot_command_seal_def Let_def EBOOT_MAGIC_def
      EBOOT_MAGIC_MASK_def wf_command_def)

lemma map_write: "wf_command cmd \<Longrightarrow>
  map (eboot_command_write cmd RTC_MEM) [0..<32] = cmd_words (eboot_command_seal cmd)"
  by (rule nth_equalityI) (simp_all add: eboot_command_write_def Let_def length_cmd_words)

lemma read_after_write:
  "wf_command cmd \<Longrightarrow>
   eboot_command_read (eboot_command_write cmd RTC_MEM) = (0, eboot_command_seal cmd)"
  by (simp add: eboot_command_read_eq map_write Let_def command_valid_seal)

lemma upt_32: "[0..<32] = 0 # [Suc 0..<32]"
  by (simp add: upt_rec)

lemma read_after_clear: "fst (eboot_command_read (eboot_command_clear RTC_MEM)) = 1"
  by (simp add: eboot_command_read_eq Let_def command_valid_def cmd_of_words_def upt_32
      eboot_command_clear_def EBOOT_MAGIC_def del: upt_Suc)

section \<open>The mailbox contract\<close>

text \<open>
  What the application and the boot loader rely on: a posted command is taken
  back, and a consumed mailbox gives nothing.
\<close>

locale mailbox =
  fixes post :: "'c \<Rightarrow> 'm \<Rightarrow> 'm"
    and fetch :: "'m \<Rightarrow> 'c option"
    and consume :: "'m \<Rightarrow> 'm"
    and sealed :: "'c \<Rightarrow> 'c"
    and wf :: "'c \<Rightarrow> bool"
  assumes fetch_post: "wf c \<Longrightarrow> fetch (post c m) = Some (sealed c)"
    and fetch_consume: "fetch (consume m) = None"
    and wf_sealed: "wf c \<Longrightarrow> wf (sealed c)"
    and sealed_sealed: "wf c \<Longrightarrow> sealed (sealed c) = sealed c"
begin

text \<open>A command that was fetched and posted again is fetched unchanged.\<close>

lemma repost: "wf c \<Longrightarrow> fetch (post c m) = Some c' \<Longrightarrow> fetch (post c' m') = Some c'"
  by (auto simp: fetch_post wf_sealed sealed_sealed)

text \<open>A later post wins over an earlier one, whatever happened in between.\<close>

lemma last_post: "wf c \<Longrightarrow> fetch (post c (consume (post c0 m))) = Some (sealed c)"
  by (simp add: fetch_post)

text \<open>A mailbox delivers a command at most once.\<close>

lemma at_most_once: "fetch (consume (post c m)) = None"
  by (rule fetch_consume)

end

definition eboot_fetch :: "rtc_mem \<Rightarrow> eboot_command option" where
  "eboot_fetch RTC_MEM =
     (case eboot_command_read RTC_MEM of (res, cmd) \<Rightarrow> if res = 0 then Some cmd else None)"

lemma seal_seal: "wf_command c \<Longrightarrow> eboot_command_seal (eboot_command_seal c) = eboot_command_seal c"
  by (simp add: eboot_command_seal_def Let_def wf_command_def calculate_crc32_words)

interpretation eboot_mail: mailbox eboot_command_write eboot_fetch eboot_command_clear
  eboot_command_seal wf_command
proof unfold_locales
  fix m show "eboot_fetch (eboot_command_clear m) = None"
    using read_after_clear [of m] by (simp add: eboot_fetch_def split_beta)
qed (simp_all add: eboot_fetch_def read_after_write seal_seal)

section \<open>Properties\<close>

lemma words_of_cmd: "length ws = 32 \<Longrightarrow> cmd_words (cmd_of_words ws) = ws"
proof -
  assume len: "length ws = 32"
  have "drop 2 ws = take 29 (drop 2 ws) @ drop 29 (drop 2 ws)" by (simp only: append_take_drop_id)
  then have "ws = take 2 ws @ take 29 (drop 2 ws) @ drop 31 ws"
    using append_take_drop_id [of 2 ws] by simp
  moreover have "take 2 ws = [ws ! 0, ws ! 1]" "drop 31 ws = [ws ! 31]"
    using len by (auto simp: list_eq_iff_nth_eq less_Suc_eq numeral_2_eq_2)
  ultimately have "ws = [ws ! 0, ws ! 1] @ take 29 (drop 2 ws) @ [ws ! 31]" by metis
  then show ?thesis by (simp add: cmd_words_def cmd_of_words_def)
qed

lemma calculate_crc32_of_words:
  assumes "length ws = 32"
  shows "eboot_command_calculate_crc32 (cmd_of_words ws) =
    crc_update 0xffffffff (concat (map bytes_of (take 31 ws)))"
proof -
  have wf: "wf_command (cmd_of_words ws)" using assms by (simp add: wf_command_def cmd_of_words_def)
  have "take 31 (cmd_words (cmd_of_words ws)) = take 31 ws"
    by (simp add: words_of_cmd assms)
  then show ?thesis using wf by (simp add: calculate_crc32_words cmd_words_def wf_command_def)
qed

lemma crc_one_word:
  assumes "i < length ws" and "v \<noteq> ws ! i"
  shows "crc_update c (concat (map bytes_of (ws[i := v]))) \<noteq> crc_update c (concat (map bytes_of ws))"
proof -
  let ?pre = "concat (map bytes_of (take i ws))" and ?post = "concat (map bytes_of (drop (Suc i) ws))"
  have "concat (map bytes_of (take i ws @ x # drop (Suc i) ws)) = ?pre @ bytes_of x @ ?post" for x
    by simp
  then have "concat (map bytes_of ws) = ?pre @ bytes_of (ws ! i) @ ?post"
    and "concat (map bytes_of (ws[i := v])) = ?pre @ bytes_of v @ ?post"
    using assms(1) id_take_nth_drop [of i ws] upd_conv_take_nth_drop [of i ws v] by metis+
  moreover have "bytes_of v \<noteq> bytes_of (ws ! i)"
    using assms(2) words_of_bytes_of [of v "[]"] words_of_bytes_of [of "ws ! i" "[]"] by auto
  ultimately show ?thesis using crc_update_burst [of "bytes_of v" "bytes_of (ws ! i)" c] by simp
qed

lemma crc32_cmd_of_words: "crc32 (cmd_of_words ws) = ws ! 31"
  by (simp add: cmd_of_words_def)

text \<open>
  C1: a command posted with \<open>eboot_command_write\<close> is accepted by
  \<open>eboot_command_read\<close> with the action and the arguments that were posted, the
  magic number and the CRC filled in, and no RTC word beyond the command is
  touched.
\<close>

theorem eboot_command_roundtrip:
  assumes "wf_command cmd"
  shows "\<exists>cmd'. eboot_command_read (eboot_command_write cmd RTC_MEM) = (0, cmd') \<and>
    action cmd' = action cmd \<and> args cmd' = args cmd \<and> magic cmd' = EBOOT_MAGIC \<and>
    crc32 cmd' = eboot_command_calculate_crc32 cmd' \<and>
    (\<forall>i \<ge> 32. eboot_command_write cmd RTC_MEM i = RTC_MEM i)"
proof (intro exI conjI)
  show "eboot_command_read (eboot_command_write cmd RTC_MEM) = (0, eboot_command_seal cmd)"
    using assms by (rule read_after_write)
  show "crc32 (eboot_command_seal cmd) = eboot_command_calculate_crc32 (eboot_command_seal cmd)"
    using command_valid_seal [OF assms] by (simp add: command_valid_def)
  show "\<forall>i \<ge> 32. eboot_command_write cmd RTC_MEM i = RTC_MEM i"
    by (simp add: eboot_command_write_def Let_def)
qed (simp_all add: eboot_command_seal_def Let_def)

theorem eboot_command_roundtrip_witness:
  "\<exists>cmd'. eboot_command_read (eboot_command_write
      \<lparr>magic = 0, action = ACTION_COPY_RAW, args = replicate 29 7, crc32 = 0\<rparr> (\<lambda>_. 0)) = (0, cmd') \<and>
    args cmd' = replicate 29 7"
  using eboot_command_roundtrip [of "\<lparr>magic = 0, action = ACTION_COPY_RAW, args = replicate 29 7, crc32 = 0\<rparr>" "\<lambda>_. 0"]
  by (auto simp: wf_command_def)

text \<open>
  C2: after \<open>eboot_command_write\<close>, changing any one of the 32 RTC words of the
  command, in any way, makes \<open>eboot_command_read\<close> reject it.
\<close>

theorem eboot_command_corruption_detected:
  assumes wf: "wf_command cmd" and i: "i < 32" and v: "v \<noteq> eboot_command_write cmd RTC_MEM i"
  shows "fst (eboot_command_read ((eboot_command_write cmd RTC_MEM)(i := v))) = 1"
proof -
  let ?ws = "cmd_words (eboot_command_seal cmd)"
  have len: "length ?ws = 32" using wf by (simp add: length_cmd_words)
  have wsi: "eboot_command_write cmd RTC_MEM i = ?ws ! i"
    using i by (simp add: eboot_command_write_def Let_def)
  have map: "map ((eboot_command_write cmd RTC_MEM)(i := v)) [0..<32] = ?ws[i := v]"
    using len i by (intro nth_equalityI) (auto simp: nth_list_update eboot_command_write_def Let_def)
  have crc: "?ws ! 31 = crc_update 0xffffffff (concat (map bytes_of (take 31 ?ws)))"
    using wf command_valid_seal [OF wf] calculate_crc32_of_words [OF len] crc32_cmd_of_words [of ?ws]
    by (simp add: command_valid_def)
  have "\<not> command_valid (cmd_of_words (?ws[i := v]))"
  proof (cases "i = 31")
    case True
    then show ?thesis using crc v wsi len
      by (simp add: command_valid_def calculate_crc32_of_words crc32_cmd_of_words)
  next
    case False
    with i have "i < length (take 31 ?ws)" and "v \<noteq> take 31 ?ws ! i" using len v wsi by auto
    then have "crc_update 0xffffffff (concat (map bytes_of ((take 31 ?ws)[i := v]))) \<noteq> ?ws ! 31"
      unfolding crc by (rule crc_one_word)
    then show ?thesis using False len
      by (auto simp: command_valid_def calculate_crc32_of_words take_update_swap crc32_cmd_of_words)
  qed
  then show ?thesis by (simp add: eboot_command_read_eq map Let_def)
qed

theorem eboot_command_corruption_witness:
  "fst (eboot_command_read ((eboot_command_write
      \<lparr>magic = 0, action = ACTION_COPY_RAW, args = replicate 29 7, crc32 = 0\<rparr> (\<lambda>_. 0))(2 := 8))) = 1"
  by (rule eboot_command_corruption_detected)
    (simp_all add: wf_command_def eboot_command_write_def Let_def cmd_words_def eboot_command_seal_def
      nth_append)

end
