(* ===== verification/Updater.thy ===== *)
theory Updater
  imports Esp_Flash Eboot_Command
begin

text \<open>
  The over-the-air updater \<open>cores/esp8266/Updater.cpp\<close>: it collects a new image in a buffer of one sector, writes it
  to the flash behind the running sketch, checks it, and leaves the boot loader the command to copy it.  Sizes and
  addresses are 32-bit numbers of the source, here naturals with the wrap-around written out.
\<close>

section \<open>State\<close>

datatype upd_event = Started | Ended | Failed nat | Progress nat nat

record ('f, 'm) updater =
  dev :: 'f
  rtc_words :: rtc_mem
  sketch_cache :: u32
  u_error :: nat
  u_buffer :: "u8 list"
  bufferLen :: nat
  bufferSize :: nat
  u_size :: nat
  startAddress :: nat
  currentAddress :: nat
  command :: nat
  target_md5 :: "u8 list"
  u_md5 :: 'm
  u_log :: "upd_event list"

definition UPDATE_ERROR_OK :: nat where "UPDATE_ERROR_OK = 0"
definition UPDATE_ERROR_WRITE :: nat where "UPDATE_ERROR_WRITE = 1"
definition UPDATE_ERROR_ERASE :: nat where "UPDATE_ERROR_ERASE = 2"
definition UPDATE_ERROR_READ :: nat where "UPDATE_ERROR_READ = 3"
definition UPDATE_ERROR_SPACE :: nat where "UPDATE_ERROR_SPACE = 4"
definition UPDATE_ERROR_SIZE :: nat where "UPDATE_ERROR_SIZE = 5"
definition UPDATE_ERROR_STREAM :: nat where "UPDATE_ERROR_STREAM = 6"
definition UPDATE_ERROR_MD5 :: nat where "UPDATE_ERROR_MD5 = 7"
definition UPDATE_ERROR_FLASH_CONFIG :: nat where "UPDATE_ERROR_FLASH_CONFIG = 8"
definition UPDATE_ERROR_NEW_FLASH_CONFIG :: nat where "UPDATE_ERROR_NEW_FLASH_CONFIG = 9"
definition UPDATE_ERROR_MAGIC_BYTE :: nat where "UPDATE_ERROR_MAGIC_BYTE = 10"
definition UPDATE_ERROR_BOOTSTRAP :: nat where "UPDATE_ERROR_BOOTSTRAP = 11"
definition UPDATE_ERROR_SIGN :: nat where "UPDATE_ERROR_SIGN = 12"
definition UPDATE_ERROR_NO_DATA :: nat where "UPDATE_ERROR_NO_DATA = 13"
definition UPDATE_ERROR_OOM :: nat where "UPDATE_ERROR_OOM = 14"
definition UPDATE_ERROR_RUNNING_ALREADY :: nat where "UPDATE_ERROR_RUNNING_ALREADY = 15"
definition UPDATE_ERROR_UNKNOWN_COMMAND :: nat where "UPDATE_ERROR_UNKNOWN_COMMAND = 16"

definition U_FLASH :: nat where "U_FLASH = 0"
definition U_FS :: nat where "U_FS = 100"

text \<open>
  Outside the updater: the flash routines, the boot mode pins, the addresses of the linker script, the free
  memory, what a new array or variable holds, the MD5 routines of the mask ROM, and the optional signature check, whose hash
  and verification a sketch installs.
\<close>

record 'h upd_verifier =
  sig_length :: nat
  hash_begin :: 'h
  hash_add :: "'h \<Rightarrow> u8 list \<Rightarrow> 'h"
  hash_end :: "'h \<Rightarrow> 'h"
  sig_verify :: "'h \<Rightarrow> u8 list \<Rightarrow> bool"

record ('f, 'm, 'h) upd_env =
  sdk :: "'f sdk_flash"
  GPI :: u32
  FS_start :: nat
  FS_end :: nat
  free_heap :: nat
  has_memory :: "nat \<Rightarrow> bool"
  junk :: "nat \<Rightarrow> u8"
  junk_args :: "nat \<Rightarrow> u32"
  md5_new :: 'm
  md5_begin :: 'm
  md5_add :: "'m \<Rightarrow> u8 list \<Rightarrow> 'm"
  md5_calculate :: "'m \<Rightarrow> 'm"
  md5_string :: "'m \<Rightarrow> u8 list"
  verifier :: "'h upd_verifier option"

definition progress :: "('f, 'm) updater \<Rightarrow> nat" where
  "progress u = (currentAddress u + 2 ^ 32 - startAddress u) mod 2 ^ 32"

definition remaining :: "('f, 'm) updater \<Rightarrow> nat" where
  "remaining u = (u_size u + 2 ^ 32 - progress u) mod 2 ^ 32"

definition isFinished :: "('f, 'm) updater \<Rightarrow> bool" where
  "isFinished u \<longleftrightarrow> currentAddress u = (startAddress u + u_size u) mod 2 ^ 32"

definition hasError :: "('f, 'm) updater \<Rightarrow> bool" where
  "hasError u \<longleftrightarrow> u_error u \<noteq> UPDATE_ERROR_OK"

definition isRunning :: "('f, 'm) updater \<Rightarrow> bool" where
  "isRunning u \<longleftrightarrow> 0 < u_size u"

section \<open>Reset and errors\<close>

definition upd_reset :: "bool \<Rightarrow> ('f, 'm) updater \<Rightarrow> ('f, 'm) updater" where
  "upd_reset callback u = u\<lparr>u_buffer := [], bufferLen := 0, startAddress := 0, currentAddress := 0, u_size := 0, command := U_FLASH,
     u_log := u_log u @ (if callback then [Ended] else [])\<rparr>"

definition setError :: "nat \<Rightarrow> ('f, 'm) updater \<Rightarrow> ('f, 'm) updater" where
  "setError e u = upd_reset True (u\<lparr>u_error := e, u_log := u_log u @ [Failed e]\<rparr>)"

definition skip_to_end :: "('f, 'm) updater \<Rightarrow> ('f, 'm) updater" where
  "skip_to_end u = u\<lparr>currentAddress := (startAddress u + u_size u) mod 2 ^ 32\<rparr>"

section \<open>Starting\<close>

definition round_sector :: "nat \<Rightarrow> nat" where
  "round_sector n = (n + FLASH_SECTOR_SIZE - 1) mod 2 ^ 32 div FLASH_SECTOR_SIZE * FLASH_SECTOR_SIZE"

definition FS_PHYS_ADDR :: "('f, 'm, 'h) upd_env \<Rightarrow> nat" where
  "FS_PHYS_ADDR env = (FS_start env + 2 ^ 32 - 0x40200000) mod 2 ^ 32"

definition upd_place :: "('f, 'm, 'h) upd_env \<Rightarrow> nat \<Rightarrow> nat \<Rightarrow> nat \<Rightarrow> nat + nat" where
  "upd_place env sketch rounded cmd =
     (if cmd = U_FLASH
      then let stop = FS_PHYS_ADDR env; start = (if rounded < stop then stop - rounded else 0) in
        if start < sketch then Inl UPDATE_ERROR_SPACE else Inr start
      else if cmd = U_FS
      then if FS_end env < (FS_start env + rounded) mod 2 ^ 32 then Inl UPDATE_ERROR_SPACE else Inr (FS_PHYS_ADDR env)
      else Inl UPDATE_ERROR_UNKNOWN_COMMAND)"

definition upd_begin :: "('f, 'm, 'h) upd_env \<Rightarrow> nat \<Rightarrow> nat \<Rightarrow> ('f, 'm) updater \<Rightarrow> bool \<times> ('f, 'm) updater" where
  "upd_begin env n cmd u =
     (if 0 < u_size u then (False, setError UPDATE_ERROR_RUNNING_ALREADY u)
      else if drop_bit 16 (GPI env) AND 0xf = 1 then (False, setError UPDATE_ERROR_BOOTSTRAP u)
      else if n = 0 then (False, setError UPDATE_ERROR_SIZE u)
      else if \<not> checkFlashConfig (sdk env) False (dev u) then (False, setError UPDATE_ERROR_FLASH_CONFIG u)
      else let cache = getSketchSize (sdk env) (sketch_cache u) (dev u);
               u1 = (upd_reset True u)\<lparr>u_error := UPDATE_ERROR_OK, target_md5 := [], u_md5 := md5_new env, sketch_cache := cache\<rparr> in
        case upd_place env (round_sector (unat cache)) (round_sector n) cmd of
          Inl e \<Rightarrow> (False, setError e u1)
        | Inr start \<Rightarrow>
            let bs = (if 2 * FLASH_SECTOR_SIZE < free_heap env then FLASH_SECTOR_SIZE else 256);
                u2 = u1\<lparr>startAddress := start, currentAddress := start, u_size := n, bufferSize := bs\<rparr> in
            if \<not> has_memory env bs then (False, upd_reset False (setError UPDATE_ERROR_OOM u2))
            else (True, u2\<lparr>u_buffer := map (junk env) [0..<bs], command := cmd,
                   u_md5 := (if verifier env = None then md5_begin env else u_md5 u2), u_log := u_log u2 @ [Started]\<rparr>))"

definition setMD5 :: "u8 list \<Rightarrow> ('f, 'm) updater \<Rightarrow> bool \<times> ('f, 'm) updater" where
  "setMD5 expected u = (if length expected \<noteq> 32 then (False, u) else (True, u\<lparr>target_md5 := expected\<rparr>))"

section \<open>Writing\<close>

text \<open>The buffer with the flash mode of the chip in the header of a sketch, and what the mode byte is set to afterwards.\<close>

definition adapt_mode :: "('f, 'm, 'h) upd_env \<Rightarrow> 'f \<Rightarrow> ('f, 'm) updater \<Rightarrow> u8 list \<times> u8 list" where
  "adapt_mode env f u =
     (let b = u_buffer u; flashMode = getFlashChipMode (sdk env) f; bufferFlashMode = magicFlashChipMode (b ! 2) in
      if currentAddress u = startAddress u \<and> b ! 0 \<noteq> 0x1f \<and> command u = U_FLASH \<and> bufferFlashMode \<noteq> flashMode
      then (b[2 := flashMode], b[2 := bufferFlashMode]) else (b, b))"

definition writeBuffer :: "('f, 'm, 'h) upd_env \<Rightarrow> ('f, 'm) updater \<Rightarrow> bool \<times> ('f, 'm) updater" where
  "writeBuffer env u =
     (let cur = currentAddress u;
          (eraseResult, f1) = (if cur mod FLASH_SECTOR_SIZE = 0
            then flashEraseSector (sdk env) (cur div FLASH_SECTOR_SIZE) (dev u) else (True, dev u));
          (b, b') = adapt_mode env f1 u in
      if \<not> eraseResult then (False, setError UPDATE_ERROR_ERASE (skip_to_end (u\<lparr>dev := f1\<rparr>)))
      else case flashWrite (sdk env) cur True (take (bufferLen u) b) f1 of (writeResult, f2) \<Rightarrow>
        if \<not> writeResult then (False, setError UPDATE_ERROR_WRITE (skip_to_end (u\<lparr>dev := f2\<rparr>)))
        else (True, u\<lparr>dev := f2, u_buffer := b', currentAddress := (cur + bufferLen u) mod 2 ^ 32, bufferLen := 0,
               u_md5 := (if verifier env = None then md5_add env (u_md5 u) (take (bufferLen u) b') else u_md5 u)\<rparr>))"

text \<open>Copying bytes behind those already in the buffer.\<close>

definition buffer_put :: "u8 list \<Rightarrow> ('f, 'm) updater \<Rightarrow> ('f, 'm) updater" where
  "buffer_put d u = u\<lparr>u_buffer := take (bufferLen u) (u_buffer u) @ d @ drop (bufferLen u + length d) (u_buffer u),
     bufferLen := bufferLen u + length d\<rparr>"

partial_function (option) write_loop :: "('f, 'm, 'h) upd_env \<Rightarrow> u8 list \<Rightarrow> ('f, 'm) updater \<Rightarrow> (bool \<times> u8 list \<times> ('f, 'm) updater) option" where
  "write_loop env left u =
     (if bufferSize u < bufferLen u + length left
      then let n = bufferSize u - bufferLen u in
        case writeBuffer env (buffer_put (take n left) u) of (ok, u1) \<Rightarrow>
        if \<not> ok then Some (False, left, u1) else write_loop env (drop n left) u1
      else Some (True, left, u))"

definition upd_write :: "('f, 'm, 'h) upd_env \<Rightarrow> u8 list \<Rightarrow> ('f, 'm) updater \<Rightarrow> (nat \<times> ('f, 'm) updater) option" where
  "upd_write env data u =
     (if hasError u \<or> \<not> isRunning u then Some (0, u)
      else if u_size u < (progress u + bufferLen u + length data) mod 2 ^ 32 then Some (0, setError UPDATE_ERROR_SPACE u)
      else case write_loop env data u of None \<Rightarrow> None
        | Some (ok, left, u1) \<Rightarrow>
          if \<not> ok then Some (length data - length left, u1)
          else let u2 = buffer_put left u1 in
            if bufferLen u2 = remaining u2
            then case writeBuffer env u2 of (ok, u3) \<Rightarrow> Some (if ok then length data else length data - length left, u3)
            else Some (length data, u2))"

section \<open>Finishing\<close>

definition verifyHeader :: "u8 \<Rightarrow> ('f, 'm) updater \<Rightarrow> bool \<times> ('f, 'm) updater" where
  "verifyHeader d u =
     (if command u = U_FLASH
      then if d \<noteq> 0xE9 \<and> d \<noteq> 0x1f then (False, setError UPDATE_ERROR_MAGIC_BYTE (skip_to_end u)) else (True, u)
      else (command u = U_FS, u))"

definition verifyEnd :: "('f, 'm, 'h) upd_env \<Rightarrow> ('f, 'm) updater \<Rightarrow> bool \<times> ('f, 'm) updater" where
  "verifyEnd env u =
     (let back = u\<lparr>currentAddress := startAddress u\<rparr> in
      if command u = U_FLASH
      then case flashRead_words (sdk env) (startAddress u) 4 (dev u) of (ok, buf) \<Rightarrow>
        if \<not> ok then (False, setError UPDATE_ERROR_READ back)
        else if buf ! 0 = 0x1f \<and> buf ! 1 = 0x8b then (True, u)
        else if buf ! 0 \<noteq> 0xE9 then (False, setError UPDATE_ERROR_MAGIC_BYTE back)
        else if getFlashChipRealSize (sdk env) < magicFlashChipSize (drop_bit 4 (buf ! 3 AND 0xf0))
        then (False, setError UPDATE_ERROR_NEW_FLASH_CONFIG back)
        else (True, u)
      else (command u = U_FS, u))"

text \<open>The hash of the image, 128 bytes at a time; \<open>buff\<close> is what the local array holds.\<close>

function hash_payload :: "('f, 'm, 'h) upd_env \<Rightarrow> 'h upd_verifier \<Rightarrow> nat \<Rightarrow> nat \<Rightarrow> u8 list \<Rightarrow> 'h \<Rightarrow> 'f \<Rightarrow> 'h" where
  "hash_payload env v addr left buff h f =
     (if left = 0 then hash_end v h
      else let n = min 128 left; b = snd (flashRead (sdk env) addr True (take n buff) f) in
        hash_payload env v (addr + n) (left - n) (b @ drop n buff) (hash_add v h b) f)"
  by pat_completeness auto
termination by (relation "measure (\<lambda>(env, v, addr, left, buff, h, f). left)") auto

declare hash_payload.simps [simp del]

definition u32_at :: "u8 list \<Rightarrow> nat" where
  "u32_at bs = unat (word_of (bs ! 0) (bs ! 1) (bs ! 2) (bs ! 3))"

text \<open>The signature check: the size of the image without its signature, or the error.\<close>

definition check_signature :: "('f, 'm, 'h) upd_env \<Rightarrow> 'h upd_verifier \<Rightarrow> ('f, 'm) updater \<Rightarrow> nat + nat" where
  "check_signature env v u =
     (let expected = sig_length v;
          sigLen = (if 0 < expected
            then u32_at (snd (flashRead_words (sdk env) ((startAddress u + u_size u + 2 ^ 32 - 4) mod 2 ^ 32) 4 (dev u))) else 0) in
      if sigLen \<noteq> expected then Inl UPDATE_ERROR_SIGN
      else if 0 < expected \<and> u_size u < sigLen + 4 then Inl UPDATE_ERROR_SIGN
      else let binSize = (if 0 < expected then u_size u - (sigLen + 4) else u_size u);
               h = hash_payload env v (startAddress u) binSize (map (junk env) [0..<128]) (hash_begin v) (dev u) in
        if 0 < expected \<and> \<not> has_memory env sigLen then Inl UPDATE_ERROR_OOM
        else let sig = (if 0 < expected
               then snd (flashRead (sdk env) (startAddress u + binSize) True (map (junk env) [0..<sigLen]) (dev u)) else []) in
          if \<not> sig_verify v h sig then Inl UPDATE_ERROR_SIGN else Inr binSize)"

definition lower_byte :: "u8 \<Rightarrow> u8" where
  "lower_byte c = (if of_char CHR ''A'' \<le> c \<and> c \<le> of_char CHR ''Z'' then c + 32 else c)"

definition same_ignoring_case :: "u8 list \<Rightarrow> u8 list \<Rightarrow> bool" where
  "same_ignoring_case s t \<longleftrightarrow> map lower_byte s = map lower_byte t"

text \<open>The checks of the received image: the state to go on with, or the state to return with.\<close>

definition check_image :: "('f, 'm, 'h) upd_env \<Rightarrow> ('f, 'm) updater \<Rightarrow> ('f, 'm) updater + ('f, 'm) updater" where
  "check_image env u = (case verifier env of
     Some v \<Rightarrow> (case check_signature env v u of
        Inl e \<Rightarrow> Inl (upd_reset True (setError e u)) | Inr n \<Rightarrow> Inr (u\<lparr>u_size := n\<rparr>))
   | None \<Rightarrow>
      if target_md5 u \<noteq> []
      then let m = md5_calculate env (u_md5 u); u1 = u\<lparr>u_md5 := m\<rparr> in
        if same_ignoring_case (target_md5 u) (md5_string env m) then Inr u1 else Inl (setError UPDATE_ERROR_MD5 u1)
      else Inr u)"

definition ebcmd_for :: "('f, 'm, 'h) upd_env \<Rightarrow> ('f, 'm) updater \<Rightarrow> eboot_command" where
  "ebcmd_for env u = \<lparr>magic = 0, action = ACTION_COPY_RAW,
     args = [of_nat (startAddress u), 0, of_nat (u_size u)] @ map (junk_args env) [3..<29], crc32 = 0\<rparr>"

definition upd_end :: "('f, 'm, 'h) upd_env \<Rightarrow> bool \<Rightarrow> ('f, 'm) updater \<Rightarrow> bool \<times> ('f, 'm) updater" where
  "upd_end env evenIfRemaining u =
     (if u_size u = 0 then (False, upd_reset True u)
      else let u1 = (if progress u = 0 then setError UPDATE_ERROR_NO_DATA u else u) in
        if hasError u1 \<or> (\<not> isFinished u1 \<and> \<not> evenIfRemaining) then (False, upd_reset True u1)
        else let u2 = (if evenIfRemaining
               then let w = (if 0 < bufferLen u1 then snd (writeBuffer env u1) else u1) in w\<lparr>u_size := progress w\<rparr>
               else u1) in
          case check_image env u2 of
            Inl u3 \<Rightarrow> (False, u3)
          | Inr u3 \<Rightarrow> (case verifyEnd env u3 of (ok, u4) \<Rightarrow>
              if \<not> ok then (False, upd_reset True u4)
              else (True, upd_reset True (if command u4 = U_FLASH
                then u4\<lparr>rtc_words := eboot_command_write (ebcmd_for env u4) (rtc_words u4)\<rparr> else u4))))"


section \<open>Writing from a stream\<close>

text \<open>
  A stream is an object of type \<open>'s\<close>: its next byte, reading at most a number of bytes, and whether the timeout of the
  update has expired.  The code also serves objects that say how much they have available; the
  number of bytes their \<open>read\<close> really delivers is not looked at.
\<close>

record 's stream =
  stream_peek :: "'s \<Rightarrow> u8"
  readBytes :: "'s \<Rightarrow> nat \<Rightarrow> u8 list \<times> 's"
  timed_out :: "'s \<Rightarrow> bool \<times> 's"
  stream_available :: "'s \<Rightarrow> nat"

definition log_progress :: "('f, 'm) updater \<Rightarrow> ('f, 'm) updater" where
  "log_progress u = u\<lparr>u_log := u_log u @ [Progress (progress u) (u_size u)]\<rparr>"

partial_function (option) stream_loop :: "('f, 'm, 'h) upd_env \<Rightarrow> 's stream \<Rightarrow> 's \<Rightarrow> nat \<Rightarrow> ('f, 'm) updater \<Rightarrow>
    (nat \<times> 's \<times> ('f, 'm) updater) option" where
  "stream_loop env st s written u =
     (if remaining u = 0 then Some (written, s, log_progress u)
      else let bytesToRead = min (bufferSize u - bufferLen u) (remaining u);
               (d, s1) = readBytes st s bytesToRead;
               (late, s2) = (if d = [] then timed_out st s1 else (False, s1)) in
        if late then Some (written, s2, upd_reset True (setError UPDATE_ERROR_STREAM (skip_to_end u)))
        else let u1 = buffer_put d u;
                 (ok, u2) = (if bufferLen u1 = remaining u1 \<or> bufferLen u1 = bufferSize u1 then writeBuffer env u1 else (True, u1)) in
          if \<not> ok then Some (written, s2, u2)
          else stream_loop env st s2 (written + length d) (log_progress u2))"

definition writeStream :: "('f, 'm, 'h) upd_env \<Rightarrow> 's stream \<Rightarrow> 's \<Rightarrow> ('f, 'm) updater \<Rightarrow> (nat \<times> 's \<times> ('f, 'm) updater) option" where
  "writeStream env st s u =
     (if hasError u \<or> \<not> isRunning u then Some (0, s, u)
      else case verifyHeader (stream_peek st s) u of (ok, u1) \<Rightarrow>
        if \<not> ok then Some (0, s, upd_reset True u1)
        else stream_loop env st s 0 (u1\<lparr>u_log := u_log u1 @ [Progress 0 (u_size u1)]\<rparr>))"

definition buffer_read :: "u8 list \<Rightarrow> nat \<Rightarrow> ('f, 'm) updater \<Rightarrow> ('f, 'm) updater" where
  "buffer_read d n u = (buffer_put d u)\<lparr>bufferLen := bufferLen u + n\<rparr>"

partial_function (option) source_loop :: "('f, 'm, 'h) upd_env \<Rightarrow> 's stream \<Rightarrow> 's \<Rightarrow> nat \<Rightarrow> nat \<Rightarrow> ('f, 'm) updater \<Rightarrow>
    (nat \<times> 's \<times> ('f, 'm) updater) option" where
  "source_loop env st s avail0 written u =
     (if avail0 = 0 then Some (written, s, u)
      else let avail = (if remaining u < (bufferLen u + avail0) mod 2 ^ 32 then (remaining u + 2 ^ 32 - bufferLen u) mod 2 ^ 32 else avail0);
               full = (bufferSize u < (bufferLen u + avail) mod 2 ^ 32);
               n = (if full then bufferSize u - bufferLen u else avail);
               (d, s1) = readBytes st s n;
               u1 = buffer_read d n u;
               (ok, u2) = (if full \<or> bufferLen u1 = remaining u1 then writeBuffer env u1 else (True, u1));
               written1 = (if full \<and> \<not> ok then written else written + n) in
        if \<not> ok then Some (written1, s1, u2)
        else if remaining u2 = 0 then Some (written1, s1, u2)
        else source_loop env st s1 (stream_available st s1) written1 u2)"

definition write_source :: "('f, 'm, 'h) upd_env \<Rightarrow> 's stream \<Rightarrow> 's \<Rightarrow> ('f, 'm) updater \<Rightarrow> (nat \<times> 's \<times> ('f, 'm) updater) option" where
  "write_source env st s u =
     (if hasError u \<or> \<not> isRunning u then Some (0, s, u) else source_loop env st s (stream_available st s) 0 u)"


section \<open>A running update\<close>

lemma reset_sel [simp]:
  "dev (upd_reset cb u) = dev u" "rtc_words (upd_reset cb u) = rtc_words u" "sketch_cache (upd_reset cb u) = sketch_cache u"
  "u_size (upd_reset cb u) = 0" "u_error (upd_reset cb u) = u_error u" "command (upd_reset cb u) = U_FLASH"
  "startAddress (upd_reset cb u) = 0" "currentAddress (upd_reset cb u) = 0" "bufferLen (upd_reset cb u) = 0"
  "target_md5 (upd_reset cb u) = target_md5 u"
  by (simp_all add: upd_reset_def)

lemma setError_sel [simp]:
  "dev (setError e u) = dev u" "rtc_words (setError e u) = rtc_words u" "sketch_cache (setError e u) = sketch_cache u"
  "u_size (setError e u) = 0" "u_error (setError e u) = e" "command (setError e u) = U_FLASH"
  "startAddress (setError e u) = 0" "currentAddress (setError e u) = 0" "bufferLen (setError e u) = 0"
  "target_md5 (setError e u) = target_md5 u"
  by (simp_all add: setError_def)

lemma skip_sel [simp]:
  "dev (skip_to_end u) = dev u" "rtc_words (skip_to_end u) = rtc_words u" "sketch_cache (skip_to_end u) = sketch_cache u"
  by (simp_all add: skip_to_end_def)

text \<open>
  The place and the buffer of a running update: it lies behind the first sector, starts at a sector, ends far enough
  from the end of the address range, and has a buffer of a page or a sector.
\<close>

definition placed_update :: "('f, 'm) updater \<Rightarrow> bool" where
  "placed_update u \<longleftrightarrow> 0 < u_size u \<and> FLASH_SECTOR_SIZE \<le> startAddress u \<and> startAddress u mod FLASH_SECTOR_SIZE = 0 \<and>
     startAddress u \<le> currentAddress u \<and> currentAddress u + bufferLen u \<le> startAddress u + u_size u \<and>
     startAddress u + u_size u < 2 ^ 32 - 0x10000 \<and>
     length (u_buffer u) = bufferSize u \<and> bufferLen u \<le> bufferSize u \<and> (bufferSize u = 256 \<or> bufferSize u = FLASH_SECTOR_SIZE)"

lemma sub_wrap: "a \<le> b \<Longrightarrow> b < 2 ^ 32 \<Longrightarrow> (b + 2 ^ 32 - a) mod 2 ^ 32 = (b - a :: nat)"
proof -
  assume "a \<le> b" "b < 2 ^ 32"
  then have "b + 2 ^ 32 - a = (b - a) + 2 ^ 32" and "b - a < 2 ^ 32" by simp_all
  then show ?thesis by (simp only: mod_add_self2 mod_less)
qed

lemma progress_eq: "placed_update u \<Longrightarrow> progress u = currentAddress u - startAddress u"
  unfolding progress_def by (rule sub_wrap) (simp_all add: placed_update_def)

lemma remaining_eq: "placed_update u \<Longrightarrow> remaining u = u_size u - (currentAddress u - startAddress u)"
  unfolding remaining_def progress_eq by (rule sub_wrap) (auto simp: placed_update_def)

lemma placed_not_error: "placed_update u \<Longrightarrow> isRunning u"
  by (simp add: placed_update_def isRunning_def)

text \<open>
  What the image looks like in flash: as received, or with the flash mode of the chip in the header of
  a sketch.
\<close>

definition staged :: "u8 option \<Rightarrow> u8 list \<Rightarrow> u8 list" where
  "staged mo R = (case mo of None \<Rightarrow> R | Some m \<Rightarrow> R[2 := m])"

definition mode_ok :: "nat \<Rightarrow> (nat \<Rightarrow> u8) \<Rightarrow> u8 list \<Rightarrow> u8 option \<Rightarrow> bool" where
  "mode_ok cmd c R mo \<longleftrightarrow> (case mo of None \<Rightarrow> True
     | Some m \<Rightarrow> cmd = U_FLASH \<and> R \<noteq> [] \<and> R ! 0 \<noteq> 0x1f \<and> (m = magicFlashChipMode (c 2) \<or> m = FM_UNKNOWN))"

lemma length_staged [simp]: "length (staged mo R) = length R"
  by (simp add: staged_def split: option.split)

lemma mode_ok_append: "mode_ok cmd c R mo \<Longrightarrow> R \<noteq> [] \<Longrightarrow> mode_ok cmd c (R @ S) mo"
  by (auto simp: mode_ok_def nth_append split: option.splits)

text \<open>The bytes of \<open>c\<close> from \<open>a\<close> to \<open>b\<close> are the first ones of \<open>bs\<close>.\<close>

definition image_at :: "(nat \<Rightarrow> u8) \<Rightarrow> nat \<Rightarrow> nat \<Rightarrow> u8 list \<Rightarrow> bool" where
  "image_at c a b bs \<longleftrightarrow> b - a \<le> length bs \<and> (\<forall>i. a \<le> i \<and> i < b \<longrightarrow> c i = bs ! (i - a))"

definition sector_end :: "nat \<Rightarrow> nat" where
  "sector_end i = (i + FLASH_SECTOR_SIZE - 1) div FLASH_SECTOR_SIZE * FLASH_SECTOR_SIZE"

text \<open>
  The state of an update that has taken the bytes \<open>R\<close>, begun with the flash contents \<open>c\<close>: what was written is in flash, the rest
  is in the buffer, the sector in use is erased behind it, and below the start nothing has changed.
\<close>

definition receiving :: "('f \<Rightarrow> nat \<Rightarrow> u8) \<Rightarrow> (nat \<Rightarrow> u8) \<Rightarrow> u8 list \<Rightarrow> ('f, 'm) updater \<Rightarrow> bool" where
  "receiving content c R u \<longleftrightarrow> placed_update u \<and>
     length R = currentAddress u - startAddress u + bufferLen u \<and>
     take (bufferLen u) (u_buffer u) = drop (currentAddress u - startAddress u) R \<and>
     (\<forall>i < startAddress u. content (dev u) i = c i) \<and>
     (\<exists>mo. mode_ok (command u) c R mo \<and> image_at (content (dev u)) (startAddress u) (currentAddress u) (staged mo R)) \<and>
     (\<forall>i. currentAddress u \<le> i \<and> i < sector_end (currentAddress u) \<longrightarrow> content (dev u) i = 0xff) \<and>
     (currentAddress u mod bufferSize u = 0 \<or> currentAddress u = startAddress u + u_size u)"

text \<open>What the operations on a running update keep, and how they fail: the update is over, with an error.\<close>

definition same_update :: "('f, 'm) updater \<Rightarrow> ('f, 'm) updater \<Rightarrow> bool" where
  "same_update u u' \<longleftrightarrow> startAddress u' = startAddress u \<and> u_size u' = u_size u \<and> bufferSize u' = bufferSize u \<and>
     command u' = command u \<and> rtc_words u' = rtc_words u \<and> sketch_cache u' = sketch_cache u \<and> u_error u' = u_error u"

definition failed_update :: "('f \<Rightarrow> nat \<Rightarrow> u8) \<Rightarrow> (nat \<Rightarrow> u8) \<Rightarrow> ('f, 'm) updater \<Rightarrow> ('f, 'm) updater \<Rightarrow> bool" where
  "failed_update content c u u' \<longleftrightarrow> u_size u' = 0 \<and> hasError u' \<and> rtc_words u' = rtc_words u \<and> sketch_cache u' = sketch_cache u \<and>
     (\<forall>i < startAddress u. content (dev u') i = c i)"

lemma same_update_refl [simp]: "same_update u u"
  by (simp add: same_update_def)

lemma same_update_trans: "same_update u v \<Longrightarrow> same_update v w \<Longrightarrow> same_update u w"
  by (simp add: same_update_def)

lemma failed_update_trans: "same_update u v \<Longrightarrow> failed_update content c v w \<Longrightarrow> failed_update content c u w"
  by (simp add: same_update_def failed_update_def)

lemma erase_spec:
  assumes "sdk_nor s content" and "flashEraseSector s n f = (ok, f')" and "n < 2 ^ 32"
  shows "ok \<Longrightarrow> i div FLASH_SECTOR_SIZE = n \<Longrightarrow> content f' i = 0xff" "i div FLASH_SECTOR_SIZE \<noteq> n \<Longrightarrow> content f' i = content f i"
  using assms unat_of_nat_u32 [OF assms(3)] unfolding sdk_nor_def flashEraseSector_def by (auto split: prod.splits)


lemma mode_from_flash:
  assumes "sdk_nor s content"
  shows "getFlashChipMode s f = magicFlashChipMode (content f 2) \<or> getFlashChipMode s f = FM_UNKNOWN"
proof -
  obtain r bs where r: "spi_flash_read s f 0 4 = (r, bs)" by force
  show ?thesis
  proof (cases "r = 0")
    case True
    then have "bs = map (content f) [0 ..< 0 + 4]" using sdk_read [OF assms, of f 0 4 bs] r by simp
    then have "bs ! 2 = content f 2" by (simp add: numeral_2_eq_2)
    then show ?thesis using r True by (simp add: getFlashChipMode_def)
  next
    case False
    then show ?thesis using r by (simp add: getFlashChipMode_def)
  qed
qed

text \<open>The parts of \<open>writeBuffer\<close>: the device after the erase and after the write, the buffers written and left.\<close>

lemma writeBuffer_cases:
  assumes "writeBuffer env u = (ok, u')"
  obtains (erase) f1 where "currentAddress u mod FLASH_SECTOR_SIZE = 0" "\<not> ok"
      "flashEraseSector (sdk env) (currentAddress u div FLASH_SECTOR_SIZE) (dev u) = (False, f1)"
      "u' = setError UPDATE_ERROR_ERASE (skip_to_end (u\<lparr>dev := f1\<rparr>))"
  | (store) f1 f2 b b' where
      "(if currentAddress u mod FLASH_SECTOR_SIZE = 0 then flashEraseSector (sdk env) (currentAddress u div FLASH_SECTOR_SIZE) (dev u)
        else (True, dev u)) = (True, f1)"
      "adapt_mode env f1 u = (b, b')" "flashWrite (sdk env) (currentAddress u) True (take (bufferLen u) b) f1 = (ok, f2)"
      "u' = (if ok then u\<lparr>dev := f2, u_buffer := b', currentAddress := (currentAddress u + bufferLen u) mod 2 ^ 32, bufferLen := 0,
               u_md5 := (if verifier env = None then md5_add env (u_md5 u) (take (bufferLen u) b') else u_md5 u)\<rparr>
        else setError UPDATE_ERROR_WRITE (skip_to_end (u\<lparr>dev := f2\<rparr>)))"
proof -
  obtain er f1 where e: "(if currentAddress u mod FLASH_SECTOR_SIZE = 0
      then flashEraseSector (sdk env) (currentAddress u div FLASH_SECTOR_SIZE) (dev u) else (True, dev u)) = (er, f1)" by force
  obtain b b' where b: "adapt_mode env f1 u = (b, b')" by force
  obtain wr f2 where w: "flashWrite (sdk env) (currentAddress u) True (take (bufferLen u) b) f1 = (wr, f2)" by force
  show thesis
  proof (cases er)
    case True
    show thesis by (rule store [of f1 b b' f2]) (use assms w e b True in \<open>auto simp: writeBuffer_def Let_def split: if_splits\<close>)
  next
    case False
    show thesis by (rule erase) (use assms e b False in \<open>auto simp: writeBuffer_def Let_def split: if_splits\<close>)
  qed
qed

lemma same_sector: "n * FLASH_SECTOR_SIZE \<le> i \<Longrightarrow> i < n * FLASH_SECTOR_SIZE + FLASH_SECTOR_SIZE \<Longrightarrow> i div FLASH_SECTOR_SIZE = n"
  by (rule div_nat_eqI) (simp_all add: mult.commute)

lemma other_sector: "i < n * FLASH_SECTOR_SIZE \<or> n * FLASH_SECTOR_SIZE + FLASH_SECTOR_SIZE \<le> i \<Longrightarrow> i div FLASH_SECTOR_SIZE \<noteq> n"
proof
  assume h: "i < n * FLASH_SECTOR_SIZE \<or> n * FLASH_SECTOR_SIZE + FLASH_SECTOR_SIZE \<le> i" and e: "i div FLASH_SECTOR_SIZE = n"
  have "i div FLASH_SECTOR_SIZE * FLASH_SECTOR_SIZE \<le> i" "i < i div FLASH_SECTOR_SIZE * FLASH_SECTOR_SIZE + FLASH_SECTOR_SIZE"
    by (simp_all add: FLASH_SECTOR_SIZE_def dividend_less_div_times)
  with h e show False by simp
qed

lemma below_multiple: "k dvd s \<Longrightarrow> s \<le> c \<Longrightarrow> s \<le> c div k * (k :: nat)"
  by (metis dvd_div_mult_self div_le_mono mult_le_mono1)

lemma writeBuffer_frame:
  assumes nor: "sdk_nor (sdk env) content" and p: "placed_update u" and w: "writeBuffer env u = (ok, u')" and i: "i < startAddress u"
  shows "content (dev u') i = content (dev u) i"
proof -
  let ?cur = "currentAddress u"
  have p1: "startAddress u mod FLASH_SECTOR_SIZE = 0" "startAddress u \<le> ?cur" "?cur < 2 ^ 32" "bufferLen u \<le> 4096" "?cur + bufferLen u + 4 < 2 ^ 32"
    using p by (auto simp: placed_update_def FLASH_SECTOR_SIZE_def)
  have er: "content f1 i = content (dev u) i" if "flashEraseSector (sdk env) (?cur div FLASH_SECTOR_SIZE) (dev u) = (r, f1)" for r f1
  proof (rule erase_spec(2) [OF nor that])
    show "?cur div FLASH_SECTOR_SIZE < 2 ^ 32" using p1(3) by (simp add: FLASH_SECTOR_SIZE_def)
    have "startAddress u \<le> ?cur div FLASH_SECTOR_SIZE * FLASH_SECTOR_SIZE"
      by (rule below_multiple [OF _ p1(2)]) (use p1(1) in \<open>simp add: mod_eq_0_iff_dvd\<close>)
    then show "i div FLASH_SECTOR_SIZE \<noteq> ?cur div FLASH_SECTOR_SIZE" using i by (intro other_sector) simp
  qed
  show ?thesis using w
  proof (cases rule: writeBuffer_cases)
    case (erase f1)
    then show ?thesis using er by simp
  next
    case (store f1 f2 b b')
    have f1: "content f1 i = content (dev u) i" using store(1) er by (auto split: if_splits)
    have "(4 :: nat) dvd FLASH_SECTOR_SIZE" by (simp add: FLASH_SECTOR_SIZE_def)
    then have "startAddress u \<le> ?cur div 4 * 4"
      by (intro below_multiple [OF _ p1(2)]) (use p1(1) dvd_trans in \<open>auto simp: mod_eq_0_iff_dvd\<close>)
    moreover have "?cur + length (take (bufferLen u) b) + 4 < 2 ^ 32" using p1(5) by simp
    ultimately have "content f2 i = content f1 i"
      using flashWrite_spec [OF nor store(3)] i unfolding wrote_any_def by auto
    then show ?thesis using f1 store(4) by simp
  qed
qed


text \<open>A page or sector sized piece at a multiple of its size stays inside its sector.\<close>

lemma piece_in_sector:
  assumes "b = 256 \<or> b = FLASH_SECTOR_SIZE" and "cur mod b = 0"
  shows "cur mod FLASH_SECTOR_SIZE + b \<le> FLASH_SECTOR_SIZE"
proof (cases "b = 256")
  case True
  have "cur mod 4096 mod 256 = cur mod (256 :: nat)" by (rule mod_mod_cancel) simp
  then have "cur mod 4096 mod 256 = 0" using assms(2) True by simp
  moreover have "cur mod 4096 div 256 < (16 :: nat)" by (rule less_mult_imp_div_less) simp
  ultimately show ?thesis unfolding True FLASH_SECTOR_SIZE_def using div_mult_mod_eq [of "cur mod 4096" 256] by simp
next
  case False
  then show ?thesis using assms by simp
qed

lemma sector_end_le: "i \<le> n * FLASH_SECTOR_SIZE \<Longrightarrow> sector_end i \<le> n * FLASH_SECTOR_SIZE"
proof -
  assume "i \<le> n * FLASH_SECTOR_SIZE"
  then have "(i + FLASH_SECTOR_SIZE - 1) div FLASH_SECTOR_SIZE < Suc n"
    by (intro less_mult_imp_div_less) (simp add: FLASH_SECTOR_SIZE_def)
  then show ?thesis unfolding sector_end_def by simp
qed

lemma sector_end_inside: "i mod FLASH_SECTOR_SIZE \<noteq> 0 \<Longrightarrow> sector_end i = i div FLASH_SECTOR_SIZE * FLASH_SECTOR_SIZE + FLASH_SECTOR_SIZE"
proof -
  assume m: "i mod FLASH_SECTOR_SIZE \<noteq> 0"
  have aux: "(q * FLASH_SECTOR_SIZE + r + FLASH_SECTOR_SIZE - 1) div FLASH_SECTOR_SIZE = q + 1"
    if "0 < r" "r < FLASH_SECTOR_SIZE" for q r
    by (rule div_nat_eqI) (use that in \<open>simp_all add: FLASH_SECTOR_SIZE_def\<close>)
  have "i mod FLASH_SECTOR_SIZE < FLASH_SECTOR_SIZE" by (simp add: FLASH_SECTOR_SIZE_def)
  with m aux [of "i mod FLASH_SECTOR_SIZE" "i div FLASH_SECTOR_SIZE"]
  have "(i + FLASH_SECTOR_SIZE - 1) div FLASH_SECTOR_SIZE = i div FLASH_SECTOR_SIZE + 1" by (simp only: div_mult_mod_eq)
  then show ?thesis by (simp add: sector_end_def)
qed

text \<open>The buffer written at the start of the image and the one written later.\<close>

lemma adapt_staged:
  assumes "sdk_nor (sdk env) content" and r: "receiving content c R u" and "adapt_mode env f1 u = (b, b')" and "0 < bufferLen u"
    and "currentAddress u = startAddress u \<or> currentAddress u mod bufferSize u = 0" and f1: "content f1 2 = c 2"
  shows "\<exists>mo. mode_ok (command u) c R mo \<and> take (bufferLen u) b = drop (currentAddress u - startAddress u) (staged mo R) \<and>
      image_at (content (dev u)) (startAddress u) (currentAddress u) (staged mo R)" and "length b' = length (u_buffer u)"
proof -
  note r1 = r [unfolded receiving_def placed_update_def]
  have t: "take (bufferLen u) (u_buffer u) = drop (currentAddress u - startAddress u) R" using r1 by blast
  show "length b' = length (u_buffer u)" using assms(3) by (auto simp: adapt_mode_def Let_def split: if_splits)
  show "\<exists>mo. mode_ok (command u) c R mo \<and> take (bufferLen u) b = drop (currentAddress u - startAddress u) (staged mo R) \<and>
      image_at (content (dev u)) (startAddress u) (currentAddress u) (staged mo R)"
  proof (cases "currentAddress u = startAddress u")
    case True
    let ?m = "getFlashChipMode (sdk env) f1"
    have R: "R = take (bufferLen u) (u_buffer u)" using t True by simp
    have ne: "R \<noteq> []" "R ! 0 = u_buffer u ! 0" using r1 assms(4) R by auto
    show ?thesis
    proof (cases "u_buffer u ! 0 \<noteq> 0x1f \<and> command u = U_FLASH \<and> magicFlashChipMode (u_buffer u ! 2) \<noteq> ?m")
      case c: True
      then have b: "b = (u_buffer u)[2 := ?m]" using assms(3) True by (auto simp: adapt_mode_def Let_def)
      have "mode_ok (command u) c R (Some ?m)" using c ne mode_from_flash [OF assms(1), of f1] f1 by (simp add: mode_ok_def)
      then show ?thesis using True b R by (intro exI [of _ "Some ?m"]) (auto simp: staged_def image_at_def take_update_swap)
    next
      case False
      then have b: "b = u_buffer u" using assms(3) by (auto simp: adapt_mode_def Let_def split: if_splits)
      show ?thesis using True b R by (intro exI [of _ None]) (auto simp: staged_def image_at_def mode_ok_def)
    qed
  next
    case False
    then have b: "b = u_buffer u" using assms(3) by (auto simp: adapt_mode_def Let_def split: if_splits)
    obtain mo where mo: "mode_ok (command u) c R mo" "image_at (content (dev u)) (startAddress u) (currentAddress u) (staged mo R)" using r1 by blast
    have bs: "bufferSize u dvd startAddress u" "bufferSize u dvd currentAddress u" "2 < bufferSize u"
      using r1 False assms(5) by (auto simp: FLASH_SECTOR_SIZE_def mod_eq_0_iff_dvd intro: dvd_trans)
    have "bufferSize u dvd currentAddress u - startAddress u" using bs by (simp add: dvd_diff_nat)
    then have "bufferSize u \<le> currentAddress u - startAddress u" using False r1 by (intro dvd_imp_le) auto
    then have "drop (currentAddress u - startAddress u) (staged mo R) = drop (currentAddress u - startAddress u) R"
      using bs(3) by (simp add: staged_def drop_update_cancel split: option.split)
    then show ?thesis using mo b t by (intro exI [of _ mo]) simp
  qed
qed


lemma writeBuffer_receiving:
  assumes nor: "sdk_nor (sdk env) content" and r: "receiving content c R u" and w: "writeBuffer env u = (True, u')"
    and full: "bufferLen u = bufferSize u \<or> currentAddress u + bufferLen u = startAddress u + u_size u"
  shows "receiving content c R u'" "bufferLen u' = 0" "currentAddress u' = currentAddress u + bufferLen u"
proof -
  let ?cur = "currentAddress u" and ?n = "bufferLen u" and ?st = "startAddress u"
  note r1 = r [unfolded receiving_def]
  have p: "placed_update u" using r1 by blast
  note p1 = p [unfolded placed_update_def]
  from w obtain f1 f2 b b' where
    er: "(if ?cur mod FLASH_SECTOR_SIZE = 0 then flashEraseSector (sdk env) (?cur div FLASH_SECTOR_SIZE) (dev u) else (True, dev u)) = (True, f1)"
    and ad: "adapt_mode env f1 u = (b, b')" and wr: "flashWrite (sdk env) ?cur True (take ?n b) f1 = (True, f2)"
    and u': "u' = u\<lparr>dev := f2, u_buffer := b', currentAddress := (?cur + ?n) mod 2 ^ 32, bufferLen := 0,
               u_md5 := (if verifier env = None then md5_add env (u_md5 u) (take ?n b') else u_md5 u)\<rparr>"
    by (cases rule: writeBuffer_cases) auto
  have n: "0 < ?n" using wr by (cases "?n = 0") (auto simp: flashWrite_def)
  have cm: "?cur mod bufferSize u = 0" using r1 n p1 by auto
  define S where "S = ?cur div FLASH_SECTOR_SIZE * FLASH_SECTOR_SIZE + FLASH_SECTOR_SIZE"
  have inS: "?cur + ?n \<le> S"
  proof -
    have "?cur = ?cur div FLASH_SECTOR_SIZE * FLASH_SECTOR_SIZE + ?cur mod FLASH_SECTOR_SIZE" by simp
    moreover have "?cur mod FLASH_SECTOR_SIZE + bufferSize u \<le> FLASH_SECTOR_SIZE" using p1 cm by (intro piece_in_sector) auto
    ultimately show ?thesis using p1 unfolding S_def by linarith
  qed
  have cl: "?cur div FLASH_SECTOR_SIZE < 2 ^ 32" by (rule le_less_trans [OF div_le_dividend]) (use p1 in simp)
  have before: "content f1 i = content (dev u) i" if "i < ?cur" for i
  proof (cases "?cur mod FLASH_SECTOR_SIZE = 0")
    case True
    then have c: "?cur div FLASH_SECTOR_SIZE * FLASH_SECTOR_SIZE = ?cur" using div_mult_mod_eq [of ?cur FLASH_SECTOR_SIZE] by simp
    have "flashEraseSector (sdk env) (?cur div FLASH_SECTOR_SIZE) (dev u) = (True, f1)" using er True by simp
    from erase_spec(2) [OF nor this cl, of i] other_sector [of i "?cur div FLASH_SECTOR_SIZE"] c that show ?thesis by simp
  qed (use er in simp)
  have blank: "content f1 i = 0xff" if "?cur \<le> i" "i < S" for i
  proof (cases "?cur mod FLASH_SECTOR_SIZE = 0")
    case True
    then have c: "?cur div FLASH_SECTOR_SIZE * FLASH_SECTOR_SIZE = ?cur" using div_mult_mod_eq [of ?cur FLASH_SECTOR_SIZE] by simp
    have "flashEraseSector (sdk env) (?cur div FLASH_SECTOR_SIZE) (dev u) = (True, f1)" using er True by simp
    from erase_spec(1) [OF nor this cl _ same_sector] c that show ?thesis by (simp add: S_def)
  next
    case False
    then have "f1 = dev u" "sector_end ?cur = S" using er sector_end_inside [OF False] by (simp_all add: S_def)
    then show ?thesis using r1 that by simp
  qed
  have "2 < ?cur" "2 < ?st" using p1 by (auto simp: FLASH_SECTOR_SIZE_def)
  then have c2: "content f1 2 = c 2" using before [of 2] r1 by simp
  obtain mo where mo: "mode_ok (command u) c R mo" "take ?n b = drop (?cur - ?st) (staged mo R)"
      "image_at (content (dev u)) ?st ?cur (staged mo R)" and lb: "length b' = length (u_buffer u)"
    using adapt_staged [OF nor r ad n _ c2] cm by blast
  have lR: "length R = ?cur - ?st + ?n" using r1 by blast
  have ln: "length (take ?n b) = ?n" using mo(2) lR by simp
  have "?cur + length (take ?n b) + 4 < 2 ^ 32" unfolding ln using p1 by simp
  from flashWrite_spec [OF nor wr this] have wt: "wrote True (content f1) (content f2) ?cur (take ?n b)" by (simp add: wrote_any_def)
  have out: "content f2 i = content f1 i" if "i < ?cur \<or> ?cur + ?n \<le> i" for i using wrote_out [OF wt, of i] that unfolding ln by blast
  have inn: "content f2 i = staged mo R ! (i - ?st)" if "?cur \<le> i" "i < ?cur + ?n" for i
  proof -
    have "content f2 i = 0xff AND take ?n b ! (i - ?cur)" using wrote_in [OF wt, of i] that blank [of i] inS unfolding ln by simp
    also have "\<dots> = staged mo R ! (?cur - ?st + (i - ?cur))" unfolding mo(2) and_ff using lR that by simp
    also have "?cur - ?st + (i - ?cur) = i - ?st" using that p1 by simp
    finally show ?thesis .
  qed
  have cur': "(?cur + ?n) mod 2 ^ 32 = ?cur + ?n" using p1 by simp
  note u2 = u' [unfolded cur']
  show "bufferLen u' = 0" "currentAddress u' = ?cur + ?n" using u2 by simp_all
  have "image_at (content f2) ?st (?cur + ?n) (staged mo R)"
    unfolding image_at_def
  proof (intro conjI allI impI)
    show "?cur + ?n - ?st \<le> length (staged mo R)" using lR p1 by simp
    fix i assume i: "?st \<le> i \<and> i < ?cur + ?n"
    show "content f2 i = staged mo R ! (i - ?st)"
    proof (cases "i < ?cur")
      case True
      then show ?thesis using out [of i] before [of i] mo(3) i by (simp add: image_at_def)
    next
      case False
      then show ?thesis using inn [of i] i by simp
    qed
  qed
  moreover have "content f2 i = 0xff" if "?cur + ?n \<le> i" "i < sector_end (?cur + ?n)" for i
  proof -
    have "sector_end (?cur + ?n) \<le> S" using sector_end_le [of "?cur + ?n" "?cur div FLASH_SECTOR_SIZE + 1"] inS by (simp add: S_def)
    then show ?thesis using out [of i] blank [of i] that by simp
  qed
  moreover have "content f2 i = c i" if "i < ?st" for i using out [of i] before [of i] that r1 p1 by simp
  moreover have "(?cur + ?n) mod bufferSize u = 0 \<or> ?cur + ?n = ?st + u_size u" using full cm by (auto simp: mod_add_eq [symmetric])
  moreover have "placed_update u'" using p1 lb n unfolding u2 placed_update_def by simp
  moreover have "length R = ?cur + ?n - ?st" using lR p1 by simp
  ultimately show "receiving content c R u'" using mo(1) unfolding receiving_def u2 by auto
qed


lemma writeBuffer_same: "writeBuffer env u = (True, u') \<Longrightarrow> same_update u u'"
  by (elim writeBuffer_cases) (simp_all add: same_update_def)

lemma writeBuffer_failed:
  assumes "sdk_nor (sdk env) content" and "receiving content c R u" and "writeBuffer env u = (False, u')"
  shows "failed_update content c u u'"
proof -
  have "u_size u' = 0 \<and> hasError u' \<and> rtc_words u' = rtc_words u \<and> sketch_cache u' = sketch_cache u"
    using assms(3) by (elim writeBuffer_cases) (simp_all add: hasError_def UPDATE_ERROR_OK_def UPDATE_ERROR_ERASE_def UPDATE_ERROR_WRITE_def)
  moreover have "content (dev u') i = c i" if "i < startAddress u" for i
    using writeBuffer_frame [OF assms(1) _ assms(3) that] assms(2) that by (simp add: receiving_def)
  ultimately show ?thesis by (simp add: failed_update_def)
qed

lemma buffer_put_sel [simp]:
  "dev (buffer_put d u) = dev u" "startAddress (buffer_put d u) = startAddress u" "currentAddress (buffer_put d u) = currentAddress u"
  "u_size (buffer_put d u) = u_size u" "bufferSize (buffer_put d u) = bufferSize u" "command (buffer_put d u) = command u"
  "bufferLen (buffer_put d u) = bufferLen u + length d" "rtc_words (buffer_put d u) = rtc_words u"
  "sketch_cache (buffer_put d u) = sketch_cache u" "u_error (buffer_put d u) = u_error u" "target_md5 (buffer_put d u) = target_md5 u"
  by (simp_all add: buffer_put_def)

lemma buffer_put_same [simp]: "same_update u (buffer_put d u)"
  by (simp add: same_update_def)

lemma buffer_put_receiving:
  assumes r: "receiving content c R u" and fit: "bufferLen u + length d \<le> bufferSize u"
    and room: "currentAddress u + bufferLen u + length d \<le> startAddress u + u_size u"
  shows "receiving content c (R @ d) (buffer_put d u)"
proof -
  note r1 = r [unfolded receiving_def placed_update_def]
  obtain mo where mo: "mode_ok (command u) c R mo" "image_at (content (dev u)) (startAddress u) (currentAddress u) (staged mo R)" using r1 by blast
  have lR: "length R = currentAddress u - startAddress u + bufferLen u" using r1 by blast
  have "\<exists>mo. mode_ok (command u) c (R @ d) mo \<and> image_at (content (dev u)) (startAddress u) (currentAddress u) (staged mo (R @ d))"
  proof (cases "R = []")
    case True
    then have "currentAddress u = startAddress u" using lR r1 by simp
    then show ?thesis by (intro exI [of _ None]) (auto simp: mode_ok_def image_at_def)
  next
    case False
    have "staged mo (R @ d) ! k = staged mo R ! k" if "k < length R" for k
      using that by (auto simp: staged_def list_update_append nth_append split: option.split)
    then have "image_at (content (dev u)) (startAddress u) (currentAddress u) (staged mo (R @ d))"
      using mo(2) lR unfolding image_at_def by auto
    then show ?thesis using mode_ok_append [OF mo(1) False, of d] by blast
  qed
  moreover have "placed_update (buffer_put d u)" using r1 fit room by (simp add: placed_update_def) (simp add: buffer_put_def)
  moreover have "take (bufferLen u + length d) (u_buffer (buffer_put d u)) = drop (currentAddress u - startAddress u) (R @ d)"
    using r1 fit by (simp add: buffer_put_def)
  ultimately show ?thesis using r1 unfolding receiving_def by simp
qed

lemma write_loop_receiving:
  assumes nor: "sdk_nor (sdk env) content"
  shows "receiving content c R u \<Longrightarrow> currentAddress u + bufferLen u + length left \<le> startAddress u + u_size u \<Longrightarrow>
    \<exists>ok d left' u'. write_loop env left u = Some (ok, left', u') \<and> left = d @ left' \<and> (left' = [] \<longrightarrow> left = []) \<and>
      (if ok then receiving content c (R @ d) u' \<and> same_update u u' \<and> bufferLen u' + length left' \<le> bufferSize u'
       else failed_update content c u u')"
proof (induction "2 * length left + (if bufferLen u = bufferSize u then 1 else 0)" arbitrary: left R u rule: less_induct)
  case less
  note r1 = less.prems(1) [unfolded receiving_def placed_update_def]
  show ?case
  proof (cases "bufferSize u < bufferLen u + length left")
    case False
    then have "write_loop env left u = Some (True, left, u)" by (simp add: write_loop.simps)
    then show ?thesis using less.prems(1) False
      by (intro exI [of _ True] exI [of _ "[]"] exI [of _ left] exI [of _ u]) simp
  next
    case True
    define n where "n = bufferSize u - bufferLen u"
    have n: "n < length left" "bufferLen u + n = bufferSize u" using True r1 by (auto simp: n_def)
    let ?u1 = "buffer_put (take n left) u"
    have r2: "receiving content c (R @ take n left) ?u1"
      using less.prems n by (intro buffer_put_receiving) auto
    have full: "bufferLen ?u1 = bufferSize ?u1" using n by simp
    obtain ok u2 where w: "writeBuffer env ?u1 = (ok, u2)" by force
    have loop: "write_loop env left u = (if \<not> ok then Some (False, left, u2) else write_loop env (drop n left) u2)"
      using True w by (subst write_loop.simps) (simp add: n_def [symmetric] Let_def)
    show ?thesis
    proof (cases ok)
      case False
      then have "failed_update content c ?u1 u2" using writeBuffer_failed [OF nor r2] w by simp
      then have "failed_update content c u u2" using failed_update_trans [OF buffer_put_same] by blast
      then show ?thesis using loop False n
        by (intro exI [of _ False] exI [of _ "[]"] exI [of _ left] exI [of _ u2]) auto
    next
      case ok: True
      from w ok have w1: "writeBuffer env ?u1 = (True, u2)" by simp
      note r3 = writeBuffer_receiving [OF nor r2 w1 disjI1 [OF full]]
      have sm: "same_update u u2" by (rule same_update_trans [OF buffer_put_same writeBuffer_same [OF w1]])
      have bs: "bufferSize u2 = bufferSize u" "startAddress u2 = startAddress u" "u_size u2 = u_size u" using sm by (simp_all add: same_update_def)
      have less1: "2 * length (drop n left) + (if bufferLen u2 = bufferSize u2 then 1 else 0) <
          2 * length left + (if bufferLen u = bufferSize u then 1 else 0)"
        using r3(2) bs r1 n by (auto simp: FLASH_SECTOR_SIZE_def)
      have "currentAddress u2 + bufferLen u2 + length (drop n left) \<le> startAddress u2 + u_size u2"
        using r3 bs less.prems(2) n by simp
      from less.hyps [OF less1 r3(1) this] obtain ok' d left' u' where
        ih: "write_loop env (drop n left) u2 = Some (ok', left', u')" "drop n left = d @ left'" "left' = [] \<longrightarrow> drop n left = []"
          "if ok' then receiving content c ((R @ take n left) @ d) u' \<and> same_update u2 u' \<and> bufferLen u' + length left' \<le> bufferSize u'
           else failed_update content c u2 u'" by blast
      have "left = (take n left @ d) @ left'" using ih(2) by (metis append.assoc append_take_drop_id)
      moreover have "left' \<noteq> []" using ih(3) n(1) by auto
      ultimately show ?thesis using loop ok ih(1,4) same_update_trans [OF sm] failed_update_trans [OF sm]
        by (intro exI [of _ ok'] exI [of _ "take n left @ d"] exI [of _ left'] exI [of _ u']) (auto split: if_splits)
    qed
  qed
qed


text \<open>
  A write of bytes that fit: all are taken, or the update fails; it always returns.
\<close>

lemma upd_write_receiving:
  assumes nor: "sdk_nor (sdk env) content" and r: "receiving content c R u" and e: "\<not> hasError u"
    and room: "currentAddress u + bufferLen u + length data \<le> startAddress u + u_size u"
  shows "\<exists>k u'. upd_write env data u = Some (k, u') \<and>
    (if k = length data \<and> data \<noteq> [] then receiving content c (R @ data) u' \<and> same_update u u'
     else receiving content c (R @ data) u' \<and> same_update u u' \<or> failed_update content c u u')"
proof -
  have p: "placed_update u" using r by (simp add: receiving_def)
  note p1 = p [unfolded placed_update_def]
  have "(progress u + bufferLen u + length data) mod 2 ^ 32 = progress u + bufferLen u + length data"
  proof (rule mod_less)
    show "progress u + bufferLen u + length data < 2 ^ 32" using p1 room unfolding progress_eq [OF p] by linarith
  qed
  then have nospace: "\<not> u_size u < (progress u + bufferLen u + length data) mod 2 ^ 32"
    using p1 room unfolding progress_eq [OF p] by simp
  obtain ok d left u1 where l: "write_loop env data u = Some (ok, left, u1)" "data = d @ left" "left = [] \<longrightarrow> data = []"
    "if ok then receiving content c (R @ d) u1 \<and> same_update u u1 \<and> bufferLen u1 + length left \<le> bufferSize u1
     else failed_update content c u u1"
    using write_loop_receiving [OF nor r room] by blast
  have w: "upd_write env data u = (if \<not> ok then Some (length data - length left, u1)
      else if bufferLen (buffer_put left u1) = remaining (buffer_put left u1)
      then case writeBuffer env (buffer_put left u1) of (ok', u3) \<Rightarrow> Some (if ok' then length data else length data - length left, u3)
      else Some (length data, buffer_put left u1))"
    using e placed_not_error [OF p] nospace l(1) by (simp add: upd_write_def Let_def)
  show ?thesis
  proof (cases ok)
    case False
    then show ?thesis using w l by auto
  next
    case True
    have l1: "receiving content c (R @ d) u1" "same_update u u1" "bufferLen u1 + length left \<le> bufferSize u1" using l(4) True by auto
    note s1 = l1(2) [unfolded same_update_def]
    have "length (R @ d) = currentAddress u1 - startAddress u1 + bufferLen u1" "length R = currentAddress u - startAddress u + bufferLen u"
      using l1(1) r by (simp_all only: receiving_def)
    moreover have "startAddress u1 \<le> currentAddress u1" using l1(1) by (simp add: receiving_def placed_update_def)
    ultimately have room1: "currentAddress u1 + bufferLen u1 + length left \<le> startAddress u1 + u_size u1"
      using room s1 p1 l(2) by simp linarith
    let ?u2 = "buffer_put left u1"
    have r2: "receiving content c (R @ data) ?u2" using buffer_put_receiving [OF l1(1,3) room1] l(2) by simp
    have sm2: "same_update u ?u2" by (rule same_update_trans [OF l1(2) buffer_put_same])
    show ?thesis
    proof (cases "bufferLen ?u2 = remaining ?u2")
      case False
      then have "upd_write env data u = Some (length data, ?u2)" using w True by simp
      then show ?thesis using r2 sm2 by (intro exI [of _ "length data"] exI [of _ ?u2]) auto
    next
      case fin: True
      have p2: "placed_update ?u2" using r2 by (simp add: receiving_def)
      have full: "currentAddress ?u2 + bufferLen ?u2 = startAddress ?u2 + u_size ?u2"
        using fin p2 unfolding remaining_eq [OF p2] by (auto simp: placed_update_def)
      obtain ok' u3 where wb: "writeBuffer env ?u2 = (ok', u3)" by force
      have w3: "upd_write env data u = Some (if ok' then length data else length data - length left, u3)" using w True fin wb by simp
      show ?thesis
      proof (cases ok')
        case True
        with wb have wb: "writeBuffer env ?u2 = (True, u3)" by simp
        have "receiving content c (R @ data) u3" "same_update u u3"
          using writeBuffer_receiving(1) [OF nor r2 wb disjI2 [OF full]] same_update_trans [OF sm2 writeBuffer_same [OF wb]] by blast+
        then show ?thesis using w3 True by (intro exI [of _ "length data"] exI [of _ u3]) auto
      next
        case False
        have "failed_update content c u u3"
          using failed_update_trans [OF sm2] writeBuffer_failed [OF nor r2] wb False by simp
        then show ?thesis using w3 False l(2,3) by (intro exI [of _ "length data - length left"] exI [of _ u3]) auto
      qed
    qed
  qed
qed


section \<open>A whole update\<close>

text \<open>The linker script puts the file system at a sector of the flash, behind the first one.\<close>

definition flash_layout :: "('f, 'm, 'h) upd_env \<Rightarrow> bool" where
  "flash_layout env \<longleftrightarrow> FS_PHYS_ADDR env mod FLASH_SECTOR_SIZE = 0 \<and> FLASH_SECTOR_SIZE \<le> FS_PHYS_ADDR env \<and> FS_PHYS_ADDR env < 2 ^ 30"

text \<open>The end of the running sketch, in whole sectors.\<close>

definition sketch_end :: "('f, 'm, 'h) upd_env \<Rightarrow> ('f, 'm) updater \<Rightarrow> nat" where
  "sketch_end env u = round_sector (unat (getSketchSize (sdk env) (sketch_cache u) (dev u)))"

lemma round_sector_bounds:
  assumes "n \<le> 2 ^ 30"
  shows "n \<le> round_sector n" "round_sector n < n + FLASH_SECTOR_SIZE" "round_sector n mod FLASH_SECTOR_SIZE = 0"
proof -
  have e: "round_sector n = (n + 4095) div 4096 * 4096" using assms by (simp add: round_sector_def FLASH_SECTOR_SIZE_def)
  show "n \<le> round_sector n" "round_sector n < n + FLASH_SECTOR_SIZE" unfolding e FLASH_SECTOR_SIZE_def
    using div_mult_mod_eq [of "n + 4095" 4096] mod_less_divisor [of 4096 "n + 4095"] by linarith+
  show "round_sector n mod FLASH_SECTOR_SIZE = 0" by (simp add: round_sector_def)
qed

lemma upd_begin_receiving:
  assumes lay: "flash_layout env" and n: "n \<le> 2 ^ 30" and b: "upd_begin env n cmd u = (True, u')" and sk: "FLASH_SECTOR_SIZE \<le> sketch_end env u"
  shows "receiving content (content (dev u)) [] u'" "u_size u' = n" "command u' = cmd" "dev u' = dev u" "rtc_words u' = rtc_words u"
    "\<not> hasError u'" "cmd = U_FLASH \<Longrightarrow> sketch_end env u \<le> startAddress u' \<and> startAddress u' + round_sector n = FS_PHYS_ADDR env"
    "cmd \<noteq> U_FLASH \<Longrightarrow> startAddress u' = FS_PHYS_ADDR env"
proof -
  let ?bs = "if 2 * FLASH_SECTOR_SIZE < free_heap env then FLASH_SECTOR_SIZE else 256"
  from b have n0: "0 < n" and "\<not> 0 < u_size u" by (auto simp: upd_begin_def split: if_splits)
  from b obtain start where pl: "upd_place env (sketch_end env u) (round_sector n) cmd = Inr start" and
    sel: "startAddress u' = start" "currentAddress u' = start" "u_size u' = n" "bufferSize u' = ?bs" "u_buffer u' = map (junk env) [0..<?bs]"
      "bufferLen u' = 0" "command u' = cmd" "dev u' = dev u" "rtc_words u' = rtc_words u" "u_error u' = UPDATE_ERROR_OK"
    by (auto simp: upd_begin_def Let_def sketch_end_def split: if_splits sum.splits)
  note rs = round_sector_bounds [OF n]
  note lay1 = lay [unfolded flash_layout_def]
  have flash: "sketch_end env u \<le> start \<and> start + round_sector n = FS_PHYS_ADDR env" if "cmd = U_FLASH"
    using pl that sk by (auto simp: upd_place_def Let_def FLASH_SECTOR_SIZE_def split: if_splits)
  have other: "start = FS_PHYS_ADDR env" if "cmd \<noteq> U_FLASH" using pl that by (auto simp: upd_place_def split: if_splits)
  have st: "start \<le> FS_PHYS_ADDR env" "FLASH_SECTOR_SIZE \<le> start" "start mod FLASH_SECTOR_SIZE = 0"
  proof -
    have "FLASH_SECTOR_SIZE dvd start" if "cmd = U_FLASH"
      using flash [OF that] lay1 rs(3) by (metis dvd_add_left_iff mod_eq_0_iff_dvd)
    then show "start \<le> FS_PHYS_ADDR env" "FLASH_SECTOR_SIZE \<le> start" "start mod FLASH_SECTOR_SIZE = 0"
      using flash other lay1 sk by (cases "cmd = U_FLASH"; auto simp: mod_eq_0_iff_dvd)+
  qed
  show "u_size u' = n" "command u' = cmd" "dev u' = dev u" "rtc_words u' = rtc_words u" "\<not> hasError u'" using sel by (simp_all add: hasError_def)
  show "cmd = U_FLASH \<Longrightarrow> sketch_end env u \<le> startAddress u' \<and> startAddress u' + round_sector n = FS_PHYS_ADDR env"
    "cmd \<noteq> U_FLASH \<Longrightarrow> startAddress u' = FS_PHYS_ADDR env" using flash other sel by simp_all
  have "placed_update u'" unfolding placed_update_def sel using n0 n st lay1 by auto
  moreover have "sector_end start \<le> start" using sector_end_le [of start "start div FLASH_SECTOR_SIZE"] st(3)
    by (metis div_mult_mod_eq add_0_right order_refl)
  moreover have "start mod ?bs = 0" using st(3) by (auto simp: FLASH_SECTOR_SIZE_def mod_eq_0_iff_dvd intro: dvd_trans)
  ultimately show "receiving content (content (dev u)) [] u'"
    unfolding receiving_def sel by (auto simp: image_at_def mode_ok_def intro!: exI [of _ None])
qed

fun upd_writes :: "('f, 'm, 'h) upd_env \<Rightarrow> u8 list list \<Rightarrow> ('f, 'm) updater \<Rightarrow> ('f, 'm) updater option" where
  "upd_writes env [] u = Some u"
| "upd_writes env (d # ds) u = (case upd_write env d u of None \<Rightarrow> None | Some (k, u1) \<Rightarrow> upd_writes env ds u1)"

lemma writes_over: "u_size u = 0 \<Longrightarrow> upd_writes env ds u = Some u"
  by (induction ds) (simp_all add: upd_write_def isRunning_def)

lemma upd_writes_receiving:
  assumes nor: "sdk_nor (sdk env) content"
  shows "receiving content c R u \<Longrightarrow> \<not> hasError u \<Longrightarrow> \<forall>d \<in> set ds. length d < 2 ^ 31 \<Longrightarrow>  u_size u \<le> 2 ^ 30 \<Longrightarrow>
    \<exists>u'. upd_writes env ds u = Some u' \<and> (receiving content c (R @ concat ds) u' \<and> same_update u u' \<or> failed_update content c u u')"
proof (induction ds arbitrary: R u)
  case Nil
  then show ?case by simp
next
  case (Cons d ds)
  have p: "placed_update u" using Cons.prems(1) by (simp add: receiving_def)
  show ?case
  proof (cases "currentAddress u + bufferLen u + length d \<le> startAddress u + u_size u")
    case True
    obtain k u1 where w: "upd_write env d u = Some (k, u1)"
      "receiving content c (R @ d) u1 \<and> same_update u u1 \<or> failed_update content c u u1"
      using upd_write_receiving [OF nor Cons.prems(1,2) True] by (auto split: if_splits)
    from w(2) show ?thesis
    proof
      assume a: "receiving content c (R @ d) u1 \<and> same_update u u1"
      then have "\<not> hasError u1" "u_size u1 \<le> 2 ^ 30" using Cons.prems by (simp_all add: same_update_def hasError_def)
      from Cons.IH [OF conjunct1 [OF a] this(1) _ this(2)] Cons.prems(3) obtain u' where
        "upd_writes env ds u1 = Some u'" "receiving content c ((R @ d) @ concat ds) u' \<and> same_update u1 u' \<or> failed_update content c u1 u'" by auto
      then show ?thesis
        using w(1) same_update_trans [OF conjunct2 [OF a], of u'] failed_update_trans [OF conjunct2 [OF a], of content c u']
        by (intro exI [of _ u']) auto
    next
      assume a: "failed_update content c u u1"
      then have "upd_writes env ds u1 = Some u1" by (intro writes_over) (simp add: failed_update_def)
      then show ?thesis using w(1) a by auto
    qed
  next
    case False
    note p1 = p [unfolded placed_update_def]
    have "progress u + bufferLen u + length d < 2 ^ 32" using p1 Cons.prems(3,4) unfolding progress_eq [OF p] by auto
    then have "(progress u + bufferLen u + length d) mod 2 ^ 32 = progress u + bufferLen u + length d" by (rule mod_less)
    then have "upd_write env d u = Some (0, setError UPDATE_ERROR_SPACE u)"
      using False Cons.prems(2) placed_not_error [OF p] p1 unfolding upd_write_def progress_eq [OF p] by auto
    moreover have "failed_update content c u (setError UPDATE_ERROR_SPACE u)"
      using Cons.prems(1) by (simp add: failed_update_def receiving_def hasError_def UPDATE_ERROR_SPACE_def UPDATE_ERROR_OK_def)
    ultimately show ?thesis by (simp add: writes_over)
  qed
qed


text \<open>A successful end of an update without signature check.\<close>

lemma upd_end_true:
  assumes r: "receiving content c R u" and v: "verifier env = None" and e: "upd_end env False u = (True, u')"
  shows "length R = u_size u" "currentAddress u = startAddress u + u_size u" "dev u' = dev u" "sketch_cache u' = sketch_cache u"
    "rtc_words u' = (if command u = U_FLASH then eboot_command_write (ebcmd_for env u) (rtc_words u) else rtc_words u)"
proof -
  have p: "placed_update u" using r by (simp add: receiving_def)
  note p1 = p [unfolded placed_update_def]
  have noerr: "progress u \<noteq> 0"
  proof
    assume "progress u = 0"
    then show False using e p1
      by (simp add: upd_end_def Let_def hasError_def UPDATE_ERROR_NO_DATA_def UPDATE_ERROR_OK_def)
  qed
  have fin: "isFinished u" using e p1 noerr by (auto simp: upd_end_def Let_def split: if_splits)
  have "(startAddress u + u_size u) mod 2 ^ 32 = startAddress u + u_size u" by (rule mod_less) (use p1 in simp)
  then show cur: "currentAddress u = startAddress u + u_size u" using fin by (simp only: isFinished_def)
  have lR: "length R = currentAddress u - startAddress u + bufferLen u" using r by (simp add: receiving_def)
  then show "length R = u_size u" using cur p1 by simp
  obtain u3 where ci: "check_image env u = Inr u3" "dev u3 = dev u" "rtc_words u3 = rtc_words u" "command u3 = command u"
    "startAddress u3 = startAddress u" "u_size u3 = u_size u" "sketch_cache u3 = sketch_cache u"
    using e p1 noerr v by (auto simp: upd_end_def check_image_def Let_def split: if_splits sum.splits)
  obtain u4 where ve: "verifyEnd env u3 = (True, u4)"
    using e p1 noerr ci(1) by (cases "verifyEnd env u3") (auto simp: upd_end_def Let_def split: if_splits)
  have u4: "u4 = u3" using ve by (auto simp: verifyEnd_def Let_def split: if_splits prod.splits)
  have "u' = upd_reset True (if command u3 = U_FLASH then u3\<lparr>rtc_words := eboot_command_write (ebcmd_for env u3) (rtc_words u3)\<rparr> else u3)"
    using e p1 noerr ci(1) ve u4 by (auto simp: upd_end_def Let_def split: if_splits)
  then show "dev u' = dev u" "sketch_cache u' = sketch_cache u"
    "rtc_words u' = (if command u = U_FLASH then eboot_command_write (ebcmd_for env u) (rtc_words u) else rtc_words u)"
    using ci by (simp_all add: ebcmd_for_def)
qed


section \<open>Any sequence of calls\<close>

datatype upd_op = Begin nat nat | Data "u8 list" | Finish bool | ExpectMD5 "u8 list"

definition upd_step :: "('f, 'm, 'h) upd_env \<Rightarrow> upd_op \<Rightarrow> ('f, 'm) updater \<Rightarrow> (bool \<times> ('f, 'm) updater) option" where
  "upd_step env op u = (case op of
     Begin n cmd \<Rightarrow> Some (upd_begin env n cmd u)
   | Data d \<Rightarrow> map_option (\<lambda>(k, u1). (k = length d, u1)) (upd_write env d u)
   | Finish b \<Rightarrow> Some (upd_end env b u)
   | ExpectMD5 m \<Rightarrow> Some (setMD5 m u))"

text \<open>A run, and whether some \<open>end\<close> in it succeeded.\<close>

fun upd_run :: "('f, 'm, 'h) upd_env \<Rightarrow> upd_op list \<Rightarrow> ('f, 'm) updater \<Rightarrow> (bool \<times> ('f, 'm) updater) option" where
  "upd_run env [] u = Some (False, u)"
| "upd_run env (op # ops) u = (case upd_step env op u of None \<Rightarrow> None
     | Some (ok, u1) \<Rightarrow> map_option (\<lambda>(done, u2). ((ok \<and> (case op of Finish _ \<Rightarrow> True | _ \<Rightarrow> False)) \<or> done, u2)) (upd_run env ops u1))"

definition op_bounds :: "upd_op \<Rightarrow> bool" where
  "op_bounds op \<longleftrightarrow> (case op of Begin n cmd \<Rightarrow> n \<le> 2 ^ 30 | Data d \<Rightarrow> length d < 2 ^ 31 | _ \<Rightarrow> True)"

definition upd_inv :: "('f \<Rightarrow> nat \<Rightarrow> u8) \<Rightarrow> u32 \<Rightarrow> (nat \<Rightarrow> u8) \<Rightarrow> ('f, 'm) updater \<Rightarrow> bool" where
  "upd_inv content k c0 u \<longleftrightarrow> sketch_cache u = k \<and> (\<forall>i < round_sector (unat k). content (dev u) i = c0 i) \<and>
     (0 < u_size u \<longrightarrow> \<not> hasError u \<and> u_size u \<le> 2 ^ 30 \<and> round_sector (unat k) \<le> startAddress u \<and> (\<exists>c R. receiving content c R u))"

lemma upd_inv_idle: "upd_inv content k c0 u \<Longrightarrow> dev u' = dev u \<Longrightarrow> sketch_cache u' = sketch_cache u \<Longrightarrow> u_size u' = 0 \<Longrightarrow> upd_inv content k c0 u'"
  by (simp add: upd_inv_def)

lemma verifyEnd_sel: "verifyEnd env u = (ok, u') \<Longrightarrow> dev u' = dev u \<and> rtc_words u' = rtc_words u \<and> sketch_cache u' = sketch_cache u"
  by (auto simp: verifyEnd_def Let_def split: if_splits prod.splits)

lemma check_image_sel: "check_image env u = Inl u' \<Longrightarrow> dev u' = dev u \<and> rtc_words u' = rtc_words u \<and> sketch_cache u' = sketch_cache u \<and> u_size u' = 0"
  "check_image env u = Inr u' \<Longrightarrow> dev u' = dev u \<and> rtc_words u' = rtc_words u \<and> sketch_cache u' = sketch_cache u"
  by (auto simp: check_image_def Let_def split: if_splits option.splits sum.splits)

lemma conclude_sel:
  assumes "(case check_image env u of Inl u3 \<Rightarrow> (False, u3)
    | Inr u3 \<Rightarrow> (case verifyEnd env u3 of (ok, u4) \<Rightarrow> if \<not> ok then (False, upd_reset True u4)
        else (True, upd_reset True (if command u4 = U_FLASH
          then u4\<lparr>rtc_words := eboot_command_write (ebcmd_for env u4) (rtc_words u4)\<rparr> else u4)))) = (ok, u')"
  shows "u_size u' = 0" "dev u' = dev u" "sketch_cache u' = sketch_cache u" "\<not> ok \<Longrightarrow> rtc_words u' = rtc_words u"
proof -
  have "u_size u' = 0 \<and> dev u' = dev u \<and> sketch_cache u' = sketch_cache u \<and> (\<not> ok \<longrightarrow> rtc_words u' = rtc_words u)"
  proof (cases "check_image env u")
    case (Inl u3)
    then show ?thesis using assms check_image_sel(1) [OF Inl] by simp
  next
    case (Inr u3)
    obtain ok4 u4 where v: "verifyEnd env u3 = (ok4, u4)" by force
    show ?thesis using assms check_image_sel(2) [OF Inr] verifyEnd_sel [OF v] by (auto simp: Inr v split: if_splits)
  qed
  then show "u_size u' = 0" "dev u' = dev u" "sketch_cache u' = sketch_cache u" "\<not> ok \<Longrightarrow> rtc_words u' = rtc_words u" by blast+
qed

text \<open>After \<open>end\<close> no update is running; only a successful one leaves a command, and it changes the flash only by writing out the buffer.\<close>

lemma upd_end_sel:
  assumes "upd_end env b u = (ok, u')"
  shows "u_size u' = 0 \<and> sketch_cache u' = sketch_cache u \<and> (\<not> ok \<longrightarrow> rtc_words u' = rtc_words u) \<and>
    (dev u' = dev u \<or> (\<exists>ok' w. 0 < u_size u \<and> writeBuffer env u = (ok', w) \<and> dev u' = dev w))"
proof (cases "u_size u = 0 \<or> progress u = 0 \<or> hasError u \<or> \<not> isFinished u \<and> \<not> b")
  case True
  then show ?thesis using assms
    by (auto simp: upd_end_def Let_def hasError_def UPDATE_ERROR_NO_DATA_def UPDATE_ERROR_OK_def split: if_splits)
next
  case False
  define w where "w = (if b then let w = (if 0 < bufferLen u then snd (writeBuffer env u) else u) in w\<lparr>u_size := progress w\<rparr> else u)"
  obtain ok1 u1 where wb: "writeBuffer env u = (ok1, u1)" by force
  have k: "sketch_cache u1 = sketch_cache u" "rtc_words u1 = rtc_words u" using wb by (cases rule: writeBuffer_cases; cases ok1; simp)+
  have w: "sketch_cache w = sketch_cache u" "rtc_words w = rtc_words u" "dev w = dev u \<or> dev w = dev u1"
    using wb k by (auto simp: w_def Let_def)
  have "(case check_image env w of Inl u3 \<Rightarrow> (False, u3)
    | Inr u3 \<Rightarrow> (case verifyEnd env u3 of (ok, u4) \<Rightarrow> if \<not> ok then (False, upd_reset True u4)
        else (True, upd_reset True (if command u4 = U_FLASH
          then u4\<lparr>rtc_words := eboot_command_write (ebcmd_for env u4) (rtc_words u4)\<rparr> else u4)))) = (ok, u')"
  proof -
    have c: "(u_size u = 0) = False" "(progress u = 0) = False" "(hasError u \<or> \<not> isFinished u \<and> \<not> b) = False" using False by blast+
    show ?thesis using assms unfolding upd_end_def w_def Let_def by (simp only: c if_False)
  qed
  note c = conclude_sel [OF this]
  show ?thesis using c w wb False by auto
qed

lemma upd_begin_false: "upd_begin env n cmd u = (False, u') \<Longrightarrow>
    dev u' = dev u \<and> rtc_words u' = rtc_words u \<and> u_size u' = 0 \<and> (sketch_cache u \<noteq> 0 \<longrightarrow> sketch_cache u' = sketch_cache u)"
  by (auto simp: upd_begin_def Let_def getSketchSize_def split: if_splits sum.splits)

lemma upd_begin_cache: "upd_begin env n cmd u = (True, u') \<Longrightarrow> sketch_cache u \<noteq> 0 \<Longrightarrow> sketch_cache u' = sketch_cache u"
  by (auto simp: upd_begin_def Let_def getSketchSize_def split: if_splits sum.splits)

lemma setMD5_receiving [simp]: "receiving content c R (u\<lparr>target_md5 := m\<rparr>) = receiving content c R u"
  by (simp add: receiving_def placed_update_def)

lemma upd_step_inv:
  assumes nor: "sdk_nor (sdk env) content" and lay: "flash_layout env" and k: "k \<noteq> 0" "FLASH_SECTOR_SIZE \<le> round_sector (unat k)"
    and fs: "round_sector (unat k) \<le> FS_PHYS_ADDR env" and i: "upd_inv content k c0 u" and b: "op_bounds op"
  shows "\<exists>ok u'. upd_step env op u = Some (ok, u') \<and> upd_inv content k c0 u' \<and>
    (\<not> (ok \<and> (case op of Finish _ \<Rightarrow> True | _ \<Rightarrow> False)) \<longrightarrow> rtc_words u' = rtc_words u)"
proof (cases op)
  case (Begin n cmd)
  obtain ok u' where u': "upd_begin env n cmd u = (ok, u')" by force
  have "upd_inv content k c0 u' \<and> rtc_words u' = rtc_words u"
  proof (cases ok)
    case True
    have c: "sketch_cache u = k" using i by (simp add: upd_inv_def)
    have "sketch_end env u = round_sector (unat k)" using c k(1) by (simp add: sketch_end_def getSketchSize_def)
    with u' True k b have f: "FLASH_SECTOR_SIZE \<le> sketch_end env u" "n \<le> 2 ^ 30" "upd_begin env n cmd u = (True, u')"
        "sketch_end env u = round_sector (unat k)" by (simp_all add: op_bounds_def Begin)
    note r = upd_begin_receiving(2-8) [OF lay f(2,3,1)] and rc = upd_begin_receiving(1) [where content = content, OF lay f(2,3,1)]
    have "round_sector (unat k) \<le> startAddress u'" using r(6,7) fs f(4) by (cases "cmd = U_FLASH") simp_all
    then show ?thesis using rc r(1-5) i f(2) upd_begin_cache [OF f(3)] k(1) c unfolding upd_inv_def by auto
  next
    case False
    then show ?thesis using upd_begin_false [of env n cmd u u'] u' i k(1) by (auto simp: upd_inv_def)
  qed
  then show ?thesis using u' by (simp add: upd_step_def Begin)
next
  case (Data d)
  have "\<exists>n u'. upd_write env d u = Some (n, u') \<and> upd_inv content k c0 u' \<and> rtc_words u' = rtc_words u"
  proof (cases "0 < u_size u")
    case False
    then show ?thesis using i by (simp add: upd_write_def isRunning_def)
  next
    case True
    obtain c R where r: "receiving content c R u" "\<not> hasError u" "u_size u \<le> 2 ^ 30" "round_sector (unat k) \<le> startAddress u"
      using i True by (auto simp: upd_inv_def)
    obtain u' where w: "upd_writes env [d] u = Some u'" "receiving content c (R @ d) u' \<and> same_update u u' \<or> failed_update content c u u'"
      using upd_writes_receiving [OF nor r(1,2) _ r(3), of "[d]"] b by (auto simp: op_bounds_def Data)
    from w(1) obtain n where n: "upd_write env d u = Some (n, u')" by (auto split: option.splits)
    have lo: "content (dev u') j = content (dev u) j" if "j < round_sector (unat k)" for j
    proof -
      have "j < startAddress u" using that r(4) by simp
      moreover have "content (dev u) j = c j" using r(1) calculation by (simp add: receiving_def)
      ultimately show ?thesis using w(2) by (auto simp: receiving_def failed_update_def same_update_def)
    qed
    have "upd_inv content k c0 u'"
      using w(2) i lo r by (auto simp: upd_inv_def same_update_def failed_update_def hasError_def)
    moreover have "rtc_words u' = rtc_words u" using w(2) by (auto simp: same_update_def failed_update_def)
    ultimately show ?thesis using n by blast
  qed
  then show ?thesis by (auto simp: upd_step_def Data)
next
  case (Finish fl)
  obtain ok u' where u': "upd_end env fl u = (ok, u')" by force
  note e = upd_end_sel [OF u']
  have "content (dev u') j = content (dev u) j" if "j < round_sector (unat k)" for j
    using e
  proof (elim conjE disjE exE)
    fix ok' w assume w: "0 < u_size u" "writeBuffer env u = (ok', w)" "dev u' = dev w"
    then have "placed_update u" "j < startAddress u" using i that by (auto simp: upd_inv_def receiving_def)
    then show ?thesis using writeBuffer_frame [OF nor _ w(2)] w(3) by simp
  qed simp
  then have "upd_inv content k c0 u'" using e i by (simp add: upd_inv_def)
  then show ?thesis using u' e by (simp add: upd_step_def Finish)
next
  case (ExpectMD5 m)
  then show ?thesis using i by (auto simp: upd_step_def setMD5_def upd_inv_def hasError_def)
qed


lemma upd_run_inv:
  assumes nor: "sdk_nor (sdk env) content" and lay: "flash_layout env" and k: "k \<noteq> 0" "FLASH_SECTOR_SIZE \<le> round_sector (unat k)"
    and fs: "round_sector (unat k) \<le> FS_PHYS_ADDR env"
  shows "upd_inv content k c0 u \<Longrightarrow> \<forall>op \<in> set ops. op_bounds op \<Longrightarrow>
    \<exists>done u'. upd_run env ops u = Some (done, u') \<and> upd_inv content k c0 u' \<and> (\<not> done \<longrightarrow> rtc_words u' = rtc_words u)"
proof (induction ops arbitrary: u)
  case (Cons op ops)
  obtain ok u1 where s1: "upd_step env op u = Some (ok, u1)" "upd_inv content k c0 u1"
    "\<not> (ok \<and> (case op of Finish _ \<Rightarrow> True | _ \<Rightarrow> False)) \<longrightarrow> rtc_words u1 = rtc_words u"
    using upd_step_inv [OF nor lay k fs Cons.prems(1), of op] Cons.prems(2) by auto
  obtain dn u2 where s2: "upd_run env ops u1 = Some (dn, u2)" "upd_inv content k c0 u2" "\<not> dn \<longrightarrow> rtc_words u2 = rtc_words u1"
    using Cons.IH [OF s1(2)] Cons.prems(2) by auto
  then show ?case using s1 by (cases op) auto
qed (auto intro: exI [of _ False])

definition sample_env :: "(nat \<Rightarrow> u8) sdk_flash \<Rightarrow> (nat \<Rightarrow> u8, unit, unit) upd_env" where
  "sample_env s = \<lparr>sdk = s, GPI = 0, FS_start = 0x40300000, FS_end = 0x403fb000, free_heap = 40000, has_memory = (\<lambda>_. True),
     junk = (\<lambda>_. 0), junk_args = (\<lambda>_. 0), md5_new = (), md5_begin = (), md5_add = (\<lambda>_ _. ()), md5_calculate = (\<lambda>_. ()), md5_string = (\<lambda>_. []),
     verifier = None\<rparr>"

definition idle_updater :: "(nat \<Rightarrow> u8) \<Rightarrow> u32 \<Rightarrow> (nat \<Rightarrow> u8, unit) updater" where
  "idle_updater f k = \<lparr>dev = f, rtc_words = (\<lambda>_. 0), sketch_cache = k, u_error = 0, u_buffer = [], bufferLen = 0, bufferSize = 0, u_size = 0,
     startAddress = 0, currentAddress = 0, command = 0, target_md5 = [], u_md5 = (), u_log = []\<rparr>"

lemma sample_layout: "flash_layout (sample_env s)"
  by (simp add: flash_layout_def sample_env_def FS_PHYS_ADDR_def FLASH_SECTOR_SIZE_def)




lemma sample_begin:
  assumes "spi_flash_read s f 0 4 = (0, bs)" and "bs ! 3 = 0" and "spi_flash_get_id s = 0x1640ef"
  shows "fst (upd_begin (sample_env s) 3 0 (idle_updater f 3000))"
  using assms by (simp add: upd_begin_def sample_env_def idle_updater_def Let_def checkFlashConfig_def getFlashChipRealSize_def
      getFlashChipSize_def magicFlashChipSize_def upd_place_def U_FLASH_def FS_PHYS_ADDR_def round_sector_def FLASH_SECTOR_SIZE_def getSketchSize_def)

lemma update_stages:
  assumes "sdk_nor (sdk env) content" and "flash_layout env" and "n \<le> 2 ^ 30" and "FLASH_SECTOR_SIZE \<le> sketch_end env u"
    and "verifier env = None" and "upd_begin env n U_FLASH u = (True, u1)" and "\<forall>d \<in> set ds. length d < 2 ^ 31"
  shows "\<exists>u2. upd_writes env ds u1 = Some u2 \<and> (\<forall>i < FS_PHYS_ADDR env - round_sector n. content (dev u2) i = content (dev u) i) \<and>
    (\<forall>u3. upd_end env False u2 = (True, u3) \<longrightarrow> length (concat ds) = n \<and>
      (\<exists>mo. mode_ok U_FLASH (content (dev u)) (concat ds) mo \<and>
        image_at (content (dev u3)) (FS_PHYS_ADDR env - round_sector n) (FS_PHYS_ADDR env - round_sector n + n) (staged mo (concat ds))) \<and>
      eboot_fetch (rtc_words u3) = Some (eboot_command_seal (ebcmd_for env (u\<lparr>startAddress := FS_PHYS_ADDR env - round_sector n, u_size := n\<rparr>))))"
proof -
  note b = upd_begin_receiving(2-8) [OF assms(2,3,6,4)] and rc = upd_begin_receiving(1) [where content = content, OF assms(2,3,6,4)]
  have st: "startAddress u1 = FS_PHYS_ADDR env - round_sector n" using b(6) by linarith
  obtain u2 where u2: "upd_writes env ds u1 = Some u2"
    "receiving content (content (dev u)) (concat ds) u2 \<and> same_update u1 u2 \<or> failed_update content (content (dev u)) u1 u2"
    using upd_writes_receiving [OF assms(1) rc b(5) assms(7)] b(1) assms(3) by auto
  have low: "content (dev u2) i = content (dev u) i" if "i < startAddress u1" for i
    using u2(2) that by (auto simp: receiving_def failed_update_def same_update_def)
  have fin: "length (concat ds) = n \<and> (\<exists>mo. mode_ok U_FLASH (content (dev u)) (concat ds) mo \<and>
        image_at (content (dev u3)) (startAddress u1) (startAddress u1 + n) (staged mo (concat ds))) \<and>
      eboot_fetch (rtc_words u3) = Some (eboot_command_seal (ebcmd_for env (u\<lparr>startAddress := startAddress u1, u_size := n\<rparr>)))"
    if e: "upd_end env False u2 = (True, u3)" for u3
  proof -
    have "\<not> failed_update content (content (dev u)) u1 u2" using e by (auto simp: failed_update_def upd_end_def)
    with u2(2) have r: "receiving content (content (dev u)) (concat ds) u2" and sm: "same_update u1 u2" by auto
    note t = upd_end_true [OF r assms(5) e]
    have s2: "startAddress u2 = startAddress u1" "u_size u2 = n" "command u2 = U_FLASH" using sm b(1,2) by (simp_all add: same_update_def)
    have "\<exists>mo. mode_ok U_FLASH (content (dev u)) (concat ds) mo \<and> image_at (content (dev u2)) (startAddress u1) (startAddress u1 + n) (staged mo (concat ds))"
      using r t(2) s2 by (auto simp: receiving_def)
    moreover have "ebcmd_for env u2 = ebcmd_for env (u\<lparr>startAddress := startAddress u1, u_size := n\<rparr>)" using s2 by (simp add: ebcmd_for_def)
    moreover have "wf_command (ebcmd_for env u2)" by (simp add: wf_command_def ebcmd_for_def)
    ultimately show ?thesis using t s2 by (simp add: eboot_fetch_def read_after_write)
  qed
  show ?thesis using u2(1) low fin unfolding st by blast
qed

text \<open>An update written in pieces of any size and ended with success has put exactly the bytes received at its
  place in the flash, apart from the flash mode byte of an uncompressed sketch, and has left the boot loader the command to copy
  that many bytes from there to the start; until then the flash below its place is unchanged.\<close>

lemma update_stages_image:
  assumes "sdk_nor (sdk env) content" and "flash_layout env" and "n \<le> 2 ^ 30" and "FLASH_SECTOR_SIZE \<le> sketch_end env u"
    and "verifier env = None" and "upd_begin env n U_FLASH u = (True, u1)" and "\<forall>d \<in> set ds. length d < 2 ^ 31"
  shows "\<exists>u2. upd_writes env ds u1 = Some u2 \<and> (\<forall>i < FS_PHYS_ADDR env - round_sector n. content (dev u2) i = content (dev u) i) \<and>
    (\<forall>u3. upd_end env False u2 = (True, u3) \<longrightarrow> length (concat ds) = n \<and>
      (\<exists>mo. mode_ok U_FLASH (content (dev u)) (concat ds) mo \<and>
        image_at (content (dev u3)) (FS_PHYS_ADDR env - round_sector n) (FS_PHYS_ADDR env - round_sector n + n) (staged mo (concat ds))) \<and>
      eboot_fetch (rtc_words u3) = Some (eboot_command_seal (ebcmd_for env (u\<lparr>startAddress := FS_PHYS_ADDR env - round_sector n, u_size := n\<rparr>))))"
  by (rule update_stages [OF assms])

lemma update_stages_image_witness:
  "\<exists>u1 u2. upd_begin (sample_env ram_sdk) 3 U_FLASH (idle_updater (\<lambda>_. 0) 3000) = (True, u1) \<and>
    upd_writes (sample_env ram_sdk) [[0xE9], [1, 2]] u1 = Some u2 \<and> (\<forall>i < 0xff000. dev u2 i = 0)"
proof -
  let ?u1 = "snd (upd_begin (sample_env ram_sdk) 3 U_FLASH (idle_updater (\<lambda>_. 0) 3000))"
  have b: "upd_begin (sample_env ram_sdk) 3 U_FLASH (idle_updater (\<lambda>_. 0) 3000) = (True, ?u1)"
    using sample_begin [of ram_sdk "\<lambda>_. 0" "[0, 0, 0, 0]"] by (simp add: ram_sdk_def U_FLASH_def prod_eq_iff upt_rec)
  have s: "sketch_end (sample_env ram_sdk) (idle_updater (\<lambda>_. 0) 3000) = 4096"
    by (simp add: sketch_end_def getSketchSize_def idle_updater_def round_sector_def FLASH_SECTOR_SIZE_def)
  have f: "FS_PHYS_ADDR (sample_env ram_sdk) - round_sector 3 = 0xff000"
    by (simp add: FS_PHYS_ADDR_def sample_env_def round_sector_def FLASH_SECTOR_SIZE_def)
  have n: "sdk_nor (sdk (sample_env ram_sdk)) (\<lambda>f. f)" "verifier (sample_env ram_sdk) = None" by (simp_all add: sample_env_def ram_sdk_nor)
  from update_stages_image [OF n(1) sample_layout _ _ n(2) b, of "[[0xE9], [1, 2]]"] b s
  show ?thesis unfolding f by (auto simp: FLASH_SECTOR_SIZE_def idle_updater_def)
qed


text \<open>C23: When the image is ended before all announced bytes have come, a failure to write the last bytes is lost:
  the update is reset, the check that follows reads the running sketch at address 0 instead of the image, and if that sketch
  looks valid \<open>end\<close> reports success and leaves a command that copies nothing.\<close>

theorem upd_end_hides_failure:
  assumes "0 < u_size u" and "progress u \<noteq> 0" and "\<not> hasError u" and "0 < bufferLen u" and "writeBuffer env u = (False, w)"
    and "verifier env = None" and "target_md5 u = []" and "fst (verifyEnd env w)"
  shows "\<exists>u'. upd_end env True u = (True, u') \<and> hasError u' \<and>
    (\<exists>cmd. eboot_fetch (rtc_words u') = Some cmd \<and> action cmd = ACTION_COPY_RAW \<and> take 3 (args cmd) = [0, 0, 0])"
proof -
  have w: "u_size w = 0" "startAddress w = 0" "currentAddress w = 0" "command w = U_FLASH" "target_md5 w = []" "hasError w"
    using assms(5,7) by (elim writeBuffer_cases; simp add: hasError_def skip_to_end_def UPDATE_ERROR_ERASE_def UPDATE_ERROR_WRITE_def UPDATE_ERROR_OK_def)+
  have p: "progress w = 0" using w by (simp add: progress_def)
  obtain u4 where v: "verifyEnd env w = (True, u4)" using assms(8) by (cases "verifyEnd env w") simp
  have u4: "u4 = w" using v by (auto simp: verifyEnd_def Let_def split: if_splits prod.splits)
  have same: "w\<lparr>u_size := 0\<rparr> = w" using w(1) by simp
  have c: "check_image env w = Inr w" using assms(6) w(5) by (simp add: check_image_def)
  have "upd_end env True u = (True, upd_reset True (w\<lparr>rtc_words := eboot_command_write (ebcmd_for env w) (rtc_words w)\<rparr>))"
    using assms(1-5) w(4) by (simp add: upd_end_def Let_def p same c v u4)
  moreover have "wf_command (ebcmd_for env w)" by (simp add: wf_command_def ebcmd_for_def)
  ultimately show ?thesis using w(1,2,6)
    by (intro exI conjI) (assumption, simp add: hasError_def, simp add: eboot_fetch_def read_after_write, simp_all add: eboot_command_seal_def ebcmd_for_def)
qed


definition worn_sdk :: "(nat \<Rightarrow> u8) sdk_flash" where
  "worn_sdk = ram_sdk\<lparr>spi_flash_write := (\<lambda>f a bs. (1, f))\<rparr>"

definition late_updater :: "(nat \<Rightarrow> u8, unit) updater" where
  "late_updater = (idle_updater (\<lambda>_. 0xE9) 3000)\<lparr>u_size := 1000, startAddress := 0x80000, currentAddress := 0x80100, bufferSize := 256,
     bufferLen := 4, u_buffer := replicate 256 0\<rparr>"

theorem upd_end_hides_failure_witness:
  "\<exists>u'. upd_end (sample_env worn_sdk) True late_updater = (True, u') \<and> hasError u'"
proof -
  let ?w = "setError UPDATE_ERROR_WRITE (skip_to_end late_updater)"
  have l: "0 < u_size late_updater" "progress late_updater \<noteq> 0" "\<not> hasError late_updater" "0 < bufferLen late_updater" "target_md5 late_updater = []"
    by (simp_all add: late_updater_def idle_updater_def progress_def hasError_def UPDATE_ERROR_OK_def)
  have ps: "\<not> puya worn_sdk" by (simp add: puya_def getFlashChipVendorId_def SPI_FLASH_VENDOR_PUYA_def worn_sdk_def ram_sdk_def)
  have w: "writeBuffer (sample_env worn_sdk) late_updater = (False, ?w)"
    by (simp add: writeBuffer_def Let_def late_updater_def idle_updater_def FLASH_SECTOR_SIZE_def sample_env_def adapt_mode_def
        flashWrite_def flashWrite_words_def ps spi_flash_write_page_break_def FLASH_PAGE_SIZE_def) (simp add: worn_sdk_def)
  have v: "fst (verifyEnd (sample_env worn_sdk) ?w)"
    by (simp add: verifyEnd_def Let_def sample_env_def flashRead_words_def worn_sdk_def ram_sdk_def late_updater_def idle_updater_def upt_rec
        getFlashChipRealSize_def magicFlashChipSize_def)
  have "verifier (sample_env worn_sdk) = None" by (simp add: sample_env_def)
  from upd_end_hides_failure [OF l(1-4) w this l(5) v] show ?thesis by blast
qed

end
