(* ===== verification/Eboot.thy ===== *)
theory Eboot
  imports Eboot_Command Flash_Area
begin

text \<open>
  The boot loader itself (\<open>bootloaders/eboot/eboot.c\<close>): loading the application
  image, copying (or inflating) a new image over the old one, and \<open>main\<close>, which
  decides between the two from the command in RTC memory.

  Code outside the repository is a parameter: the ROM routines (\<open>spi_rom\<close>) and
  the uzlib inflater (\<open>uzlib\<close>), a git submodule.  A console character, a
  message or a watchdog call is an entry of the log.  Jumping to the
  application, the software reset and the final endless loop are the three
  outcomes of \<open>main\<close>.
\<close>

section \<open>Console, memory and parameters\<close>

datatype boot_event =
    PutVersion u32 | PutChar char | PutStr string | PutInt int | WdtDisable | WdtEnable

type_synonym ram = "u32 \<Rightarrow> u8"

definition ram_store :: "ram \<Rightarrow> u32 \<Rightarrow> u8 list \<Rightarrow> ram" where
  "ram_store mem a bs = (\<lambda>p. if unat (p - a) < length bs then bs ! unat (p - a) else mem p)"

text \<open>
  The inflater: its result codes, the header parser (which starts reading at a
  given flash address), and the call that inflates at most the given number of
  bytes into the start of the buffer.  Both refill their input through a
  callback: from the next flash address it gives a byte, the rest of the window
  and the address after it.
\<close>

type_synonym source_read_cb = "u32 \<Rightarrow> u8 \<times> u8 list \<times> u32"

record 'z uzlib =
  TINF_OK :: int
  TINF_DONE :: int
  uzlib_gzip_parse_header :: "source_read_cb \<Rightarrow> u32 \<Rightarrow> int \<times> 'z"
  uzlib_uncompress :: "source_read_cb \<Rightarrow> 'z \<Rightarrow> nat \<Rightarrow> int \<times> 'z \<times> u8 list"

section \<open>Version and image loading\<close>

definition print_version :: "'f spi_rom \<Rightarrow> 'f \<Rightarrow> u32 \<Rightarrow> int \<times> boot_event list" where
  "print_version rom f flash_addr =
     (case SPIRead rom f (flash_addr + APP_START_OFFSET + 8 + 8) 4 of (res, ver) \<Rightarrow>
        if res \<noteq> 0 then (1, [])
        else (0, [PutVersion (word_of (ver ! 0) (ver ! 1) (ver ! 2) (ver ! 3))]))"

definition section_loads :: "u32 \<Rightarrow> bool" where
  "section_loads a \<longleftrightarrow>
     a < 0x40000000 \<or> (0x40100000 \<le> a \<and> a < 0x4010C000) \<or> 0x60000000 \<le> a"

fun load_sections :: "'f spi_rom \<Rightarrow> 'f \<Rightarrow> nat \<Rightarrow> u32 \<Rightarrow> ram \<Rightarrow> int \<times> ram" where
  "load_sections rom f 0 pos mem = (0, mem)"
| "load_sections rom f (Suc n) pos mem =
     (case SPIRead rom f pos 8 of (res, bs) \<Rightarrow>
      if res \<noteq> 0 then (2, mem)
      else let section_header = section_header_of bs; pos1 = pos + 8 in
        if \<not> section_loads (address section_header)
        then load_sections rom f n (pos1 + section_size section_header) mem
        else case SPIRead rom f pos1 (unat (section_size section_header)) of (res, data) \<Rightarrow>
          let mem1 = ram_store mem (address section_header) data in
          if res \<noteq> 0 then (3, mem1)
          else load_sections rom f n (pos1 + section_size section_header) mem1)"

datatype load_result = LoadFailed int | JumpTo u32

definition load_app_from_flash_raw :: "'f spi_rom \<Rightarrow> 'f \<Rightarrow> u32 \<Rightarrow> ram \<Rightarrow> load_result \<times> ram" where
  "load_app_from_flash_raw rom f flash_addr mem =
     (let pos = flash_addr + APP_START_OFFSET in
      case SPIRead rom f pos 8 of (res, bs) \<Rightarrow>
      if res \<noteq> 0 then (LoadFailed 1, mem)
      else let image_header = image_header_of bs in
        case load_sections rom f (unat (num_segments image_header)) (pos + 8) mem of (res, mem1) \<Rightarrow>
        if res \<noteq> 0 then (LoadFailed res, mem1) else (JumpTo (entry image_header), mem1))"

section \<open>Copying an image\<close>

definition read_flash_byte :: "'f spi_rom \<Rightarrow> 'f \<Rightarrow> u32 \<Rightarrow> u8" where
  "read_flash_byte rom f addr = snd (SPIRead rom f (addr AND NOT 3) 4) ! unat (addr AND 3)"

text \<open>
  \<open>uzlib_flash_read_cb\<close> refills the inflater's 4096-byte window from the flash and
  hands out its first byte; its state is the window and the next flash address.
\<close>

definition uzlib_flash_read_cb :: "'f spi_rom \<Rightarrow> 'f \<Rightarrow> source_read_cb" where
  "uzlib_flash_read_cb rom f addr =
     (let buff = snd (SPIRead rom f addr 4096) in (buff ! 0, drop 1 buff, addr + 4096))"

definition gzip_size :: "'f spi_rom \<Rightarrow> 'f \<Rightarrow> u32 \<Rightarrow> u32 \<Rightarrow> int" where
  "gzip_size rom f saddr sz =
     (let b = (\<lambda>k. ucast (read_flash_byte rom f (saddr + sz - k)) :: u32)
      in sint (b 4 + push_bit 8 (b 3) + push_bit 16 (b 2) + push_bit 24 (b 1)))"

text \<open>
  One turn of the copy loop fills the sector buffer, from the flash or from the
  inflater, and \<open>copy_sector\<close> verifies or writes it.  Error codes are those of
  the source.
\<close>

definition fill_buffer :: "'f spi_rom \<Rightarrow> 'z uzlib \<Rightarrow> 'z option \<Rightarrow> int \<Rightarrow> u32 \<Rightarrow> 'f \<Rightarrow> u8 list \<Rightarrow>
    int \<times> u8 list \<times> 'z option" where
  "fill_buffer rom uz gzip left saddr f buffer =
     (case gzip of
        None \<Rightarrow> (case SPIRead rom f saddr FLASH_SECTOR_SIZE of (res, bs) \<Rightarrow>
                  if res \<noteq> 0 then (3, bs, None) else (0, bs, None))
      | Some z \<Rightarrow>
         let to_read = (if int FLASH_SECTOR_SIZE < left then FLASH_SECTOR_SIZE else nat left) in
         case uzlib_uncompress uz (uzlib_flash_read_cb rom f) z to_read of (res, z1, out) \<Rightarrow>
         if res \<noteq> TINF_DONE uz \<and> res \<noteq> TINF_OK uz then (6, buffer, Some z1)
         else (0, take to_read (out @ drop (length out) buffer)
                    @ replicate (FLASH_SECTOR_SIZE - to_read) 0xff, Some z1))"

definition copy_sector :: "'f spi_rom \<Rightarrow> bool \<Rightarrow> u32 \<Rightarrow> u8 list \<Rightarrow> 'f \<Rightarrow> int \<times> boot_event list \<times> 'f" where
  "copy_sector rom verify daddr buffer f =
     (if verify
      then case SPIRead rom f daddr FLASH_SECTOR_SIZE of (res, buffer2) \<Rightarrow>
           if res \<noteq> 0 then (4, [], f) else if buffer \<noteq> buffer2 then (9, [], f) else (0, [], f)
      else let (res0, skip) = (if daddr = 0
             then case SPIRead rom f daddr FLASH_SECTOR_SIZE of (res, buffer2) \<Rightarrow>
                  if res \<noteq> 0 then (4, False) else (0, buffer2 = buffer)
             else (0 :: int, False))
           in if res0 \<noteq> 0 then (res0, [], f)
              else if skip then (0, [PutChar CHR ''B''], f)
              else case SPIEraseSector rom f (of_nat (unat daddr div FLASH_SECTOR_SIZE)) of (res1, f1) \<Rightarrow>
                if res1 \<noteq> 0 then (2, [], f1)
                else case SPIWrite rom f1 daddr buffer of (res2, f2) \<Rightarrow>
                  if res2 \<noteq> 0 then (4, [], f2) else (0, [], f2))"

function copy_loop :: "'f spi_rom \<Rightarrow> 'z uzlib \<Rightarrow> bool \<Rightarrow> 'z option \<Rightarrow> int \<Rightarrow> u32 \<Rightarrow> u32 \<Rightarrow> u8 list \<Rightarrow>
    boot_event list \<Rightarrow> 'f \<Rightarrow> int \<times> boot_event list \<times> 'f" where
  "copy_loop rom uz verify gzip left saddr daddr buffer log f =
     (if 0 < left
      then case fill_buffer rom uz gzip left saddr f buffer of (res, buffer1, gzip1) \<Rightarrow>
           if res \<noteq> 0 then (res, log, f)
           else case copy_sector rom verify daddr buffer1 f of (res1, ev, f1) \<Rightarrow>
             if res1 \<noteq> 0 then (res1, log @ ev, f1)
             else copy_loop rom uz verify gzip1 (left - int FLASH_SECTOR_SIZE)
                    (saddr + of_nat FLASH_SECTOR_SIZE) (daddr + of_nat FLASH_SECTOR_SIZE)
                    buffer1 (log @ ev) f1
      else (0, log, f))"
  by pat_completeness auto
termination
  by (relation "measure (\<lambda>(rom, uz, verify, gzip, left, saddr, daddr, buffer, log, f). nat left)")
    (auto simp: FLASH_SECTOR_SIZE_def)

declare copy_loop.simps [simp del]

definition copy_raw :: "'f spi_rom \<Rightarrow> 'z uzlib \<Rightarrow> u32 \<Rightarrow> u32 \<Rightarrow> u32 \<Rightarrow> bool \<Rightarrow> u8 list \<Rightarrow> 'f \<Rightarrow>
    int \<times> boot_event list \<times> 'f" where
  "copy_raw rom uz src_addr dst_addr sz verify buffer f =
     (if src_addr AND 0xfff \<noteq> 0 \<or> dst_addr AND 0xfff \<noteq> 0 then (1, [], f)
      else let left = sint ((sz + of_nat FLASH_SECTOR_SIZE - 1) AND NOT (of_nat FLASH_SECTOR_SIZE - 1)) in
        if read_flash_byte rom f src_addr = 0x1f \<and> read_flash_byte rom f (src_addr + 1) = 0x8b
        then let left = gzip_size rom f src_addr sz in
             case uzlib_gzip_parse_header uz (uzlib_flash_read_cb rom f) src_addr of (res, z) \<Rightarrow>
             if res \<noteq> TINF_OK uz then (5, [], f)
             else copy_loop rom uz verify (Some z) left src_addr dst_addr buffer [] f
        else copy_loop rom uz verify None left src_addr dst_addr buffer [] f)"

section \<open>The boot decision\<close>

record 'f boot_state =
  rtc :: rtc_mem
  flash :: 'f
  mem :: ram
  log :: "boot_event list"

datatype boot_outcome = Jump u32 | SoftReset | Spin

definition boot_copy :: "'f spi_rom \<Rightarrow> 'z uzlib \<Rightarrow> u8 list \<Rightarrow> eboot_command \<Rightarrow> int \<Rightarrow> 'f boot_state \<Rightarrow>
    int \<times> eboot_command \<times> 'f boot_state" where
  "boot_copy rom uz buffer cmd res s =
     (if action cmd = ACTION_COPY_RAW
      then case copy_raw rom uz (args cmd ! 0) (args cmd ! 1) (args cmd ! 2) False buffer (flash s) of
             (res1, ev, f1) \<Rightarrow>
             (res1,
              (if res1 = 0 then cmd\<lparr>action := ACTION_LOAD_APP, args := (args cmd)[0 := args cmd ! 1]\<rparr> else cmd),
              s\<lparr>flash := f1,
                log := log s @ [PutStr ''cp:'', WdtDisable] @ ev @ [WdtEnable, PutInt res1]\<rparr>)
      else (res, cmd, s))"

definition boot_load :: "'f spi_rom \<Rightarrow> eboot_command \<Rightarrow> int \<Rightarrow> 'f boot_state \<Rightarrow> boot_outcome \<times> 'f boot_state" where
  "boot_load rom cmd res s =
     (if action cmd = ACTION_LOAD_APP
      then case load_app_from_flash_raw rom (flash s) (args cmd ! 0) (mem s) of
             (JumpTo e, m) \<Rightarrow> (Jump e, s\<lparr>mem := m, log := log s @ [PutStr ''ld'']\<rparr>)
           | (LoadFailed r, m) \<Rightarrow>
               (if r \<noteq> 0 then SoftReset else Spin,
                s\<lparr>mem := m, log := log s @ [PutStr ''ld'', PutStr ''e:'', PutInt r]\<rparr>)
      else (if res \<noteq> 0 then SoftReset else Spin, s))"

definition main :: "'f spi_rom \<Rightarrow> 'z uzlib \<Rightarrow> u8 list \<Rightarrow> 'f boot_state \<Rightarrow> boot_outcome \<times> 'f boot_state" where
  "main rom uz buffer s =
     (let s1 = s\<lparr>log := log s @ snd (print_version rom (flash s) 0)\<rparr>;
          (rd, cmd0) = eboot_command_read (rtc s1);
          clear_cmd = (rd = 0);
          cmd1 = (if clear_cmd then cmd0
                  else cmd0\<lparr>action := ACTION_LOAD_APP, args := (args cmd0)[0 := 0]\<rparr>);
          s2 = s1\<lparr>log := log s1 @ [PutChar (if clear_cmd then CHR ''@'' else CHR ''~'')]\<rparr>;
          (res, cmd2, s3) = boot_copy rom uz buffer cmd1 9 s2;
          s4 = (if clear_cmd then s3\<lparr>rtc := eboot_command_clear (rtc s3)\<rparr> else s3)
      in boot_load rom cmd2 res s4)"

section \<open>The boot loader always leaves by a jump or a reset\<close>

lemma load_sections_result: "fst (load_sections rom f n pos m) \<in> {0, 2, 3}"
  by (induction rom f n pos m rule: load_sections.induct) (auto simp: Let_def split: prod.split)

lemma load_app_failed_nonzero: "load_app_from_flash_raw rom f a m \<noteq> (LoadFailed 0, m')"
  by (auto simp: load_app_from_flash_raw_def Let_def split: prod.split)

lemma boot_copy_result:
  "boot_copy rom uz buffer cmd 9 s = (res, cmd', s') \<Longrightarrow> res \<noteq> 0 \<or> action cmd' = ACTION_LOAD_APP"
  by (auto simp: boot_copy_def split: prod.splits if_splits)

lemma boot_copy_rtc: "boot_copy rom uz buffer cmd res s = (res', cmd', s') \<Longrightarrow> rtc s' = rtc s"
  by (auto simp: boot_copy_def split: prod.splits if_splits)

lemma boot_load_outcome:
  "res \<noteq> 0 \<or> action cmd = ACTION_LOAD_APP \<Longrightarrow> fst (boot_load rom cmd res s) \<noteq> Spin"
  by (auto simp: boot_load_def load_app_failed_nonzero split: prod.split load_result.split)

lemma boot_load_frame [simp]:
  "rtc (snd (boot_load rom cmd res s)) = rtc s" "flash (snd (boot_load rom cmd res s)) = flash s"
  by (auto simp: boot_load_def split: prod.split load_result.split)

text \<open>
  C3: \<open>main\<close> always leaves the boot loader, by a jump into the application or by a
  software reset; the endless loop after the reset is never reached otherwise.
\<close>

theorem main_never_spins: "fst (main rom uz buffer s) \<noteq> Spin"
  by (auto simp: main_def Let_def dest!: boot_copy_result intro!: boot_load_outcome
      split: prod.split)

section \<open>A command is executed at most once\<close>

lemma main_rtc:
  "rtc (snd (main rom uz buffer s)) =
     (if fst (eboot_command_read (rtc s)) = 0 then eboot_command_clear (rtc s) else rtc s)"
  by (auto simp: main_def Let_def dest!: boot_copy_rtc split: prod.split)

lemma main_no_command:
  "fst (eboot_command_read (rtc s)) \<noteq> 0 \<Longrightarrow> flash (snd (main rom uz buffer s)) = flash s"
  by (auto simp: main_def Let_def boot_copy_def ACTION_COPY_RAW_def ACTION_LOAD_APP_def split: prod.split)

text \<open>
  C4: whatever command \<open>main\<close> found and however it ended, the next run of \<open>main\<close>
  on the RTC memory it left finds no command and does not change the flash: an
  update is never started twice.
\<close>

theorem main_command_once:
  assumes "rtc s2 = rtc (snd (main rom uz buffer s))"
  shows "fst (eboot_command_read (rtc s2)) = 1 \<and> flash (snd (main rom' uz' buffer' s2)) = flash s2"
proof -
  have "fst (eboot_command_read (rtc s2)) = 1"
    using assms by (simp add: main_rtc read_after_clear) (simp add: eboot_command_read_eq Let_def)
  then show ?thesis by (simp add: main_no_command)
qed

text \<open>An inflater that accepts nothing, for the concrete instances below.\<close>

definition no_uzlib :: "unit uzlib" where
  "no_uzlib = \<lparr>TINF_OK = 0, TINF_DONE = 1,
     uzlib_gzip_parse_header = (\<lambda>cb a. (-1, ())), uzlib_uncompress = (\<lambda>cb z n. (-1, (), []))\<rparr>"

definition boot_witness :: "(nat \<Rightarrow> u8) boot_state" where
  "boot_witness =
     \<lparr>rtc = eboot_command_write \<lparr>magic = 0, action = ACTION_COPY_RAW,
        args = [0x2000, 0x1000, 0x1000] @ replicate 26 0, crc32 = 0\<rparr> (\<lambda>_. 0),
      flash = (\<lambda>_. 7), mem = (\<lambda>_. 0), log = []\<rparr>"

theorem main_command_once_witness:
  "let s2 = snd (main sim_rom no_uzlib [] boot_witness) in
   fst (eboot_command_read (rtc s2)) = 1 \<and> flash (snd (main sim_rom no_uzlib [] s2)) = flash s2"
  using main_command_once [OF refl, of sim_rom no_uzlib "[]" boot_witness sim_rom no_uzlib "[]"]
  by (simp add: Let_def)

section \<open>What a copy writes\<close>

text \<open>
  \<open>n\<close> bytes of \<open>c\<close> from \<open>src\<close> are found at \<open>dst\<close> in \<open>c'\<close>, and nothing else differs.
\<close>

definition copied :: "(nat \<Rightarrow> u8) \<Rightarrow> (nat \<Rightarrow> u8) \<Rightarrow> nat \<Rightarrow> nat \<Rightarrow> nat \<Rightarrow> bool" where
  "copied c c' src dst n \<longleftrightarrow> (\<forall>i. c' i = (if dst \<le> i \<and> i < dst + n then c (src + (i - dst)) else c i))"

lemma copied_0 [simp]: "copied c c src dst 0"
  by (auto simp: copied_def)

lemma copied_append:
  "copied a b src dst n \<Longrightarrow> copied b c (src + n) (dst + n) k \<Longrightarrow> dst \<le> src \<or> src + n + k \<le> dst \<Longrightarrow>
   copied a c src dst (n + k)"
  by (auto simp: copied_def)

lemma and_0xfff: "(a :: u32) AND 0xfff = 0 \<longleftrightarrow> unat a mod FLASH_SECTOR_SIZE = 0"
proof -
  have 1: "a AND 0xfff = take_bit 12 a" by (simp add: take_bit_eq_mask mask_eq_exp_minus_1)
  have "unat (take_bit 12 a) = unat a mod FLASH_SECTOR_SIZE"
    by (simp add: FLASH_SECTOR_SIZE_def take_bit_eq_mod unat_mod_distrib)
  then show ?thesis unfolding 1 by (metis unat_eq_0)
qed

lemma sector_of_aligned:
  assumes "x mod FLASH_SECTOR_SIZE = 0"
  shows "i div FLASH_SECTOR_SIZE = x div FLASH_SECTOR_SIZE \<longleftrightarrow> x \<le> i \<and> i < x + FLASH_SECTOR_SIZE"
proof -
  obtain q where "x = FLASH_SECTOR_SIZE * q" using assms by (auto simp: mod_eq_0_iff_dvd)
  then show ?thesis
    using div_nat_eqI [of FLASH_SECTOR_SIZE q i] times_div_less_eq_dividend [of FLASH_SECTOR_SIZE i]
      dividend_less_times_div [of FLASH_SECTOR_SIZE i] by (auto simp: FLASH_SECTOR_SIZE_def)
qed

lemma copy_sector_writes:
  assumes rom: "nor_flash rom content" and ok: "copy_sector rom False daddr buffer f = (0, ev, f')"
    and len: "length buffer = FLASH_SECTOR_SIZE" and al: "unat daddr mod FLASH_SECTOR_SIZE = 0"
  shows "content f' i = (if unat daddr \<le> i \<and> i < unat daddr + FLASH_SECTOR_SIZE
    then buffer ! (i - unat daddr) else content f i)"
proof -
  let ?erase = "SPIEraseSector rom f (of_nat (unat daddr div FLASH_SECTOR_SIZE))"
  from ok consider (skip) "daddr = 0" "SPIRead rom f daddr FLASH_SECTOR_SIZE = (0, buffer)" "f' = f"
    | (wr) f1 where "?erase = (0, f1)" "SPIWrite rom f1 daddr buffer = (0, f')"
    by (auto simp: copy_sector_def Let_def split: prod.splits if_splits)
  then show ?thesis
  proof cases
    case skip
    then show ?thesis using nor_flash_read [OF rom skip(2)] by auto
  next
    case wr
    have "unat daddr div FLASH_SECTOR_SIZE < 2 ^ 32"
      using unat_bound [of daddr] by (simp add: less_mult_imp_div_less FLASH_SECTOR_SIZE_def)
    then have "content f1 i = (if i div FLASH_SECTOR_SIZE = unat daddr div FLASH_SECTOR_SIZE then 0xff else content f i)"
      using nor_flash_erase_sector [OF rom wr(1)] by (simp add: unat_of_nat_u32)
    then have "content f1 i = (if unat daddr \<le> i \<and> i < unat daddr + FLASH_SECTOR_SIZE then 0xff else content f i)"
      using sector_of_aligned [OF al, of i] by simp
    then show ?thesis using nor_flash_write [OF rom wr(2), of i] len by simp
  qed
qed

lemma copy_loop_unfold:
  assumes "copy_loop rom uz verify gzip left saddr daddr buffer ev0 f = (0, lg, f')" and "0 < left"
  obtains buffer1 gzip1 ev f1 where
    "fill_buffer rom uz gzip left saddr f buffer = (0, buffer1, gzip1)"
    "copy_sector rom verify daddr buffer1 f = (0, ev, f1)"
    "copy_loop rom uz verify gzip1 (left - int FLASH_SECTOR_SIZE) (saddr + of_nat FLASH_SECTOR_SIZE)
       (daddr + of_nat FLASH_SECTOR_SIZE) buffer1 (ev0 @ ev) f1 = (0, lg, f')"
  using assms by (subst (asm) copy_loop.simps) (auto split: prod.splits if_splits)

lemma fill_buffer_raw:
  assumes "nor_flash rom content" and "fill_buffer rom uz None left saddr f buffer = (0, buffer1, gzip1)"
  shows "buffer1 = map (content f) [unat saddr ..< unat saddr + FLASH_SECTOR_SIZE] \<and> gzip1 = None"
  using assms by (auto simp: fill_buffer_def dest: nor_flash_read split: prod.splits if_splits)

lemma unat_next_sector:
  "unat (a :: u32) + FLASH_SECTOR_SIZE < 2 ^ 32 \<Longrightarrow>
   unat (a + of_nat FLASH_SECTOR_SIZE) = unat a + FLASH_SECTOR_SIZE"
  by (simp add: unat_word_ariths FLASH_SECTOR_SIZE_def)

lemma copy_loop_copies:
  assumes rom: "nor_flash rom content"
  shows "copy_loop rom uz False None (int (k * FLASH_SECTOR_SIZE)) saddr daddr buffer ev0 f = (0, lg, f') \<Longrightarrow>
    unat daddr mod FLASH_SECTOR_SIZE = 0 \<Longrightarrow>
    unat saddr + k * FLASH_SECTOR_SIZE < 2 ^ 32 \<Longrightarrow> unat daddr + k * FLASH_SECTOR_SIZE < 2 ^ 32 \<Longrightarrow>
    unat daddr \<le> unat saddr \<or> unat saddr + k * FLASH_SECTOR_SIZE \<le> unat daddr \<Longrightarrow>
    copied (content f) (content f') (unat saddr) (unat daddr) (k * FLASH_SECTOR_SIZE)"
proof (induction k arbitrary: saddr daddr buffer ev0 f)
  case 0
  then show ?case by (simp add: copy_loop.simps)
next
  case (Suc k)
  have pos: "0 < int (Suc k * FLASH_SECTOR_SIZE)" by (simp add: FLASH_SECTOR_SIZE_def)
  obtain buffer1 gzip1 ev f1 where
    fill: "fill_buffer rom uz None (int (Suc k * FLASH_SECTOR_SIZE)) saddr f buffer = (0, buffer1, gzip1)" and
    sec: "copy_sector rom False daddr buffer1 f = (0, ev, f1)" and
    rest: "copy_loop rom uz False gzip1 (int (Suc k * FLASH_SECTOR_SIZE) - int FLASH_SECTOR_SIZE)
       (saddr + of_nat FLASH_SECTOR_SIZE) (daddr + of_nat FLASH_SECTOR_SIZE) buffer1 (ev0 @ ev) f1 = (0, lg, f')"
    by (rule copy_loop_unfold [OF Suc.prems(1) pos])
  note b = fill_buffer_raw [OF rom fill]
  have nxt: "unat (saddr + of_nat FLASH_SECTOR_SIZE) = unat saddr + FLASH_SECTOR_SIZE"
    "unat (daddr + of_nat FLASH_SECTOR_SIZE) = unat daddr + FLASH_SECTOR_SIZE"
    using Suc.prems(3,4) by (auto intro!: unat_next_sector)
  have "copied (content f) (content f1) (unat saddr) (unat daddr) FLASH_SECTOR_SIZE"
    using copy_sector_writes [OF rom sec _ Suc.prems(2)] b by (auto simp: copied_def)
  moreover have "copied (content f1) (content f') (unat saddr + FLASH_SECTOR_SIZE) (unat daddr + FLASH_SECTOR_SIZE)
      (k * FLASH_SECTOR_SIZE)"
    using Suc.IH [of "saddr + of_nat FLASH_SECTOR_SIZE" "daddr + of_nat FLASH_SECTOR_SIZE" buffer1 "ev0 @ ev" f1]
      rest b Suc.prems(2-5) nxt by auto
  ultimately show ?case using Suc.prems(5) copied_append by fastforce
qed

lemma copy_length:
  assumes "unat sz \<le> 0x7ffff000"
  shows "sint ((sz + of_nat FLASH_SECTOR_SIZE - 1) AND NOT (of_nat FLASH_SECTOR_SIZE - 1) :: u32) =
    int (area_count sz * FLASH_SECTOR_SIZE)"
proof -
  let ?x = "sz + of_nat FLASH_SECTOR_SIZE - 1 :: u32" and ?y = "(sz + 0xfff) AND NOT (mask 12) :: u32"
  have x: "?x = sz + 0xfff" and m: "of_nat FLASH_SECTOR_SIZE - 1 = (mask 12 :: u32)"
    by (simp_all add: FLASH_SECTOR_SIZE_def mask_eq_exp_minus_1)
  have ux: "unat (sz + 0xfff) = unat sz + 0xfff" using assms by (simp add: unat_word_ariths)
  have uy: "unat ?y = area_count sz * FLASH_SECTOR_SIZE"
    unfolding unat_and_not_mask area_count_def x ux
    by (simp add: FLASH_SECTOR_SIZE_def minus_mod_eq_mult_div mult.commute)
  also have "\<dots> < 2 ^ 31" unfolding area_count_def x ux
    using assms by (intro le_less_trans [OF div_times_less_eq_dividend]) simp
  finally have "sint ?y = int (unat ?y)"
    by (rule sint_small)
  then show ?thesis unfolding x m uy .
qed

lemma copy_raw_copied:
  assumes rom: "nor_flash rom content"
    and ok: "copy_raw rom uz src dst sz False buffer f = (0, ev, f')"
    and raw: "read_flash_byte rom f src \<noteq> 0x1f"
    and sz: "unat sz \<le> 0x7ffff000"
    and fits: "unat src + area_count sz * FLASH_SECTOR_SIZE < 2 ^ 32"
      "unat dst + area_count sz * FLASH_SECTOR_SIZE < 2 ^ 32"
    and clear: "unat dst \<le> unat src \<or> unat src + area_count sz * FLASH_SECTOR_SIZE \<le> unat dst"
  shows "copied (content f) (content f') (unat src) (unat dst) (area_count sz * FLASH_SECTOR_SIZE)"
proof -
  have "unat dst mod FLASH_SECTOR_SIZE = 0"
    using ok by (auto simp: copy_raw_def and_0xfff split: if_splits)
  moreover have "copy_loop rom uz False None (int (area_count sz * FLASH_SECTOR_SIZE)) src dst buffer [] f = (0, ev, f')"
    using ok raw copy_length [OF sz] by (auto simp: copy_raw_def Let_def split: if_splits)
  ultimately show ?thesis using fits clear by (intro copy_loop_copies [OF rom])
qed

text \<open>
  a raw (not gzip-compressed) copy that reports success has put the source
  sectors at the destination, byte for byte, and changed no other byte of the
  flash.  The destination may overlap the source when it lies below it.
\<close>

lemma copy_raw_copies:
  assumes rom: "nor_flash rom content"
    and ok: "copy_raw rom uz src dst sz False buffer f = (0, ev, f')"
    and raw: "read_flash_byte rom f src \<noteq> 0x1f"
    and sz: "unat sz \<le> 0x7ffff000"
    and fits: "unat src + area_count sz * FLASH_SECTOR_SIZE < 2 ^ 32"
      "unat dst + area_count sz * FLASH_SECTOR_SIZE < 2 ^ 32"
    and clear: "unat dst \<le> unat src \<or> unat src + area_count sz * FLASH_SECTOR_SIZE \<le> unat dst"
  shows "copied (content f) (content f') (unat src) (unat dst) (area_count sz * FLASH_SECTOR_SIZE)"
  by (rule copy_raw_copied [OF assms])

lemma copy_raw_sim:
  "fst (copy_raw sim_rom no_uzlib 0x2000 0x1000 4096 False [] (\<lambda>_. 7)) = 0"
  by (simp add: copy_raw_def read_flash_byte_def copy_loop.simps fill_buffer_def copy_sector_def sim_rom_def
      FLASH_SECTOR_SIZE_def Let_def del: upt_Suc upt_rec_numeral)

lemma copy_raw_copies_witness:
  "\<exists>ev f'. copy_raw sim_rom no_uzlib 0x2000 0x1000 4096 False [] (\<lambda>_. 7) = (0, ev, f') \<and>
    copied (\<lambda>_. 7) f' 0x2000 0x1000 0x1000"
proof -
  obtain ev f' where ok: "copy_raw sim_rom no_uzlib 0x2000 0x1000 4096 False [] (\<lambda>_. 7) = (0, ev, f')"
    using copy_raw_sim by (metis prod.collapse)
  have "copied (\<lambda>_. 7) f' (unat (0x2000 :: u32)) (unat (0x1000 :: u32)) (area_count 4096 * FLASH_SECTOR_SIZE)"
    by (rule copy_raw_copies [OF nor_flash_sim ok])
      (simp_all add: read_flash_byte_def sim_rom_def area_count_def FLASH_SECTOR_SIZE_def)
  then show ?thesis using ok by (auto simp: area_count_def FLASH_SECTOR_SIZE_def)
qed

section \<open>Verifying a copy\<close>

lemma copy_loop_verify:
  "verify \<Longrightarrow> snd (snd (copy_loop rom uz verify gzip left saddr daddr buffer ev0 f)) = f"
  by (induction rom uz verify gzip left saddr daddr buffer ev0 f rule: copy_loop.induct, subst copy_loop.simps)
    (auto simp: copy_sector_def split: prod.split)

lemma copy_sector_verify:
  "nor_flash rom content \<Longrightarrow> copy_sector rom True daddr buffer f = (0, ev, f') \<Longrightarrow>
   buffer = map (content f) [unat daddr ..< unat daddr + FLASH_SECTOR_SIZE] \<and> f' = f"
  by (auto simp: copy_sector_def dest: nor_flash_read split: prod.splits if_splits)

lemma copy_loop_verifies:
  assumes rom: "nor_flash rom content"
  shows "copy_loop rom uz True None (int (k * FLASH_SECTOR_SIZE)) saddr daddr buffer ev0 f = (0, lg, f') \<Longrightarrow>
    unat saddr + k * FLASH_SECTOR_SIZE < 2 ^ 32 \<Longrightarrow> unat daddr + k * FLASH_SECTOR_SIZE < 2 ^ 32 \<Longrightarrow>
    j < k * FLASH_SECTOR_SIZE \<Longrightarrow> content f (unat daddr + j) = content f (unat saddr + j)"
proof (induction k arbitrary: saddr daddr buffer ev0 j)
  case 0
  then show ?case by simp
next
  case (Suc k)
  have pos: "0 < int (Suc k * FLASH_SECTOR_SIZE)" by (simp add: FLASH_SECTOR_SIZE_def)
  obtain buffer1 gzip1 ev f1 where
    fill: "fill_buffer rom uz None (int (Suc k * FLASH_SECTOR_SIZE)) saddr f buffer = (0, buffer1, gzip1)" and
    sec: "copy_sector rom True daddr buffer1 f = (0, ev, f1)" and
    rest: "copy_loop rom uz True gzip1 (int (Suc k * FLASH_SECTOR_SIZE) - int FLASH_SECTOR_SIZE)
       (saddr + of_nat FLASH_SECTOR_SIZE) (daddr + of_nat FLASH_SECTOR_SIZE) buffer1 (ev0 @ ev) f1 = (0, lg, f')"
    by (rule copy_loop_unfold [OF Suc.prems(1) pos])
  note b = fill_buffer_raw [OF rom fill] and v = copy_sector_verify [OF rom sec]
  have nxt: "unat (saddr + of_nat FLASH_SECTOR_SIZE) = unat saddr + FLASH_SECTOR_SIZE"
    "unat (daddr + of_nat FLASH_SECTOR_SIZE) = unat daddr + FLASH_SECTOR_SIZE"
    using Suc.prems(2,3) by (auto intro!: unat_next_sector)
  show ?case
  proof (cases "j < FLASH_SECTOR_SIZE")
    case True
    have "map (content f) [unat saddr ..< unat saddr + FLASH_SECTOR_SIZE] ! j =
        map (content f) [unat daddr ..< unat daddr + FLASH_SECTOR_SIZE] ! j"
      using b v by simp
    with True show ?thesis by simp
  next
    case False
    have "content f (unat (daddr + of_nat FLASH_SECTOR_SIZE) + (j - FLASH_SECTOR_SIZE)) =
        content f (unat (saddr + of_nat FLASH_SECTOR_SIZE) + (j - FLASH_SECTOR_SIZE))"
      using rest b v nxt Suc.prems(2-4) False by (intro Suc.IH) auto
    with False show ?thesis by (simp add: nxt)
  qed
qed

text \<open>
  in verify mode \<open>copy_raw\<close> never changes the flash, whatever its result; and
  when it accepts a raw image, the two areas hold the same bytes.
\<close>

lemma copy_raw_verifies:
  assumes rom: "nor_flash rom content"
    and ret: "copy_raw rom uz src dst sz True buffer f = (res, ev, f')"
    and raw: "read_flash_byte rom f src \<noteq> 0x1f"
    and sz: "unat sz \<le> 0x7ffff000"
    and fits: "unat src + area_count sz * FLASH_SECTOR_SIZE < 2 ^ 32"
      "unat dst + area_count sz * FLASH_SECTOR_SIZE < 2 ^ 32"
  shows "f' = f \<and> (res = 0 \<longrightarrow> (\<forall>j < area_count sz * FLASH_SECTOR_SIZE.
    content f (unat dst + j) = content f (unat src + j)))"
proof -
  have "f' = f"
    using ret copy_loop_verify [of True rom uz _ _ src dst buffer "[]" f]
    by (auto simp: copy_raw_def Let_def split: if_splits prod.splits) (metis snd_conv)+
  moreover have "copy_loop rom uz True None (int (area_count sz * FLASH_SECTOR_SIZE)) src dst buffer [] f = (0, ev, f')"
    if "res = 0"
    using that ret raw copy_length [OF sz] by (auto simp: copy_raw_def Let_def split: if_splits)
  ultimately show ?thesis using copy_loop_verifies [OF rom _ fits] by blast
qed

lemma copy_raw_verifies_witness:
  "\<exists>res ev f'. copy_raw sim_rom no_uzlib 0x2000 0x1000 4096 True [] (\<lambda>_. 7) = (res, ev, f') \<and> f' = (\<lambda>_. 7)"
proof -
  obtain res ev f' where ret: "copy_raw sim_rom no_uzlib 0x2000 0x1000 4096 True [] (\<lambda>_. 7) = (res, ev, f')"
    by (metis prod.collapse)
  have "f' = (\<lambda>_. 7)"
    by (rule copy_raw_verifies [OF nor_flash_sim ret, THEN conjunct1])
      (simp_all add: read_flash_byte_def sim_rom_def area_count_def FLASH_SECTOR_SIZE_def)
  then show ?thesis using ret by blast
qed

section \<open>What the application image puts into memory\<close>

text \<open>
  The sections of an image, read from the contents of the flash: the reference
  against which the loader is checked.
\<close>

fun image_sections :: "(nat \<Rightarrow> u8) \<Rightarrow> nat \<Rightarrow> u32 \<Rightarrow> (u32 \<times> u8 list) list" where
  "image_sections c 0 pos = []"
| "image_sections c (Suc n) pos =
     (let hd = map c [unat pos ..< unat pos + 8];
          a = word_of (hd ! 0) (hd ! 1) (hd ! 2) (hd ! 3);
          len = word_of (hd ! 4) (hd ! 5) (hd ! 6) (hd ! 7)
      in (a, map c [unat (pos + 8) ..< unat (pos + 8) + unat len]) # image_sections c n (pos + 8 + len))"

definition load_all :: "ram \<Rightarrow> (u32 \<times> u8 list) list \<Rightarrow> ram" where
  "load_all m secs = foldl (\<lambda>m (a, bs). ram_store m a bs) m (filter (\<lambda>(a, bs). section_loads a) secs)"

lemma load_sections_spec:
  "nor_flash rom content \<Longrightarrow> load_sections rom f n pos m = (0, m') \<Longrightarrow>
   m' = load_all m (image_sections (content f) n pos)"
proof (induction rom f n pos m rule: load_sections.induct)
  case (1 rom f pos m)
  then show ?case by (simp add: load_all_def)
next
  case (2 rom f n pos m)
  obtain bs where h: "SPIRead rom f pos 8 = (0, bs)"
    using "2.prems"(2) by (auto split: prod.splits if_splits)
  note bs = nor_flash_read [OF "2.prems"(1) h]
  show ?case
  proof (cases "section_loads (address (section_header_of bs))")
    case False
    then show ?thesis using "2.prems" "2.IH"(1) [OF h [symmetric] _ refl refl] h bs
      by (simp add: Let_def load_all_def section_header_of_def)
  next
    case True
    then obtain data where d: "SPIRead rom f (pos + 8) (unat (section_size (section_header_of bs))) = (0, data)"
      using "2.prems"(2) h by (auto simp: Let_def split: prod.splits if_splits)
    note data = nor_flash_read [OF "2.prems"(1) d]
    show ?thesis using True "2.prems" "2.IH"(2) [OF h [symmetric] _ refl refl _ d [symmetric] refl] h d bs data
      by (simp add: Let_def load_all_def section_header_of_def)
  qed
qed

text \<open>
  C5: when the loader jumps, the entry point is the one in the image header,
  and the memory holds exactly the loadable sections of the image, in order,
  on top of what it held before.
\<close>

theorem load_app_loads:
  assumes rom: "nor_flash rom content" and ok: "load_app_from_flash_raw rom f addr m = (JumpTo e, m')"
  shows "let pos = addr + APP_START_OFFSET; hd = map (content f) [unat pos ..< unat pos + 8] in
    e = word_of (hd ! 4) (hd ! 5) (hd ! 6) (hd ! 7) \<and>
    m' = load_all m (image_sections (content f) (unat (hd ! 1)) (pos + 8))"
proof -
  let ?pos = "addr + APP_START_OFFSET"
  obtain bs where h: "SPIRead rom f ?pos 8 = (0, bs)"
    and s: "load_sections rom f (unat (num_segments (image_header_of bs))) (?pos + 8) m = (0, m')"
    and e: "e = entry (image_header_of bs)"
    using ok by (auto simp: load_app_from_flash_raw_def Let_def split: prod.splits if_splits)
  show ?thesis
    using nor_flash_read [OF rom h] load_sections_spec [OF rom s] e
    by (simp add: Let_def image_header_of_def)
qed

theorem load_app_loads_witness:
  "\<exists>m'. load_app_from_flash_raw sim_rom ((\<lambda>_. 0)(0x1001 := 1, 0x100c := 1)) 0 (\<lambda>_. 7) = (JumpTo 0, m') \<and>
    m' = ram_store (\<lambda>_. 7) 0 [0]"
proof -
  let ?f = "(\<lambda>_. 0)(0x1001 := 1, 0x100c := 1) :: nat \<Rightarrow> u8"
  have w: "word_of 0 0 0 0 = 0" "word_of 1 0 0 0 = 1" by (simp_all add: word_of_def)
  have u: "[0x1000 ..< 0x1008] = [0x1000, 0x1001, 0x1002, 0x1003, 0x1004, 0x1005, 0x1006, 0x1007 :: nat]"
    "[0x1008 ..< 0x1010] = [0x1008, 0x1009, 0x100a, 0x100b, 0x100c, 0x100d, 0x100e, 0x100f :: nat]"
    by (simp_all add: upt_rec)
  obtain m' where ok: "load_app_from_flash_raw sim_rom ?f 0 (\<lambda>_. 7) = (JumpTo 0, m')"
    by (simp add: load_app_from_flash_raw_def sim_rom_def image_header_of_def Let_def u w
        APP_START_OFFSET_def section_header_of_def section_loads_def del: upt_Suc upt_rec_numeral)
  then show ?thesis using load_app_loads [OF nor_flash_sim ok]
    by (simp add: Let_def load_all_def APP_START_OFFSET_def u w section_loads_def)
qed

end
