(* ===== verification/Update_Boot.thy ===== *)
theory Update_Boot
  imports Updater Eboot
begin

text \<open>
  The updater and the boot loader together: the command the application leaves in RTC memory and the image in flash are
  what the boot loader finds after the reset.  Both see the same flash chip, through different routines.
\<close>

lemma boot_load_flash: "flash (snd (boot_load rom cmd res s)) = flash s"
  by (auto simp: boot_load_def split: load_result.splits prod.splits)

lemma main_copies:
  assumes "eboot_fetch (rtc s) = Some cmd" and "action cmd = ACTION_COPY_RAW"
  shows "flash (snd (main rom uz buffer s)) = snd (snd (copy_raw rom uz (args cmd ! 0) (args cmd ! 1) (args cmd ! 2) False buffer (flash s)))"
proof -
  have r: "eboot_command_read (rtc s) = (0, cmd)" using assms(1) by (auto simp: eboot_fetch_def split: prod.splits if_splits)
  show ?thesis
    by (simp add: main_def Let_def r boot_copy_def assms(2) boot_load_flash split: prod.splits)
qed

lemma area_count_round: "n \<le> 2 ^ 30 \<Longrightarrow> area_count (of_nat n) * FLASH_SECTOR_SIZE = round_sector n"
proof -
  assume n: "n \<le> 2 ^ 30"
  have "of_nat n + of_nat FLASH_SECTOR_SIZE - 1 = (of_nat (n + FLASH_SECTOR_SIZE - 1) :: u32)" by (simp add: FLASH_SECTOR_SIZE_def)
  moreover have "n + FLASH_SECTOR_SIZE - 1 < 2 ^ 32" using n by (simp add: FLASH_SECTOR_SIZE_def)
  ultimately show ?thesis using unat_of_nat_u32 by (simp only: area_count_def round_sector_def mod_less)
qed



text \<open>A complete update of four bytes on the flash in memory.\<close>

lemma ram_write: "length d = 4 \<Longrightarrow> a mod 256 = 0 \<Longrightarrow> a mod 4 = 0 \<Longrightarrow> fst (flashWrite ram_sdk a True d f)"
proof -
  assume d: "length d = 4" and a: "a mod 256 = 0" "a mod 4 = 0"
  have "\<not> puya ram_sdk" by (simp add: puya_def getFlashChipVendorId_def SPI_FLASH_VENDOR_PUYA_def ram_sdk_def)
  moreover have "d \<noteq> []" using d by auto
  ultimately show ?thesis using d a
    by (simp add: flashWrite_def flashWrite_words_def spi_flash_write_page_break_def FLASH_PAGE_SIZE_def) (simp add: ram_sdk_def)
qed

lemma sample_update:
  "\<exists>u1 u2 u3. upd_begin (sample_env ram_sdk) 4 U_FLASH (idle_updater (\<lambda>_. 0) 3000) = (True, u1) \<and>
    upd_writes (sample_env ram_sdk) [[0xE9, 1, 0, 0]] u1 = Some u2 \<and> upd_end (sample_env ram_sdk) False u2 = (True, u3) \<and> dev u3 0xff000 = 0xE9"
proof -
  let ?f = "\<lambda>_. 0 :: u8" and ?e = "sample_env ram_sdk"
  define J where "J = map (\<lambda>_. 0 :: u8) [0..<4096]"
  have lJ: "length J = 4096" by (simp add: J_def)
  define D where "D = [0xE9, 1, 0, 0 :: u8]"
  have lD: "length D = 4" by (simp add: D_def)
  define u1 where "u1 = (idle_updater ?f 3000)\<lparr>startAddress := 0xff000, currentAddress := 0xff000, u_size := 4, bufferSize := 4096,
    u_buffer := J, u_log := [Ended, Started]\<rparr>"
  have b: "upd_begin ?e 4 U_FLASH (idle_updater ?f 3000) = (True, u1)" unfolding u1_def
    by (simp add: upd_begin_def sample_env_def idle_updater_def Let_def checkFlashConfig_def getFlashChipRealSize_def ram_sdk_def
      getFlashChipSize_def magicFlashChipSize_def upd_place_def U_FLASH_def FS_PHYS_ADDR_def round_sector_def FLASH_SECTOR_SIZE_def
      getSketchSize_def upd_reset_def UPDATE_ERROR_OK_def J_def [symmetric] upt_rec [of 0 4] del: upt_rec_numeral)
  have nor: "sdk_nor (sdk ?e) (\<lambda>f. f)" by (simp add: sample_env_def ram_sdk_nor)
  have sk: "FLASH_SECTOR_SIZE \<le> sketch_end ?e (idle_updater ?f 3000)"
    by (simp add: sketch_end_def getSketchSize_def idle_updater_def round_sector_def FLASH_SECTOR_SIZE_def)
  have r1: "receiving (\<lambda>f. f) ?f [] u1"
    using upd_begin_receiving(1) [OF sample_layout _ b sk, of "\<lambda>f. f"] by (simp add: idle_updater_def)
  let ?u2 = "buffer_put D u1"
  have r2: "receiving (\<lambda>f. f) ?f D ?u2" using buffer_put_receiving [OF r1, of D] by (simp add: u1_def lD idle_updater_def)
  obtain ok u3 where w: "writeBuffer ?e ?u2 = (ok, u3)" by force
  have ok: ok using w
  proof (cases rule: writeBuffer_cases)
    case (erase f1)
    then show ?thesis by (simp add: flashEraseSector_def sample_env_def ram_sdk_def)
  next
    case (store f1 f2 bb b')
    have "length bb = 4096" using store(2) by (auto simp: adapt_mode_def Let_def buffer_put_def u1_def idle_updater_def lJ lD split: if_splits)
    then have "fst (flashWrite ram_sdk 0xff000 True (take 4 bb) f1)" by (intro ram_write) simp_all
    then show ?thesis using store(3) by (simp add: u1_def lD sample_env_def idle_updater_def)
  qed
  with w have w: "writeBuffer ?e ?u2 = (True, u3)" by simp
  have full: "currentAddress ?u2 + bufferLen ?u2 = startAddress ?u2 + u_size ?u2" by (simp add: u1_def lD idle_updater_def)
  note r3 = writeBuffer_receiving [OF nor r2 w disjI2 [OF full]]
  have s3: "startAddress u3 = 0xff000" "u_size u3 = 4" "command u3 = U_FLASH" "u_error u3 = 0"
    using writeBuffer_same [OF w] by (simp_all add: same_update_def u1_def idle_updater_def U_FLASH_def)
  have m3: "target_md5 u3 = []" using w by (cases rule: writeBuffer_cases) (simp_all add: u1_def idle_updater_def)
  have c3: "currentAddress u3 = 0xff004" using r3(3) by (simp add: u1_def lD idle_updater_def)
  obtain mo where mo: "mode_ok (command u3) ?f D mo" "image_at (dev u3) 0xff000 0xff004 (staged mo D)" using r3(1) s3 c3 by (auto simp: receiving_def)
  have d3: "dev u3 0xff000 = 0xE9" "dev u3 0xff003 = 0"
    using mo(2) by (auto simp: image_at_def staged_def D_def split: option.splits)
  have p1: "placed_update u1" "placed_update ?u2" using r1 r2 by (simp_all add: receiving_def)
  have bl: "write_loop ?e D u1 = Some (True, D, u1)" by (subst write_loop.simps) (simp add: lD u1_def idle_updater_def)
  have rem: "bufferLen ?u2 = remaining ?u2" unfolding remaining_eq [OF p1(2)] by (simp add: u1_def lD idle_updater_def)
  have "upd_write ?e D u1 = Some (4, u3)"
    using rem w bl lD unfolding upd_write_def progress_eq [OF p1(1)]
    by (simp add: hasError_def isRunning_def Let_def) (simp add: u1_def idle_updater_def UPDATE_ERROR_OK_def)
  then have "upd_writes ?e [D] u1 = Some u3" by simp
  moreover have "\<exists>u4. upd_end ?e False u3 = (True, u4) \<and> dev u4 = dev u3"
  proof -
    have "verifyEnd ?e u3 = (True, u3)"
      by (simp add: verifyEnd_def s3 Let_def flashRead_words_def sample_env_def ram_sdk_def upt_rec [of "0xff000"] d3
        getFlashChipRealSize_def magicFlashChipSize_def)
    moreover have "check_image ?e u3 = Inr u3" by (simp add: check_image_def sample_env_def m3)
    moreover have "progress u3 = 4" "isFinished u3" "\<not> hasError u3"
      by (simp_all add: progress_def isFinished_def hasError_def s3 c3 UPDATE_ERROR_OK_def)
    ultimately show ?thesis by (simp add: upd_end_def s3 Let_def)
  qed
  ultimately obtain u4 where "upd_end ?e False u3 = (True, u4)" "dev u4 = dev u3" "upd_writes ?e [D] u1 = Some u3" by blast
  then show ?thesis using b d3(1) unfolding D_def by (intro exI [of _ u1] exI [of _ u3] exI [of _ u4]) simp
qed


lemma sim_copy: "f 0xff000 \<noteq> 0x1f \<Longrightarrow> fst (copy_raw sim_rom no_uzlib 0xff000 0 4 False [] f) = 0"
  by (simp add: copy_raw_def read_flash_byte_def copy_loop.simps fill_buffer_def copy_sector_def sim_rom_def
      FLASH_SECTOR_SIZE_def Let_def del: upt_Suc upt_rec_numeral)


end
