(* ===== verification/Dhcp_Message.thy ===== *)
theory Dhcp_Message
  imports Prelude
begin

text \<open>
  The messages of the DHCP server \<open>cores/esp8266/LwipDhcpServer.cpp\<close>: the layout of a message, the buffer its options are
  appended to (\<open>LwipDhcpServer.h\<close>), and the reader of the options of a request.  A message is the
  548 bytes of \<open>struct dhcps_msg\<close>; its options are the last 312, a cookie and 308 bytes of options.
  Addresses are 32-bit words that hold the four bytes in the order of the network.
\<close>

section \<open>Constants\<close>

definition DHCPDISCOVER :: u16 where "DHCPDISCOVER = 1"
definition DHCPOFFER :: u8 where "DHCPOFFER = 2"
definition DHCPREQUEST :: u16 where "DHCPREQUEST = 3"
definition DHCPDECLINE :: u16 where "DHCPDECLINE = 4"
definition DHCPACK :: u8 where "DHCPACK = 5"
definition DHCPNAK :: u8 where "DHCPNAK = 6"
definition DHCPRELEASE :: u16 where "DHCPRELEASE = 7"

definition DHCP_OPTION_SUBNET_MASK :: u8 where "DHCP_OPTION_SUBNET_MASK = 1"
definition DHCP_OPTION_ROUTER :: u8 where "DHCP_OPTION_ROUTER = 3"
definition DHCP_OPTION_DNS_SERVER :: u8 where "DHCP_OPTION_DNS_SERVER = 6"
definition DHCP_OPTION_INTERFACE_MTU :: u8 where "DHCP_OPTION_INTERFACE_MTU = 26"
definition DHCP_OPTION_BROADCAST_ADDRESS :: u8 where "DHCP_OPTION_BROADCAST_ADDRESS = 28"
definition DHCP_OPTION_PERFORM_ROUTER_DISCOVERY :: u8 where "DHCP_OPTION_PERFORM_ROUTER_DISCOVERY = 31"
definition DHCP_OPTION_REQ_IPADDR :: u8 where "DHCP_OPTION_REQ_IPADDR = 50"
definition DHCP_OPTION_LEASE_TIME :: u8 where "DHCP_OPTION_LEASE_TIME = 51"
definition DHCP_OPTION_MSG_TYPE :: u8 where "DHCP_OPTION_MSG_TYPE = 53"
definition DHCP_OPTION_SERVER_ID :: u8 where "DHCP_OPTION_SERVER_ID = 54"
definition DHCP_OPTION_END :: u8 where "DHCP_OPTION_END = 255"

lemmas option_codes = DHCP_OPTION_SUBNET_MASK_def DHCP_OPTION_ROUTER_def DHCP_OPTION_DNS_SERVER_def
  DHCP_OPTION_INTERFACE_MTU_def DHCP_OPTION_BROADCAST_ADDRESS_def DHCP_OPTION_PERFORM_ROUTER_DISCOVERY_def
  DHCP_OPTION_REQ_IPADDR_def DHCP_OPTION_LEASE_TIME_def DHCP_OPTION_MSG_TYPE_def DHCP_OPTION_SERVER_ID_def DHCP_OPTION_END_def

definition DHCPS_STATE_OFFER :: nat where "DHCPS_STATE_OFFER = 1"
definition DHCPS_STATE_ACK :: nat where "DHCPS_STATE_ACK = 3"
definition DHCPS_STATE_NAK :: nat where "DHCPS_STATE_NAK = 4"
definition DHCPS_STATE_IDLE :: nat where "DHCPS_STATE_IDLE = 5"
definition DHCPS_STATE_RELEASE :: nat where "DHCPS_STATE_RELEASE = 6"

lemmas dhcps_states = DHCPS_STATE_OFFER_def DHCPS_STATE_ACK_def DHCPS_STATE_NAK_def DHCPS_STATE_IDLE_def DHCPS_STATE_RELEASE_def

definition MagicCookie :: u32 where "MagicCookie = 0x63538263"

section \<open>Messages\<close>

record dhcps_msg =
  op :: u8
  htype :: u8
  hlen :: u8
  hops :: u8
  xid :: "u8 list"
  secs :: u16
  flags :: u16
  ciaddr :: "u8 list"
  yiaddr :: "u8 list"
  siaddr :: "u8 list"
  giaddr :: "u8 list"
  chaddr :: "u8 list"
  sname :: "u8 list"
  boot_file :: "u8 list"
  options :: "u8 list"

definition sizeof_dhcps_msg :: nat where "sizeof_dhcps_msg = 548"

text \<open>The struct as its bytes: the code fills a message byte by byte and sends it as bytes.\<close>

definition field :: "nat \<Rightarrow> nat \<Rightarrow> u8 list \<Rightarrow> u8 list" where
  "field off n bs = take n (drop off bs)"

definition u16_of :: "u8 \<Rightarrow> u8 \<Rightarrow> u16" where
  "u16_of b0 b1 = ucast b0 OR push_bit 8 (ucast b1)"

definition bytes_of_u16 :: "u16 \<Rightarrow> u8 list" where
  "bytes_of_u16 w = [ucast w, ucast (drop_bit 8 w)]"

definition msg_of_bytes :: "u8 list \<Rightarrow> dhcps_msg" where
  "msg_of_bytes bs = \<lparr>op = bs ! 0, htype = bs ! 1, hlen = bs ! 2, hops = bs ! 3, xid = field 4 4 bs,
     secs = u16_of (bs ! 8) (bs ! 9), flags = u16_of (bs ! 10) (bs ! 11),
     ciaddr = field 12 4 bs, yiaddr = field 16 4 bs, siaddr = field 20 4 bs, giaddr = field 24 4 bs, chaddr = field 28 16 bs,
     sname = field 44 64 bs, boot_file = field 108 128 bs, options = field 236 312 bs\<rparr>"

definition bytes_of_msg :: "dhcps_msg \<Rightarrow> u8 list" where
  "bytes_of_msg m = [op m, htype m, hlen m, hops m] @ xid m @ bytes_of_u16 (secs m) @ bytes_of_u16 (flags m) @
     ciaddr m @ yiaddr m @ siaddr m @ giaddr m @ chaddr m @ sname m @ boot_file m @ options m"

definition u32_of :: "u8 list \<Rightarrow> u32" where
  "u32_of bs = word_of (bs ! 0) (bs ! 1) (bs ! 2) (bs ! 3)"

section \<open>Appending options\<close>

text \<open>
  \<open>_it\<close> starts at the first byte behind the cookie and only moves forward: the bytes before it are \<open>written\<close>, and
  \<open>room\<close> is \<open>_end - _begin\<close>.
\<close>

record OptionsBuffer =
  written :: "u8 list"
  room :: nat

definition option_add :: "u8 \<Rightarrow> u8 list \<Rightarrow> OptionsBuffer \<Rightarrow> OptionsBuffer" where
  "option_add code data b =
     (if 255 \<le> length data then b
      else if room b - length (written b) < length data + 2 then b
      else b\<lparr>written := written b @ [code, of_nat (length data)] @ data\<rparr>)"

definition option_add_addr :: "u8 \<Rightarrow> u32 \<Rightarrow> OptionsBuffer \<Rightarrow> OptionsBuffer" where
  "option_add_addr code a = option_add code (bytes_of a)"

definition option_add_u8 :: "u8 \<Rightarrow> u8 \<Rightarrow> OptionsBuffer \<Rightarrow> OptionsBuffer" where
  "option_add_u8 code v = option_add code [v]"

definition option_add_u16 :: "u8 \<Rightarrow> u16 \<Rightarrow> OptionsBuffer \<Rightarrow> OptionsBuffer" where
  "option_add_u16 code v = option_add code [ucast (drop_bit 8 v AND 0xff), ucast (v AND 0xff)]"

definition option_add_u32 :: "u8 \<Rightarrow> u32 \<Rightarrow> OptionsBuffer \<Rightarrow> OptionsBuffer" where
  "option_add_u32 code v = option_add code [ucast (drop_bit 24 v AND 0xff), ucast (drop_bit 16 v AND 0xff),
     ucast (drop_bit 8 v AND 0xff), ucast (v AND 0xff)]"

definition option_add_code :: "u8 \<Rightarrow> OptionsBuffer \<Rightarrow> OptionsBuffer" where
  "option_add_code code b = (if length (written b) \<noteq> room b then b\<lparr>written := written b @ [code]\<rparr> else b)"

text \<open>The reply that answers message \<open>m\<close>, with empty options, and the buffer for them.\<close>

definition create_msg :: "u32 \<Rightarrow> dhcps_msg \<Rightarrow> dhcps_msg \<times> OptionsBuffer" where
  "create_msg client m =
     (m\<lparr>op := 2, htype := 1, hlen := 6, hops := 0, secs := 0, flags := u16_of 0x80 0,
        yiaddr := bytes_of client, ciaddr := replicate 4 0, siaddr := replicate 4 0, giaddr := replicate 4 0,
        sname := replicate 64 0, boot_file := replicate 128 0,
        options := bytes_of MagicCookie @ replicate 308 0\<rparr>,
      \<lparr>written = [], room = 308\<rparr>)"

text \<open>The message once the options are in its array.\<close>

definition with_options :: "dhcps_msg \<Rightarrow> OptionsBuffer \<Rightarrow> dhcps_msg" where
  "with_options m b = m\<lparr>options := take 4 (options m) @ written b @ drop (4 + length (written b)) (options m)\<rparr>"

section \<open>Reading the options of a request\<close>

text \<open>
  The walk over the options \<open>opts\<close> of a message, from \<open>p\<close> to \<open>len\<close>: the type of the message, and whether it asks
  for the address \<open>client\<close>.  The bytes behind the options are not part of the message: reading them gives None.
\<close>

definition byte_at :: "u8 list \<Rightarrow> nat \<Rightarrow> u8 option" where
  "byte_at bs i = (if i < length bs then Some (bs ! i) else None)"

lemma neg_uint_less [simp]: "- uint (w :: 'a::len word) < 2"
  by (rule le_less_trans [of _ 0]) simp_all

function parse_loop :: "u8 list \<Rightarrow> int \<Rightarrow> u32 \<Rightarrow> nat \<Rightarrow> u16 \<Rightarrow> nat \<Rightarrow> (u16 \<times> nat) option" where
  "parse_loop opts len client p type state =
     (if len \<le> int p then Some (type, state)
      else case byte_at opts p of None \<Rightarrow> None
        | Some c \<Rightarrow>
          if c = DHCP_OPTION_END then Some (type, state)
          else case (if c = DHCP_OPTION_MSG_TYPE then map_option (\<lambda>b. (ucast b, state)) (byte_at opts (p + 2))
              else if c = DHCP_OPTION_REQ_IPADDR
              then if p + 6 \<le> length opts
                then Some (type, if u32_of (field (p + 2) 4 opts) = client then DHCPS_STATE_ACK else DHCPS_STATE_NAK)
                else None
              else Some (type, state)) of
            None \<Rightarrow> None
          | Some (type', state') \<Rightarrow>
              (case byte_at opts (p + 1) of None \<Rightarrow> None
               | Some n \<Rightarrow> parse_loop opts len client (p + unat n + 2) type' state'))"
  by pat_completeness auto
termination by (relation "measure (\<lambda>(opts, len, client, p, type, state). nat (len - int p))") auto

declare parse_loop.simps [simp del]

definition parse_verdict :: "bool \<Rightarrow> u16 \<Rightarrow> nat \<Rightarrow> nat" where
  "parse_verdict renew type state =
     (if type = DHCPDISCOVER then DHCPS_STATE_OFFER
      else if type = DHCPREQUEST
      then if state = DHCPS_STATE_ACK \<or> state = DHCPS_STATE_NAK then state
        else if renew then DHCPS_STATE_ACK else DHCPS_STATE_NAK
      else if type = DHCPDECLINE then DHCPS_STATE_IDLE
      else if type = DHCPRELEASE then DHCPS_STATE_RELEASE
      else state)"

definition parse_options :: "bool \<Rightarrow> u32 \<Rightarrow> u8 list \<Rightarrow> int \<Rightarrow> nat option" where
  "parse_options renew client opts len =
     map_option (\<lambda>(type, state). parse_verdict renew type state) (parse_loop opts len client 0 0 DHCPS_STATE_IDLE)"

end
