(* ===== verification/Dhcp_Pool.thy ===== *)
theory Dhcp_Pool
  imports Dhcp_Message
begin

text \<open>
  The leases of the DHCP server \<open>cores/esp8266/LwipDhcpServer.cpp\<close>: a list of clients in the order of their addresses, the
  server's state, and the operations on both.  The list is linked in the source; a node is modelled by its
  place in the list.  Addresses are compared as the little-endian words of the machine, as the code does.
\<close>

section \<open>State\<close>

datatype dhcps_type = DHCPS_TYPE_DYNAMIC | DHCPS_TYPE_STATIC
datatype dhcps_online = DHCPS_STATE_ONLINE | DHCPS_STATE_OFFLINE

record dhcps_pool =
  pool_ip :: u32
  pool_mac :: "u8 list"
  lease_timer :: u32
  pool_type :: dhcps_type
  pool_state :: dhcps_online

text \<open>What the server gives to the outside: messages to an address, and the address of a station for the access point.\<close>

datatype dhcp_event = Sent u32 "u8 list" | StationInfo "u8 list" u32

record dhcp_server =
  netif_num :: nat
  netif_ip :: u32
  netif_mask :: u32
  netif_gw :: u32
  pcb :: bool
  broadcast_dhcps :: u32
  server_address :: u32
  client_address :: u32
  lease_time :: u32
  offer_router :: bool
  dns_address :: u32
  lease_enable :: bool
  start_ip :: u32
  end_ip :: u32
  plist :: "dhcps_pool list"
  renew :: bool
  events :: "dhcp_event list"

definition SOFTAP_IF :: nat where "SOFTAP_IF = 1"
definition STATION_IF :: nat where "STATION_IF = 0"
definition NULL_MODE :: nat where "NULL_MODE = 0"
definition STATION_MODE :: nat where "STATION_MODE = 1"
definition DHCPS_MAX_LEASE :: u32 where "DHCPS_MAX_LEASE = 0x64"
definition MAX_STATION_NUM :: nat where "MAX_STATION_NUM = 8"
definition IPADDR_ANY :: u32 where "IPADDR_ANY = 0"
definition IPADDR_BROADCAST :: u32 where "IPADDR_BROADCAST = 0xffffffff"

definition next_ip :: "u32 \<Rightarrow> u32" where
  "next_ip a = htonl (htonl a + 1)"

definition station_info :: "u8 list \<Rightarrow> u32 \<Rightarrow> dhcp_server \<Rightarrow> dhcp_server" where
  "station_info mac a s = (if netif_num s = SOFTAP_IF then s\<lparr>events := events s @ [StationInfo mac a]\<rparr> else s)"

section \<open>The list of leases\<close>

fun node_insert_to_list :: "dhcps_pool \<Rightarrow> dhcps_pool list \<Rightarrow> dhcps_pool list" where
  "node_insert_to_list p [] = [p]"
| "node_insert_to_list p (q # qs) = (if pool_ip p < pool_ip q then p # q # qs else q # node_insert_to_list p qs)"

definition node_remove_from_list :: "nat \<Rightarrow> 'a list \<Rightarrow> 'a list" where
  "node_remove_from_list i ps = take i ps @ drop (i + 1) ps"

text \<open>A lease reserved by the application: None when there is no memory for it.\<close>

fun reserve_ip :: "u8 list \<Rightarrow> u32 \<Rightarrow> dhcps_pool list \<Rightarrow> u32 option" where
  "reserve_ip mac a [] = Some a"
| "reserve_ip mac a (p # ps) = (if pool_mac p = mac then None else reserve_ip mac (next_ip a) ps)"

definition add_dhcps_lease :: "bool \<Rightarrow> u8 list \<Rightarrow> dhcp_server \<Rightarrow> (bool \<times> dhcp_server) option" where
  "add_dhcps_lease memory mac s =
     (case reserve_ip mac (start_ip s) (plist s) of
        None \<Rightarrow> Some (False, s)
      | Some a \<Rightarrow>
          if end_ip s < a then Some (False, s)
          else if \<not> memory then None
          else Some (True, s\<lparr>plist := node_insert_to_list
            \<lparr>pool_ip = a, pool_mac = mac, lease_timer = lease_time s, pool_type = DHCPS_TYPE_STATIC, pool_state = DHCPS_STATE_ONLINE\<rparr>
            (plist s)\<rparr>))"

text \<open>The first place behind the head with the least timer; the last node is then marked.\<close>

fun min_timer :: "nat \<Rightarrow> nat \<Rightarrow> u32 \<Rightarrow> dhcps_pool list \<Rightarrow> nat" where
  "min_timer i m t [] = m"
| "min_timer i m t (p # ps) = (if lease_timer p < t then min_timer (i + 1) i (lease_timer p) ps else min_timer (i + 1) m t ps)"

definition kill_oldest_dhcps_pool :: "dhcps_pool list \<Rightarrow> dhcps_pool list option" where
  "kill_oldest_dhcps_pool ps =
     (case ps of p # q # qs \<Rightarrow>
        let m = min_timer 2 1 (lease_timer q) qs; l = length ps - 1 in
        Some (node_remove_from_list m (ps[l := (ps ! l)\<lparr>pool_state := DHCPS_STATE_OFFLINE\<rparr>]))
      | _ \<Rightarrow> None)"

fun age_pool :: "dhcps_pool list \<Rightarrow> dhcps_pool list" where
  "age_pool [] = []"
| "age_pool (p # ps) =
     (let p1 = (if pool_type p = DHCPS_TYPE_DYNAMIC then p\<lparr>lease_timer := lease_timer p - 1\<rparr> else p) in
      if lease_timer p1 = 0 then age_pool ps else p1 # age_pool ps)"

definition dhcps_coarse_tmr :: "dhcp_server \<Rightarrow> dhcp_server option" where
  "dhcps_coarse_tmr s =
     (let ps = age_pool (plist s) in
      if MAX_STATION_NUM \<le> length ps mod 256 then map_option (\<lambda>qs. s\<lparr>plist := qs\<rparr>) (kill_oldest_dhcps_pool ps)
      else Some (s\<lparr>plist := ps\<rparr>))"

text \<open>A client that leaves: its lease is the first with its hardware address and its address.\<close>

fun find_lease :: "u8 list \<Rightarrow> u32 \<Rightarrow> nat \<Rightarrow> dhcps_pool list \<Rightarrow> nat option" where
  "find_lease mac a i [] = None"
| "find_lease mac a i (p # ps) = (if pool_mac p = mac \<and> pool_ip p = a then Some i else find_lease mac a (i + 1) ps)"

definition dhcps_client_leave :: "u8 list \<Rightarrow> u32 \<Rightarrow> bool \<Rightarrow> dhcp_server \<Rightarrow> dhcp_server" where
  "dhcps_client_leave mac a force s =
     (case find_lease mac a 0 (plist s) of
        None \<Rightarrow> s
      | Some i \<Rightarrow>
          let p = plist s ! i in
          station_info mac 0 (if pool_type p = DHCPS_TYPE_STATIC \<or> force
            then s\<lparr>plist := node_remove_from_list i (plist s)\<rparr>
            else s\<lparr>plist := (plist s)[i := p\<lparr>pool_state := DHCPS_STATE_OFFLINE\<rparr>]\<rparr>))"

section \<open>Giving out an address\<close>

text \<open>
  The walk over the list notes the node of the client and the node that has the address the client asks
  for, or finds an address for it: \<open>a\<close> runs ahead of the nodes as long as they hold the addresses from the start of the
  range on, and \<open>flag\<close> is set at the first that does not.
\<close>

record pool_scan =
  pmac_node :: "nat option"
  pip_node :: "nat option"
  scan_flag :: bool
  scan_ip :: u32

fun scan_pool :: "u8 list \<Rightarrow> u32 option \<Rightarrow> nat \<Rightarrow> dhcps_pool list \<Rightarrow> pool_scan \<Rightarrow> pool_scan" where
  "scan_pool mac ip i [] c = c"
| "scan_pool mac ip i (p # ps) c =
     (let c1 = (if pool_mac p = mac then c\<lparr>pmac_node := Some i\<rparr> else c) in
      if pool_mac p = mac \<and> ip = None then c1\<lparr>scan_flag := True\<rparr>
      else scan_pool mac ip (i + 1) ps
        (case ip of
           Some a \<Rightarrow> if pool_ip p = a then c1\<lparr>pip_node := Some i\<rparr> else c1
         | None \<Rightarrow> if scan_flag c1 then c1
             else if pool_ip p \<noteq> scan_ip c1 then c1\<lparr>scan_flag := True\<rparr>
             else c1\<lparr>scan_ip := next_ip (scan_ip c1)\<rparr>))"

text \<open>A lease in the hands of its client.\<close>

definition granted :: "dhcp_server \<Rightarrow> dhcps_type \<Rightarrow> dhcps_pool \<Rightarrow> dhcps_pool" where
  "granted s type p = p\<lparr>lease_timer := lease_time s, pool_type := type, pool_state := DHCPS_STATE_ONLINE\<rparr>"

definition dhcps_client_update :: "bool \<Rightarrow> u8 list \<Rightarrow> u32 \<Rightarrow> dhcp_server \<Rightarrow> (u32 \<times> dhcp_server) option" where
  "dhcps_client_update memory mac ip0 s =
     (if ip0 = IPADDR_BROADCAST then Some (IPADDR_ANY, s)
      else
        let ip = (if ip0 = IPADDR_ANY then None else Some ip0);
            type = (if ip0 = IPADDR_ANY then DHCPS_TYPE_DYNAMIC else DHCPS_TYPE_STATIC);
            s = s\<lparr>renew := False\<rparr>;
            ps = plist s;
            c = scan_pool mac ip 0 ps \<lparr>pmac_node = None, pip_node = None, scan_flag = False, scan_ip = start_ip s\<rparr> in
        if ip = None \<and> \<not> scan_flag c \<and> end_ip s < scan_ip c then Some (IPADDR_ANY, s)
        else let flag = (scan_flag c \<or> ip = None) in
        case pmac_node c of
          Some m \<Rightarrow>
            (case pip_node c of
               Some i \<Rightarrow>
                 if i \<noteq> m
                 then if pool_state (ps ! i) \<noteq> DHCPS_STATE_OFFLINE then Some (IPADDR_ANY, s)
                   else let j = (if m < i then i - 1 else i); ps1 = node_remove_from_list m ps in
                     Some (pool_ip (ps ! i), s\<lparr>plist := ps1[j := granted s type ((ps1 ! j)\<lparr>pool_mac := mac\<rparr>)]\<rparr>)
                 else Some (pool_ip (ps ! i), s\<lparr>renew := True, plist := ps[i := granted s DHCPS_TYPE_DYNAMIC (ps ! i)]\<rparr>)
             | None \<Rightarrow>
                 (case (case ip of Some a \<Rightarrow> Some a | None \<Rightarrow> if flag then Some (scan_ip c) else None) of
                    None \<Rightarrow> Some (IPADDR_ANY, s)
                  | Some a \<Rightarrow> Some (a, s\<lparr>plist := node_insert_to_list (granted s type ((ps ! m)\<lparr>pool_ip := a\<rparr>))
                      (node_remove_from_list m ps)\<rparr>)))
        | None \<Rightarrow>
            (case pip_node c of
               Some i \<Rightarrow>
                 if pool_state (ps ! i) \<noteq> DHCPS_STATE_OFFLINE then Some (IPADDR_ANY, s)
                 else Some (pool_ip (ps ! i), s\<lparr>plist := ps[i := granted s type ((ps ! i)\<lparr>pool_mac := mac\<rparr>)]\<rparr>)
             | None \<Rightarrow>
                 if \<not> memory then None
                 else (case (case ip of Some a \<Rightarrow> Some a | None \<Rightarrow> if flag then Some (scan_ip c) else None) of
                    None \<Rightarrow> Some (IPADDR_ANY, s)
                  | Some a \<Rightarrow>
                      if end_ip s < a then Some (IPADDR_ANY, s)
                      else Some (a, s\<lparr>plist := node_insert_to_list
                        (granted s type \<lparr>pool_ip = a, pool_mac = mac, lease_timer = 0, pool_type = type, pool_state = DHCPS_STATE_ONLINE\<rparr>) ps\<rparr>))))"

section \<open>The range of addresses\<close>

definition init_dhcps_lease :: "u32 \<Rightarrow> dhcp_server \<Rightarrow> dhcp_server" where
  "init_dhcps_lease ip s =
     (let softap = htonl ip; first = htonl (start_ip s); last = htonl (end_ip s);
          keep = (lease_enable s \<and> \<not> (first \<le> softap \<and> softap \<le> last) \<and>
            \<not> (drop_bit 8 first \<noteq> drop_bit 8 softap \<or> drop_bit 8 last \<noteq> drop_bit 8 softap \<or> DHCPS_MAX_LEASE < last - first)) in
      if keep then s
      else let net = softap AND 0xFFFFFF00; local = softap AND 0xFF;
               local = (if 0x80 \<le> local then local - DHCPS_MAX_LEASE else local + 1) in
        s\<lparr>lease_enable := False, start_ip := htonl (net OR local), end_ip := htonl (net OR (local + DHCPS_MAX_LEASE - 1))\<rparr>)"

definition set_dhcps_lease :: "nat \<Rightarrow> (bool \<times> u32 \<times> u32) option \<Rightarrow> dhcp_server \<Rightarrow> bool \<times> dhcp_server" where
  "set_dhcps_lease opmode please s =
     (if (netif_num s = SOFTAP_IF \<or> netif_num s = STATION_IF) \<and> (opmode = STATION_MODE \<or> opmode = NULL_MODE) then (False, s)
      else if please = None \<or> pcb s then (False, s)
      else case the please of (enable, first0, last0) \<Rightarrow>
        if enable
        then let softap = htonl (netif_ip s); first = htonl first0; last = htonl last0 in
          if first \<le> softap \<and> softap \<le> last then (False, s)
          else if drop_bit 8 first \<noteq> drop_bit 8 softap \<or> drop_bit 8 last \<noteq> drop_bit 8 softap then (False, s)
          else if DHCPS_MAX_LEASE < last - first then (False, s)
          else (True, s\<lparr>start_ip := first0, end_ip := last0, lease_enable := True\<rparr>)
        else (True, s\<lparr>lease_enable := False\<rparr>))"

text \<open>The range for the caller's struct, when there is one.\<close>

definition get_dhcps_lease :: "nat \<Rightarrow> bool \<Rightarrow> dhcp_server \<Rightarrow> (u32 \<times> u32) option" where
  "get_dhcps_lease opmode please s =
     (if netif_num s = SOFTAP_IF \<and> (opmode = STATION_MODE \<or> opmode = NULL_MODE) then None
      else if \<not> please then None
      else if \<not> lease_enable s \<and> pcb s then None
      else Some (start_ip s, end_ip s))"

end
