(* ===== verification/Dhcp_Server.thy ===== *)
theory Dhcp_Server
  imports Dhcp_Pool
begin

text \<open>
  The DHCP server of \<open>cores/esp8266/LwipDhcpServer.cpp\<close> at work: replies, incoming packets, start and stop.  The network
  stack and the memory allocator are outside; what they answer, and the handler of the application for more options, are the
  fields of \<open>dhcp_env\<close>.  A packet is the list of the pieces it arrived in.
\<close>

record dhcp_env =
  msg_memory :: bool
  lease_memory :: bool
  pbuf_memory :: bool
  udp_memory :: bool
  custom_offer_options :: "(dhcp_server \<Rightarrow> OptionsBuffer \<Rightarrow> OptionsBuffer) option"

section \<open>Replies\<close>

definition add_offer_options :: "dhcp_server \<Rightarrow> OptionsBuffer \<Rightarrow> OptionsBuffer" where
  "add_offer_options s b =
     (let b = option_add_addr DHCP_OPTION_SUBNET_MASK (netif_mask s) b;
          b = option_add_addr DHCP_OPTION_SERVER_ID (netif_ip s) b;
          b = option_add_u32 DHCP_OPTION_LEASE_TIME (lease_time s * 60) b;
          b = (if offer_router s \<and> netif_gw s \<noteq> IPADDR_ANY then option_add_addr DHCP_OPTION_ROUTER (netif_gw s) b else b);
          b = option_add_addr DHCP_OPTION_DNS_SERVER (if dns_address s \<noteq> IPADDR_ANY then dns_address s else netif_ip s) b;
          b = option_add_addr DHCP_OPTION_BROADCAST_ADDRESS ((netif_ip s AND netif_mask s) OR NOT (netif_mask s)) b;
          b = option_add_u16 DHCP_OPTION_INTERFACE_MTU 1500 b in
      option_add_u8 DHCP_OPTION_PERFORM_ROUTER_DISCOVERY 0 b)"

definition custom_options :: "dhcp_env \<Rightarrow> dhcp_server \<Rightarrow> OptionsBuffer \<Rightarrow> OptionsBuffer" where
  "custom_options env s b = (case custom_offer_options env of None \<Rightarrow> b | Some h \<Rightarrow> h s b)"

definition send_msg :: "dhcp_env \<Rightarrow> dhcps_msg \<Rightarrow> dhcp_server \<Rightarrow> dhcp_server" where
  "send_msg env m s =
     (if pbuf_memory env then s\<lparr>events := events s @ [Sent (broadcast_dhcps s) (bytes_of_msg m)]\<rparr> else s)"

definition send_offer :: "dhcp_env \<Rightarrow> dhcps_msg \<Rightarrow> dhcp_server \<Rightarrow> dhcps_msg \<times> dhcp_server" where
  "send_offer env m s =
     (let (m1, b) = create_msg (client_address s) m;
          b = option_add_u8 DHCP_OPTION_MSG_TYPE DHCPOFFER b;
          b = custom_options env s (add_offer_options s b);
          m2 = with_options m1 (option_add_code DHCP_OPTION_END b) in
      (m2, send_msg env m2 s))"

definition send_nak :: "dhcp_env \<Rightarrow> dhcps_msg \<Rightarrow> dhcp_server \<Rightarrow> dhcps_msg \<times> dhcp_server" where
  "send_nak env m s =
     (let (m1, b) = create_msg (client_address s) m;
          b = option_add_u8 DHCP_OPTION_MSG_TYPE DHCPNAK b;
          m2 = with_options m1 (option_add_code DHCP_OPTION_END b) in
      (m2, send_msg env m2 s))"

definition send_ack :: "dhcp_env \<Rightarrow> dhcps_msg \<Rightarrow> dhcp_server \<Rightarrow> dhcps_msg \<times> dhcp_server" where
  "send_ack env m s =
     (let (m1, b) = create_msg (client_address s) m;
          b = option_add_u8 DHCP_OPTION_MSG_TYPE DHCPACK b;
          b = custom_options env s (add_offer_options s b);
          m2 = with_options m1 (option_add_code DHCP_OPTION_END b) in
      (m2, send_msg env m2 s))"

section \<open>Requests\<close>

definition hw_addr :: "dhcps_msg \<Rightarrow> u8 list" where
  "hw_addr m = take 6 (chaddr m)"

definition parse_msg :: "dhcp_env \<Rightarrow> dhcps_msg \<Rightarrow> int \<Rightarrow> dhcp_server \<Rightarrow> (nat \<times> dhcp_server) option" where
  "parse_msg env m len s =
     (if take 4 (options m) = bytes_of MagicCookie
      then let ip = u32_of (ciaddr m) in
        case dhcps_client_update (lease_memory env) (hw_addr m) ip s of None \<Rightarrow> None
        | Some (a, s1) \<Rightarrow>
          let s2 = s1\<lparr>client_address := a\<rparr> in
          (case parse_options (renew s2) a (drop 4 (options m)) len of None \<Rightarrow> None
           | Some ret \<Rightarrow>
             if ret = DHCPS_STATE_RELEASE
             then Some (ret, (dhcps_client_leave (hw_addr m) ip True s2)\<lparr>client_address := ip\<rparr>)
             else Some (ret, s2))
      else Some (0, s))"

text \<open>The first two pieces of a packet in the zeroed array of the message: None when they do not fit.\<close>

definition copy_packet :: "u8 list list \<Rightarrow> u8 list option" where
  "copy_packet p =
     (let d = concat (take 2 p) in
      if sizeof_dhcps_msg < length d then None else Some (d @ replicate (sizeof_dhcps_msg - length d) 0))"

text \<open>\<open>tot_len\<close> and the length of the options go through 16-bit variables, signed at the end.\<close>

definition options_len :: "u8 list list \<Rightarrow> int" where
  "options_len p = sint (of_nat (length (concat p)) - 240 :: u16)"

definition handle_dhcp :: "dhcp_env \<Rightarrow> u8 list list \<Rightarrow> dhcp_server \<Rightarrow> dhcp_server option" where
  "handle_dhcp env p s =
     (if p = [] then Some s
      else if \<not> msg_memory env then Some s
      else case copy_packet p of None \<Rightarrow> None
        | Some bs \<Rightarrow>
          let m = msg_of_bytes bs in
          (case parse_msg env m (options_len p) s of None \<Rightarrow> None
           | Some (ret, s1) \<Rightarrow>
             Some (if ret = DHCPS_STATE_OFFER then snd (send_offer env m s1)
               else if ret = DHCPS_STATE_ACK
               then case send_ack env m s1 of (m1, s2) \<Rightarrow> station_info (hw_addr m1) (client_address s2) s2
               else if ret = DHCPS_STATE_NAK then snd (send_nak env m s1)
               else s1)))"

fun handle_all :: "dhcp_env \<Rightarrow> u8 list list list \<Rightarrow> dhcp_server \<Rightarrow> dhcp_server option" where
  "handle_all env [] s = Some s"
| "handle_all env (p # ps) s = (case handle_dhcp env p s of None \<Rightarrow> None | Some s1 \<Rightarrow> handle_all env ps s1)"

section \<open>Start and stop\<close>

definition dhcps_begin :: "dhcp_env \<Rightarrow> dhcp_server \<Rightarrow> bool \<times> dhcp_server" where
  "dhcps_begin env s =
     (if \<not> udp_memory env then (False, s\<lparr>pcb := False\<rparr>)
      else let s1 = s\<lparr>pcb := True, broadcast_dhcps := (netif_ip s AND netif_mask s) OR NOT (netif_mask s),
               server_address := netif_ip s\<rparr> in
        (True, init_dhcps_lease (server_address s1) s1))"

fun end_pool :: "dhcps_pool list \<Rightarrow> dhcp_server \<Rightarrow> dhcp_server" where
  "end_pool [] s = s"
| "end_pool (p # ps) s = end_pool ps (station_info (pool_mac p) 0 (s\<lparr>plist := ps\<rparr>))"

definition dhcps_end :: "dhcp_server \<Rightarrow> dhcp_server" where
  "dhcps_end s = (if \<not> pcb s then s else end_pool (plist s) (s\<lparr>pcb := False\<rparr>))"

definition dhcps_isRunning :: "dhcp_server \<Rightarrow> bool" where
  "dhcps_isRunning s = pcb s"

text \<open>The settings.\<close>

definition setRouter :: "bool \<Rightarrow> dhcp_server \<Rightarrow> dhcp_server" where "setRouter v s = s\<lparr>offer_router := v\<rparr>"
definition setDns :: "u32 \<Rightarrow> dhcp_server \<Rightarrow> dhcp_server" where "setDns a s = s\<lparr>dns_address := a\<rparr>"
definition setLeaseTime :: "u32 \<Rightarrow> dhcp_server \<Rightarrow> dhcp_server" where "setLeaseTime t s = s\<lparr>lease_time := t\<rparr>"
definition DefaultLeaseTime :: u32 where "DefaultLeaseTime = 720"
definition resetLeaseTime :: "dhcp_server \<Rightarrow> dhcp_server" where "resetLeaseTime s = s\<lparr>lease_time := DefaultLeaseTime\<rparr>"

end
