(* ===== verification/Dhcp_Options.thy ===== *)
theory Dhcp_Options
  imports Dhcp_Server
begin

text \<open>
  The options of DHCP messages as lists of a code and its data: what the option buffer writes and what the option
  reader of the server sees in them.
\<close>

fun encode_options :: "(u8 \<times> u8 list) list \<Rightarrow> u8 list" where
  "encode_options [] = []"
| "encode_options ((c, d) # os) = c # of_nat (length d) # d @ encode_options os"

lemma encode_append: "encode_options (os @ os') = encode_options os @ encode_options os'"
  by (induction os rule: encode_options.induct) simp_all

text \<open>Options the reader can take: no end code among them, data that fit a byte of length, an address of four bytes, a
  message type that is there.\<close>

fun option_ok :: "u8 \<times> u8 list \<Rightarrow> bool" where
  "option_ok (c, d) \<longleftrightarrow> c \<noteq> DHCP_OPTION_END \<and> length d < 256 \<and>
     (c = DHCP_OPTION_MSG_TYPE \<longrightarrow> d \<noteq> []) \<and> (c = DHCP_OPTION_REQ_IPADDR \<longrightarrow> length d = 4)"

text \<open>What the options say: the last message type, and whether the last address asked for is that of the client.\<close>

fun message_type :: "(u8 \<times> u8 list) list \<Rightarrow> u16 \<Rightarrow> u16" where
  "message_type [] t = t"
| "message_type ((c, d) # os) t = message_type os (if c = DHCP_OPTION_MSG_TYPE then ucast (hd d) else t)"

fun request_state :: "u32 \<Rightarrow> (u8 \<times> u8 list) list \<Rightarrow> nat \<Rightarrow> nat" where
  "request_state client [] st = st"
| "request_state client ((c, d) # os) st = request_state client os
     (if c = DHCP_OPTION_REQ_IPADDR then if u32_of d = client then DHCPS_STATE_ACK else DHCPS_STATE_NAK else st)"

lemma parse_step:
  assumes "\<not> len \<le> int p" and "byte_at opts p = Some c" and "c \<noteq> DHCP_OPTION_END" and "byte_at opts (p + 1) = Some n"
    and "c = DHCP_OPTION_MSG_TYPE \<Longrightarrow> byte_at opts (p + 2) = Some b" and "c = DHCP_OPTION_REQ_IPADDR \<Longrightarrow> p + 6 \<le> length opts"
  shows "parse_loop opts len client p t st = parse_loop opts len client (p + unat n + 2) (if c = DHCP_OPTION_MSG_TYPE then ucast b else t)
    (if c = DHCP_OPTION_REQ_IPADDR then if u32_of (field (p + 2) 4 opts) = client then DHCPS_STATE_ACK else DHCPS_STATE_NAK else st)"
proof -
  have "DHCP_OPTION_MSG_TYPE \<noteq> DHCP_OPTION_REQ_IPADDR" by (simp add: option_codes)
  then show ?thesis using assms by (subst parse_loop.simps) (cases "c = DHCP_OPTION_MSG_TYPE"; simp)
qed

lemma parse_loop_encoded:
  assumes "\<forall>x \<in> set os. option_ok x" and "opts = pre @ encode_options os @ DHCP_OPTION_END # rest" and "int (length pre + length (encode_options os)) < len"
  shows "parse_loop opts len client (length pre) t st = Some (message_type os t, request_state client os st)"
  using assms
proof (induction os arbitrary: pre t st rule: encode_options.induct)
  case 1
  then show ?case by (subst parse_loop.simps) (simp add: byte_at_def)
next
  case (2 c d os)
  have ok: "option_ok (c, d)" "\<forall>x \<in> set os. option_ok x" using "2.prems"(1) by simp_all
  have u: "unat (of_nat (length d) :: u8) = length d" using ok(1) by (simp add: unat_of_nat)
  let ?pre = "pre @ c # of_nat (length d) # d"
  let ?t = "if c = DHCP_OPTION_MSG_TYPE then ucast (hd d) else t"
  let ?st = "if c = DHCP_OPTION_REQ_IPADDR then if u32_of d = client then DHCPS_STATE_ACK else DHCPS_STATE_NAK else st"
  have o: "opts = ?pre @ encode_options os @ DHCP_OPTION_END # rest" using "2.prems"(2) by simp
  have b: "byte_at opts (length pre) = Some c" "byte_at opts (length pre + 1) = Some (of_nat (length d))"
    by (simp_all add: o byte_at_def nth_append)
  have ty: "byte_at opts (length pre + 2) = Some (hd d)" if "d \<noteq> []"
    using that by (cases d) (simp_all add: o byte_at_def nth_append)
  have rq: "field (length pre + 2) 4 opts = d" "length pre + 6 \<le> length opts" if "length d = 4"
    using that by (simp_all add: o field_def)
  have n: "length pre < length opts" using o by simp
  have l: "\<not> len \<le> int (length pre)" using "2.prems"(3) by simp
  have "parse_loop opts len client (length pre) t st =
      parse_loop opts len client (length pre + unat (of_nat (length d) :: u8) + 2) ?t
        (if c = DHCP_OPTION_REQ_IPADDR then if u32_of (field (length pre + 2) 4 opts) = client then DHCPS_STATE_ACK else DHCPS_STATE_NAK else st)"
    using ok(1) ty rq(2) by (intro parse_step [OF l b(1) _ b(2)]) auto
  also have "\<dots> = parse_loop opts len client (length ?pre) ?t ?st"
    unfolding u using rq(1) ok(1) by (auto simp: add.commute)
  also have "\<dots> = Some (message_type os ?t, request_state client os ?st)"
    using "2.IH" [OF ok(2) o, of ?t ?st] "2.prems"(3) by simp
  finally show ?case by simp
qed

lemma parse_encoded:
  assumes "\<forall>x \<in> set os. option_ok x" and "opts = encode_options os @ DHCP_OPTION_END # rest" and "int (length (encode_options os)) < len"
  shows "parse_options renewed client opts len = Some (parse_verdict renewed (message_type os 0) (request_state client os DHCPS_STATE_IDLE))"
  using parse_loop_encoded [OF assms(1), of opts "[]" rest len client 0 DHCPS_STATE_IDLE] assms(2,3) by (simp add: parse_options_def)



section \<open>Replies\<close>

definition bytes_be :: "u32 \<Rightarrow> u8 list" where
  "bytes_be w = [byte_of 3 w, byte_of 2 w, byte_of 1 w, byte_of 0 w]"

lemma option_add_fits:
  "length d < 255 \<Longrightarrow> length (written b) + length d + 2 \<le> room b \<Longrightarrow>
   option_add c d b = b\<lparr>written := written b @ encode_options [(c, d)]\<rparr>"
  by (simp add: option_add_def)

lemma option_add_u32_be: "option_add_u32 c v = option_add c (bytes_be v)"
proof -
  have ff: "(0xff :: u32) = mask 8" by (simp add: mask_eq_exp_minus_1)
  have "ucast (drop_bit n v AND 0xff) = (ucast (drop_bit n v) :: u8)" for n
    unfolding ff by (rule bit_word_eqI) (auto simp: bit_simps)
  from this [of 24] this [of 16] this [of 8] this [of 0] show ?thesis
    by (simp add: option_add_u32_def bytes_be_def byte_of_def fun_eq_iff)
qed

text \<open>The options of an offer and of an acknowledgement behind the message type.\<close>

definition offer_list :: "dhcp_server \<Rightarrow> (u8 \<times> u8 list) list" where
  "offer_list s =
     [(1, bytes_of (netif_mask s)), (54, bytes_of (netif_ip s)), (51, bytes_be (lease_time s * 60))] @
     (if offer_router s \<and> netif_gw s \<noteq> 0 then [(3, bytes_of (netif_gw s))] else []) @
     [(6, bytes_of (if dns_address s \<noteq> 0 then dns_address s else netif_ip s)),
      (28, bytes_of ((netif_ip s AND netif_mask s) OR NOT (netif_mask s))), (26, [5, 220]), (31, [0])]"

lemma length_offer_list: "length (encode_options (offer_list s)) \<le> 43"
  by (simp add: offer_list_def bytes_be_def)

text \<open>A handler of the application that appends the options \<open>os\<close>.\<close>

definition extra_options :: "dhcp_env \<Rightarrow> (u8 \<times> u8 list) list \<Rightarrow> bool" where
  "extra_options env os \<longleftrightarrow> (case custom_offer_options env of None \<Rightarrow> os = []
     | Some h \<Rightarrow> \<forall>s b. h s b = fold (\<lambda>(c, d). option_add c d) os b)"

lemma fold_option_add:
  "\<forall>(c, d) \<in> set os. length d < 255 \<Longrightarrow> length (written b) + length (encode_options os) \<le> room b \<Longrightarrow>
   fold (\<lambda>(c, d). option_add c d) os b = b\<lparr>written := written b @ encode_options os\<rparr>"
proof (induction os arbitrary: b rule: encode_options.induct)
  case (2 c d os)
  then have "option_add c d b = b\<lparr>written := written b @ encode_options [(c, d)]\<rparr>" by (intro option_add_fits) auto
  then show ?case using 2 by simp
qed simp

lemma add_offer_options_list:
  assumes "length (written b) + 43 \<le> room b"
  shows "add_offer_options s b = b\<lparr>written := written b @ encode_options (offer_list s)\<rparr>"
proof -
  have "add_offer_options s b = fold (\<lambda>(c, d). option_add c d) (offer_list s) b"
    by (simp add: add_offer_options_def Let_def option_add_addr_def option_add_u32_be option_add_u16_def option_add_u8_def
      option_codes offer_list_def IPADDR_ANY_def)
  moreover have "\<forall>(c, d) \<in> set (offer_list s). length d < 255" by (auto simp: offer_list_def bytes_be_def)
  ultimately show ?thesis using assms length_offer_list [of s] by (simp add: fold_option_add)
qed

definition wf_msg :: "dhcps_msg \<Rightarrow> bool" where
  "wf_msg m \<longleftrightarrow> length (xid m) = 4 \<and> length (chaddr m) = 16 \<and> length (options m) = 312"

lemma wf_msg_of_bytes: "length bs = 548 \<Longrightarrow> wf_msg (msg_of_bytes bs)"
  by (simp add: wf_msg_def msg_of_bytes_def field_def)

text \<open>The bytes of a reply of type \<open>t\<close> to \<open>m\<close> with the address \<open>a\<close> and the options \<open>os\<close>.\<close>

definition reply_bytes :: "u8 \<Rightarrow> u32 \<Rightarrow> (u8 \<times> u8 list) list \<Rightarrow> dhcps_msg \<Rightarrow> u8 list" where
  "reply_bytes t a os m = [2, 1, 6, 0] @ xid m @ [0, 0, 0x80, 0] @ replicate 4 0 @ bytes_of a @ replicate 4 0 @ replicate 4 0 @ chaddr m @
     replicate 64 0 @ replicate 128 0 @ [0x63, 0x82, 0x53, 0x63] @ encode_options ((DHCP_OPTION_MSG_TYPE, [t]) # os) @ [DHCP_OPTION_END] @
     replicate (304 - length (encode_options os)) 0"

lemma u16_bytes: "bytes_of_u16 (u16_of 0x80 0) = [0x80, 0]" "bytes_of_u16 0 = [0, 0]"
  by (simp_all add: bytes_of_u16_def u16_of_def)

lemma cookie_bytes: "bytes_of MagicCookie = [0x63, 0x82, 0x53, 0x63]"
  by (simp add: MagicCookie_def bytes_of_def byte_of_def)

lemma reply_is:
  assumes "length (encode_options os) \<le> 304" and "create_msg a m = (m1, b)"
    and "b' = b\<lparr>written := written b @ encode_options ((DHCP_OPTION_MSG_TYPE, [t]) # os)\<rparr>"
  shows "bytes_of_msg (with_options m1 (option_add_code DHCP_OPTION_END b')) = reply_bytes t a os m"
proof -
  have m1: "m1 = fst (create_msg a m)" and b: "b = \<lparr>written = [], room = 308\<rparr>" using assms(2) by (simp_all add: create_msg_def)
  have "drop (8 + length (encode_options os)) ([99, 130, 83, 99] @ replicate 308 (0 :: u8)) =
      replicate (304 - length (encode_options os)) 0" by (simp del: append.simps)
  then show ?thesis using assms(1) unfolding m1 assms(3) b
    by (simp add: create_msg_def option_add_code_def with_options_def bytes_of_msg_def reply_bytes_def u16_bytes cookie_bytes
        replicate_add [symmetric] del: replicate.simps)
qed

text \<open>Options of the application that fit behind those of the server.\<close>

definition extras_fit :: "dhcp_env \<Rightarrow> (u8 \<times> u8 list) list \<Rightarrow> bool" where
  "extras_fit env os \<longleftrightarrow> extra_options env os \<and> (\<forall>(c, d) \<in> set os. length d < 255) \<and> length (encode_options os) \<le> 261"

definition sent :: "dhcp_env \<Rightarrow> u8 list \<Rightarrow> dhcp_server \<Rightarrow> dhcp_server" where
  "sent env bs s = (if pbuf_memory env then s\<lparr>events := events s @ [Sent (broadcast_dhcps s) bs]\<rparr> else s)"

lemma offer_options_written:
  assumes "extras_fit env os" and "written b = []" and "room b = 308"
  shows "custom_options env s (add_offer_options s (option_add_u8 DHCP_OPTION_MSG_TYPE t b)) =
    b\<lparr>written := written b @ encode_options ((DHCP_OPTION_MSG_TYPE, [t]) # offer_list s @ os)\<rparr>"
proof -
  have t: "option_add_u8 DHCP_OPTION_MSG_TYPE t b = b\<lparr>written := encode_options [(DHCP_OPTION_MSG_TYPE, [t])]\<rparr>"
    using assms(2,3) by (simp add: option_add_u8_def option_add_fits)
  have o: "add_offer_options s (option_add_u8 DHCP_OPTION_MSG_TYPE t b) =
      b\<lparr>written := encode_options ((DHCP_OPTION_MSG_TYPE, [t]) # offer_list s)\<rparr>" (is "_ = ?b")
    unfolding t using assms(3) by (subst add_offer_options_list) simp_all
  have f: "fold (\<lambda>(c, d). option_add c d) os ?b = ?b\<lparr>written := written ?b @ encode_options os\<rparr>"
    using assms(1,3) length_offer_list [of s] by (intro fold_option_add) (simp_all add: extras_fit_def)
  have "custom_options env s ?b = ?b\<lparr>written := written ?b @ encode_options os\<rparr>"
    using assms(1) f by (auto simp: extras_fit_def extra_options_def custom_options_def split: option.splits)
  then show ?thesis unfolding o using assms(2) by (simp add: encode_append)
qed

lemma create_msg_buffer: "create_msg a m = (m1, b) \<Longrightarrow> written b = [] \<and> room b = 308 \<and> chaddr m1 = chaddr m"
  by (auto simp: create_msg_def)

lemma send_offer_is:
  assumes "extras_fit env os"
  shows "snd (send_offer env m s) = sent env (reply_bytes DHCPOFFER (client_address s) (offer_list s @ os) m) s"
proof -
  obtain m1 b where c: "create_msg (client_address s) m = (m1, b)" by force
  note cb = create_msg_buffer [OF c]
  have "length (encode_options (offer_list s @ os)) \<le> 304" using assms length_offer_list [of s] by (simp add: extras_fit_def encode_append)
  from reply_is [OF this c refl, of DHCPOFFER] show ?thesis
    using offer_options_written [OF assms, of b s DHCPOFFER] cb by (simp add: send_offer_def c Let_def send_msg_def sent_def)
qed

lemma send_ack_is:
  assumes "extras_fit env os"
  shows "send_ack env m s = (m2, s2) \<Longrightarrow>
    s2 = sent env (reply_bytes DHCPACK (client_address s) (offer_list s @ os) m) s \<and> chaddr m2 = chaddr m"
proof -
  assume a: "send_ack env m s = (m2, s2)"
  obtain m1 b where c: "create_msg (client_address s) m = (m1, b)" by force
  note cb = create_msg_buffer [OF c]
  have "length (encode_options (offer_list s @ os)) \<le> 304" using assms length_offer_list [of s] by (simp add: extras_fit_def encode_append)
  from reply_is [OF this c refl, of DHCPACK] show ?thesis
    using a offer_options_written [OF assms, of b s DHCPACK] cb by (auto simp: send_ack_def c Let_def send_msg_def sent_def with_options_def)
qed

lemma send_nak_is:
  "snd (send_nak env m s) = sent env (reply_bytes DHCPNAK (client_address s) [] m) s"
proof -
  obtain m1 b where c: "create_msg (client_address s) m = (m1, b)" by force
  note cb = create_msg_buffer [OF c]
  have "option_add_u8 DHCP_OPTION_MSG_TYPE DHCPNAK b = b\<lparr>written := written b @ encode_options [(DHCP_OPTION_MSG_TYPE, [DHCPNAK])]\<rparr>"
    using cb by (simp add: option_add_u8_def option_add_fits)
  with reply_is [OF _ c refl, of "[]" DHCPNAK] show ?thesis by (simp add: send_nak_def c Let_def send_msg_def sent_def)
qed

end
