(* ===== verification/Dhcp_Leases.thy ===== *)
theory Dhcp_Leases
  imports Dhcp_Server
begin

text \<open>
  The leases of the DHCP server seen as a map from clients to addresses: addresses of one /24 network are numbered by their last
  byte, \<open>leases_ok\<close> is the invariant of the list, and the lemmas say which address a client is given.
\<close>

section \<open>Addresses of a network\<close>

lemma unat_word_of: "unat (word_of b0 b1 b2 b3) = unat b0 + 256 * unat b1 + 65536 * unat b2 + 16777216 * unat b3"
proof -
  have "word_of b0 b1 b2 b3 = ucast b0 + push_bit 8 (ucast b1) + push_bit 16 (ucast b2) + push_bit 24 (ucast b3)"
    unfolding word_of_def
    by (subst disjunctive_add, (auto simp: bit_simps dest: bit_imp_le_length)[1])+ (simp add: or.assoc)
  then show ?thesis using unat_bound [of b0] unat_bound [of b1] unat_bound [of b2] unat_bound [of b3]
    by (simp add: push_bit_eq_mult unat_word_ariths unsigned_ucast_eq take_bit_eq_mod)
qed

definition net_ip :: "u8 \<times> u8 \<times> u8 \<Rightarrow> nat \<Rightarrow> u32" where
  "net_ip N n = (case N of (a, b, c) \<Rightarrow> word_of a b c (of_nat n))"

lemma net_ip_less: "n < 256 \<Longrightarrow> m < 256 \<Longrightarrow> net_ip N n < net_ip N m \<longleftrightarrow> n < m"
  by (cases N) (simp add: net_ip_def word_less_nat_alt unat_word_of unat_of_nat)

lemma net_ip_eq: "n < 256 \<Longrightarrow> m < 256 \<Longrightarrow> net_ip N n = net_ip N m \<longleftrightarrow> n = m"
  by (metis net_ip_less less_irrefl nat_neq_iff)

lemma net_ip_nonzero: "0 < n \<Longrightarrow> n < 256 \<Longrightarrow> net_ip N n \<noteq> 0"
  by (cases N) (simp add: net_ip_def unat_word_of unat_of_nat unat_eq_zero [symmetric] del: unat_eq_zero)

lemma next_net_ip: "n + 1 < 256 \<Longrightarrow> next_ip (net_ip N n) = net_ip N (n + 1)"
proof (cases N)
  case (fields a b c)
  assume n: "n + 1 < 256"
  have "word_of (of_nat n) c b a + 1 = word_of (of_nat (n + 1)) c b a"
    using n unat_bound [of a] unat_bound [of b] unat_bound [of c]
    by (intro unat_inject) (simp add: unat_word_of unat_of_nat unat_word_ariths)
  then show ?thesis by (simp add: next_ip_def net_ip_def fields htonl_def)
qed

section \<open>The search for an address\<close>

text \<open>The first number from \<open>k\<close> on that is not in an ascending list, as the walk over the leases finds it.\<close>

fun first_free :: "nat \<Rightarrow> nat list \<Rightarrow> nat" where
  "first_free k [] = k"
| "first_free k (h # hs) = (if h = k then first_free (k + 1) hs else k)"

lemma first_free_ge: "k \<le> first_free k hs"
proof (induction hs arbitrary: k)
  case (Cons h hs)
  then show ?case using Suc_leD [OF Cons.IH [of "Suc k"]] by simp
qed simp

lemma first_free_below: "k \<le> m \<Longrightarrow> m < first_free k hs \<Longrightarrow> m \<in> set hs"
proof (induction hs arbitrary: k)
  case (Cons h hs)
  show ?case
  proof (cases "m = k")
    case False
    then show ?thesis using Cons.IH [of "Suc k"] Cons.prems by (auto split: if_splits)
  qed (use Cons.prems in \<open>auto split: if_splits\<close>)
qed simp

lemma first_free_new: "sorted_wrt (<) hs \<Longrightarrow> \<forall>h \<in> set hs. k \<le> h \<Longrightarrow> first_free k hs \<notin> set hs"
proof (induction hs arbitrary: k)
  case (Cons h hs)
  show ?case
  proof (cases "h = k")
    case True
    then have "\<forall>x \<in> set hs. k + 1 \<le> x" using Cons.prems(1) by (simp add: Suc_le_eq)
    then have "first_free (k + 1) hs \<notin> set hs" using Cons.IH [of "k + 1"] Cons.prems(1) by simp
    then show ?thesis using True first_free_ge [of "k + 1" hs] by auto
  next
    case False
    then show ?thesis using Cons.prems by auto
  qed
qed simp

lemma first_free_le: "sorted_wrt (<) (hs @ h # hs') \<Longrightarrow> \<forall>x \<in> set (hs @ h # hs'). k \<le> x \<Longrightarrow> first_free k hs \<le> h"
proof (induction hs arbitrary: k)
  case (Cons x hs)
  show ?case
  proof (cases "x = k")
    case True
    then have "\<forall>y \<in> set (hs @ h # hs'). k + 1 \<le> y" using Cons.prems(1) by (auto simp: Suc_le_eq)
    then show ?thesis using Cons True by simp
  next
    case False
    then show ?thesis using Cons.prems by (auto simp: less_imp_le)
  qed
qed simp

definition host :: "dhcps_pool \<Rightarrow> nat" where
  "host p = unat (byte_of 3 (pool_ip p))"

lemma host_less [simp]: "host p < 256"
  using unat_bound [of "byte_of 3 (pool_ip p)"] by (simp add: host_def)

definition on_net :: "u8 \<times> u8 \<times> u8 \<Rightarrow> dhcps_pool \<Rightarrow> bool" where
  "on_net N p \<longleftrightarrow> pool_ip p = net_ip N (host p)"

lemma host_net_ip: "n < 256 \<Longrightarrow> pool_ip p = net_ip N n \<Longrightarrow> host p = n \<and> on_net N p"
  by (cases N) (simp add: host_def on_net_def net_ip_def unat_of_nat)

text \<open>The nodes before that of a client, and its place.\<close>

definition before :: "u8 list \<Rightarrow> dhcps_pool list \<Rightarrow> dhcps_pool list" where
  "before mac ps = takeWhile (\<lambda>p. pool_mac p \<noteq> mac) ps"

definition place :: "u8 list \<Rightarrow> dhcps_pool list \<Rightarrow> nat option" where
  "place mac ps = (if mac \<in> pool_mac ` set ps then Some (length (before mac ps)) else None)"

lemma before_simps [simp]:
  "before mac [] = []" "before mac (p # ps) = (if pool_mac p = mac then [] else p # before mac ps)"
  by (simp_all add: before_def)

lemma place_simps: "place mac [] = None"
  "place mac (p # ps) = (if pool_mac p = mac then Some 0 else map_option Suc (place mac ps))"
  by (auto simp: place_def)

lemma scan_found_flag:
  "scan_flag c \<Longrightarrow> scan_pool mac None i ps c =
     (case place mac ps of None \<Rightarrow> c | Some j \<Rightarrow> c\<lparr>pmac_node := Some (i + j)\<rparr>)"
  by (induction ps arbitrary: i) (auto simp: place_simps split: option.splits)

lemma scan_free:
  assumes "sorted_wrt (<) (map host ps)" and "\<forall>p \<in> set ps. on_net N p \<and> k \<le> host p \<and> host p < 255"
    and "pmac_node c = None" and "\<not> scan_flag c" and "scan_ip c = net_ip N k" and "k < 256"
  shows "scan_pool mac None i ps c =
    c\<lparr>pmac_node := map_option ((+) i) (place mac ps), scan_ip := net_ip N (first_free k (map host (before mac ps))),
      scan_flag := (place mac ps \<noteq> None \<or> first_free k (map host ps) < k + length ps)\<rparr>"
  using assms
proof (induction ps arbitrary: i k c)
  case Nil
  then show ?case by (simp add: place_simps)
next
  case (Cons p ps)
  show ?case
  proof (cases "pool_mac p = mac")
    case True
    then show ?thesis using Cons.prems by (simp add: place_simps)
  next
    case other: False
    show ?thesis
    proof (cases "host p = k")
      case True
      have n: "next_ip (net_ip N k) = net_ip N (k + 1)" using Cons.prems(2) True by (intro next_net_ip) auto
      have r: "sorted_wrt (<) (map host ps)" "\<forall>q \<in> set ps. on_net N q \<and> k + 1 \<le> host q \<and> host q < 255"
        "k + 1 < 256" using Cons.prems True by auto
      have a: "pool_ip p = net_ip N k" using Cons.prems(2) True by (simp add: on_net_def)
      show ?thesis using Cons.IH [OF r(1,2) _ _ _ r(3), of "c\<lparr>scan_ip := net_ip N (k + 1)\<rparr>" "i + 1"] Cons.prems(3-5) other True a n
        by (auto simp: place_simps option.map_comp comp_def)
    next
      case False
      then have "k < host p" using Cons.prems(2) by (simp add: less_le)
      then have "pool_ip p \<noteq> net_ip N k"
        using Cons.prems(2,6) by (simp add: on_net_def net_ip_eq)
      then show ?thesis using Cons.prems(3-5) other False
        by (auto simp: place_simps scan_found_flag split: option.splits)
    qed
  qed
qed

lemma place_split:
  assumes "place mac ps = Some m"
  obtains q qs where "ps = before mac ps @ q # qs" and "m = length (before mac ps)" and "pool_mac q = mac"
proof -
  have "mac \<in> pool_mac ` set ps" and m: "m = length (before mac ps)" using assms by (auto simp: place_def split: if_splits)
  then have d: "dropWhile (\<lambda>p. pool_mac p \<noteq> mac) ps \<noteq> []" by (auto simp: dropWhile_eq_Nil_conv)
  have h: "pool_mac (hd (dropWhile (\<lambda>p. pool_mac p \<noteq> mac) ps)) = mac" using hd_dropWhile [OF d] by simp
  have "ps = before mac ps @ hd (dropWhile (\<lambda>p. pool_mac p \<noteq> mac) ps) # tl (dropWhile (\<lambda>p. pool_mac p \<noteq> mac) ps)"
    using d by (simp add: before_def)
  then show ?thesis using that m h by blast
qed

lemma before_none: "mac \<notin> pool_mac ` set ps \<Longrightarrow> before mac ps = ps"
  by (induction ps) auto

lemma node_remove_split [simp]: "node_remove_from_list (length xs) (xs @ q # qs) = xs @ qs"
  by (simp add: node_remove_from_list_def)

lemma scan_asks_append:
  "scan_pool mac (Some a) i (xs @ ys) c = scan_pool mac (Some a) (i + length xs) ys (scan_pool mac (Some a) i xs c)"
  by (induction xs arbitrary: i c) (simp_all add: Let_def)

lemma scan_asks_none:
  "\<forall>p \<in> set ps. pool_mac p \<noteq> mac \<and> pool_ip p \<noteq> a \<Longrightarrow> scan_pool mac (Some a) i ps c = c"
  by (induction ps arbitrary: i) simp_all

section \<open>Well-formed leases\<close>

text \<open>
  \<open>leases_ok\<close>: the nodes hold distinct addresses of one range in ascending order, for distinct clients.  \<open>leases\<close> is what the
  list stands for: the last number of the address of each client.
\<close>

definition leases_ok :: "u8 \<times> u8 \<times> u8 \<Rightarrow> nat \<Rightarrow> nat \<Rightarrow> dhcps_pool list \<Rightarrow> bool" where
  "leases_ok N lo hi ps \<longleftrightarrow> sorted_wrt (<) (map host ps) \<and> (\<forall>p \<in> set ps. on_net N p \<and> lo \<le> host p \<and> host p \<le> hi) \<and>
     distinct (map pool_mac ps)"

definition leases :: "dhcps_pool list \<Rightarrow> u8 list \<rightharpoonup> nat" where
  "leases ps = map_of (map (\<lambda>p. (pool_mac p, host p)) ps)"

lemma leases_dom: "dom (leases ps) = pool_mac ` set ps"
  by (auto simp: leases_def dom_map_of_conv_image_fst image_image)

lemma leases_iff: "distinct (map pool_mac ps) \<Longrightarrow> leases ps mac = Some h \<longleftrightarrow> (\<exists>p \<in> set ps. pool_mac p = mac \<and> host p = h)"
  by (auto simp: leases_def map_of_eq_Some_iff comp_def)

lemma leases_append: "mac \<notin> pool_mac ` set xs \<Longrightarrow> leases (xs @ q # qs) = (leases (xs @ qs))(pool_mac q \<mapsto> host q)"
  if "pool_mac q = mac" for mac
  using that by (auto simp: leases_def map_add_def fun_eq_iff dom_map_of_conv_image_fst image_image split: option.splits dest!: map_of_SomeD)

lemma set_node_insert [simp]: "set (node_insert_to_list p ps) = insert p (set ps)"
  by (induction ps) auto

lemma node_insert_split:
  obtains xs ys where "ps = xs @ ys" and "node_insert_to_list p ps = xs @ p # ys"
    and "\<forall>q \<in> set xs. \<not> pool_ip p < pool_ip q" and "ys \<noteq> [] \<longrightarrow> pool_ip p < pool_ip (hd ys)"
proof (induction ps arbitrary: thesis)
  case Nil
  then show ?case by (simp add: Nil [of "[]" "[]"])
next
  case (Cons q qs)
  show ?case
  proof (cases "pool_ip p < pool_ip q")
    case True
    then show ?thesis using Cons.prems [of "[]" "q # qs"] by simp
  next
    case False
    obtain xs ys where "qs = xs @ ys" "node_insert_to_list p qs = xs @ p # ys" "\<forall>q \<in> set xs. \<not> pool_ip p < pool_ip q"
      "ys \<noteq> [] \<longrightarrow> pool_ip p < pool_ip (hd ys)" using Cons.IH by blast
    then show ?thesis using Cons.prems [of "q # xs" ys] False by simp
  qed
qed

lemma leases_insert: "pool_mac p \<notin> pool_mac ` set ps \<Longrightarrow> leases (node_insert_to_list p ps) = (leases ps)(pool_mac p \<mapsto> host p)"
  by (rule node_insert_split [of ps p]) (simp add: leases_append image_Un)

lemma leases_ok_insert:
  assumes "leases_ok N lo hi ps" and "on_net N p" and "lo \<le> host p" and "host p \<le> hi" and "host p \<notin> host ` set ps"
    and "pool_mac p \<notin> pool_mac ` set ps"
  shows "leases_ok N lo hi (node_insert_to_list p ps)"
proof (rule node_insert_split [of ps p])
  fix xs ys
  assume s: "ps = xs @ ys" "node_insert_to_list p ps = xs @ p # ys" "\<forall>q \<in> set xs. \<not> pool_ip p < pool_ip q"
    "ys \<noteq> [] \<longrightarrow> pool_ip p < pool_ip (hd ys)"
  have less: "pool_ip p < pool_ip q \<longleftrightarrow> host p < host q" if "q \<in> set ps" for q
    using assms(1,2) that by (simp add: leases_ok_def on_net_def) (metis net_ip_less host_less)
  have "host q \<noteq> host p" if "q \<in> set ps" for q using assms(5) that by (metis image_eqI)
  then have x: "\<forall>q \<in> set xs. host q < host p" using s(1,3) less by (metis Un_iff nat_neq_iff set_append)
  have y: "\<forall>q \<in> set ys. host p < host q"
  proof (cases ys)
    case (Cons z zs)
    then have "host p < host z" using s(1,4) less [of z] by simp
    then show ?thesis using assms(1) s(1) Cons by (auto simp: leases_ok_def sorted_wrt_append)
  qed simp
  show ?thesis using assms x y unfolding s(2) by (auto simp: leases_ok_def s(1) sorted_wrt_append)
qed

lemma leases_ok_remove:
  assumes "leases_ok N lo hi (xs @ q # ys)"
  shows "leases_ok N lo hi (xs @ ys)" and "pool_mac q \<notin> pool_mac ` set (xs @ ys)" and "host q \<notin> host ` set (xs @ ys)"
    and "leases (xs @ q # ys) = (leases (xs @ ys))(pool_mac q \<mapsto> host q)"
  using assms by (auto simp: leases_ok_def sorted_wrt_append leases_append)

section \<open>A client that asks for any address\<close>

text \<open>The least number of the range that no other client holds.\<close>

definition least_free :: "nat \<Rightarrow> (u8 list \<rightharpoonup> nat) \<Rightarrow> u8 list \<Rightarrow> nat \<Rightarrow> bool" where
  "least_free lo L mac n \<longleftrightarrow> lo \<le> n \<and> n \<notin> ran (L(mac := None)) \<and> (\<forall>m. lo \<le> m \<and> m < n \<longrightarrow> m \<in> ran (L(mac := None)))"

lemma ran_leases_others:
  "distinct (map pool_mac ps) \<Longrightarrow> ran ((leases ps)(mac := None)) = host ` {p \<in> set ps. pool_mac p \<noteq> mac}"
  by (auto simp: ran_def leases_iff split: if_splits)

lemma leases_hosts: "distinct (map pool_mac ps) \<Longrightarrow> ran (leases ps) = host ` set ps"
  by (auto simp: ran_def leases_iff)

lemma first_free_least:
  assumes "leases_ok N lo hi ps"
  shows "least_free lo (leases ps) mac (first_free lo (map host (before mac ps)))"
proof -
  let ?b = "before mac ps"
  let ?n = "first_free lo (map host ?b)"
  have d: "distinct (map pool_mac ps)" using assms by (simp add: leases_ok_def)
  have b: "set ?b \<subseteq> {p \<in> set ps. pool_mac p \<noteq> mac}" by (auto simp: before_def dest: set_takeWhileD)
  have new: "?n \<notin> host ` {p \<in> set ps. pool_mac p \<noteq> mac}"
  proof (cases "place mac ps")
    case None
    then have e: "?b = ps" by (intro before_none) (auto simp: place_def split: if_splits)
    have "?n \<notin> set (map host ps)" unfolding e using assms by (intro first_free_new) (auto simp: leases_ok_def)
    then show ?thesis by auto
  next
    case (Some m)
    obtain q qs where s: "ps = ?b @ q # qs" "m = length ?b" "pool_mac q = mac" by (rule place_split [OF Some])
    then obtain bs where bs: "?b = bs" "ps = bs @ q # qs" by blast
    have srt: "sorted_wrt (<) (map host bs @ host q # map host qs)" and ge: "\<forall>h \<in> set (map host bs @ host q # map host qs). lo \<le> h"
      using assms bs(2) by (auto simp: leases_ok_def)
    have "first_free lo (map host bs) \<le> host q" by (rule first_free_le [OF srt ge])
    moreover have "first_free lo (map host bs) \<notin> set (map host bs)" using srt ge by (intro first_free_new) (auto simp: sorted_wrt_append)
    moreover have "\<forall>p \<in> set qs. host q < host p" using srt by (auto simp: sorted_wrt_append)
    moreover have "{p \<in> set ps. pool_mac p \<noteq> mac} \<subseteq> set bs \<union> set qs" using bs(2) s(3) by auto
    ultimately show ?thesis unfolding bs(1) by fastforce
  qed
  moreover have "m \<in> host ` {p \<in> set ps. pool_mac p \<noteq> mac}" if "lo \<le> m" "m < ?n" for m
    using first_free_below [OF that] b by auto
  ultimately show ?thesis by (simp add: least_free_def ran_leases_others [OF d] first_free_ge)
qed

lemma least_free_unique: "least_free lo L mac n \<Longrightarrow> least_free lo L mac m \<Longrightarrow> n = m"
  unfolding least_free_def by (meson nat_neq_iff)

definition range_ok :: "u8 \<times> u8 \<times> u8 \<Rightarrow> nat \<Rightarrow> nat \<Rightarrow> dhcp_server \<Rightarrow> bool" where
  "range_ok N lo hi s \<longleftrightarrow> start_ip s = net_ip N lo \<and> end_ip s = net_ip N hi \<and> lo \<le> hi \<and> hi < 255 \<and> leases_ok N lo hi (plist s)"

lemma granted_sel [simp]:
  "pool_ip (granted s t p) = pool_ip p" "pool_mac (granted s t p) = pool_mac p"
  "host (granted s t p) = host p" "on_net N (granted s t p) = on_net N p"
  by (simp_all add: granted_def host_def on_net_def)

lemma least_free_holder:
  assumes "leases_ok N lo hi ps" and "least_free lo (leases ps) mac n" and "mac \<in> dom (leases ps)"
  shows "n \<le> hi"
proof -
  have d: "distinct (map pool_mac ps)" using assms(1) by (simp add: leases_ok_def)
  obtain p where p: "p \<in> set ps" "pool_mac p = mac" using assms(3) by (auto simp: leases_dom)
  then obtain xs ys where s: "ps = xs @ p # ys" by (meson split_list)
  have "host p \<notin> host ` set (xs @ ys)" using leases_ok_remove(3) assms(1) s by blast
  then have "host p \<notin> host ` {q \<in> set ps. pool_mac q \<noteq> mac}" using s p(2) by auto
  then have "\<not> host p < n" using assms(1,2) p(1) unfolding least_free_def ran_leases_others [OF d] by (auto simp: leases_ok_def)
  moreover have "host p \<le> hi" using assms(1) p(1) by (simp add: leases_ok_def)
  ultimately show ?thesis by simp
qed

lemma discover_scan:
  assumes "range_ok N lo hi s"
  shows "scan_pool mac None 0 (plist s) \<lparr>pmac_node = None, pip_node = None, scan_flag = False, scan_ip = start_ip s\<rparr> =
    \<lparr>pmac_node = place mac (plist s), pip_node = None,
     scan_flag = (place mac (plist s) \<noteq> None \<or> first_free lo (map host (plist s)) < lo + length (plist s)),
     scan_ip = net_ip N (first_free lo (map host (before mac (plist s))))\<rparr>"
proof -
  have "map_option ((+) (0::nat)) = id" by (auto simp: fun_eq_iff option.map_ident_strong)
  then show ?thesis using assms by (subst scan_free [of _ N lo]) (auto simp: range_ok_def leases_ok_def)
qed

lemma first_free_bound: "\<forall>h \<in> set hs. h \<le> m \<Longrightarrow> k \<le> m + 1 \<Longrightarrow> first_free k hs \<le> m + 1"
  by (induction hs arbitrary: k) auto

lemma client_discover:
  assumes r: "range_ok N lo hi s"
  shows "\<exists>n. least_free lo (leases (plist s)) mac n \<and>
    (if n \<le> hi
     then \<exists>P. dhcps_client_update True mac 0 s = Some (net_ip N n, s\<lparr>renew := False, plist := P\<rparr>) \<and> leases_ok N lo hi P \<and>
       leases P = (leases (plist s))(mac \<mapsto> n)
     else mac \<notin> dom (leases (plist s)) \<and> dhcps_client_update True mac 0 s = Some (0, s\<lparr>renew := False\<rparr>))"
proof -
  define ps where "ps = plist s"
  define n where "n = first_free lo (map host (before mac ps))"
  have ok: "leases_ok N lo hi ps" and b: "lo \<le> hi" "hi < 255" and e: "end_ip s = net_ip N hi" using r by (simp_all add: range_ok_def ps_def)
  have lf: "least_free lo (leases ps) mac n" using first_free_least [OF ok] by (simp add: n_def)
  have d: "distinct (map pool_mac ps)" using ok by (simp add: leases_ok_def)
  have "\<forall>h \<in> set (map host (before mac ps)). h \<le> hi" using ok by (auto simp: leases_ok_def before_def dest: set_takeWhileD)
  then have n256: "n < 256" using first_free_bound [of _ hi lo] b unfolding n_def by fastforce
  have cmp: "net_ip N hi < net_ip N n \<longleftrightarrow> hi < n" using n256 b by (simp add: net_ip_less)
  note scan = discover_scan [OF r, of mac, folded ps_def, folded n_def]
  have lo_n: "lo \<le> n" using lf by (simp add: least_free_def)
  show ?thesis
  proof (cases "place mac ps")
    case None
    then have new: "mac \<notin> pool_mac ` set ps" by (auto simp: place_def split: if_splits)
    have up: "dhcps_client_update True mac 0 s = (if hi < n then Some (0, s\<lparr>renew := False\<rparr>)
      else Some (net_ip N n, s\<lparr>renew := False, plist := node_insert_to_list (granted (s\<lparr>renew := False\<rparr>) DHCPS_TYPE_DYNAMIC
        \<lparr>pool_ip = net_ip N n, pool_mac = mac, lease_timer = 0, pool_type = DHCPS_TYPE_DYNAMIC, pool_state = DHCPS_STATE_ONLINE\<rparr>) ps\<rparr>))"
      using scan None cmp e by (simp add: dhcps_client_update_def IPADDR_BROADCAST_def IPADDR_ANY_def Let_def ps_def)
    show ?thesis
    proof (cases "hi < n")
      case True
      then show ?thesis using up lf new by (intro exI [of _ n]) (simp add: ps_def leases_dom)
    next
      case False
      let ?p = "granted (s\<lparr>renew := False\<rparr>) DHCPS_TYPE_DYNAMIC
        \<lparr>pool_ip = net_ip N n, pool_mac = mac, lease_timer = 0, pool_type = DHCPS_TYPE_DYNAMIC, pool_state = DHCPS_STATE_ONLINE\<rparr>"
      have h: "host ?p = n" "on_net N ?p" using host_net_ip [of n ?p N] n256 by simp_all
      have "n \<notin> host ` set ps" using lf new unfolding least_free_def ran_leases_others [OF d] by auto
      then have "leases_ok N lo hi (node_insert_to_list ?p ps)" using ok h lo_n False new by (intro leases_ok_insert) simp_all
      moreover have "leases (node_insert_to_list ?p ps) = (leases ps)(mac \<mapsto> n)" using new h by (subst leases_insert) simp_all
      ultimately have "\<exists>P. dhcps_client_update True mac 0 s = Some (net_ip N n, s\<lparr>renew := False, plist := P\<rparr>) \<and>
          leases_ok N lo hi P \<and> leases P = (leases ps)(mac \<mapsto> n)"
        using up False by (intro exI [of _ "node_insert_to_list ?p ps"]) simp
      then show ?thesis using lf False by (intro exI [of _ n]) (simp add: ps_def)
    qed
  next
    case (Some m)
    obtain q qs where s0: "ps = before mac ps @ q # qs" "m = length (before mac ps)" "pool_mac q = mac" by (rule place_split [OF Some])
    then obtain bs where bs: "before mac ps = bs" "ps = bs @ q # qs" by blast
    let ?p = "granted (s\<lparr>renew := False\<rparr>) DHCPS_TYPE_DYNAMIC (q\<lparr>pool_ip := net_ip N n\<rparr>)"
    have up: "dhcps_client_update True mac 0 s =
        Some (net_ip N n, s\<lparr>renew := False, plist := node_insert_to_list ?p (bs @ qs)\<rparr>)"
      using scan Some s0(2) bs by (simp add: dhcps_client_update_def IPADDR_BROADCAST_def IPADDR_ANY_def Let_def ps_def nth_append)
    have rm: "leases_ok N lo hi (bs @ qs)" "mac \<notin> pool_mac ` set (bs @ qs)" "leases ps = (leases (bs @ qs))(mac \<mapsto> host q)"
      using leases_ok_remove [of N lo hi bs q qs] ok bs(2) s0(3) by auto
    have "mac \<in> dom (leases ps)" using rm(3) by simp
    then have hi: "n \<le> hi" using least_free_holder [OF ok lf] by simp
    have h: "host ?p = n" "on_net N ?p" using host_net_ip [of n ?p N] n256 by simp_all
    have "n \<notin> host ` {p \<in> set ps. pool_mac p \<noteq> mac}" using lf unfolding least_free_def ran_leases_others [OF d] by simp
    then have "n \<notin> host ` set (bs @ qs)" using rm(2) bs(2) by auto
    then have "leases_ok N lo hi (node_insert_to_list ?p (bs @ qs))" using rm h lo_n hi s0(3) by (intro leases_ok_insert) simp_all
    moreover have "leases (node_insert_to_list ?p (bs @ qs)) = (leases ps)(mac \<mapsto> n)"
      using rm h s0(3) by (subst leases_insert) simp_all
    ultimately have "\<exists>P. dhcps_client_update True mac 0 s = Some (net_ip N n, s\<lparr>renew := False, plist := P\<rparr>) \<and>
        leases_ok N lo hi P \<and> leases P = (leases ps)(mac \<mapsto> n)"
      using up by (intro exI [of _ "node_insert_to_list ?p (bs @ qs)"]) simp
    then show ?thesis using lf hi by (intro exI [of _ n]) (simp add: ps_def)
  qed
qed

section \<open>A client that asks for an address\<close>

text \<open>Asking for the address one holds renews the lease; asking for a free address, whatever it is, yields it.\<close>

lemma client_renew:
  assumes r: "range_ok N lo hi s" and l: "leases (plist s) mac = Some h" and a: "net_ip N h \<noteq> 0" "net_ip N h \<noteq> IPADDR_BROADCAST"
  shows "\<exists>P. dhcps_client_update memory mac (net_ip N h) s = Some (net_ip N h, s\<lparr>renew := True, plist := P\<rparr>) \<and>
    leases_ok N lo hi P \<and> leases P = leases (plist s)"
proof -
  have ok: "leases_ok N lo hi (plist s)" using r by (simp add: range_ok_def)
  then obtain p where p: "p \<in> set (plist s)" "pool_mac p = mac" "host p = h" using l leases_iff by (fastforce simp: leases_ok_def)
  then obtain xs ys where s: "plist s = xs @ p # ys" by (meson split_list)
  have pi: "pool_ip p = net_ip N h" using ok p by (simp add: leases_ok_def on_net_def)
  have rest: "\<forall>q \<in> set (xs @ ys). pool_mac q \<noteq> mac \<and> pool_ip q \<noteq> net_ip N h"
  proof
    fix q assume q: "q \<in> set (xs @ ys)"
    note rm = leases_ok_remove(2,3) [OF ok [unfolded s]]
    have "pool_mac q \<noteq> mac" "host q \<noteq> h" using rm q p(2,3) by (metis image_eqI)+
    moreover have "pool_ip q = net_ip N (host q)" using ok q s by (auto simp: leases_ok_def on_net_def)
    ultimately show "pool_mac q \<noteq> mac \<and> pool_ip q \<noteq> net_ip N h" using net_ip_eq [of "host q" h N] p(3) by auto
  qed
  have scan: "scan_pool mac (Some (net_ip N h)) 0 (plist s) c = c\<lparr>pmac_node := Some (length xs), pip_node := Some (length xs)\<rparr>" for c
    using rest p(2) pi by (simp add: s scan_asks_append scan_asks_none)
  let ?p = "granted (s\<lparr>renew := False\<rparr>) DHCPS_TYPE_DYNAMIC p"
  have up: "dhcps_client_update memory mac (net_ip N h) s = Some (net_ip N h, s\<lparr>renew := True, plist := xs @ ?p # ys\<rparr>)"
    using a by (simp add: dhcps_client_update_def IPADDR_ANY_def Let_def scan, simp add: s pi)
  have "leases_ok N lo hi (xs @ ?p # ys)" using ok by (simp add: s leases_ok_def)
  moreover have "leases (xs @ ?p # ys) = leases (plist s)" by (simp add: s leases_def)
  ultimately show ?thesis using up by blast
qed

lemma client_takes_any:
  assumes "ip \<noteq> 0" and "ip \<noteq> IPADDR_BROADCAST" and "mac \<notin> pool_mac ` set (plist s)" and "ip \<notin> pool_ip ` set (plist s)" and "ip \<le> end_ip s"
  shows "dhcps_client_update True mac ip s = Some (ip, s\<lparr>renew := False, plist := node_insert_to_list
    \<lparr>pool_ip = ip, pool_mac = mac, lease_timer = lease_time s, pool_type = DHCPS_TYPE_STATIC, pool_state = DHCPS_STATE_ONLINE\<rparr> (plist s)\<rparr>)"
proof -
  have "\<forall>p \<in> set (plist s). pool_mac p \<noteq> mac \<and> pool_ip p \<noteq> ip" using assms(3,4) by auto
  then show ?thesis using assms(1,2,5)
    by (simp add: dhcps_client_update_def IPADDR_ANY_def Let_def scan_asks_none not_less granted_def)
qed

end
