(* ===== verification/Dhcp_Requests.thy ===== *)
theory Dhcp_Requests
  imports Dhcp_Options Dhcp_Leases
begin

text \<open>
  Packets of clients and what the DHCP server does with them: the reply to a well-formed request, and the invariant of the
  leases as long as clients ask for no address but their own.
\<close>

section \<open>Requests as packets\<close>

text \<open>
  \<open>is_request p mac ci os\<close>: the packet \<open>p\<close> fits the server's message, comes from the client \<open>mac\<close> that has the address
  \<open>ci\<close> (0 for none), and has the well-formed options \<open>os\<close>.
\<close>

definition is_request :: "u8 list list \<Rightarrow> u8 list \<Rightarrow> u32 \<Rightarrow> (u8 \<times> u8 list) list \<Rightarrow> bool" where
  "is_request p mac ci os \<longleftrightarrow> p \<noteq> [] \<and> length p \<le> 2 \<and> length (concat p) \<le> sizeof_dhcps_msg \<and>
     (\<exists>h rest. concat p = h @ bytes_of MagicCookie @ encode_options os @ DHCP_OPTION_END # rest \<and> length h = 236 \<and>
        take 6 (drop 28 h) = mac \<and> u32_of (take 4 (drop 12 h)) = ci) \<and>
     (\<forall>x \<in> set os. option_ok x)"

lemma options_len_small: "240 \<le> length (concat p) \<Longrightarrow> length (concat p) \<le> 548 \<Longrightarrow> options_len p = int (length (concat p)) - 240"
proof -
  assume l: "240 \<le> length (concat p)" "length (concat p) \<le> 548"
  have "(of_nat (n + 240) :: u16) - 240 = of_nat n" for n by simp
  from this [of "length (concat p) - 240"] l(1)
  have e: "(of_nat (length (concat p)) :: u16) - 240 = of_nat (length (concat p) - 240)" by (metis le_add_diff_inverse2)
  have "sint (of_nat n :: u16) = int n" if "n \<le> 308" for n
    using that by (simp add: sint_uint uint_nat unat_of_nat signed_take_bit_int_eq_self)
  from this [of "length (concat p) - 240"] l show ?thesis unfolding options_len_def e by (simp add: of_nat_diff)
qed

lemma request_parsed:
  assumes "is_request p mac ci os"
  shows "\<exists>bs. copy_packet p = Some bs \<and> length bs = 548 \<and> hw_addr (msg_of_bytes bs) = mac \<and> u32_of (ciaddr (msg_of_bytes bs)) = ci \<and>
    take 4 (options (msg_of_bytes bs)) = bytes_of MagicCookie \<and>
    (\<exists>rest. drop 4 (options (msg_of_bytes bs)) = encode_options os @ DHCP_OPTION_END # rest) \<and> int (length (encode_options os)) < options_len p"
proof -
  obtain h rest where c: "concat p = h @ bytes_of MagicCookie @ encode_options os @ DHCP_OPTION_END # rest" "length h = 236"
    "take 6 (drop 28 h) = mac" "u32_of (take 4 (drop 12 h)) = ci" using assms by (auto simp: is_request_def)
  have l: "length (concat p) \<le> 548" "length p \<le> 2" using assms by (simp_all add: is_request_def sizeof_dhcps_msg_def)
  let ?z = "replicate (548 - length (concat p)) (0 :: u8)"
  let ?t = "encode_options os @ DHCP_OPTION_END # rest"
  let ?bs = "concat p @ ?z"
  have bs: "?bs = h @ bytes_of MagicCookie @ ?t @ ?z" by (simp add: c(1))
  have len: "length ?bs = 548" using l by simp
  then have lt: "length (?t @ ?z) = 308" using c(2) by (simp add: bs)
  have "copy_packet p = Some ?bs" using l by (simp add: copy_packet_def sizeof_dhcps_msg_def Let_def)
  moreover have "options (msg_of_bytes ?bs) = bytes_of MagicCookie @ ?t @ ?z"
    using lt c(2) unfolding bs by (simp add: msg_of_bytes_def field_def)
  moreover have "chaddr (msg_of_bytes ?bs) = take 16 (drop 28 h)" "ciaddr (msg_of_bytes ?bs) = take 4 (drop 12 h)"
    using c(2) unfolding bs by (simp_all add: msg_of_bytes_def field_def)
  moreover have "int (length (encode_options os)) < options_len p"
    using options_len_small [of p] l c(1,2) by simp
  ultimately show ?thesis using c(3,4) len by (intro exI [of _ ?bs]) (simp add: hw_addr_def)
qed

text \<open>The reply to a request, once the leases are updated to \<open>s\<close> and the client has the address \<open>a\<close>.\<close>

definition answer :: "dhcp_env \<Rightarrow> (u8 \<times> u8 list) list \<Rightarrow> u8 list \<Rightarrow> dhcps_msg \<Rightarrow> nat \<Rightarrow> dhcp_server \<Rightarrow> dhcp_server" where
  "answer env xs mac m ret s =
     (if ret = DHCPS_STATE_OFFER then sent env (reply_bytes DHCPOFFER (client_address s) (offer_list s @ xs) m) s
      else if ret = DHCPS_STATE_ACK
      then station_info mac (client_address s) (sent env (reply_bytes DHCPACK (client_address s) (offer_list s @ xs) m) s)
      else if ret = DHCPS_STATE_NAK then sent env (reply_bytes DHCPNAK (client_address s) [] m) s
      else s)"

lemma handle_request:
  assumes "is_request p mac ci os" and "msg_memory env" and "extras_fit env xs"
    and "dhcps_client_update (lease_memory env) mac ci s = Some (a, s1)"
  shows "\<exists>bs. copy_packet p = Some bs \<and> hw_addr (msg_of_bytes bs) = mac \<and>
    handle_dhcp env p s = Some (let ret = parse_verdict (renew s1) (message_type os 0) (request_state a os DHCPS_STATE_IDLE) in
      if ret = DHCPS_STATE_RELEASE then (dhcps_client_leave mac ci True (s1\<lparr>client_address := a\<rparr>))\<lparr>client_address := ci\<rparr>
      else answer env xs mac (msg_of_bytes bs) ret (s1\<lparr>client_address := a\<rparr>))"
proof -
  obtain bs where bs: "copy_packet p = Some bs" "length bs = 548" "hw_addr (msg_of_bytes bs) = mac" "u32_of (ciaddr (msg_of_bytes bs)) = ci"
    "take 4 (options (msg_of_bytes bs)) = bytes_of MagicCookie" "int (length (encode_options os)) < options_len p"
    and rest: "\<exists>rest. drop 4 (options (msg_of_bytes bs)) = encode_options os @ DHCP_OPTION_END # rest"
    using request_parsed [OF assms(1)] by blast
  obtain rest where o: "drop 4 (options (msg_of_bytes bs)) = encode_options os @ DHCP_OPTION_END # rest" using rest by blast
  have "\<forall>x \<in> set os. option_ok x" using assms(1) by (simp add: is_request_def)
  note po = parse_encoded [OF this o bs(6)]
  let ?m = "msg_of_bytes bs"
  let ?s = "s1\<lparr>client_address := a\<rparr>"
  let ?ret = "parse_verdict (renew s1) (message_type os 0) (request_state a os DHCPS_STATE_IDLE)"
  have pm: "parse_msg env ?m (options_len p) s = Some (?ret, if ?ret = DHCPS_STATE_RELEASE
      then (dhcps_client_leave mac ci True ?s)\<lparr>client_address := ci\<rparr> else ?s)"
    using bs(3-5) assms(4) po by (simp add: parse_msg_def Let_def)
  have "p \<noteq> []" using assms(1) by (simp add: is_request_def)
  moreover have "hw_addr m2 = mac" if "send_ack env ?m ?s = (m2, s2)" for m2 s2
    using send_ack_is [OF assms(3) that] bs(3) by (simp add: hw_addr_def)
  moreover have "s2 = sent env (reply_bytes DHCPACK (client_address ?s) (offer_list ?s @ xs) ?m) ?s" if "send_ack env ?m ?s = (m2, s2)" for m2 s2
    using send_ack_is [OF assms(3) that] by simp
  moreover have "client_address (sent env b t) = client_address t" for b t by (simp add: sent_def)
  moreover have "client_address s2 = a" if "send_ack env ?m ?s = (m2, s2)" for m2 s2
    using send_ack_is [OF assms(3) that] by (simp add: sent_def)
  moreover have "DHCPS_STATE_RELEASE \<noteq> DHCPS_STATE_OFFER" "DHCPS_STATE_RELEASE \<noteq> DHCPS_STATE_ACK" "DHCPS_STATE_RELEASE \<noteq> DHCPS_STATE_NAK"
    by (simp_all add: dhcps_states)
  ultimately have "handle_dhcp env p s = Some (if ?ret = DHCPS_STATE_RELEASE then (dhcps_client_leave mac ci True ?s)\<lparr>client_address := ci\<rparr>
      else answer env xs mac ?m ?ret ?s)"
    using bs(1) assms(2) pm
    by (simp add: handle_dhcp_def answer_def send_offer_is [OF assms(3)] send_nak_is split: prod.splits)
  then show ?thesis using bs(1,3) by (intro exI [of _ bs]) (simp add: Let_def)
qed

section \<open>Clients that ask for no address but their own\<close>

lemma net_ip_no_broadcast: "n < 255 \<Longrightarrow> net_ip N n \<noteq> IPADDR_BROADCAST"
proof
  assume n: "n < 255" and e: "net_ip N n = IPADDR_BROADCAST"
  have "byte_of 3 (net_ip N n) = of_nat n" by (cases N) (simp add: net_ip_def)
  moreover have "byte_of 3 IPADDR_BROADCAST = 255" by (simp add: byte_of_def IPADDR_BROADCAST_def)
  ultimately have "unat (of_nat n :: u8) = 255" using e by simp
  then show False using n by (simp add: unat_of_nat)
qed

lemma range_ok_sel [simp]:
  "range_ok N lo hi (s\<lparr>client_address := a\<rparr>) = range_ok N lo hi s"
  "range_ok N lo hi (s\<lparr>events := es\<rparr>) = range_ok N lo hi s"
  "range_ok N lo hi (s\<lparr>renew := r\<rparr>) = range_ok N lo hi s"
  "range_ok N lo hi (station_info mac a s) = range_ok N lo hi s"
  "range_ok N lo hi (sent env bs s) = range_ok N lo hi s"
  by (simp_all add: range_ok_def station_info_def sent_def)

lemma range_ok_answer [simp]: "range_ok N lo hi (answer env xs mac m ret s) = range_ok N lo hi s"
  by (simp add: answer_def)

lemma range_ok_plist: "range_ok N lo hi s \<Longrightarrow> leases_ok N lo hi P \<Longrightarrow> range_ok N lo hi (s\<lparr>plist := P\<rparr>)"
  by (simp add: range_ok_def)

lemma find_lease_less: "find_lease mac a i ps = Some j \<Longrightarrow> i \<le> j \<and> j < i + length ps"
  by (induction ps arbitrary: i) (fastforce split: if_splits)+

lemma range_ok_leave: "range_ok N lo hi s \<Longrightarrow> range_ok N lo hi (dhcps_client_leave mac a force s)"
proof (cases "find_lease mac a 0 (plist s)")
  case (Some j)
  assume r: "range_ok N lo hi s"
  let ?ps = "plist s"
  have "j < length ?ps" using find_lease_less [OF Some] by simp
  then have s: "?ps = take j ?ps @ ?ps ! j # drop (Suc j) ?ps" by (rule id_take_nth_drop)
  have ok: "leases_ok N lo hi ?ps" using r by (simp add: range_ok_def)
  have "leases_ok N lo hi (node_remove_from_list j ?ps)"
    using leases_ok_remove(1) [of N lo hi "take j ?ps" "?ps ! j" "drop (Suc j) ?ps"] ok s by (simp add: node_remove_from_list_def)
  moreover have "leases_ok N lo hi (?ps[j := (?ps ! j)\<lparr>pool_state := DHCPS_STATE_OFFLINE\<rparr>])"
  proof -
    have h: "host (p\<lparr>pool_state := x\<rparr>) = host p" "on_net N (p\<lparr>pool_state := x\<rparr>) = on_net N p" for p x
      by (simp_all add: host_def on_net_def)
    have "leases_ok N lo hi (xs @ q # ys) = leases_ok N lo hi (xs @ q\<lparr>pool_state := x\<rparr> # ys)" for xs q ys x
      by (simp add: leases_ok_def h)
    then show ?thesis using ok s \<open>j < length ?ps\<close> by (metis upd_conv_take_nth_drop)
  qed
  ultimately show ?thesis using Some r by (simp add: dhcps_client_leave_def Let_def range_ok_plist)
qed (simp add: dhcps_client_leave_def)

definition own_address :: "u8 \<times> u8 \<times> u8 \<Rightarrow> dhcp_server \<Rightarrow> u8 list \<Rightarrow> u32 \<Rightarrow> bool" where
  "own_address N s mac ci \<longleftrightarrow> ci = 0 \<or> (\<exists>h. leases (plist s) mac = Some h \<and> ci = net_ip N h)"

lemma update_honest:
  assumes r: "range_ok N lo hi s" and "0 < lo" and o: "own_address N s mac ci"
  shows "\<exists>a b P. dhcps_client_update True mac ci s = Some (a, s\<lparr>renew := b, plist := P\<rparr>) \<and> leases_ok N lo hi P"
proof (cases "ci = 0")
  case True
  obtain n where n: "if n \<le> hi
     then \<exists>P. dhcps_client_update True mac 0 s = Some (net_ip N n, s\<lparr>renew := False, plist := P\<rparr>) \<and> leases_ok N lo hi P \<and>
       leases P = (leases (plist s))(mac \<mapsto> n)
     else mac \<notin> dom (leases (plist s)) \<and> dhcps_client_update True mac 0 s = Some (0, s\<lparr>renew := False\<rparr>)"
    using client_discover [OF r, of mac] by blast
  show ?thesis
  proof (cases "n \<le> hi")
    case True
    with n show ?thesis unfolding \<open>ci = 0\<close> by (metis (full_types))
  next
    case False
    have "s\<lparr>renew := False, plist := plist s\<rparr> = s\<lparr>renew := False\<rparr>" by simp
    moreover have "leases_ok N lo hi (plist s)" using r by (simp add: range_ok_def)
    ultimately show ?thesis using n False unfolding \<open>ci = 0\<close> by metis
  qed
next
  case False
  then obtain h where h: "leases (plist s) mac = Some h" "ci = net_ip N h" using o by (auto simp: own_address_def)
  have "h < 255" using r h(1) by (auto simp: range_ok_def leases_ok_def leases_iff)
  then show ?thesis using client_renew [OF r h(1), of True] False h(2) net_ip_no_broadcast by blast
qed

lemma handle_honest:
  assumes "range_ok N lo hi s" and "0 < lo" and "is_request p mac ci os" and "own_address N s mac ci"
    and "msg_memory env" and "lease_memory env" and "extras_fit env xs"
  shows "\<exists>s'. handle_dhcp env p s = Some s' \<and> range_ok N lo hi s'"
proof -
  obtain a b P where u: "dhcps_client_update (lease_memory env) mac ci s = Some (a, s\<lparr>renew := b, plist := P\<rparr>)" "leases_ok N lo hi P"
    using update_honest [OF assms(1,2,4)] assms(6) by auto
  have "range_ok N lo hi (s\<lparr>renew := b, plist := P\<rparr>)" using assms(1) u(2) by (simp add: range_ok_def)
  then have r: "range_ok N lo hi (s\<lparr>renew := b, plist := P, client_address := a\<rparr>)" by simp
  note l = range_ok_leave [OF r, of mac ci True]
  obtain bs where "handle_dhcp env p s =
      Some (let ret = parse_verdict b (message_type os 0) (request_state a os DHCPS_STATE_IDLE) in
        if ret = DHCPS_STATE_RELEASE
        then (dhcps_client_leave mac ci True (s\<lparr>renew := b, plist := P, client_address := a\<rparr>))\<lparr>client_address := ci\<rparr>
        else answer env xs mac (msg_of_bytes bs) ret (s\<lparr>renew := b, plist := P, client_address := a\<rparr>))"
    using handle_request [OF assms(3,5,7) u(1)] by auto
  then show ?thesis using r l by (simp add: Let_def)
qed

fun honest :: "dhcp_env \<Rightarrow> u8 \<times> u8 \<times> u8 \<Rightarrow> u8 list list list \<Rightarrow> dhcp_server \<Rightarrow> bool" where
  "honest env N [] s = True"
| "honest env N (p # ps) s \<longleftrightarrow> (\<exists>mac ci os. is_request p mac ci os \<and> own_address N s mac ci) \<and>
     (\<forall>s'. handle_dhcp env p s = Some s' \<longrightarrow> honest env N ps s')"

lemma handle_all_honest:
  assumes "0 < lo" and "msg_memory env" and "lease_memory env" and "extras_fit env xs"
  shows "range_ok N lo hi s \<Longrightarrow> honest env N ps s \<Longrightarrow> \<exists>s'. handle_all env ps s = Some s' \<and> range_ok N lo hi s'"
proof (induction ps arbitrary: s)
  case (Cons p ps)
  then obtain mac ci os where q: "is_request p mac ci os" "own_address N s mac ci" by auto
  obtain s1 where "handle_dhcp env p s = Some s1" "range_ok N lo hi s1"
    using handle_honest [OF Cons.prems(1) assms(1) q assms(2-4)] by blast
  then show ?case using Cons by simp
qed simp

end
