(* ===== verification/Dhcp_Range.thy ===== *)
theory Dhcp_Range
  imports Dhcp_Leases
begin

text \<open>The range of addresses the server gives out, as \<open>init_dhcps_lease\<close> sets it up from the server's own address.\<close>

lemma net_ip_cases: obtains N h where "ip = net_ip N h" and "h < 256"
proof
  show "ip = net_ip (byte_of 0 ip, byte_of (Suc 0) ip, byte_of 2 ip) (unat (byte_of 3 ip))" by (simp add: net_ip_def)
  show "unat (byte_of 3 ip) < 256" using unat_bound [of "byte_of 3 ip"] by simp
qed

lemma htonl_net_ip: "htonl (net_ip (a, b, c) n) = word_of (of_nat n) c b a" and htonl_word_of: "htonl (word_of x c b a) = word_of a b c x"
  by (simp_all add: htonl_def net_ip_def)

lemma word_of_plus: "word_of x c b a = ucast x + word_of 0 c b a"
  using unat_bound [of x] unat_bound [of a] unat_bound [of b] unat_bound [of c]
  by (intro unat_inject) (simp add: unat_word_of unat_word_ariths unsigned_ucast_eq take_bit_eq_mod)

lemma low_byte: "word_of x c b a AND 0xFF = ucast x"
proof -
  have e: "(0xFF :: u32) = mask 8" by (simp add: mask_eq_exp_minus_1)
  show ?thesis unfolding e by (rule bit_word_eqI) (auto simp: byte_simps bit_simps dest: bit_imp_le_length)
qed

lemma set_low_byte: "(word_of x c b a AND 0xFFFFFF00) OR ucast y = word_of y c b a"
proof -
  have e: "(0xFFFFFF00 :: u32) = NOT (mask 8)" by (simp add: mask_eq_exp_minus_1)
  show ?thesis unfolding e by (rule bit_word_eqI) (auto simp: byte_simps bit_simps dest: bit_imp_le_length)
qed

lemma same_net:
  assumes "drop_bit 8 (htonl v) = drop_bit 8 (htonl (net_ip N h))"
  shows "\<exists>n < 256. v = net_ip N n"
proof -
  obtain M n where v: "v = net_ip M n" "n < 256" by (rule net_ip_cases)
  obtain a b c where N: "N = (a, b, c)" by (cases N)
  obtain a' b' c' where M: "M = (a', b', c')" by (cases M)
  have "byte_of i (drop_bit 8 w) = byte_of (Suc i) w" for i and w :: u32
    by (rule bit_word_eqI) (simp add: byte_simps bit_simps add.assoc)
  then have "byte_of (Suc i) (htonl v) = byte_of (Suc i) (htonl (net_ip N h))" for i using assms by metis
  from this [of 0] this [of 1] this [of 2] have "c' = c" "b' = b" "a' = a"
    unfolding v N M htonl_net_ip by (simp_all add: numeral_2_eq_2 [symmetric] numeral_3_eq_3 [symmetric])
  then show ?thesis using v N M by blast
qed

lemma htonl_less_eq: "n < 256 \<Longrightarrow> m < 256 \<Longrightarrow> htonl (net_ip N n) \<le> htonl (net_ip N m) \<longleftrightarrow> n \<le> m"
  by (cases N) (simp add: htonl_net_ip word_le_nat_alt unat_word_of unat_of_nat)

lemma htonl_diff:
  assumes "n < 256" and "m < 256" and "\<not> DHCPS_MAX_LEASE < htonl (net_ip N m) - htonl (net_ip N n)"
  shows "n \<le> m \<and> m \<le> n + 100"
proof -
  obtain a b c where N: "N = (a, b, c)" by (cases N)
  have d: "htonl (net_ip N m) - htonl (net_ip N n) = ucast (of_nat m :: u8) - ucast (of_nat n :: u8)"
    unfolding N htonl_net_ip word_of_plus [of "of_nat m"] word_of_plus [of "of_nat n"] by simp
  have u: "unat (ucast (of_nat k :: u8) :: u32) = k" if "k < 256" for k
    using that by (simp add: unsigned_ucast_eq take_bit_eq_mod unat_of_nat)
  have l: "unat (ucast (of_nat m :: u8) - ucast (of_nat n :: u8) :: u32) \<le> 100"
    using assms(3) unfolding d DHCPS_MAX_LEASE_def by (simp add: not_less word_le_nat_alt)
  show ?thesis
  proof (cases "n \<le> m")
    case True
    then show ?thesis using l u [OF assms(1)] u [OF assms(2)] by (simp add: unat_sub word_le_nat_alt)
  next
    case False
    then have "unat (ucast (of_nat m :: u8) - ucast (of_nat n :: u8) :: u32) = 2 ^ 32 + m - n"
      using u [OF assms(1)] u [OF assms(2)] assms(1,2) by (simp add: unat_sub_if' word_le_nat_alt)
    then show ?thesis using l assms(1) by simp
  qed
qed

text \<open>The range is inside the network of the server, not empty, has at most 101 addresses and leaves the server's own out.\<close>

lemma init_range:
  assumes "netif_ip s = net_ip N h" and "h < 256"
  shows "\<exists>lo hi. start_ip (init_dhcps_lease (netif_ip s) s) = net_ip N lo \<and> end_ip (init_dhcps_lease (netif_ip s) s) = net_ip N hi \<and>
    lo \<le> hi \<and> hi \<le> lo + 100 \<and> hi < 256 \<and> \<not> (lo \<le> h \<and> h \<le> hi) \<and>
    (\<not> lease_enable (init_dhcps_lease (netif_ip s) s) \<longrightarrow> 0 < lo \<and> hi < 255)"
proof (cases "lease_enable s \<and> \<not> (htonl (start_ip s) \<le> htonl (netif_ip s) \<and> htonl (netif_ip s) \<le> htonl (end_ip s)) \<and>
    \<not> (drop_bit 8 (htonl (start_ip s)) \<noteq> drop_bit 8 (htonl (netif_ip s)) \<or> drop_bit 8 (htonl (end_ip s)) \<noteq> drop_bit 8 (htonl (netif_ip s)) \<or>
      DHCPS_MAX_LEASE < htonl (end_ip s) - htonl (start_ip s))")
  case True
  let ?f = "htonl (start_ip s)" and ?l = "htonl (end_ip s)" and ?o = "htonl (netif_ip s)"
  have same: "init_dhcps_lease (netif_ip s) s = s" unfolding init_dhcps_lease_def Let_def by (rule if_P [OF True])
  have k: "\<not> (?f \<le> ?o \<and> ?o \<le> ?l)" "drop_bit 8 ?f = drop_bit 8 ?o" "drop_bit 8 ?l = drop_bit 8 ?o" "\<not> DHCPS_MAX_LEASE < ?l - ?f"
    and en: "lease_enable s" using True by blast+
  obtain lo where lo: "lo < 256" "start_ip s = net_ip N lo" using same_net [OF k(2) [unfolded assms(1)]] by blast
  obtain hi where hi: "hi < 256" "end_ip s = net_ip N hi" using same_net [OF k(3) [unfolded assms(1)]] by blast
  have "lo \<le> hi \<and> hi \<le> lo + 100" using htonl_diff [OF lo(1) hi(1)] k(4) lo(2) hi(2) by simp
  moreover have "\<not> (lo \<le> h \<and> h \<le> hi)" using k(1) lo hi assms by (simp add: htonl_less_eq)
  ultimately show ?thesis using lo hi en unfolding same by blast
next
  case False
  obtain a b c where N: "N = (a, b, c)" by (cases N)
  let ?x = "of_nat h :: u8"
  have x: "unat ?x = h" using assms(2) by (simp add: unat_of_nat)
  define lo where "lo = (if 128 \<le> h then h - 100 else h + 1)"
  have lo: "lo < 256" "0 < lo" "lo + 99 < 255" "\<not> (lo \<le> h \<and> h \<le> lo + 99)" using assms(2) by (auto simp: lo_def)
  have u: "(ucast (of_nat k :: u8) :: u32) = of_nat k" if "k < 256" for k
    using that by (intro unat_inject) (simp add: unsigned_ucast_eq take_bit_eq_mod unat_of_nat)
  have cmp: "(0x80 :: u32) \<le> of_nat h \<longleftrightarrow> 128 \<le> h" using assms(2) by (simp add: word_le_nat_alt unat_of_nat)
  have l: "(if 0x80 \<le> (of_nat h :: u32) then of_nat h - DHCPS_MAX_LEASE else of_nat h + 1) = of_nat lo"
    unfolding cmp by (auto simp: lo_def DHCPS_MAX_LEASE_def)
  have l2: "(of_nat lo + DHCPS_MAX_LEASE - 1 :: u32) = of_nat (lo + 99)" by (simp add: DHCPS_MAX_LEASE_def)
  have h: "htonl (netif_ip s) = word_of ?x c b a" by (simp add: assms(1) N htonl_net_ip)
  have i: "init_dhcps_lease (netif_ip s) s = s\<lparr>lease_enable := False,
      start_ip := htonl ((word_of ?x c b a AND 0xFFFFFF00) OR of_nat lo),
      end_ip := htonl ((word_of ?x c b a AND 0xFFFFFF00) OR of_nat (lo + 99))\<rparr>"
    unfolding init_dhcps_lease_def Let_def if_not_P [OF False] unfolding h low_byte u [OF assms(2)] l l2 by (rule refl)
  have "start_ip (init_dhcps_lease (netif_ip s) s) = net_ip N lo" "end_ip (init_dhcps_lease (netif_ip s) s) = net_ip N (lo + 99)"
    using lo unfolding i u [symmetric, OF lo(1)] u [symmetric, of "lo + 99"]
    by (simp_all add: N net_ip_def htonl_word_of set_low_byte u [symmetric, of "lo + 99"] del: of_nat_add)
  then show ?thesis using lo by (intro exI [of _ lo] exI [of _ "lo + 99"]) simp
qed

end
