(* ===== verification/Dhcp_Session.thy ===== *)
theory Dhcp_Session
  imports Dhcp_Requests Dhcp_Range
begin

text \<open>
  What clients see of the DHCP server: the range it works with, the way to an address, a server
  without free addresses, and what one client that asks for addresses of its own choice does to the others.
\<close>

lemma offer_list_sel [simp]:
  "offer_list (s\<lparr>renew := r\<rparr>) = offer_list s" "offer_list (s\<lparr>plist := P\<rparr>) = offer_list s" "offer_list (s\<lparr>client_address := a\<rparr>) = offer_list s"
  "offer_list (s\<lparr>events := es\<rparr>) = offer_list s"
  by (simp_all add: offer_list_def)


definition sample_server :: "u32 \<Rightarrow> dhcps_pool list \<Rightarrow> dhcp_server" where
  "sample_server to_ip ps = \<lparr>netif_num = 1, netif_ip = net_ip (192, 168, 4) 1, netif_mask = 0x00ffffff, netif_gw = net_ip (192, 168, 4) 1, pcb = True,
     broadcast_dhcps = net_ip (192, 168, 4) 255, server_address = net_ip (192, 168, 4) 1, client_address = 0, lease_time = 720,
     offer_router = True, dns_address = 0, lease_enable = False, start_ip = net_ip (192, 168, 4) 2, end_ip = to_ip, plist = ps,
     renew = False, events = []\<rparr>"

definition ready_env :: dhcp_env where
  "ready_env = \<lparr>msg_memory = True, lease_memory = True, pbuf_memory = True, udp_memory = True, custom_offer_options = None\<rparr>"



definition sample_packet :: "u8 list \<Rightarrow> (u8 \<times> u8 list) list \<Rightarrow> u8 list list" where
  "sample_packet mac os = [replicate 28 0 @ mac @ replicate 202 0 @ bytes_of MagicCookie @ encode_options os @ [DHCP_OPTION_END]]"

lemma sample_request:
  "length mac = 6 \<Longrightarrow> \<forall>x \<in> set os. option_ok x \<Longrightarrow> length (encode_options os) \<le> 200 \<Longrightarrow> is_request (sample_packet mac os) mac 0 os"
  unfolding is_request_def sample_packet_def
  by (intro conjI exI [of _ "replicate 28 0 @ mac @ replicate 202 0"] exI [of _ "[]"])
    (simp_all add: sizeof_dhcps_msg_def u32_of_def word_of_def)

lemma sample_extras: "extras_fit ready_env []"
  by (simp add: extras_fit_def extra_options_def ready_env_def)


section \<open>Getting an address\<close>

lemma least_free_exists:
  assumes "\<exists>n. lo \<le> n \<and> n \<le> hi \<and> n \<notin> ran L" and "least_free lo L mac n"
  shows "n \<le> hi"
proof (rule ccontr)
  obtain k where k: "lo \<le> k" "k \<le> hi" "k \<notin> ran L" using assms(1) by blast
  assume "\<not> n \<le> hi"
  then have "k \<in> ran (L(mac := None))" using k assms(2) by (simp add: least_free_def)
  then show False using k(3) by (auto simp: ran_def split: if_splits)
qed

lemma least_free_taken [simp]: "least_free lo (L(mac \<mapsto> h)) mac n = least_free lo L mac n"
  by (simp add: least_free_def)

lemma answer_sel [simp]: "plist (answer env xs mac m ret s) = plist s"
  by (simp add: answer_def sent_def station_info_def)

lemma discover_answered:
  assumes "range_ok N lo hi s" and "is_request p mac 0 os" and "message_type os 0 = DHCPDISCOVER"
    and "msg_memory env" and "lease_memory env" and "extras_fit env xs" and "least_free lo (leases (plist s)) mac n" and "n \<le> hi"
  shows "\<exists>s1 m. handle_dhcp env p s = Some s1 \<and> range_ok N lo hi s1 \<and> leases (plist s1) = (leases (plist s))(mac \<mapsto> n) \<and>
    s1 = sent env (reply_bytes DHCPOFFER (net_ip N n) (offer_list s @ xs) m) (s\<lparr>renew := False, plist := plist s1, client_address := net_ip N n\<rparr>)"
proof -
  obtain k where k: "least_free lo (leases (plist s)) mac k" "if k \<le> hi
     then \<exists>P. dhcps_client_update True mac 0 s = Some (net_ip N k, s\<lparr>renew := False, plist := P\<rparr>) \<and> leases_ok N lo hi P \<and>
       leases P = (leases (plist s))(mac \<mapsto> k)
     else mac \<notin> dom (leases (plist s)) \<and> dhcps_client_update True mac 0 s = Some (0, s\<lparr>renew := False\<rparr>)"
    using client_discover [OF assms(1), of mac] by blast
  have "k = n" using least_free_unique [OF k(1) assms(7)] .
  then obtain P where P: "dhcps_client_update (lease_memory env) mac 0 s = Some (net_ip N n, s\<lparr>renew := False, plist := P\<rparr>)"
    "leases_ok N lo hi P" "leases P = (leases (plist s))(mac \<mapsto> n)" using k(2) assms(5,8) by auto
  have v: "parse_verdict False (message_type os 0) st = DHCPS_STATE_OFFER" for st by (simp add: parse_verdict_def assms(3))
  let ?s = "s\<lparr>renew := False, plist := P, client_address := net_ip N n\<rparr>"
  obtain bs where h: "handle_dhcp env p s = Some (answer env xs mac (msg_of_bytes bs) DHCPS_STATE_OFFER ?s)"
    using handle_request [OF assms(2,4,6) P(1)] v by (auto simp: dhcps_states)
  have "range_ok N lo hi ?s" using assms(1) P(2) by (simp add: range_ok_def)
  moreover have "answer env xs mac (msg_of_bytes bs) DHCPS_STATE_OFFER ?s = sent env (reply_bytes DHCPOFFER (net_ip N n) (offer_list s @ xs) (msg_of_bytes bs)) ?s"
    by (simp add: answer_def)
  moreover have "plist (sent env b ?s) = P" for b by (simp add: sent_def)
  ultimately show ?thesis using h P(3) by (intro exI [of _ "answer env xs mac (msg_of_bytes bs) DHCPS_STATE_OFFER ?s"] exI [of _ "msg_of_bytes bs"]) simp
qed

lemma request_answered:
  assumes "range_ok N lo hi s" and "is_request p mac 0 os" and "message_type os 0 = DHCPREQUEST"
    and "request_state (net_ip N n) os DHCPS_STATE_IDLE = DHCPS_STATE_ACK"
    and "msg_memory env" and "lease_memory env" and "extras_fit env xs" and "least_free lo (leases (plist s)) mac n" and "n \<le> hi"
  shows "\<exists>s1 m. handle_dhcp env p s = Some s1 \<and> range_ok N lo hi s1 \<and> leases (plist s1) = (leases (plist s))(mac \<mapsto> n) \<and>
    s1 = station_info mac (net_ip N n) (sent env (reply_bytes DHCPACK (net_ip N n) (offer_list s @ xs) m)
      (s\<lparr>renew := False, plist := plist s1, client_address := net_ip N n\<rparr>))"
proof -
  obtain k where k: "least_free lo (leases (plist s)) mac k" "if k \<le> hi
     then \<exists>P. dhcps_client_update True mac 0 s = Some (net_ip N k, s\<lparr>renew := False, plist := P\<rparr>) \<and> leases_ok N lo hi P \<and>
       leases P = (leases (plist s))(mac \<mapsto> k)
     else mac \<notin> dom (leases (plist s)) \<and> dhcps_client_update True mac 0 s = Some (0, s\<lparr>renew := False\<rparr>)"
    using client_discover [OF assms(1), of mac] by blast
  have "k = n" using least_free_unique [OF k(1) assms(8)] .
  then obtain P where P: "dhcps_client_update (lease_memory env) mac 0 s = Some (net_ip N n, s\<lparr>renew := False, plist := P\<rparr>)"
    "leases_ok N lo hi P" "leases P = (leases (plist s))(mac \<mapsto> n)" using k(2) assms(6,9) by auto
  have v: "parse_verdict False (message_type os 0) DHCPS_STATE_ACK = DHCPS_STATE_ACK"
    by (simp add: parse_verdict_def assms(3) DHCPDISCOVER_def DHCPREQUEST_def)
  let ?s = "s\<lparr>renew := False, plist := P, client_address := net_ip N n\<rparr>"
  obtain bs where h: "handle_dhcp env p s = Some (answer env xs mac (msg_of_bytes bs) DHCPS_STATE_ACK ?s)"
    using handle_request [OF assms(2,5,7) P(1)] v assms(4) by (auto simp: dhcps_states)
  let ?a = "answer env xs mac (msg_of_bytes bs) DHCPS_STATE_ACK ?s"
  have "range_ok N lo hi ?s" using assms(1) P(2) by (simp add: range_ok_def)
  moreover have "?a = station_info mac (net_ip N n) (sent env (reply_bytes DHCPACK (net_ip N n) (offer_list s @ xs) (msg_of_bytes bs)) ?s)"
    by (simp add: answer_def dhcps_states)
  moreover have "plist (station_info mac a (sent env b ?s)) = P" for a b by (simp add: sent_def station_info_def)
  ultimately show ?thesis using h P(3) by (intro exI [of _ ?a] exI [of _ "msg_of_bytes bs"]) simp
qed


lemma sample_range: "range_ok (192, 168, 4) 2 50 (sample_server (net_ip (192, 168, 4) 50) [])"
  by (simp add: range_ok_def sample_server_def leases_ok_def)


section \<open>No address, and an address of one's own choice\<close>

text \<open>A server whose addresses are all taken still makes an offer to a new client: of the address 0.0.0.0.\<close>

lemma dhcp_full_offer:
  assumes "range_ok N lo hi s" and "\<forall>n. lo \<le> n \<and> n \<le> hi \<longrightarrow> n \<in> ran (leases (plist s))" and "mac \<notin> dom (leases (plist s))"
    and "msg_memory env" and "lease_memory env" and "pbuf_memory env" and "extras_fit env xs"
    and "is_request p mac 0 os" and "message_type os 0 = DHCPDISCOVER"
  shows "\<exists>s1 m. handle_dhcp env p s = Some s1 \<and> plist s1 = plist s \<and>
    events s1 = events s @ [Sent (broadcast_dhcps s) (reply_bytes DHCPOFFER 0 (offer_list s @ xs) m)]"
proof -
  obtain n where n: "least_free lo (leases (plist s)) mac n" "if n \<le> hi
     then \<exists>P. dhcps_client_update True mac 0 s = Some (net_ip N n, s\<lparr>renew := False, plist := P\<rparr>) \<and> leases_ok N lo hi P \<and>
       leases P = (leases (plist s))(mac \<mapsto> n)
     else mac \<notin> dom (leases (plist s)) \<and> dhcps_client_update True mac 0 s = Some (0, s\<lparr>renew := False\<rparr>)"
    using client_discover [OF assms(1), of mac] by blast
  have same: "(leases (plist s))(mac := None) = leases (plist s)" using assms(3) by auto
  have "\<not> n \<le> hi" using n(1) assms(2) unfolding least_free_def same by blast
  then have u: "dhcps_client_update (lease_memory env) mac 0 s = Some (0, s\<lparr>renew := False\<rparr>)" using n(2) assms(5) by simp
  have v: "parse_verdict False (message_type os 0) st = DHCPS_STATE_OFFER" for st by (simp add: parse_verdict_def assms(9))
  obtain bs where "handle_dhcp env p s = Some (answer env xs mac (msg_of_bytes bs) DHCPS_STATE_OFFER (s\<lparr>renew := False, client_address := 0\<rparr>))"
    using handle_request [OF assms(8,4,7) u] v by (auto simp: dhcps_states)
  then show ?thesis using assms(6) by (auto simp: answer_def sent_def)
qed

definition sample_pool :: "nat \<Rightarrow> dhcps_pool" where
  "sample_pool n = \<lparr>pool_ip = net_ip (192, 168, 4) n, pool_mac = [9, 9, 9, 9, 9, of_nat n], lease_timer = 720,
     pool_type = DHCPS_TYPE_DYNAMIC, pool_state = DHCPS_STATE_ONLINE\<rparr>"

lemma sample_pool_sel [simp]: "host (sample_pool 2) = 2" "on_net (192, 168, 4) (sample_pool 2)" "pool_mac (sample_pool 2) = [9, 9, 9, 9, 9, 2]"
  using host_net_ip [of 2 "sample_pool 2" "(192, 168, 4)"] by (simp_all add: sample_pool_def)

lemma dhcp_full_offer_witness:
  "\<exists>s1. handle_dhcp ready_env (sample_packet [1, 2, 3, 4, 5, 6] [(53, [1])]) (sample_server (net_ip (192, 168, 4) 2) [sample_pool 2]) = Some s1 \<and>
    length (events s1) = 1 \<and> plist s1 = [sample_pool 2]"
proof -
  let ?s = "sample_server (net_ip (192, 168, 4) 2) [sample_pool 2]"
  have s: "plist ?s = [sample_pool 2]" "events ?s = []" by (simp_all add: sample_server_def)
  have l: "leases (plist ?s) = [[9, 9, 9, 9, 9, 2] \<mapsto> 2]" by (simp add: s leases_def)
  have r: "range_ok (192, 168, 4) 2 2 ?s" by (simp add: range_ok_def leases_ok_def s) (simp add: sample_server_def)
  have q: "is_request (sample_packet [1, 2, 3, 4, 5, 6] [(53, [1])]) [1, 2, 3, 4, 5, 6] 0 [(53, [1])]"
    by (intro sample_request) (simp_all add: option_codes)
  have f: "\<forall>n. 2 \<le> n \<and> n \<le> 2 \<longrightarrow> n \<in> ran (leases (plist ?s))" "[1, 2, 3, 4, 5, 6] \<notin> dom (leases (plist ?s))" unfolding l by auto
  have m: "msg_memory ready_env" "lease_memory ready_env" "pbuf_memory ready_env" by (simp_all add: ready_env_def)
  have t: "message_type [(53, [1])] 0 = DHCPDISCOVER" by (simp add: option_codes DHCPDISCOVER_def)
  from dhcp_full_offer [OF r f m sample_extras q t] show ?thesis unfolding s by auto
qed

text \<open>C27: One client that asks for an address below the range gets it, be it the address of the server, and from then on the next new
  client is given the first address of the range although another client holds it.\<close>

theorem dhcp_duplicate_address:
  assumes "range_ok N lo hi s" and "plist s = p # ps" and "host p = lo" and "0 < k" and "k < lo"
    and "rogue \<notin> pool_mac ` set (plist s)" and "victim \<notin> pool_mac ` set (plist s)" and "rogue \<noteq> victim"
  shows "\<exists>s1 s2 q. dhcps_client_update True rogue (net_ip N k) s = Some (net_ip N k, s1) \<and>
    dhcps_client_update True victim 0 s1 = Some (pool_ip p, s2) \<and>
    p \<in> set (plist s2) \<and> q \<in> set (plist s2) \<and> pool_mac q = victim \<and> pool_mac p \<noteq> victim \<and> pool_ip q = pool_ip p"
proof -
  have b: "hi < 255" "lo \<le> hi" "start_ip s = net_ip N lo" "end_ip s = net_ip N hi" and ok: "leases_ok N lo hi (plist s)"
    using assms(1) by (simp_all add: range_ok_def)
  have ip: "pool_ip x = net_ip N (host x)" "lo \<le> host x" if "x \<in> set (plist s)" for x
    using ok that by (simp_all add: leases_ok_def on_net_def)
  have pp: "pool_ip p = net_ip N lo" using ip [of p] assms(2,3) by simp
  have "net_ip N k \<noteq> pool_ip x" if "x \<in> set (plist s)" for x
    using ip [OF that] assms(5) b(1,2) by (simp add: net_ip_eq)
  then have free: "net_ip N k \<notin> pool_ip ` set (plist s)" by auto
  have le: "net_ip N k \<le> end_ip s" using b assms(5) net_ip_less [of hi k N] by (simp add: not_less [symmetric])
  have nz: "net_ip N k \<noteq> 0" "net_ip N k \<noteq> IPADDR_BROADCAST" using net_ip_nonzero net_ip_no_broadcast assms(4,5) b(1,2) by auto
  let ?r = "\<lparr>pool_ip = net_ip N k, pool_mac = rogue, lease_timer = lease_time s, pool_type = DHCPS_TYPE_STATIC, pool_state = DHCPS_STATE_ONLINE\<rparr>"
  let ?s1 = "s\<lparr>renew := False, plist := ?r # p # ps\<rparr>"
  have "net_ip N k < pool_ip p" using pp assms(5) b by (simp add: net_ip_less)
  then have ins: "node_insert_to_list ?r (plist s) = ?r # p # ps" by (simp add: assms(2))
  have one: "dhcps_client_update True rogue (net_ip N k) s = Some (net_ip N k, ?s1)"
    using client_takes_any [OF nz assms(6) free le] ins by simp
  have ne: "net_ip N k \<noteq> net_ip N lo" using assms(5) b by (simp add: net_ip_eq)
  let ?c = "\<lparr>pmac_node = None, pip_node = None, scan_flag = True, scan_ip = net_ip N lo\<rparr>"
  have pl: "place victim (p # ps) = None" using assms(2,7) by (auto simp: place_def)
  have sf: "scan_pool victim None (Suc 0) (p # ps) ?c = ?c" by (subst scan_found_flag) (simp_all add: pl)
  have scan: "scan_pool victim None 0 (?r # p # ps) \<lparr>pmac_node = None, pip_node = None, scan_flag = False, scan_ip = net_ip N lo\<rparr> = ?c"
    by (subst scan_pool.simps(2)) (simp add: assms(8) ne sf del: scan_pool.simps)
  have lo_end: "\<not> net_ip N hi < net_ip N lo" using b by (simp add: net_ip_less)
  let ?q = "granted ?s1 DHCPS_TYPE_DYNAMIC \<lparr>pool_ip = net_ip N lo, pool_mac = victim, lease_timer = 0, pool_type = DHCPS_TYPE_DYNAMIC, pool_state = DHCPS_STATE_ONLINE\<rparr>"
  have two: "dhcps_client_update True victim 0 ?s1 = Some (net_ip N lo, ?s1\<lparr>plist := node_insert_to_list ?q (?r # p # ps)\<rparr>)"
    using lo_end by (simp add: dhcps_client_update_def IPADDR_BROADCAST_def IPADDR_ANY_def Let_def b(3,4) scan granted_def del: scan_pool.simps node_insert_to_list.simps)
  have "pool_mac p \<noteq> victim" using assms(2,7) by auto
  with one two show ?thesis unfolding pp
    by (intro exI [of _ ?s1] exI [of _ "?s1\<lparr>plist := node_insert_to_list ?q (?r # p # ps)\<rparr>"] exI [of _ ?q]) (simp add: pp del: node_insert_to_list.simps)
qed

theorem dhcp_duplicate_address_witness:
  "\<exists>s1 s2. dhcps_client_update True [6, 6, 6, 6, 6, 6] (net_ip (192, 168, 4) 1) (sample_server (net_ip (192, 168, 4) 50) [sample_pool 2]) =
      Some (netif_ip (sample_server (net_ip (192, 168, 4) 50) [sample_pool 2]), s1) \<and>
    dhcps_client_update True [7, 7, 7, 7, 7, 7] 0 s1 = Some (pool_ip (sample_pool 2), s2)"
proof -
  let ?s = "sample_server (net_ip (192, 168, 4) 50) [sample_pool 2]"
  have s: "plist ?s = [sample_pool 2]" "netif_ip ?s = net_ip (192, 168, 4) 1" by (simp_all add: sample_server_def)
  have r: "range_ok (192, 168, 4) 2 50 ?s" by (simp add: range_ok_def leases_ok_def s) (simp add: sample_server_def)
  from dhcp_duplicate_address [OF r s(1) _ _ _ _ _ _, of 1 "[6, 6, 6, 6, 6, 6]" "[7, 7, 7, 7, 7, 7]"]
  show ?thesis unfolding s by auto
qed

section \<open>Replies on the wire\<close>

text \<open>C30: Every offer is a complete message: read back as a message it has the client's transaction and hardware address, the
  address offered, and options that are well formed, end with the end code and consist of the message type, the
  options of the server and those of the application, all inside the message.\<close>

theorem dhcp_offer_wellformed:
  assumes "wf_msg m" and "extras_fit env xs" and "pbuf_memory env"
  shows "\<exists>bs r. events (snd (send_offer env m s)) = events s @ [Sent (broadcast_dhcps s) bs] \<and> length bs = sizeof_dhcps_msg \<and> r = msg_of_bytes bs \<and>
    op r = 2 \<and> xid r = xid m \<and> chaddr r = chaddr m \<and> u32_of (yiaddr r) = client_address s \<and>
    (\<exists>z. options r = bytes_of MagicCookie @ encode_options ((DHCP_OPTION_MSG_TYPE, [DHCPOFFER]) # offer_list s @ xs) @ DHCP_OPTION_END # replicate z 0)"
proof -
  let ?os = "offer_list s @ xs"
  let ?z = "304 - length (encode_options ?os)"
  let ?bs = "reply_bytes DHCPOFFER (client_address s) ?os m"
  have l: "length (encode_options ?os) \<le> 304" using assms(2) length_offer_list [of s] by (simp add: extras_fit_def encode_append)
  have m: "length (xid m) = 4" "length (chaddr m) = 16" using assms(1) by (simp_all add: wf_msg_def)
  have "length ?bs = 548" using l m by (simp add: reply_bytes_def del: encode_append)
  moreover have "options (msg_of_bytes ?bs) = bytes_of MagicCookie @ encode_options ((DHCP_OPTION_MSG_TYPE, [DHCPOFFER]) # ?os) @ DHCP_OPTION_END # replicate ?z 0"
    using l m by (simp add: reply_bytes_def msg_of_bytes_def field_def cookie_bytes)
  moreover have "op (msg_of_bytes ?bs) = 2" "xid (msg_of_bytes ?bs) = xid m" "chaddr (msg_of_bytes ?bs) = chaddr m"
    "yiaddr (msg_of_bytes ?bs) = bytes_of (client_address s)"
    using m by (simp_all add: reply_bytes_def msg_of_bytes_def field_def)
  moreover have "u32_of (bytes_of a) = a" for a by (simp add: u32_of_def bytes_of_def)
  moreover have "events (snd (send_offer env m s)) = events s @ [Sent (broadcast_dhcps s) ?bs]"
    using send_offer_is [OF assms(2)] assms(3) by (simp add: sent_def)
  ultimately show ?thesis by (intro exI [of _ ?bs] exI [of _ "msg_of_bytes ?bs"] conjI exI [of _ ?z]) (simp_all add: sizeof_dhcps_msg_def)
qed

theorem dhcp_offer_wellformed_witness:
  "\<exists>bs. events (snd (send_offer ready_env (msg_of_bytes (replicate 548 0)) (sample_server 0 []))) = [Sent (net_ip (192, 168, 4) 255) bs] \<and> length bs = 548"
  using dhcp_offer_wellformed [of "msg_of_bytes (replicate 548 0)" ready_env "[]" "sample_server 0 []"] wf_msg_of_bytes [of "replicate 548 0"] sample_extras
  by (auto simp: ready_env_def sample_server_def sizeof_dhcps_msg_def)

end
