(* ===== verification/Polled_Timeout.thy ===== *)
theory Polled_Timeout
  imports Prelude
begin

text \<open>
  The timers of \<open>cores/esp8266/PolledTimeout.h\<close>: a timer is polled with the current time, a 32-bit counter that wraps
  around.  The template arguments are a unit of time and whether the timer is periodic; the yield policies, which let other
  code run during a poll, are left out.  Times are arguments of the operations.
\<close>

section \<open>Units\<close>

record time_unit =
  ticksPerSecond :: u32
  ticksPerSecondMax :: u32
  second_th :: u32
  rangeCompensate :: u32

definition TimeMillis :: time_unit where
  "TimeMillis = \<lparr>ticksPerSecond = 1000, ticksPerSecondMax = 1000, second_th = 1000, rangeCompensate = 1\<rparr>"

text \<open>The units of the cycle counter at 80 MHz.\<close>

definition TimeFastMillis :: time_unit where
  "TimeFastMillis = \<lparr>ticksPerSecond = 80000000, ticksPerSecondMax = 160000000, second_th = 1000, rangeCompensate = 1\<rparr>"

definition TimeFastMicros :: time_unit where
  "TimeFastMicros = \<lparr>ticksPerSecond = 80000000, ticksPerSecondMax = 160000000, second_th = 1000000, rangeCompensate = 1\<rparr>"

definition TimeFastNanos :: time_unit where
  "TimeFastNanos = \<lparr>ticksPerSecond = 80000000, ticksPerSecondMax = 160000000, second_th = 1000000000, rangeCompensate = 25\<rparr>"

definition user2UnitMultiplierMax :: "time_unit \<Rightarrow> u32" where
  "user2UnitMultiplierMax U = ticksPerSecondMax U * rangeCompensate U div second_th U"

definition user2UnitMultiplier :: "time_unit \<Rightarrow> u32" where
  "user2UnitMultiplier U = ticksPerSecond U * rangeCompensate U div second_th U"

definition timeMax :: "time_unit \<Rightarrow> u32" where
  "timeMax U = (0xffffffff - 1) div user2UnitMultiplierMax U"

definition toTimeTypeUnit :: "time_unit \<Rightarrow> u32 \<Rightarrow> u32" where
  "toTimeTypeUnit U v = (v * user2UnitMultiplier U) div rangeCompensate U"

definition toUserUnit :: "time_unit \<Rightarrow> u32 \<Rightarrow> u32" where
  "toUserUnit U v = (v * rangeCompensate U) div user2UnitMultiplier U"

section \<open>Timers\<close>

record timer =
  tm_timeout :: u32
  tm_start :: u32
  tm_never :: bool

definition alwaysExpired :: u32 where "alwaysExpired = 0"
definition neverExpires :: u32 where "neverExpires = 0xffffffff"

definition tm_reset :: "u32 \<Rightarrow> timer \<Rightarrow> timer" where
  "tm_reset now t = t\<lparr>tm_start := now\<rparr>"

definition tm_reset_to :: "time_unit \<Rightarrow> u32 \<Rightarrow> u32 \<Rightarrow> timer \<Rightarrow> timer" where
  "tm_reset_to U now v t = (tm_reset now t)\<lparr>tm_timeout := toTimeTypeUnit U v, tm_never := timeMax U < v\<rparr>"

definition timer_new :: "time_unit \<Rightarrow> u32 \<Rightarrow> u32 \<Rightarrow> timer" where
  "timer_new U now v = tm_reset_to U now v \<lparr>tm_timeout = 0, tm_start = 0, tm_never = False\<rparr>"

definition resetAndSetExpired :: "u32 \<Rightarrow> timer \<Rightarrow> timer" where
  "resetAndSetExpired now t = (let t1 = tm_reset now t in t1\<lparr>tm_start := tm_start t1 - tm_timeout t1\<rparr>)"

definition resetAndSetExpired_to :: "time_unit \<Rightarrow> u32 \<Rightarrow> u32 \<Rightarrow> timer \<Rightarrow> timer" where
  "resetAndSetExpired_to U now v t = (let t1 = tm_reset_to U now v t in t1\<lparr>tm_start := tm_start t1 - tm_timeout t1\<rparr>)"

definition resetToNeverExpires :: "timer \<Rightarrow> timer" where
  "resetToNeverExpires t = t\<lparr>tm_timeout := alwaysExpired + 1, tm_never := True\<rparr>"

definition getTimeout :: "time_unit \<Rightarrow> timer \<Rightarrow> u32" where
  "getTimeout U t = toUserUnit U (tm_timeout t)"

definition canExpire :: "timer \<Rightarrow> bool" where "canExpire t \<longleftrightarrow> \<not> tm_never t"
definition canWait :: "timer \<Rightarrow> bool" where "canWait t \<longleftrightarrow> tm_timeout t \<noteq> alwaysExpired"

definition checkExpired :: "u32 \<Rightarrow> timer \<Rightarrow> bool" where
  "checkExpired now t \<longleftrightarrow> \<not> tm_never t \<and> tm_timeout t \<le> now - tm_start t"

definition expiredRetrigger :: "u32 \<Rightarrow> timer \<Rightarrow> bool \<times> timer" where
  "expiredRetrigger now t =
     (if \<not> canWait t then (True, t)
      else if checkExpired now t
      then let n = (now - tm_start t) div tm_timeout t in (True, t\<lparr>tm_start := tm_start t + n * tm_timeout t\<rparr>)
      else (False, t))"

definition expiredOneShot :: "u32 \<Rightarrow> timer \<Rightarrow> bool" where
  "expiredOneShot now t \<longleftrightarrow> \<not> canWait t \<or> checkExpired now t"

definition tm_expired :: "bool \<Rightarrow> u32 \<Rightarrow> timer \<Rightarrow> bool \<times> timer" where
  "tm_expired periodic now t = (if periodic then expiredRetrigger now t else (expiredOneShot now t, t))"

text \<open>A periodic timer polled at the times \<open>ts\<close>, of which the counter shows the low 32 bits.\<close>

fun poll_all :: "nat list \<Rightarrow> timer \<Rightarrow> bool list \<times> timer" where
  "poll_all [] t = ([], t)"
| "poll_all (x # xs) t = (case tm_expired True (of_nat x) t of (b, t1) \<Rightarrow> (case poll_all xs t1 of (bs, t2) \<Rightarrow> (b # bs, t2)))"

section \<open>No period is lost\<close>

text \<open>What a timer with period \<open>p\<close> that started at \<open>t0\<close> shows when it was last polled at \<open>last\<close>: whether a period has ended since.\<close>

fun periods_end :: "nat \<Rightarrow> nat \<Rightarrow> nat \<Rightarrow> nat list \<Rightarrow> bool list" where
  "periods_end p t0 prev [] = []"
| "periods_end p t0 prev (x # xs) = ((prev - t0) div p < (x - t0) div p) # periods_end p t0 x xs"

fun polls_ok :: "nat \<Rightarrow> nat \<Rightarrow> nat list \<Rightarrow> bool" where
  "polls_ok p prev [] = True"
| "polls_ok p prev (x # xs) \<longleftrightarrow> prev \<le> x \<and> x - prev + p \<le> 2 ^ 32 \<and> polls_ok p x xs"

definition in_period :: "nat \<Rightarrow> nat \<Rightarrow> nat \<Rightarrow> timer \<Rightarrow> bool" where
  "in_period p t0 prev t \<longleftrightarrow> unat (tm_timeout t) = p \<and> \<not> tm_never t \<and> tm_start t = of_nat (t0 + (prev - t0) div p * p)"

lemma poll_step:
  assumes "in_period p t0 prev t" and "0 < p" and "t0 \<le> prev" and "prev \<le> x" and "x - prev + p \<le> 2 ^ 32"
  shows "\<exists>t1. tm_expired True (of_nat x) t = ((prev - t0) div p < (x - t0) div p, t1) \<and> in_period p t0 x t1"
proof -
  let ?k = "(prev - t0) div p"
  define s where "s = t0 + ?k * p"
  have kp: "?k * p \<le> prev - t0" "prev - t0 < ?k * p + p"
    using assms(2) dividend_less_div_times [of p "prev - t0"] by (simp_all add: add.commute)
  have s: "s \<le> x" "x - s < 2 ^ 32" using kp assms(3-5) unfolding s_def by linarith+
  have pt: "tm_timeout t = of_nat p" "unat (tm_timeout t) = p" "p < 2 ^ 32" using assms(1) unat_bound [of "tm_timeout t"] by (auto simp: in_period_def)
  have d: "(of_nat x - of_nat s :: u32) = of_nat (x - s)" using s(1) by simp
  have u: "unat (of_nat (x - s) :: u32) = x - s" using s(2) by (rule unat_of_nat_u32)
  have le: "tm_timeout t \<le> of_nat (x - s) \<longleftrightarrow> p \<le> x - s" by (simp add: word_le_nat_alt u pt(2) del: of_nat_diff)
  have st: "tm_start t = of_nat s" "\<not> tm_never t" using assms(1) by (simp_all add: in_period_def s_def)
  have w: "canWait t" using pt(2) assms(2) by (auto simp: canWait_def alwaysExpired_def)
  have xs: "x - t0 = ?k * p + (x - s)" using s(1) by (simp add: s_def)
  have q: "(x - t0) div p = ?k + (x - s) div p" unfolding xs using assms(2) by simp
  have lt: "?k < (x - t0) div p \<longleftrightarrow> p \<le> x - s" unfolding q using assms(2) by (simp add: div_greater_zero_iff)
  show ?thesis
  proof (cases "p \<le> x - s")
    case True
    have n: "(of_nat (x - s) :: u32) div tm_timeout t = of_nat ((x - s) div p)"
      by (intro unat_inject) (simp add: unat_div u pt(2) unat_of_nat_u32 [OF le_less_trans [OF div_le_dividend s(2)]] del: of_nat_diff)
    have "tm_start t + of_nat ((x - s) div p) * tm_timeout t = of_nat (t0 + (x - t0) div p * p)"
      unfolding q st(1) s_def pt(1) by (simp add: algebra_simps)
    then show ?thesis using True lt w st pt
      by (simp add: tm_expired_def expiredRetrigger_def checkExpired_def d le [unfolded pt(1)] n [unfolded pt(1)] in_period_def del: of_nat_diff)
  next
    case False
    then have k: "(x - t0) div p = ?k" using q by simp
    then have "in_period p t0 x t" using assms(1) by (simp add: in_period_def)
    moreover have "\<not> checkExpired (of_nat x) t" using False le by (simp add: checkExpired_def st(1) d del: of_nat_diff)
    ultimately show ?thesis using k w by (simp add: tm_expired_def expiredRetrigger_def)
  qed
qed

lemma poll_all_periods:
  "in_period p t0 prev t \<Longrightarrow> 0 < p \<Longrightarrow> t0 \<le> prev \<Longrightarrow> polls_ok p prev xs \<Longrightarrow> fst (poll_all xs t) = periods_end p t0 prev xs"
proof (induction xs arbitrary: prev t)
  case (Cons x xs)
  obtain t1 where "tm_expired True (of_nat x) t = ((prev - t0) div p < (x - t0) div p, t1)" "in_period p t0 x t1"
    using poll_step [OF Cons.prems(1-3), of x] Cons.prems(4) by auto
  moreover from this have "fst (poll_all xs t1) = periods_end p t0 x xs" using Cons.prems by (intro Cons.IH) simp_all
  ultimately show ?case by (auto split: prod.splits)
qed simp

text \<open>C33: A periodic timer never loses or invents a period, however its counter wraps around: polled often enough that the
  counter cannot overtake it, it reports exactly the polls before which a multiple of its period has passed.\<close>

theorem timer_periods:
  assumes "0 < toTimeTypeUnit U v" and "v \<le> timeMax U" and "polls_ok (unat (toTimeTypeUnit U v)) t0 xs"
  shows "fst (poll_all xs (timer_new U (of_nat t0) v)) = periods_end (unat (toTimeTypeUnit U v)) t0 t0 xs"
proof (rule poll_all_periods)
  show "in_period (unat (toTimeTypeUnit U v)) t0 t0 (timer_new U (of_nat t0) v)"
    using assms(2) by (simp add: in_period_def timer_new_def tm_reset_to_def tm_reset_def not_less)
  show "0 < unat (toTimeTypeUnit U v)" using assms(1) by (simp add: unat_gt_0 word_neq_0_conv)
qed (use assms(3) in simp_all)

theorem timer_periods_witness:
  "fst (poll_all [4294968000, 4294968300, 4294970000] (timer_new TimeMillis (of_nat 4294967000) 1000)) = [True, False, True]"
proof -
  have u: "toTimeTypeUnit TimeMillis 1000 = 1000"
    by (simp add: toTimeTypeUnit_def user2UnitMultiplier_def TimeMillis_def)
  have m: "(1000 :: u32) \<le> timeMax TimeMillis"
    by (simp add: timeMax_def user2UnitMultiplierMax_def TimeMillis_def)
  from timer_periods [of TimeMillis 1000 4294967000 "[4294968000, 4294968300, 4294970000]"]
  show ?thesis using m by (simp add: u)
qed

end
