(* ===== verification/Schedule.thy ===== *)
theory Schedule
  imports Polled_Timeout
begin

text \<open>
  The functions a sketch schedules, \<open>cores/esp8266/Schedule.cpp\<close>: single functions in a linked queue of recycled nodes, and recurrent
  functions in a linked list of nodes with a timer.  Nodes are addresses; \<open>mNext\<close> and \<open>mFunc\<close> are their fields in
  memory.  What \<open>new\<close> returns is an argument of the operation that calls it.

  A function that runs may schedule others, and so may an interrupt: \<open>body\<close> gives the requests that arrive during a
  call, \<open>yld\<close> those that arrive while the loop yields.  \<open>accepted\<close> and \<open>ran\<close> record the functions that were taken into the queue and those whose
  call has returned.
\<close>

section \<open>State\<close>

record 'f scheduler =
  mFunc :: "nat \<Rightarrow> 'f option"
  mNext :: "nat \<Rightarrow> nat option"
  sFirst :: "nat option"
  sLast :: "nat option"
  sUnused :: "nat option"
  sCount :: nat
  accepted :: "'f list"
  ran :: "'f list"

definition SCHEDULED_FN_MAX_COUNT :: nat where "SCHEDULED_FN_MAX_COUNT = 32"

section \<open>Single functions\<close>

definition get_fn_unsafe :: "nat option \<Rightarrow> 'f scheduler \<Rightarrow> nat option \<times> 'f scheduler" where
  "get_fn_unsafe mem s =
     (case sUnused s of
        Some p \<Rightarrow> (Some p, s\<lparr>sUnused := mNext s p\<rparr>)
      | None \<Rightarrow>
          if sCount s < SCHEDULED_FN_MAX_COUNT
          then case mem of None \<Rightarrow> (None, s)
            | Some p \<Rightarrow> (Some p, s\<lparr>mNext := (mNext s)(p := None), mFunc := (mFunc s)(p := None), sCount := sCount s + 1\<rparr>)
          else (None, s))"

definition recycle_fn_unsafe :: "nat \<Rightarrow> 'f scheduler \<Rightarrow> 'f scheduler" where
  "recycle_fn_unsafe p s = s\<lparr>mFunc := (mFunc s)(p := None), mNext := (mNext s)(p := sUnused s), sUnused := Some p\<rparr>"

definition schedule_function :: "nat option \<Rightarrow> 'f option \<Rightarrow> 'f scheduler \<Rightarrow> (bool \<times> 'f scheduler) option" where
  "schedule_function mem fn s =
     (case fn of None \<Rightarrow> Some (False, s)
      | Some f \<Rightarrow>
          (case get_fn_unsafe mem s of
             (None, s1) \<Rightarrow> Some (False, s1)
           | (Some p, s1) \<Rightarrow>
               let s2 = s1\<lparr>mFunc := (mFunc s1)(p := Some f), mNext := (mNext s1)(p := None)\<rparr> in
               (case (case sFirst s2 of
                     None \<Rightarrow> Some (s2\<lparr>sFirst := Some p\<rparr>)
                   | Some q \<Rightarrow> map_option (\<lambda>l. s2\<lparr>mNext := (mNext s2)(l := Some p)\<rparr>) (sLast s2)) of
                  None \<Rightarrow> None
                | Some s3 \<Rightarrow> Some (True, s3\<lparr>sLast := Some p, accepted := accepted s3 @ [f]\<rparr>))))"

fun schedule_all :: "(nat option \<times> 'f option) list \<Rightarrow> 'f scheduler \<Rightarrow> 'f scheduler option" where
  "schedule_all [] s = Some s"
| "schedule_all ((mem, fn) # rs) s = (case schedule_function mem fn s of None \<Rightarrow> None | Some (b, s1) \<Rightarrow> schedule_all rs s1)"

text \<open>A call of the function in node \<open>p\<close>; calling an empty function does not return.\<close>

definition call_fn :: "('f \<Rightarrow> 'f scheduler \<Rightarrow> (nat option \<times> 'f option) list) \<Rightarrow> nat \<Rightarrow> 'f scheduler \<Rightarrow> 'f scheduler option" where
  "call_fn body p s = (case mFunc s p of None \<Rightarrow> None
     | Some f \<Rightarrow> map_option (\<lambda>s1. s1\<lparr>ran := ran s1 @ [f]\<rparr>) (schedule_all (body f s) s))"

definition pop_first :: "'f scheduler \<Rightarrow> 'f scheduler option" where
  "pop_first s = (case sFirst s of None \<Rightarrow> None
     | Some p \<Rightarrow>
       let s1 = (if sLast s = sFirst s then s\<lparr>sLast := None\<rparr> else s) in
       Some (recycle_fn_unsafe p (s1\<lparr>sFirst := mNext s1 p\<rparr>)))"

partial_function (option) run_loop :: "('f \<Rightarrow> 'f scheduler \<Rightarrow> (nat option \<times> 'f option) list) \<Rightarrow>
    ('f scheduler \<Rightarrow> (nat option \<times> 'f option) list) \<Rightarrow> nat option \<Rightarrow> bool \<Rightarrow> 'f scheduler \<Rightarrow> 'f scheduler option" where
  "run_loop body yld stop done s =
     (case sFirst s of None \<Rightarrow> Some s
      | Some p \<Rightarrow>
          if done then Some s
          else (case call_fn body p s of None \<Rightarrow> None
            | Some s1 \<Rightarrow> (case pop_first s1 of None \<Rightarrow> None
                | Some s2 \<Rightarrow> (case schedule_all (yld s2) s2 of None \<Rightarrow> None
                    | Some s3 \<Rightarrow> run_loop body yld stop (sFirst s = stop) s3))))"

definition run_scheduled_functions :: "('f \<Rightarrow> 'f scheduler \<Rightarrow> (nat option \<times> 'f option) list) \<Rightarrow>
    ('f scheduler \<Rightarrow> (nat option \<times> 'f option) list) \<Rightarrow> 'f scheduler \<Rightarrow> 'f scheduler option" where
  "run_scheduled_functions body yld s = run_loop body yld (sLast s) False s"

section \<open>Linked lists\<close>

text \<open>A segment of the list from \<open>a\<close> to \<open>b\<close>.\<close>

fun lseg :: "(nat \<Rightarrow> nat option) \<Rightarrow> nat option \<Rightarrow> nat list \<Rightarrow> nat option \<Rightarrow> bool" where
  "lseg nx a [] b \<longleftrightarrow> a = b"
| "lseg nx a (p # ps) b \<longleftrightarrow> a = Some p \<and> lseg nx (nx p) ps b"

lemma lseg_append: "lseg nx a (ps @ qs) c \<longleftrightarrow> (\<exists>b. lseg nx a ps b \<and> lseg nx b qs c)"
  by (induction ps arbitrary: a) auto

lemma lseg_upd [simp]: "p \<notin> set ps \<Longrightarrow> lseg (nx(p := v)) a ps b = lseg nx a ps b"
  by (induction ps arbitrary: a) auto

lemma lseg_nil: "lseg nx None ps None \<longleftrightarrow> ps = []"
  by (cases ps) auto

lemma lseg_snoc:
  assumes "lseg nx a qs None" and "qs \<noteq> []" and "distinct qs" and "p \<notin> set qs" and "nx p = None"
  shows "lseg (nx(last qs := Some p)) a (qs @ [p]) None"
proof -
  obtain rs q where qs: "qs = rs @ [q]" using assms(2) by (cases qs rule: rev_cases) auto
  then have "lseg nx a rs (Some q)" using assms(1) by (auto simp: lseg_append)
  then show ?thesis using assms(3-5) unfolding qs by (auto simp: lseg_append)
qed

section \<open>The queue\<close>

text \<open>\<open>queue_ok s qs us\<close>: the queued nodes are \<open>qs\<close>, the unused ones \<open>us\<close>, and these are all nodes ever made.\<close>

definition queue_ok :: "'f scheduler \<Rightarrow> nat list \<Rightarrow> nat list \<Rightarrow> bool" where
  "queue_ok s qs us \<longleftrightarrow> lseg (mNext s) (sFirst s) qs None \<and> lseg (mNext s) (sUnused s) us None \<and> distinct (qs @ us) \<and>
     sLast s = (if qs = [] then None else Some (last qs)) \<and> length qs + length us = sCount s \<and> sCount s \<le> SCHEDULED_FN_MAX_COUNT \<and>
     (\<forall>p \<in> set qs. mFunc s p \<noteq> None) \<and> accepted s = ran s @ map (\<lambda>p. the (mFunc s p)) qs"

text \<open>The addresses \<open>new\<close> returns for a list of requests are none of the nodes \<open>N\<close>, nor of each other.\<close>

fun requests_ok :: "nat set \<Rightarrow> (nat option \<times> 'f option) list \<Rightarrow> bool" where
  "requests_ok N [] = True"
| "requests_ok N ((mem, fn) # rs) \<longleftrightarrow> set_option mem \<inter> N = {} \<and> requests_ok (N \<union> set_option mem) rs"

lemma requests_ok_mono: "requests_ok N rs \<Longrightarrow> M \<subseteq> N \<Longrightarrow> requests_ok M rs"
proof (induction N rs arbitrary: M rule: requests_ok.induct)
  case (2 N mem fn rs)
  have "requests_ok (M \<union> set_option mem) rs" by (rule "2.IH") (use "2.prems" in auto)
  then show ?case using "2.prems" by auto
qed simp

lemma get_fn_ok:
  assumes q: "queue_ok s qs us" and n: "set_option mem \<inter> (set qs \<union> set us) = {}"
  shows "(get_fn_unsafe mem s = (None, s) \<and> us = [] \<and> (sCount s = SCHEDULED_FN_MAX_COUNT \<or> mem = None)) \<or>
    (\<exists>p us' s1. get_fn_unsafe mem s = (Some p, s1) \<and> lseg (mNext s1) (sFirst s) qs None \<and> lseg (mNext s1) (sUnused s1) us' None \<and>
      distinct (p # qs @ us') \<and> sFirst s1 = sFirst s \<and> sLast s1 = sLast s \<and> length qs + 1 + length us' = sCount s1 \<and>
      sCount s1 \<le> SCHEDULED_FN_MAX_COUNT \<and> (\<forall>x \<in> set qs. mFunc s1 x = mFunc s x) \<and> accepted s1 = accepted s \<and> ran s1 = ran s \<and>
      insert p (set us') \<subseteq> set us \<union> set_option mem)"
proof (cases us)
  case Nil
  then have u: "sUnused s = None" using q by (simp add: queue_ok_def)
  show ?thesis
  proof (cases "sCount s < SCHEDULED_FN_MAX_COUNT \<and> mem \<noteq> None")
    case True
    then obtain p where "mem = Some p" by auto
    then show ?thesis using q n Nil u True
      by (intro disjI2 exI [of _ p] exI [of _ "[]"]) (auto simp: get_fn_unsafe_def queue_ok_def)
  next
    case False
    then show ?thesis using q Nil u by (auto simp: get_fn_unsafe_def queue_ok_def split: option.splits)
  qed
next
  case (Cons p us')
  then show ?thesis using q
    by (intro disjI2 exI [of _ p] exI [of _ us']) (auto simp: get_fn_unsafe_def queue_ok_def)
qed

lemma schedule_ok:
  assumes q: "queue_ok s qs us" and n: "set_option mem \<inter> (set qs \<union> set us) = {}"
  shows "(schedule_function mem (Some f) s = Some (False, s) \<and> us = [] \<and> (length qs = SCHEDULED_FN_MAX_COUNT \<or> mem = None)) \<or>
    (\<exists>p us' s1. schedule_function mem (Some f) s = Some (True, s1) \<and> queue_ok s1 (qs @ [p]) us' \<and> ran s1 = ran s \<and> accepted s1 = accepted s @ [f] \<and>
      (\<forall>x \<in> set qs. mFunc s1 x = mFunc s x) \<and> insert p (set us') \<subseteq> set us \<union> set_option mem)"
  using get_fn_ok [OF q n]
proof (elim disjE exE conjE)
  assume "get_fn_unsafe mem s = (None, s)" "us = []" "sCount s = SCHEDULED_FN_MAX_COUNT"
  then show ?thesis using q by (simp add: schedule_function_def queue_ok_def)
next
  assume "get_fn_unsafe mem s = (None, s)" "us = []" "mem = None"
  then show ?thesis by (simp add: schedule_function_def)
next
  fix p us' s1
  assume g: "get_fn_unsafe mem s = (Some p, s1)" "lseg (mNext s1) (sFirst s) qs None" "lseg (mNext s1) (sUnused s1) us' None"
    "distinct (p # qs @ us')" "sFirst s1 = sFirst s" "sLast s1 = sLast s" "length qs + 1 + length us' = sCount s1"
    "sCount s1 \<le> SCHEDULED_FN_MAX_COUNT" "\<forall>x \<in> set qs. mFunc s1 x = mFunc s x" "accepted s1 = accepted s" "ran s1 = ran s"
    "insert p (set us') \<subseteq> set us \<union> set_option mem"
  have qo: "\<forall>x \<in> set qs. mFunc s x \<noteq> None" "accepted s = ran s @ map (\<lambda>p. the (mFunc s p)) qs"
    "sLast s = (if qs = [] then None else Some (last qs))" "lseg (mNext s) (sFirst s) qs None" using q by (simp_all add: queue_ok_def)
  let ?nx = "(mNext s1)(p := None)"
  let ?fn = "(mFunc s1)(p := Some f)"
  let ?s = "\<lambda>nx a. s1\<lparr>mFunc := ?fn, mNext := nx, sFirst := a, sLast := Some p, accepted := accepted s1 @ [f]\<rparr>"
  have fs: "map (\<lambda>x. the (?fn x)) (qs @ [p]) = map (\<lambda>p. the (mFunc s p)) qs @ [f]" using g(4,9) by auto
  show ?thesis
  proof (cases "qs = []")
    case True
    then have "sFirst s = None" using qo(4) by simp
    then have sch: "schedule_function mem (Some f) s = Some (True, ?s ?nx (Some p))"
      using g(1,5) by (simp add: schedule_function_def)
    have "queue_ok (?s ?nx (Some p)) (qs @ [p]) us'" using g qo fs True by (simp add: queue_ok_def)
    then show ?thesis using sch g qo True by (intro disjI2 exI [of _ p] exI [of _ us'] exI [of _ "?s ?nx (Some p)"]) auto
  next
    case False
    then obtain a where a: "sFirst s = Some a" using qo(4) by (cases qs) auto
    let ?nx2 = "?nx(last qs := Some p)"
    have last: "last qs \<in> set qs" "last qs \<noteq> p" "last qs \<notin> set us'" using False g(4) by (auto dest: last_in_set)
    have sch: "schedule_function mem (Some f) s = Some (True, ?s ?nx2 (sFirst s))"
      using g(1,5,6) a qo(3) False by (simp add: schedule_function_def)
    have "lseg ?nx2 (sFirst s) (qs @ [p]) None" using g(2,4) False by (intro lseg_snoc) auto
    moreover have "lseg ?nx2 (sUnused s1) us' None" using g(3,4) last by simp
    ultimately have "queue_ok (?s ?nx2 (sFirst s)) (qs @ [p]) us'" using g qo fs by (simp add: queue_ok_def)
    then show ?thesis using sch g qo by (intro disjI2 exI [of _ p] exI [of _ us'] exI [of _ "?s ?nx2 (sFirst s)"]) auto
  qed
qed

lemma schedule_all_ok:
  "queue_ok s qs us \<Longrightarrow> requests_ok (set qs \<union> set us) rs \<Longrightarrow>
   \<exists>s1 new us' more. schedule_all rs s = Some s1 \<and> queue_ok s1 (qs @ new) us' \<and> ran s1 = ran s \<and>
     accepted s1 = accepted s @ more \<and> (\<forall>x \<in> set qs. mFunc s1 x = mFunc s x)"
proof (induction rs arbitrary: s qs us)
  case (Cons r rs)
  obtain mem fn where r: "r = (mem, fn)" by force
  have n: "set_option mem \<inter> (set qs \<union> set us) = {}" and rq: "requests_ok (set qs \<union> set us \<union> set_option mem) rs"
    using Cons.prems(2) by (simp_all add: r)
  have same: ?case if "schedule_function mem fn s = Some (False, s)"
    using Cons.IH [OF Cons.prems(1) requests_ok_mono [OF rq]] that by (auto simp: r)
  show ?case
  proof (cases fn)
    case None
    then show ?thesis by (intro same) (simp add: schedule_function_def)
  next
    case (Some f)
    from schedule_ok [OF Cons.prems(1) n, of f] consider "schedule_function mem fn s = Some (False, s)"
      | p us' s1 where "schedule_function mem fn s = Some (True, s1)" "queue_ok s1 (qs @ [p]) us'" "ran s1 = ran s"
        "accepted s1 = accepted s @ [f]" "\<forall>x \<in> set qs. mFunc s1 x = mFunc s x" "insert p (set us') \<subseteq> set us \<union> set_option mem"
      unfolding Some by blast
    then show ?thesis
    proof cases
      case 2
      have "requests_ok (set (qs @ [p]) \<union> set us') rs" by (rule requests_ok_mono [OF rq]) (use 2(6) in auto)
      from Cons.IH [OF 2(2) this] obtain s2 new us2 more where "schedule_all rs s1 = Some s2" "queue_ok s2 (qs @ p # new) us2"
        "ran s2 = ran s1" "accepted s2 = accepted s1 @ more" "\<forall>x \<in> set (qs @ [p]). mFunc s2 x = mFunc s1 x" by auto
      then show ?thesis using 2
        by (intro exI [of _ s2] exI [of _ "p # new"] exI [of _ us2] exI [of _ "f # more"]) (simp add: r)
    qed (rule same)
  qed
qed (force intro: exI [of _ "[]"])

text \<open>A call and the removal of its node: the function at the front has run and what arrived meanwhile is at the end.\<close>

lemma call_pop_ok:
  assumes q: "queue_ok s (p # qs) us" and f: "requests_ok (set (p # qs) \<union> set us) (body (the (mFunc s p)) s)"
  shows "\<exists>s1 s2 new us'. call_fn body p s = Some s1 \<and> pop_first s1 = Some s2 \<and> queue_ok s2 (qs @ new) us' \<and>
    ran s2 = ran s @ [the (mFunc s p)] \<and> (\<exists>more. accepted s2 = accepted s @ more) \<and> (\<forall>x \<in> set qs. mFunc s2 x = mFunc s x)"
proof -
  obtain g where g: "mFunc s p = Some g" using q by (auto simp: queue_ok_def)
  have "requests_ok (set (p # qs) \<union> set us) (body g s)" using f by (simp add: g)
  from schedule_all_ok [OF q this] obtain t new us' more where t: "schedule_all (body g s) s = Some t"
    "queue_ok t (p # qs @ new) us'" "ran t = ran s" "accepted t = accepted s @ more" "\<forall>x \<in> set (p # qs). mFunc t x = mFunc s x"
    by auto
  let ?s1 = "t\<lparr>ran := ran t @ [g]\<rparr>"
  let ?s2 = "recycle_fn_unsafe p (?s1\<lparr>sLast := (if qs @ new = [] then None else sLast t), sFirst := mNext t p\<rparr>)"
  have d: "distinct (p # qs @ new @ us')" and first: "sFirst t = Some p" and lst: "sLast t = Some (last (p # qs @ new))"
    and acc: "accepted t = ran t @ g # map (\<lambda>x. the (mFunc t x)) (qs @ new)" using t(2,5) g by (auto simp: queue_ok_def)
  have "sLast t = Some p \<longleftrightarrow> qs @ new = []"
  proof (cases "qs @ new = []")
    case False
    then have "last (qs @ new) \<in> set (qs @ new)" by (rule last_in_set)
    then show ?thesis using d False by (auto simp: lst)
  qed (simp add: lst)
  then have pop: "pop_first ?s1 = Some ?s2" by (cases "qs = [] \<and> new = []") (auto simp: pop_first_def first)
  have fs: "map (\<lambda>x. the (((mFunc t)(p := None)) x)) (qs @ new) = map (\<lambda>x. the (mFunc t x)) (qs @ new)" using d by auto
  have "queue_ok ?s2 (qs @ new) (p # us')"
    using t(2) d acc fs by (auto simp: queue_ok_def recycle_fn_unsafe_def)
  moreover have "call_fn body p s = Some ?s1" by (simp add: call_fn_def g t(1))
  moreover have "\<forall>x \<in> set qs. mFunc ?s2 x = mFunc s x" using t(5) d by (auto simp: recycle_fn_unsafe_def)
  moreover have "ran ?s2 = ran s @ [g]" "accepted ?s2 = accepted s @ more" using t(3,4) by (simp_all add: recycle_fn_unsafe_def)
  ultimately show ?thesis using pop g
    by (intro exI [of _ ?s1] exI [of _ ?s2] exI [of _ new] exI [of _ "p # us'"]) (simp del: fun_upd_apply)
qed

definition fresh_requests :: "('f \<Rightarrow> 'f scheduler \<Rightarrow> (nat option \<times> 'f option) list) \<Rightarrow>
    ('f scheduler \<Rightarrow> (nat option \<times> 'f option) list) \<Rightarrow> bool" where
  "fresh_requests body yld \<longleftrightarrow> (\<forall>s qs us f. queue_ok s qs us \<longrightarrow>
     requests_ok (set qs \<union> set us) (body f s) \<and> requests_ok (set qs \<union> set us) (yld s))"

lemma fresh_requestsD:
  assumes "fresh_requests body yld" and "queue_ok s qs us"
  shows "requests_ok (set qs \<union> set us) (body f s)" and "requests_ok (set qs \<union> set us) (yld s)"
  using assms unfolding fresh_requests_def by blast+

text \<open>One turn of the loop, and all turns up to the function that was the last when the run began.\<close>

lemma run_turn:
  assumes fr: "fresh_requests body yld" and q: "queue_ok s (p # qs) us"
  shows "\<exists>s1 new us'. run_loop body yld stop False s = run_loop body yld stop (Some p = stop) s1 \<and> queue_ok s1 (qs @ new) us' \<and>
    ran s1 = ran s @ [the (mFunc s p)] \<and> (\<exists>more. accepted s1 = accepted s @ more) \<and> (\<forall>x \<in> set qs. mFunc s1 x = mFunc s x)"
proof -
  have first: "sFirst s = Some p" using q by (simp add: queue_ok_def)
  have "requests_ok (set (p # qs) \<union> set us) (body (the (mFunc s p)) s)" by (rule fresh_requestsD(1) [OF fr q])
  from call_pop_ok [where body = body, OF q this] obtain s1 s2 new us' more where c: "call_fn body p s = Some s1" "pop_first s1 = Some s2"
    "queue_ok s2 (qs @ new) us'" "ran s2 = ran s @ [the (mFunc s p)]" "accepted s2 = accepted s @ more" "\<forall>x \<in> set qs. mFunc s2 x = mFunc s x"
    by blast
  from schedule_all_ok [OF c(3) fresh_requestsD(2) [OF fr c(3)]] obtain s3 new2 us2 more2 where y: "schedule_all (yld s2) s2 = Some s3"
    "queue_ok s3 ((qs @ new) @ new2) us2" "ran s3 = ran s2" "accepted s3 = accepted s2 @ more2" "\<forall>x \<in> set (qs @ new). mFunc s3 x = mFunc s2 x"
    by blast
  have "run_loop body yld stop False s = run_loop body yld stop (Some p = stop) s3"
    by (subst run_loop.simps) (simp add: first c(1,2) y(1))
  moreover have "queue_ok s3 (qs @ new @ new2) us2" using y(2) by simp
  ultimately show ?thesis using y(3-5) c(4-6)
    by (intro exI [of _ s3] exI [of _ "new @ new2"] exI [of _ us2]) simp
qed

lemma run_loop_done: "run_loop body yld stop True s = Some s"
  by (subst run_loop.simps) (simp split: option.splits)

lemma run_loop_ok:
  assumes fr: "fresh_requests body yld"
  shows "queue_ok s (todo @ later) us \<Longrightarrow> todo \<noteq> [] \<Longrightarrow> \<exists>s1 new us'. run_loop body yld (Some (last todo)) False s = Some s1 \<and>
    queue_ok s1 new us' \<and> ran s1 = ran s @ map (\<lambda>x. the (mFunc s x)) todo \<and> (\<exists>more. accepted s1 = accepted s @ more)"
proof (induction todo arbitrary: s later us)
  case (Cons p todo)
  let ?stop = "Some (last (p # todo))"
  have "queue_ok s (p # todo @ later) us" using Cons.prems(1) by simp
  from run_turn [OF fr this, of ?stop] obtain s1 new us' more where t: "run_loop body yld ?stop False s = run_loop body yld ?stop (Some p = ?stop) s1"
    "queue_ok s1 (todo @ later @ new) us'" "ran s1 = ran s @ [the (mFunc s p)]" "accepted s1 = accepted s @ more"
    "\<forall>x \<in> set (todo @ later). mFunc s1 x = mFunc s x" by auto
  show ?case
  proof (cases "todo = []")
    case True
    then show ?thesis using t run_loop_done by (intro exI [of _ s1] exI [of _ "later @ new"] exI [of _ us']) auto
  next
    case False
    have "p \<notin> set todo" using Cons.prems(1) by (simp add: queue_ok_def)
    then have "p \<noteq> last todo" using last_in_set [OF False] by metis
    then have "run_loop body yld ?stop False s = run_loop body yld (Some (last todo)) False s1"
      using t(1) False by simp
    moreover have "map (\<lambda>x. the (mFunc s1 x)) todo = map (\<lambda>x. the (mFunc s x)) todo" using t(5) by simp
    moreover from Cons.IH [OF t(2) False] obtain s2 new2 us2 more2 where "run_loop body yld (Some (last todo)) False s1 = Some s2"
      "queue_ok s2 new2 us2" "ran s2 = ran s1 @ map (\<lambda>x. the (mFunc s1 x)) todo" "accepted s2 = accepted s1 @ more2" by blast
    ultimately show ?thesis using t(3,4) by (intro exI [of _ s2] exI [of _ new2] exI [of _ us2]) simp
  qed
qed simp

section \<open>The run\<close>

text \<open>
  C31: \<open>run_scheduled_functions\<close> returns, and it has run exactly the functions that had been accepted before it started, each
  once and in the order of their acceptance; functions scheduled during the run are accepted behind them and wait for the next run,
  and the queue and the list of unused nodes are intact, at most 32 nodes in all.
\<close>

theorem sched_fifo:
  assumes fr: "fresh_requests body yld" and q: "queue_ok s qs us"
  shows "\<exists>s1 qs' us'. run_scheduled_functions body yld s = Some s1 \<and> queue_ok s1 qs' us' \<and> ran s1 = accepted s \<and>
    (\<exists>more. accepted s1 = accepted s @ more)"
proof (cases "qs = []")
  case True
  then have "run_scheduled_functions body yld s = Some s" "accepted s = ran s"
    using q by (simp_all add: run_scheduled_functions_def run_loop.simps queue_ok_def)
  then show ?thesis using q by auto
next
  case False
  then have "sLast s = Some (last qs)" "accepted s = ran s @ map (\<lambda>x. the (mFunc s x)) qs" using q by (auto simp: queue_ok_def)
  then show ?thesis using run_loop_ok [OF fr, of s qs "[]" us] q False by (auto simp: run_scheduled_functions_def)
qed

definition two_functions :: "nat scheduler" where
  "two_functions = \<lparr>mFunc = [1 \<mapsto> 7, 2 \<mapsto> 8], mNext = [1 \<mapsto> 2], sFirst = Some 1, sLast = Some 2, sUnused = Some 3, sCount = 3,
     accepted = [7, 8], ran = []\<rparr>"

text \<open>Function 7 schedules 9 again: it waits in a recycled node.\<close>

theorem sched_fifo_witness:
  "\<exists>s1 qs' us'. run_scheduled_functions (\<lambda>f s. if f = 7 then [(None, Some 9)] else []) (\<lambda>s. []) two_functions = Some s1 \<and>
    queue_ok s1 qs' us' \<and> ran s1 = [7, 8] \<and> (\<exists>more. accepted s1 = [7, 8] @ more)"
proof -
  have "queue_ok two_functions [1, 2] [3]" by (auto simp: queue_ok_def two_functions_def SCHEDULED_FN_MAX_COUNT_def)
  moreover have "fresh_requests (\<lambda>f s. if f = 7 then [(None, Some 9)] else []) (\<lambda>s. [])" by (simp add: fresh_requests_def)
  moreover have "accepted two_functions = [7, 8]" by (simp add: two_functions_def)
  ultimately show ?thesis using sched_fifo by metis
qed

text \<open>Scheduling fails only for an empty function, for a full queue or for want of memory.\<close>

lemma schedule_full:
  assumes "queue_ok s qs us" and "set_option mem \<inter> (set qs \<union> set us) = {}" and "mem \<noteq> None" and "length qs < SCHEDULED_FN_MAX_COUNT"
  shows "\<exists>s1. schedule_function mem (Some f) s = Some (True, s1) \<and> accepted s1 = accepted s @ [f]"
  using schedule_ok [OF assms(1,2), of f] assms(3,4) by auto

end
