(* ===== verification/Recurrent.thy ===== *)
theory Recurrent
  imports Schedule
begin

text \<open>
  The recurrent functions of \<open>cores/esp8266/Schedule.cpp\<close>: a linked list of nodes, each with a function, a periodic
  microsecond timer and an optional alarm, which \<open>run_scheduled_recurrent_functions\<close> walks from \<open>yield\<close>.

  What happens outside the file during the turn of node \<open>p\<close> is a \<open>run_env\<close>: the cycle counter, what the alarm and
  the function answer, and the requests that arrive before the node is dealt with and while the loop yields.  \<open>new\<close> is the
  argument \<open>alloc\<close>, a function of the state; it returns no node that is in use.
\<close>

section \<open>State\<close>

record 'f recurrent =
  rFunc :: "nat \<Rightarrow> 'f option"
  rNext :: "nat \<Rightarrow> nat option"
  callNow :: "nat \<Rightarrow> timer"
  rAlarm :: "nat \<Rightarrow> 'f option"
  rFirst :: "nat option"
  rLast :: "nat option"
  recurrent_max_grain :: u32
  fence :: bool
  called :: "'f list"

record 'f request =
  rq_fn :: "'f option"
  rq_repeat_us :: u32
  rq_alarm :: "'f option"
  rq_now :: u32

record 'f run_env =
  env_now :: "nat \<Rightarrow> u32"
  env_alarm :: "nat \<Rightarrow> 'f \<Rightarrow> bool"
  env_result :: "nat \<Rightarrow> 'f \<Rightarrow> bool"
  env_during :: "nat \<Rightarrow> 'f request list"
  env_yield :: "nat \<Rightarrow> 'f request list"

section \<open>Scheduling\<close>

text \<open>A failed assertion does not return.\<close>

definition schedule_recurrent_function_us :: "('f recurrent \<Rightarrow> nat option) \<Rightarrow> 'f request \<Rightarrow> 'f recurrent \<Rightarrow>
    (bool \<times> 'f recurrent) option" where
  "schedule_recurrent_function_us alloc r s =
     (if \<not> rq_repeat_us r < neverExpires then None
      else case rq_fn r of None \<Rightarrow> Some (False, s)
      | Some f \<Rightarrow>
          (case alloc s of None \<Rightarrow> Some (False, s)
           | Some p \<Rightarrow>
               let s1 = s\<lparr>rFunc := (rFunc s)(p := Some f), rAlarm := (rAlarm s)(p := rq_alarm r), rNext := (rNext s)(p := None),
                          callNow := (callNow s)(p := timer_new TimeFastMicros (rq_now r) (rq_repeat_us r))\<rparr>;
                   s2 = (case rLast s1 of Some l \<Rightarrow> s1\<lparr>rNext := (rNext s1)(l := Some p)\<rparr> | None \<Rightarrow> s1\<lparr>rFirst := Some p\<rparr>)
               in Some (True, s2\<lparr>rLast := Some p, recurrent_max_grain := 0\<rparr>)))"

fun schedule_recs :: "('f recurrent \<Rightarrow> nat option) \<Rightarrow> 'f request list \<Rightarrow> 'f recurrent \<Rightarrow> 'f recurrent option" where
  "schedule_recs alloc [] s = Some s"
| "schedule_recs alloc (r # rs) s =
     (case schedule_recurrent_function_us alloc r s of None \<Rightarrow> None | Some (b, s1) \<Rightarrow> schedule_recs alloc rs s1)"

section \<open>The run\<close>

definition rec_wakeup :: "'f run_env \<Rightarrow> nat \<Rightarrow> 'f recurrent \<Rightarrow> bool" where
  "rec_wakeup e p s \<longleftrightarrow> (case rAlarm s p of None \<Rightarrow> False | Some a \<Rightarrow> env_alarm e p a)"

text \<open>Taking the node \<open>p\<close> out of the list; \<open>prev\<close> is the node before it.\<close>

definition rec_remove :: "nat option \<Rightarrow> nat \<Rightarrow> 'f recurrent \<Rightarrow> 'f recurrent" where
  "rec_remove prev p s =
     (let s1 = (if rLast s = Some p then s\<lparr>rLast := prev\<rparr> else s);
          s2 = (case prev of Some q \<Rightarrow> s1\<lparr>rNext := (rNext s1)(q := rNext s p)\<rparr> | None \<Rightarrow> s1\<lparr>rFirst := rNext s p\<rparr>)
      in s2\<lparr>rFunc := (rFunc s2)(p := None), recurrent_max_grain := 0\<rparr>)"

text \<open>One turn of the loop: the new previous and current nodes and the state.\<close>

definition rec_turn :: "('f recurrent \<Rightarrow> nat option) \<Rightarrow> 'f run_env \<Rightarrow> nat option \<Rightarrow> nat \<Rightarrow> 'f recurrent \<Rightarrow>
    (nat option \<times> nat option \<times> 'f recurrent) option" where
  "rec_turn alloc e prev p s =
     (case rFunc s p of None \<Rightarrow> None
      | Some f \<Rightarrow>
          let wakeup = rec_wakeup e p s;
              (now, t) = tm_expired True (env_now e p) (callNow s p);
              s1 = s\<lparr>callNow := (callNow s)(p := t)\<rparr>;
              s2 = (if wakeup \<or> now then s1\<lparr>called := called s1 @ [f]\<rparr> else s1)
          in case schedule_recs alloc (env_during e p) s2 of None \<Rightarrow> None
            | Some s3 \<Rightarrow>
                (case (if (wakeup \<or> now) \<and> \<not> env_result e p f then (prev, rNext s3 p, rec_remove prev p s3)
                       else (Some p, rNext s3 p, s3)) of
                   (prev1, current, s4) \<Rightarrow>
                     map_option (\<lambda>s5. (prev1, current, s5)) (schedule_recs alloc (env_yield e p) s4)))"

partial_function (option) rec_loop :: "('f recurrent \<Rightarrow> nat option) \<Rightarrow> 'f run_env \<Rightarrow> nat option \<Rightarrow> nat option \<Rightarrow> nat \<Rightarrow>
    'f recurrent \<Rightarrow> 'f recurrent option" where
  "rec_loop alloc e stop prev p s =
     (case rec_turn alloc e prev p s of None \<Rightarrow> None
      | Some (prev1, current, s1) \<Rightarrow>
          (case current of None \<Rightarrow> Some s1
           | Some c \<Rightarrow> if Some p = stop then Some s1 else rec_loop alloc e stop prev1 c s1))"

definition run_scheduled_recurrent_functions :: "('f recurrent \<Rightarrow> nat option) \<Rightarrow> 'f run_env \<Rightarrow> 'f recurrent \<Rightarrow>
    'f recurrent option" where
  "run_scheduled_recurrent_functions alloc e s =
     (case rFirst s of None \<Rightarrow> Some s
      | Some p \<Rightarrow> if fence s then Some s
          else map_option (\<lambda>s1. s1\<lparr>fence := False\<rparr>) (rec_loop alloc e (rLast s) None p (s\<lparr>fence := True\<rparr>)))"

section \<open>The grain\<close>

text \<open>The walk of the list is bounded by \<open>n\<close> nodes.\<close>

fun grain_walk :: "nat \<Rightarrow> 'f recurrent \<Rightarrow> nat option \<Rightarrow> u32 \<Rightarrow> u32 option" where
  "grain_walk n s None g = Some g"
| "grain_walk 0 s (Some p) g = None"
| "grain_walk (Suc n) s (Some p) g =
     grain_walk n s (rNext s p) (of_nat (gcd (unat g) (unat (getTimeout TimeFastMicros (callNow s p)))))"

definition compute_scheduled_recurrent_grain :: "nat \<Rightarrow> 'f recurrent \<Rightarrow> (u32 \<times> 'f recurrent) option" where
  "compute_scheduled_recurrent_grain n s =
     (if recurrent_max_grain s = 0
      then case rFirst s of None \<Rightarrow> Some (0, s)
        | Some p \<Rightarrow>
            map_option (\<lambda>g. let m = (if g \<noteq> 0 then if g \<le> 1000 then 1 else (g + 999) div 1000 else 0)
                            in (m, s\<lparr>recurrent_max_grain := m\<rparr>))
              (grain_walk n s (rNext s p) (getTimeout TimeFastMicros (callNow s p)))
      else Some (recurrent_max_grain s, s))"

section \<open>The list\<close>

definition last_of :: "nat list \<Rightarrow> nat option" where
  "last_of ps = (if ps = [] then None else Some (last ps))"

lemma last_of_simps [simp]: "last_of [] = None" "last_of (ps @ [p]) = Some p" "last_of ps = None \<longleftrightarrow> ps = []"
  "last_of ps = Some p \<Longrightarrow> p \<in> set ps"
  by (auto simp: last_of_def split: if_splits)

definition recur_ok :: "'f recurrent \<Rightarrow> nat list \<Rightarrow> bool" where
  "recur_ok s ps \<longleftrightarrow> lseg (rNext s) (rFirst s) ps None \<and> distinct ps \<and> rLast s = last_of ps \<and> (\<forall>p. rFunc s p \<noteq> None \<longleftrightarrow> p \<in> set ps)"

definition fresh_alloc :: "('f recurrent \<Rightarrow> nat option) \<Rightarrow> bool" where
  "fresh_alloc alloc \<longleftrightarrow> (\<forall>s p. alloc s = Some p \<longrightarrow> rFunc s p = None)"

text \<open>What a node shows to the walk.\<close>

definition node_same :: "nat set \<Rightarrow> 'f recurrent \<Rightarrow> 'f recurrent \<Rightarrow> bool" where
  "node_same N s s1 \<longleftrightarrow> (\<forall>x \<in> N. rFunc s1 x = rFunc s x \<and> callNow s1 x = callNow s x \<and> rAlarm s1 x = rAlarm s x)"

lemma node_same_refl [simp]: "node_same N s s"
  by (simp add: node_same_def)

lemma node_same_trans: "node_same N s s1 \<Longrightarrow> node_same M s1 s2 \<Longrightarrow> K \<subseteq> N \<Longrightarrow> K \<subseteq> M \<Longrightarrow> node_same K s s2"
  by (auto simp: node_same_def subset_iff)

lemma lseg_unlink:
  assumes "lseg nx a (ds @ p # qs) b" and "distinct (ds @ p # qs)" and "ds \<noteq> []"
  shows "lseg (nx(last ds := nx p)) a (ds @ qs) b"
proof -
  obtain es q where ds: "ds = es @ [q]" using assms(3) by (cases ds rule: rev_cases) auto
  show ?thesis using assms(1,2) unfolding ds by (auto simp: lseg_append)
qed

lemma schedule_rec_ok:
  assumes f: "fresh_alloc alloc" and k: "recur_ok s ps" and r: "rq_repeat_us r < neverExpires"
  shows "\<exists>b s1 new. schedule_recurrent_function_us alloc r s = Some (b, s1) \<and> recur_ok s1 (ps @ new) \<and> node_same (set ps) s s1 \<and>
    called s1 = called s \<and> fence s1 = fence s"
proof (cases "rq_fn r = None \<or> alloc s = None")
  case True
  then show ?thesis using k r by (intro exI [of _ False] exI [of _ s] exI [of _ "[]"])
    (auto simp: schedule_recurrent_function_us_def split: option.splits)
next
  case False
  then obtain g p where g: "rq_fn r = Some g" "alloc s = Some p" by auto
  then have "rFunc s p = None" using f by (simp add: fresh_alloc_def)
  then have p: "p \<notin> set ps" using k unfolding recur_ok_def by metis
  let ?nx = "(rNext s)(p := None)"
  let ?s = "\<lambda>nx a. s\<lparr>rFunc := (rFunc s)(p := Some g), rAlarm := (rAlarm s)(p := rq_alarm r), rNext := nx,
    callNow := (callNow s)(p := timer_new TimeFastMicros (rq_now r) (rq_repeat_us r)), rFirst := a, rLast := Some p, recurrent_max_grain := 0\<rparr>"
  show ?thesis
  proof (cases "ps = []")
    case True
    then have "schedule_recurrent_function_us alloc r s = Some (True, ?s ?nx (Some p))"
      using g r k by (simp add: schedule_recurrent_function_us_def recur_ok_def)
    moreover have "recur_ok (?s ?nx (Some p)) (ps @ [p])" using k p True by (simp add: recur_ok_def last_of_def)
    ultimately show ?thesis using True by (intro exI [of _ True] exI [of _ "?s ?nx (Some p)"] exI [of _ "[p]"]) (simp add: node_same_def)
  next
    case False
    then have "schedule_recurrent_function_us alloc r s = Some (True, ?s (?nx(last ps := Some p)) (rFirst s))"
      using g r k by (simp add: schedule_recurrent_function_us_def recur_ok_def last_of_def)
    moreover have "lseg (?nx(last ps := Some p)) (rFirst s) (ps @ [p]) None"
      using k p False by (intro lseg_snoc) (simp_all add: recur_ok_def)
    then have "recur_ok (?s (?nx(last ps := Some p)) (rFirst s)) (ps @ [p])" using k p by (auto simp: recur_ok_def last_of_def)
    ultimately show ?thesis using p
      by (intro exI [of _ True] exI [of _ "?s (?nx(last ps := Some p)) (rFirst s)"] exI [of _ "[p]"]) (auto simp: node_same_def)
  qed
qed

definition repeats_ok :: "'f request list \<Rightarrow> bool" where
  "repeats_ok rs \<longleftrightarrow> (\<forall>r \<in> set rs. rq_repeat_us r < neverExpires)"

lemma schedule_recs_ok:
  assumes f: "fresh_alloc alloc"
  shows "recur_ok s ps \<Longrightarrow> repeats_ok rs \<Longrightarrow> \<exists>s1 new. schedule_recs alloc rs s = Some s1 \<and> recur_ok s1 (ps @ new) \<and>
    node_same (set ps) s s1 \<and> called s1 = called s \<and> fence s1 = fence s"
proof (induction rs arbitrary: s ps)
  case (Cons r rs)
  have r: "rq_repeat_us r < neverExpires" "repeats_ok rs" using Cons.prems(2) by (simp_all add: repeats_ok_def)
  from schedule_rec_ok [OF f Cons.prems(1) r(1)] obtain b s1 new where t: "schedule_recurrent_function_us alloc r s = Some (b, s1)"
    "recur_ok s1 (ps @ new)" "node_same (set ps) s s1" "called s1 = called s" "fence s1 = fence s" by blast
  from Cons.IH [OF t(2) r(2)] obtain s2 new2 where u: "schedule_recs alloc rs s1 = Some s2" "recur_ok s2 (ps @ new @ new2)"
    "node_same (set (ps @ new)) s1 s2" "called s2 = called s1" "fence s2 = fence s1" by auto
  have "node_same (set ps) s s2" by (rule node_same_trans [OF t(3) u(3)]) auto
  then show ?case using t u by (intro exI [of _ s2] exI [of _ "new @ new2"]) simp
qed (force intro: exI [of _ "[]"])

text \<open>Removing a node of the list, and one turn of the loop.\<close>

lemma rec_remove_ok:
  assumes "recur_ok s (ds @ p # qs)"
  shows "recur_ok (rec_remove (last_of ds) p s) (ds @ qs)" and "node_same (- {p}) s (rec_remove (last_of ds) p s)"
    and "called (rec_remove (last_of ds) p s) = called s" and "fence (rec_remove (last_of ds) p s) = fence s"
proof -
  have k: "lseg (rNext s) (rFirst s) (ds @ p # qs) None" "distinct (ds @ p # qs)" "rLast s = last_of (ds @ p # qs)"
    "\<forall>x. rFunc s x \<noteq> None \<longleftrightarrow> x \<in> set (ds @ p # qs)" using assms by (simp_all add: recur_ok_def)
  have l: "rLast s = Some p \<longleftrightarrow> qs = []" "qs \<noteq> [] \<Longrightarrow> rLast s = Some (last qs)"
    using k(2,3) last_in_set [of qs] by (auto simp: last_of_def)
  have fs: "\<forall>x. ((rFunc s)(p := None)) x \<noteq> None \<longleftrightarrow> x \<in> set (ds @ qs)" using k(2,4) by auto
  show "recur_ok (rec_remove (last_of ds) p s) (ds @ qs)"
  proof (cases "ds = []")
    case True
    then show ?thesis using k(1,2) fs l
      by (cases "qs = []") (simp_all add: recur_ok_def rec_remove_def last_of_def del: fun_upd_apply not_None_eq)
  next
    case False
    have "lseg ((rNext s)(last ds := rNext s p)) (rFirst s) (ds @ qs) None" using k(1,2) False by (rule lseg_unlink)
    moreover have "last_of ds = Some (last ds)" using False by (simp add: last_of_def)
    ultimately show ?thesis using k(2) fs l False
      by (cases "qs = []") (simp_all add: recur_ok_def rec_remove_def last_of_def del: fun_upd_apply not_None_eq)
  qed
qed (auto simp: rec_remove_def node_same_def Let_def split: option.splits)

definition rec_due :: "'f run_env \<Rightarrow> 'f recurrent \<Rightarrow> nat \<Rightarrow> bool" where
  "rec_due e s p \<longleftrightarrow> rec_wakeup e p s \<or> fst (tm_expired True (env_now e p) (callNow s p))"

definition rec_kept :: "'f run_env \<Rightarrow> 'f recurrent \<Rightarrow> nat \<Rightarrow> bool" where
  "rec_kept e s p \<longleftrightarrow> \<not> (rec_due e s p \<and> \<not> env_result e p (the (rFunc s p)))"

definition env_ok :: "'f run_env \<Rightarrow> bool" where
  "env_ok e \<longleftrightarrow> (\<forall>p. repeats_ok (env_during e p) \<and> repeats_ok (env_yield e p))"

lemma rec_turn_ok:
  assumes f: "fresh_alloc alloc" and e: "env_ok e" and k: "recur_ok s (ds @ p # qs)"
  shows "\<exists>current s1 new. rec_turn alloc e (last_of ds) p s = Some (last_of (ds @ filter (rec_kept e s) [p]), current, s1) \<and>
    (qs \<noteq> [] \<longrightarrow> current = Some (hd qs)) \<and> recur_ok s1 (ds @ filter (rec_kept e s) [p] @ qs @ new) \<and> node_same (set qs) s s1 \<and>
    called s1 = called s @ map (\<lambda>x. the (rFunc s x)) (filter (rec_due e s) [p]) \<and> fence s1 = fence s"
proof -
  obtain g where g: "rFunc s p = Some g" using k by (auto simp: recur_ok_def)
  obtain now t where nt: "tm_expired True (env_now e p) (callNow s p) = (now, t)" by force
  let ?s1 = "s\<lparr>callNow := (callNow s)(p := t)\<rparr>"
  let ?s2 = "if rec_due e s p then ?s1\<lparr>called := called s @ [g]\<rparr> else ?s1"
  have due: "rec_due e s p \<longleftrightarrow> rec_wakeup e p s \<or> now" by (simp add: rec_due_def nt)
  have kept: "rec_kept e s p \<longleftrightarrow> \<not> (rec_due e s p \<and> \<not> env_result e p g)" by (simp add: rec_kept_def g)
  have d: "p \<notin> set qs" using k by (simp add: recur_ok_def)
  have "recur_ok ?s2 (ds @ p # qs)" using k by (simp add: recur_ok_def)
  moreover have "repeats_ok (env_during e p)" "repeats_ok (env_yield e p)" using e by (simp_all add: env_ok_def)
  ultimately obtain s3 new where t3: "schedule_recs alloc (env_during e p) ?s2 = Some s3" "recur_ok s3 (ds @ p # qs @ new)"
    "node_same (set (ds @ p # qs)) ?s2 s3" "called s3 = called ?s2" "fence s3 = fence ?s2"
    using schedule_recs_ok [OF f, of ?s2 "ds @ p # qs" "env_during e p"] by auto
  let ?s4 = "if rec_kept e s p then s3 else rec_remove (last_of ds) p s3"
  have k4: "recur_ok ?s4 (ds @ filter (rec_kept e s) [p] @ qs @ new)" and n4: "node_same (- {p}) s3 ?s4"
    and c4: "called ?s4 = called s3" "fence ?s4 = fence s3" using rec_remove_ok [OF t3(2)] t3(2) by simp_all
  obtain s5 new2 where t5: "schedule_recs alloc (env_yield e p) ?s4 = Some s5"
    "recur_ok s5 ((ds @ filter (rec_kept e s) [p] @ qs @ new) @ new2)" "node_same (set (ds @ filter (rec_kept e s) [p] @ qs @ new)) ?s4 s5"
    "called s5 = called ?s4" "fence s5 = fence ?s4"
    using schedule_recs_ok [OF f k4 \<open>repeats_ok (env_yield e p)\<close>] by blast
  have turn: "rec_turn alloc e (last_of ds) p s = Some (last_of (ds @ filter (rec_kept e s) [p]), rNext s3 p, s5)"
    using t3(1) t5(1) by (auto simp: rec_turn_def g nt due kept Let_def split: if_splits)
  have "qs \<noteq> [] \<longrightarrow> rNext s3 p = Some (hd qs)" using t3(2) by (cases qs) (auto simp: recur_ok_def lseg_append)
  moreover have "node_same (set qs) s ?s2" using d by (auto simp: node_same_def)
  then have "node_same (set qs) s s3" by (rule node_same_trans [OF _ t3(3)]) auto
  then have "node_same (set qs) s ?s4" by (rule node_same_trans [OF _ n4]) (use d in auto)
  then have "node_same (set qs) s s5" by (rule node_same_trans [OF _ t5(3)]) auto
  moreover have "called s5 = called s @ map (\<lambda>x. the (rFunc s x)) (filter (rec_due e s) [p])" "fence s5 = fence s"
    using t5(4,5) c4 t3(4,5) g by simp_all
  ultimately show ?thesis using turn t5(2)
    by (intro exI [of _ "rNext s3 p"] exI [of _ s5] exI [of _ "new @ new2"]) simp
qed

lemma node_same_due: "node_same N s s1 \<Longrightarrow> x \<in> N \<Longrightarrow> rec_due e s1 x = rec_due e s x \<and> rec_kept e s1 x = rec_kept e s x \<and> rFunc s1 x = rFunc s x"
  by (simp add: node_same_def rec_due_def rec_kept_def rec_wakeup_def)

lemma rec_loop_ok:
  assumes f: "fresh_alloc alloc" and e: "env_ok e"
  shows "recur_ok s (ds @ p # todo @ later) \<Longrightarrow> \<exists>s1 new. rec_loop alloc e (Some (last (p # todo))) (last_of ds) p s = Some s1 \<and>
    recur_ok s1 (ds @ filter (rec_kept e s) (p # todo) @ later @ new) \<and>
    called s1 = called s @ map (\<lambda>x. the (rFunc s x)) (filter (rec_due e s) (p # todo)) \<and> fence s1 = fence s"
proof (induction todo arbitrary: s ds p later)
  case Nil
  from rec_turn_ok [OF f e, of s ds p later] Nil.prems obtain current s1 new where
    t: "rec_turn alloc e (last_of ds) p s = Some (last_of (ds @ filter (rec_kept e s) [p]), current, s1)"
    "recur_ok s1 (ds @ filter (rec_kept e s) [p] @ later @ new)"
    "called s1 = called s @ map (\<lambda>x. the (rFunc s x)) (filter (rec_due e s) [p])" "fence s1 = fence s" by auto
  have "rec_loop alloc e (Some p) (last_of ds) p s = Some s1" by (subst rec_loop.simps) (simp add: t(1) split: option.splits)
  then show ?case using t(2-4) by (intro exI [of _ s1] exI [of _ new]) simp
next
  case (Cons c todo)
  let ?ds = "ds @ filter (rec_kept e s) [p]"
  from rec_turn_ok [OF f e, of s ds p "c # todo @ later"] Cons.prems obtain s1 new where
    t: "rec_turn alloc e (last_of ds) p s = Some (last_of ?ds, Some c, s1)" "recur_ok s1 (?ds @ c # todo @ later @ new)"
    "node_same (set (c # todo)) s s1"
    "called s1 = called s @ map (\<lambda>x. the (rFunc s x)) (filter (rec_due e s) [p])" "fence s1 = fence s"
    by (auto simp: node_same_def)
  have "p \<notin> set (c # todo)" using Cons.prems by (auto simp: recur_ok_def)
  moreover have "last (c # todo) \<in> set (c # todo)" by (rule last_in_set) simp
  ultimately have "p \<noteq> last (c # todo)" by blast
  then have loop: "rec_loop alloc e (Some (last (p # c # todo))) (last_of ds) p s = rec_loop alloc e (Some (last (c # todo))) (last_of ?ds) c s1"
    by (subst rec_loop.simps) (simp add: t(1))
  from Cons.IH [OF t(2)] obtain s2 new2 where u: "rec_loop alloc e (Some (last (c # todo))) (last_of ?ds) c s1 = Some s2"
    "recur_ok s2 (?ds @ filter (rec_kept e s1) (c # todo) @ (later @ new) @ new2)"
    "called s2 = called s1 @ map (\<lambda>x. the (rFunc s1 x)) (filter (rec_due e s1) (c # todo))" "fence s2 = fence s1" by blast
  have same: "filter (rec_kept e s1) (c # todo) = filter (rec_kept e s) (c # todo)" "filter (rec_due e s1) (c # todo) = filter (rec_due e s) (c # todo)"
    "map (\<lambda>x. the (rFunc s1 x)) (filter (rec_due e s) (c # todo)) = map (\<lambda>x. the (rFunc s x)) (filter (rec_due e s) (c # todo))"
    by (intro filter_cong map_cong refl; use node_same_due [OF t(3)] in \<open>auto simp del: filter.simps\<close>)+
  have "map (\<lambda>x. the (rFunc s x)) (filter (rec_due e s) (p # c # todo)) =
      map (\<lambda>x. the (rFunc s x)) (filter (rec_due e s) [p]) @ map (\<lambda>x. the (rFunc s x)) (filter (rec_due e s) (c # todo))"
    "filter (rec_kept e s) (p # c # todo) = filter (rec_kept e s) [p] @ filter (rec_kept e s) (c # todo)" by simp_all
  then show ?case using loop u t(4,5) unfolding same
    by (intro exI [of _ s2] exI [of _ "new @ new2"]) (simp del: filter.simps)
qed

section \<open>The run of recurrent functions\<close>


text \<open>Three functions at time 300000000: the first is not due, the second is and stops, the third is woken by its alarm.\<close>

definition three_recurrent :: "nat recurrent" where
  "three_recurrent = \<lparr>rFunc = [1 \<mapsto> 10, 2 \<mapsto> 20, 3 \<mapsto> 30], rNext = [1 \<mapsto> 2, 2 \<mapsto> 3],
     callNow = (\<lambda>p. \<lparr>tm_timeout = (if p = 2 then 1000 else 2000000000), tm_start = 0, tm_never = False\<rparr>), rAlarm = [3 \<mapsto> 5],
     rFirst = Some 1, rLast = Some 3, recurrent_max_grain = 1, fence = False, called = []\<rparr>"

definition three_env :: "nat run_env" where
  "three_env = \<lparr>env_now = (\<lambda>p. 300000000), env_alarm = (\<lambda>p a. a = 5), env_result = (\<lambda>p f. f = 30),
     env_during = (\<lambda>p. if p = 2 then [\<lparr>rq_fn = Some 40, rq_repeat_us = 50, rq_alarm = None, rq_now = 300000100\<rparr>] else []),
     env_yield = (\<lambda>p. [])\<rparr>"


section \<open>The grain of the timers\<close>

text \<open>The grain is the greatest common divisor of the periods in microseconds, rounded up to milliseconds.\<close>

lemma grain_walk_gcd:
  "lseg (rNext s) a ps None \<Longrightarrow> length ps \<le> n \<Longrightarrow>
   grain_walk n s a g = Some (of_nat (fold (\<lambda>p d. gcd d (unat (getTimeout TimeFastMicros (callNow s p)))) ps (unat g)))"
proof (induction ps arbitrary: a n g)
  case (Cons p ps)
  obtain m where n: "n = Suc m" "length ps \<le> m" using Cons.prems(2) by (cases n) auto
  let ?h = "gcd (unat g) (unat (getTimeout TimeFastMicros (callNow s p)))"
  have "?h < 2 ^ 32"
  proof (cases "unat g = 0")
    case True
    then show ?thesis using unat_bound [of "getTimeout TimeFastMicros (callNow s p)"] by simp
  next
    case False
    then have "?h \<le> unat g" by (intro gcd_le1_nat) simp
    then show ?thesis using unat_bound [of g] by simp
  qed
  then have "unat (of_nat ?h :: u32) = ?h" by (rule unat_of_nat_u32)
  then show ?case using Cons.IH [of "rNext s p" m "of_nat ?h"] Cons.prems(1) n by simp
qed simp

lemma grain_value:
  assumes "recur_ok s (p # ps)" and "recurrent_max_grain s = 0" and "length ps \<le> n"
  shows "\<exists>g. grain_walk n s (rNext s p) (getTimeout TimeFastMicros (callNow s p)) = Some g \<and>
    (\<exists>s1. compute_scheduled_recurrent_grain n s = Some (if g = 0 then 0 else if g \<le> 1000 then 1 else (g + 999) div 1000, s1))"
proof -
  have "lseg (rNext s) (rNext s p) ps None" "rFirst s = Some p" using assms(1) by (simp_all add: recur_ok_def)
  from grain_walk_gcd [OF this(1) assms(3)] this(2) show ?thesis
    using assms(2) by (auto simp: compute_scheduled_recurrent_grain_def Let_def)
qed

end
