(* ===== verification/Uart_Rx.thy ===== *)
theory Uart_Rx
  imports Prelude
begin

text \<open>
  The receiver of the serial driver, \<open>cores/esp8266/uart.cpp\<close>: a ring in memory behind the FIFO of the hardware.  The
  interrupt handler moves the FIFO into the ring and discards the oldest bytes when the ring is full; readers take from
  the ring first and then straight from the FIFO.

  \<open>rx_fifo\<close> holds the bytes in the hardware FIFO, reading the register \<open>USF\<close> takes the first one and the count in
  \<open>USS\<close> is its length.  Bytes may arrive at any time; the routines that use both parts hold the interrupt off, so that an
  arrival during one of them has the effect of an arrival just before or after it.  An access outside the array and a division by
  zero are \<open>None\<close>.
\<close>

section \<open>State\<close>

record rx_buf =
  rx_size :: nat
  rpos :: nat
  wpos :: nat
  rx_data :: "u8 list"

record uart =
  uart_nr :: int
  baud_rate :: int
  rx_enabled :: bool
  tx_enabled :: bool
  rx_overrun :: bool
  rx_error :: bool
  rx_pin :: int
  tx_pin :: int
  rx_buffer :: rx_buf

definition UIFF :: nat where "UIFF = 0"
definition UIPE :: nat where "UIPE = 2"
definition UIFR :: nat where "UIFR = 3"
definition UIOF :: nat where "UIOF = 4"
definition UITO :: nat where "UITO = 8"

text \<open>The driver and the hardware it works on: the pointer to the object, the FIFO, the status register \<open>USIS\<close> and
  whether the interrupt is enabled.\<close>

record serial =
  sdev :: "uart option"
  rx_fifo :: "u8 list"
  usis :: u32
  intr :: bool

section \<open>The ring\<close>

definition rx_buffer_available :: "rx_buf \<Rightarrow> nat" where
  "rx_buffer_available b = (if wpos b < rpos b then wpos b + rx_size b - rpos b else wpos b - rpos b)"

definition rx_available :: "rx_buf \<Rightarrow> u8 list \<Rightarrow> nat" where
  "rx_available b fifo = rx_buffer_available b + length fifo"

text \<open>One byte from the interrupt; the flag says whether the oldest byte was discarded.\<close>

definition rx_put :: "u8 \<Rightarrow> rx_buf \<Rightarrow> (bool \<times> rx_buf) option" where
  "rx_put d b =
     (if rx_size b = 0 then None
      else let nextPos = (wpos b + 1) mod rx_size b;
               full = (nextPos = rpos b);
               b1 = (if full then b\<lparr>rpos := (if rpos b + 1 = rx_size b then 0 else rpos b + 1)\<rparr> else b)
           in if wpos b < length (rx_data b)
              then Some (full, b1\<lparr>rx_data := (rx_data b1)[wpos b := d], wpos := nextPos\<rparr>)
              else None)"

fun copy_fifo :: "u8 list \<Rightarrow> rx_buf \<Rightarrow> (bool \<times> rx_buf) option" where
  "copy_fifo [] b = Some (False, b)"
| "copy_fifo (d # ds) b =
     (case rx_put d b of None \<Rightarrow> None
      | Some (o1, b1) \<Rightarrow> map_option (\<lambda>(o2, b2). (o1 \<or> o2, b2)) (copy_fifo ds b1))"

definition uart_rx_copy_fifo_to_buffer :: "uart \<Rightarrow> serial \<Rightarrow> (uart \<times> serial) option" where
  "uart_rx_copy_fifo_to_buffer u s =
     (case copy_fifo (rx_fifo s) (rx_buffer u) of None \<Rightarrow> None
      | Some (full, b) \<Rightarrow> let u1 = u\<lparr>rx_overrun := rx_overrun u \<or> full, rx_buffer := b\<rparr> in
          Some (u1, s\<lparr>sdev := Some u1, rx_fifo := []\<rparr>))"

definition uart_read_char_unsafe :: "rx_buf \<Rightarrow> (int \<times> rx_buf) option" where
  "uart_read_char_unsafe b =
     (if rx_buffer_available b \<noteq> 0
      then if rpos b < length (rx_data b) \<and> rx_size b \<noteq> 0
           then Some (uint (rx_data b ! rpos b), b\<lparr>rpos := (rpos b + 1) mod rx_size b\<rparr>) else None
      else Some (- 1, b))"

section \<open>Reading\<close>

text \<open>\<open>out\<close> is what has been stored at \<open>userbuffer\<close> so far.\<close>

partial_function (option) read_loop :: "nat \<Rightarrow> u8 list \<Rightarrow> rx_buf \<Rightarrow> u8 list \<Rightarrow> (u8 list \<times> rx_buf \<times> u8 list) option" where
  "read_loop usersize out b fifo =
     (if \<not> (length out < usersize \<and> 0 < rx_available b fifo) then Some (out, b, fifo)
      else if rx_buffer_available b = 0
      then let n = usersize - length out in Some (out @ take n fifo, b, drop n fifo)
      else
        let linear = (if rpos b < wpos b then wpos b - rpos b else rx_size b - rpos b);
            chunk = (if usersize < length out + linear then usersize - length out else linear)
        in if rpos b + chunk \<le> length (rx_data b) \<and> rx_size b \<noteq> 0
           then read_loop usersize (out @ take chunk (drop (rpos b) (rx_data b))) (b\<lparr>rpos := (rpos b + chunk) mod rx_size b\<rparr>) fifo
           else None)"

definition uart_read :: "nat \<Rightarrow> serial \<Rightarrow> (u8 list \<times> serial) option" where
  "uart_read usersize s =
     (case sdev s of None \<Rightarrow> Some ([], s)
      | Some u \<Rightarrow>
          if \<not> rx_enabled u then Some ([], s)
          else map_option (\<lambda>(out, b, fifo). (out, s\<lparr>sdev := Some (u\<lparr>rx_buffer := b\<rparr>), rx_fifo := fifo, intr := True\<rparr>))
            (read_loop usersize [] (rx_buffer u) (rx_fifo s)))"

definition uart_read_char :: "serial \<Rightarrow> (int \<times> serial) option" where
  "uart_read_char s = map_option (\<lambda>(out, s1). (case out of [] \<Rightarrow> - 1 | d # _ \<Rightarrow> uint d, s1)) (uart_read 1 s)"

text \<open>The two parts are looked at one after the other, with the interrupt enabled in between: \<open>s1\<close> is the state of the second look.\<close>

definition uart_rx_available :: "serial \<Rightarrow> serial \<Rightarrow> nat" where
  "uart_rx_available s s1 =
     (case sdev s of None \<Rightarrow> 0
      | Some u \<Rightarrow> if \<not> rx_enabled u then 0 else rx_buffer_available (rx_buffer u) + length (rx_fifo s1))"

definition uart_peek_char_unsafe :: "uart \<Rightarrow> serial \<Rightarrow> (int \<times> serial) option" where
  "uart_peek_char_unsafe u s =
     (if rx_available (rx_buffer u) (rx_fifo s) = 0 then Some (- 1, s)
      else (case (if rx_buffer_available (rx_buffer u) = 0 then uart_rx_copy_fifo_to_buffer u s else Some (u, s)) of
         None \<Rightarrow> None
       | Some (u1, s1) \<Rightarrow>
           if rpos (rx_buffer u1) < length (rx_data (rx_buffer u1))
           then Some (uint (rx_data (rx_buffer u1) ! rpos (rx_buffer u1)), s1) else None))"

definition uart_peek_char :: "serial \<Rightarrow> (int \<times> serial) option" where
  "uart_peek_char s =
     (case sdev s of None \<Rightarrow> Some (- 1, s)
      | Some u \<Rightarrow>
          if \<not> rx_enabled u then Some (- 1, s)
          else map_option (\<lambda>(r, s1). (r, s1\<lparr>intr := True\<rparr>)) (uart_peek_char_unsafe u s))"

text \<open>The peek interface: a count, the bytes from the read position and their removal; these three do not look at the pointer.\<close>

definition uart_peek_available :: "uart \<Rightarrow> serial \<Rightarrow> (nat \<times> serial) option" where
  "uart_peek_available u s =
     (case uart_rx_copy_fifo_to_buffer u s of None \<Rightarrow> None
      | Some (u1, s1) \<Rightarrow> let b = rx_buffer u1 in
          Some (if wpos b < rpos b then rx_size b - rpos b else wpos b - rpos b, s1\<lparr>intr := True\<rparr>))"

definition uart_peek_buffer :: "uart \<Rightarrow> u8 list" where
  "uart_peek_buffer u = drop (rpos (rx_buffer u)) (rx_data (rx_buffer u))"

definition uart_peek_consume :: "nat \<Rightarrow> uart \<Rightarrow> serial \<Rightarrow> serial" where
  "uart_peek_consume n u s =
     (let b = rx_buffer u; r = rpos b + n
      in s\<lparr>sdev := Some (u\<lparr>rx_buffer := b\<lparr>rpos := (if rx_size b \<le> r then r - rx_size b else r)\<rparr>\<rparr>), intr := True\<rparr>)"

section \<open>Interrupts\<close>

definition uart_isr :: "serial \<Rightarrow> serial option" where
  "uart_isr s =
     (case sdev s of None \<Rightarrow> None
      | Some u \<Rightarrow>
          if \<not> rx_enabled u then Some (s\<lparr>usis := usis s AND NOT (usis s), intr := False\<rparr>)
          else
            (case (if bit (usis s) UIFF then uart_rx_copy_fifo_to_buffer u s else Some (u, s)) of
               None \<Rightarrow> None
             | Some (u1, s1) \<Rightarrow>
                 let u2 = (if bit (usis s) UIOF then u1\<lparr>rx_overrun := True\<rparr> else u1);
                     u3 = (if bit (usis s) UIFR \<or> bit (usis s) UIPE \<or> bit (usis s) UITO then u2\<lparr>rx_error := True\<rparr> else u2)
                 in Some (s1\<lparr>sdev := Some u3, usis := usis s1 AND NOT (usis s)\<rparr>)))"

text \<open>The handler the debugger stub calls for every byte it passes on.\<close>

definition uart_isr_handle_data :: "u8 \<Rightarrow> serial \<Rightarrow> serial option" where
  "uart_isr_handle_data d s =
     (case sdev s of None \<Rightarrow> Some s
      | Some u \<Rightarrow>
          if \<not> rx_enabled u then Some s
          else (case rx_put d (rx_buffer u) of None \<Rightarrow> None
            | Some (full, b) \<Rightarrow>
                let u1 = u\<lparr>rx_overrun := rx_overrun u \<or> full \<or> bit (usis s) UIOF,
                           rx_error := rx_error u \<or> bit (usis s) UIFR \<or> bit (usis s) UIPE \<or> bit (usis s) UITO, rx_buffer := b\<rparr>
                in Some (s\<lparr>sdev := Some u1, usis := usis s AND NOT (usis s)\<rparr>)))"

section \<open>Flags and size\<close>

definition uart_has_overrun :: "serial \<Rightarrow> bool \<times> serial" where
  "uart_has_overrun s =
     (case sdev s of None \<Rightarrow> (False, s)
      | Some u \<Rightarrow> if \<not> rx_overrun u then (False, s) else (True, s\<lparr>sdev := Some (u\<lparr>rx_overrun := False\<rparr>)\<rparr>))"

definition uart_has_rx_error :: "serial \<Rightarrow> bool \<times> serial" where
  "uart_has_rx_error s =
     (case sdev s of None \<Rightarrow> (False, s)
      | Some u \<Rightarrow> if \<not> rx_error u then (False, s) else (True, s\<lparr>sdev := Some (u\<lparr>rx_error := False\<rparr>)\<rparr>))"

text \<open>The loop that fills the new array; what is left to fill, and the bytes stored.\<close>

fun resize_fill :: "nat \<Rightarrow> rx_buf \<Rightarrow> u8 list \<Rightarrow> (u8 list \<times> rx_buf) option" where
  "resize_fill 0 b fifo = Some ([], b)"
| "resize_fill (Suc n) b fifo =
     (if rx_available b fifo = 0 then Some ([], b)
      else case uart_read_char_unsafe b of None \<Rightarrow> None
        | Some (r, b1) \<Rightarrow> map_option (\<lambda>(ds, b2). (word_of_int r # ds, b2)) (resize_fill n b1 fifo))"

text \<open>\<open>mem\<close> is the array \<open>malloc\<close> returns, if any.\<close>

definition uart_resize_rx_buffer :: "u8 list option \<Rightarrow> nat \<Rightarrow> serial \<Rightarrow> (nat \<times> serial) option" where
  "uart_resize_rx_buffer mem new_size s =
     (case sdev s of None \<Rightarrow> Some (0, s)
      | Some u \<Rightarrow>
          if \<not> rx_enabled u then Some (0, s)
          else if rx_size (rx_buffer u) = new_size then Some (rx_size (rx_buffer u), s)
          else (case mem of None \<Rightarrow> Some (rx_size (rx_buffer u), s)
            | Some new_buf \<Rightarrow>
                (case resize_fill new_size (rx_buffer u) (rx_fifo s) of None \<Rightarrow> None
                 | Some (ds, b) \<Rightarrow>
                     let new_wpos = (if length ds = new_size then 0 else length ds) in
                     Some (new_size, s\<lparr>sdev := Some (u\<lparr>rx_buffer :=
                         \<lparr>rx_size = new_size, rpos = 0, wpos = new_wpos, rx_data = ds @ drop (length ds) new_buf\<rparr>\<rparr>), intr := True\<rparr>))))"

definition uart_get_rx_buffer_size :: "serial \<Rightarrow> nat" where
  "uart_get_rx_buffer_size s = (case sdev s of None \<Rightarrow> 0 | Some u \<Rightarrow> if rx_enabled u then rx_size (rx_buffer u) else 0)"

section \<open>The contents of the ring\<close>

definition buf_ok :: "rx_buf \<Rightarrow> bool" where
  "buf_ok b \<longleftrightarrow> length (rx_data b) = rx_size b \<and> rpos b < rx_size b \<and> wpos b < rx_size b"

definition rx_items :: "rx_buf \<Rightarrow> u8 list" where
  "rx_items b = map (\<lambda>i. rx_data b ! ((rpos b + i) mod rx_size b)) [0..<rx_buffer_available b]"

lemma length_rx_items [simp]: "length (rx_items b) = rx_buffer_available b"
  by (simp add: rx_items_def)

lemma nth_rx_items: "j < rx_buffer_available b \<Longrightarrow> rx_items b ! j = rx_data b ! ((rpos b + j) mod rx_size b)"
  by (simp add: rx_items_def)

lemma rx_available_bound: "buf_ok b \<Longrightarrow> rx_buffer_available b < rx_size b"
  by (auto simp: rx_buffer_available_def buf_ok_def)

lemma rx_wpos: "buf_ok b \<Longrightarrow> wpos b = (rpos b + rx_buffer_available b) mod rx_size b"
  by (auto simp: rx_buffer_available_def buf_ok_def)

lemma rx_skip:
  assumes "buf_ok b" and "k \<le> rx_buffer_available b"
  defines "b1 \<equiv> b\<lparr>rpos := (rpos b + k) mod rx_size b\<rparr>"
  shows "buf_ok b1" and "rx_items b1 = drop k (rx_items b)"
proof -
  have i: "length (rx_data b) = rx_size b" "rpos b < rx_size b" "wpos b < rx_size b" using assms(1) by (simp_all add: buf_ok_def)
  show "buf_ok b1" using i by (auto simp: buf_ok_def b1_def)
  have n: "rx_buffer_available b1 = rx_buffer_available b - k"
  proof (cases "rpos b + k < rx_size b")
    case True
    then show ?thesis using assms(2) i by (auto simp: rx_buffer_available_def b1_def split: if_splits)
  next
    case False
    then have "(rpos b + k) mod rx_size b = rpos b + k - rx_size b" using assms(2) i rx_available_bound [OF assms(1)]
      by (simp add: mod_if)
    then show ?thesis using False assms(2) i by (auto simp: rx_buffer_available_def b1_def split: if_splits)
  qed
  show "rx_items b1 = drop k (rx_items b)"
    by (rule nth_equalityI) (simp_all add: n, simp add: rx_items_def n, simp add: b1_def mod_add_left_eq add.assoc)
qed

text \<open>Storing a byte where there is room, and what the interrupt does: of the old bytes and the new one the last \<open>size - 1\<close> stay.\<close>

lemma rx_store:
  fixes d :: u8
  assumes k: "buf_ok b" and room: "rx_buffer_available b + 1 < rx_size b"
  defines "b1 \<equiv> b\<lparr>rx_data := (rx_data b)[wpos b := d], wpos := (wpos b + 1) mod rx_size b\<rparr>"
  shows "buf_ok b1" and "rx_items b1 = rx_items b @ [d]" and "(wpos b + 1) mod rx_size b \<noteq> rpos b"
proof -
  have i: "length (rx_data b) = rx_size b" "rpos b < rx_size b" "wpos b < rx_size b" using k by (simp_all add: buf_ok_def)
  have w: "(wpos b + 1) mod rx_size b = (if wpos b + 1 = rx_size b then 0 else wpos b + 1)" using i(3) by auto
  have n: "rx_buffer_available b1 = rx_buffer_available b + 1"
    using i room w by (auto simp: rx_buffer_available_def b1_def split: if_splits)
  show "buf_ok b1" using i by (simp add: buf_ok_def b1_def)
  have at: "(rpos b + j) mod rx_size b = wpos b \<longleftrightarrow> j = rx_buffer_available b" if "j \<le> rx_buffer_available b" for j
  proof
    assume "(rpos b + j) mod rx_size b = wpos b"
    then have "(rpos b + j) mod rx_size b = (rpos b + rx_buffer_available b) mod rx_size b" using rx_wpos [OF k] by simp
    then show "j = rx_buffer_available b" using that rx_available_bound [OF k] i(2) by (simp add: mod_if split: if_splits)
  qed (use rx_wpos [OF k] in simp)
  show "rx_items b1 = rx_items b @ [d]"
  proof (rule nth_equalityI)
    fix j assume "j < length (rx_items b1)"
    then have j: "j \<le> rx_buffer_available b" by (simp add: n)
    then have "rx_items b1 ! j = rx_data b1 ! ((rpos b1 + j) mod rx_size b1)" by (intro nth_rx_items) (simp add: n)
    also have "\<dots> = (rx_data b)[wpos b := d] ! ((rpos b + j) mod rx_size b)" by (simp add: b1_def)
    also have "\<dots> = (rx_items b @ [d]) ! j"
    proof (cases "j = rx_buffer_available b")
      case True
      then show ?thesis using rx_wpos [OF k] i by (simp add: nth_append)
    next
      case False
      then have "(rpos b + j) mod rx_size b \<noteq> wpos b" using at [OF j] by blast
      then show ?thesis using False j by (simp add: nth_append nth_rx_items)
    qed
    finally show "rx_items b1 ! j = (rx_items b @ [d]) ! j" .
  qed (simp add: n)
  show "(wpos b + 1) mod rx_size b \<noteq> rpos b" using i room w by (auto simp: rx_buffer_available_def split: if_splits)
qed

lemma rx_put_ok:
  assumes k: "buf_ok b"
  shows "\<exists>b1. rx_put d b = Some (rx_size b \<le> rx_buffer_available b + 1, b1) \<and> buf_ok b1 \<and> rx_size b1 = rx_size b \<and>
    rx_items b1 = drop (length (rx_items b @ [d]) - (rx_size b - 1)) (rx_items b @ [d])"
proof -
  have i: "length (rx_data b) = rx_size b" "rpos b < rx_size b" "wpos b < rx_size b" using k by (simp_all add: buf_ok_def)
  show ?thesis
  proof (cases "rx_buffer_available b + 1 < rx_size b")
    case True
    then show ?thesis using rx_store [OF k True] i by (simp add: rx_put_def Let_def)
  next
    case False
    then have full: "rx_buffer_available b + 1 = rx_size b" using rx_available_bound [OF k] by simp
    let ?r = "if rpos b + 1 = rx_size b then 0 else rpos b + 1"
    have nx: "(wpos b + 1) mod rx_size b = rpos b"
    proof (cases "wpos b < rpos b")
      case False
      then have "rpos b = 0" "wpos b + 1 = rx_size b" using full i(3) by (simp_all add: rx_buffer_available_def)
      then show ?thesis by simp
    qed (use full i in \<open>simp add: rx_buffer_available_def\<close>)
    have put: "rx_put d b = Some (True, b\<lparr>rpos := ?r, rx_data := (rx_data b)[wpos b := d], wpos := (wpos b + 1) mod rx_size b\<rparr>)"
      using i nx by (simp add: rx_put_def Let_def)
    show ?thesis
    proof (cases "rx_size b = 1")
      case True
      then show ?thesis using put i full by (auto simp: buf_ok_def rx_items_def rx_buffer_available_def)
    next
      case False
      let ?b = "b\<lparr>rpos := (rpos b + 1) mod rx_size b\<rparr>"
      have r: "?r = (rpos b + 1) mod rx_size b" using i by auto
      have k1: "buf_ok ?b" "rx_items ?b = drop 1 (rx_items b)" using rx_skip [OF k, of 1] full False i by simp_all
      have "rx_buffer_available ?b = rx_buffer_available b - 1" using arg_cong [OF k1(2), of length] by simp
      then have "rx_buffer_available ?b + 1 < rx_size ?b" using full False i by simp
      note st = rx_store(1,2) [OF k1(1) this, of d]
      have "rx_items b \<noteq> []" using full False by (metis length_rx_items list.size(3) add_0)
      then have "drop 1 (rx_items b @ [d]) = drop 1 (rx_items b) @ [d]" by (cases "rx_items b") simp_all
      moreover have "length (rx_items b @ [d]) - (rx_size b - 1) = 1" using full False by simp
      ultimately show ?thesis using st k1(2) put r full by simp
    qed
  qed
qed

lemma copy_fifo_ok:
  "buf_ok b \<Longrightarrow> \<exists>b1. copy_fifo ds b = Some (rx_size b \<le> rx_buffer_available b + length ds \<and> ds \<noteq> [], b1) \<and> buf_ok b1 \<and>
    rx_size b1 = rx_size b \<and> rx_items b1 = drop (rx_buffer_available b + length ds - (rx_size b - 1)) (rx_items b @ ds)"
proof (induction ds arbitrary: b)
  case Nil
  then show ?case using rx_available_bound [OF Nil] by simp
next
  case (Cons d ds)
  obtain b1 where p: "rx_put d b = Some (rx_size b \<le> rx_buffer_available b + 1, b1)" "buf_ok b1" "rx_size b1 = rx_size b"
    "rx_items b1 = drop (length (rx_items b @ [d]) - (rx_size b - 1)) (rx_items b @ [d])" using rx_put_ok [OF Cons.prems] by blast
  have n: "rx_buffer_available b1 = rx_buffer_available b + 1 - (rx_buffer_available b + 1 - (rx_size b - 1))"
    using arg_cong [OF p(4), of length] by (simp only: length_rx_items length_drop length_append list.size One_nat_def add_0)
  obtain b2 where c: "copy_fifo ds b1 = Some (rx_size b1 \<le> rx_buffer_available b1 + length ds \<and> ds \<noteq> [], b2)" "buf_ok b2"
    "rx_size b2 = rx_size b1" "rx_items b2 = drop (rx_buffer_available b1 + length ds - (rx_size b1 - 1)) (rx_items b1 @ ds)"
    using Cons.IH [OF p(2)] by blast
  have lt: "rx_buffer_available b < rx_size b" by (rule rx_available_bound [OF Cons.prems])
  have "(rx_size b \<le> rx_buffer_available b + 1 \<or> rx_size b1 \<le> rx_buffer_available b1 + length ds \<and> ds \<noteq> []) \<longleftrightarrow>
      rx_size b \<le> rx_buffer_available b + length (d # ds)" using p(3) n lt by (cases ds) auto
  moreover have "rx_items b2 = drop (rx_buffer_available b + length (d # ds) - (rx_size b - 1)) (rx_items b @ d # ds)"
  proof -
    let ?k = "rx_buffer_available b + 1 - (rx_size b - 1)"
    have "rx_items b1 @ ds = drop ?k (rx_items b @ [d]) @ ds" using p(4) by simp
    also have "\<dots> = drop ?k ((rx_items b @ [d]) @ ds)" using lt by (subst (2) drop_append) simp
    finally have "rx_items b2 = drop (rx_buffer_available b1 + length ds - (rx_size b - 1)) (drop ?k ((rx_items b @ [d]) @ ds))"
      using c(4) p(3) by (simp only:)
    then have "rx_items b2 = drop (rx_buffer_available b1 + length ds - (rx_size b - 1) + ?k) (rx_items b @ d # ds)"
      by (simp only: drop_drop append_assoc append.simps)
    moreover have "rx_buffer_available b1 + length ds - (rx_size b - 1) + ?k = rx_buffer_available b + length (d # ds) - (rx_size b - 1)"
      using n lt by (cases "rx_size b \<le> rx_buffer_available b + 1") auto
    ultimately show ?thesis by (simp only:)
  qed
  ultimately show ?case using p(1,3) c(1-3) by auto
qed

section \<open>Reading gives the oldest bytes\<close>

lemma rx_linear:
  assumes "buf_ok b" and "k \<le> rx_buffer_available b" and "rpos b + k \<le> rx_size b"
  shows "take k (drop (rpos b) (rx_data b)) = take k (rx_items b)"
proof (rule nth_equalityI)
  show "length (take k (drop (rpos b) (rx_data b))) = length (take k (rx_items b))" using assms by (simp add: buf_ok_def)
  fix i assume "i < length (take k (drop (rpos b) (rx_data b)))"
  then have "i < k" by simp
  then show "take k (drop (rpos b) (rx_data b)) ! i = take k (rx_items b) ! i" using assms by (simp add: buf_ok_def nth_rx_items)
qed

lemma read_loop_ok:
  "buf_ok b \<Longrightarrow> length out \<le> n \<Longrightarrow> \<exists>b1 fifo1. read_loop n out b fifo = Some (out @ take (n - length out) (rx_items b @ fifo), b1, fifo1) \<and>
     buf_ok b1 \<and> rx_size b1 = rx_size b \<and> rx_items b1 @ fifo1 = drop (n - length out) (rx_items b @ fifo)"
proof (induction "n - length out" arbitrary: out b rule: less_induct)
  case less
  have i: "length (rx_data b) = rx_size b" "rpos b < rx_size b" "wpos b < rx_size b" using less.prems(1) by (simp_all add: buf_ok_def)
  consider (stop) "length out = n \<or> rx_available b fifo = 0" | (hw) "length out < n" "rx_buffer_available b = 0" "fifo \<noteq> []"
    | (sw) "length out < n" "rx_buffer_available b \<noteq> 0"
    by (metis add_is_0 le_neq_implies_less less.prems(2) length_0_conv rx_available_def)
  then show ?case
  proof cases
    case stop
    then have "read_loop n out b fifo = Some (out, b, fifo)" by (subst read_loop.simps) auto
    moreover have "length out = n \<or> rx_items b @ fifo = []" using stop by (auto simp: rx_available_def simp flip: length_0_conv)
    ultimately show ?thesis using less.prems(1) by auto
  next
    case hw
    then have "read_loop n out b fifo = Some (out @ take (n - length out) fifo, b, drop (n - length out) fifo)"
      by (subst read_loop.simps) (auto simp: rx_available_def Let_def)
    moreover have "rx_items b = []" using hw(2) by (simp flip: length_0_conv)
    ultimately show ?thesis using less.prems(1) by simp
  next
    case sw
    define linear where "linear = (if rpos b < wpos b then wpos b - rpos b else rx_size b - rpos b)"
    define k where "k = (if n < length out + linear then n - length out else linear)"
    have l: "linear \<le> rx_buffer_available b" "0 < linear" "rpos b + linear \<le> rx_size b"
      using sw(2) i by (auto simp: linear_def rx_buffer_available_def split: if_splits)
    have k: "k \<le> rx_buffer_available b" "0 < k" "rpos b + k \<le> rx_size b" "length out + k \<le> n" using l sw(1) by (auto simp: k_def)
    let ?b = "b\<lparr>rpos := (rpos b + k) mod rx_size b\<rparr>"
    let ?out = "out @ take k (rx_items b)"
    have loop: "read_loop n out b fifo = read_loop n ?out ?b fifo"
      using sw k i rx_linear [OF less.prems(1) k(1,3)]
      by (subst read_loop.simps) (auto simp: rx_available_def linear_def [symmetric] k_def [symmetric] Let_def)
    have len: "length ?out = length out + k" using k(1) by simp
    note sk = rx_skip [OF less.prems(1) k(1)]
    have "n - length ?out < n - length out" "length ?out \<le> n" using len k(2,4) sw(1) by simp_all
    from less.hyps [OF this(1) sk(1) this(2)] obtain b1 fifo1 where r: "read_loop n ?out ?b fifo =
        Some (?out @ take (n - (length out + k)) (rx_items ?b @ fifo), b1, fifo1)" "buf_ok b1" "rx_size b1 = rx_size ?b"
      "rx_items b1 @ fifo1 = drop (n - (length out + k)) (rx_items ?b @ fifo)" unfolding len by blast
    have it: "rx_items ?b @ fifo = drop k (rx_items b @ fifo)" "take k (rx_items b) = take k (rx_items b @ fifo)" using sk(2) k(1) by simp_all
    have n: "n - length out = k + (n - (length out + k))" using k(4) by simp
    have "?out @ take (n - (length out + k)) (rx_items ?b @ fifo) = out @ take (n - length out) (rx_items b @ fifo)"
      unfolding it n by (simp only: take_add append_assoc)
    moreover have "rx_items b1 @ fifo1 = drop (n - length out) (rx_items b @ fifo)"
      unfolding r(4) it(1) n drop_drop by (simp only: add.commute)
    ultimately show ?thesis using loop r(1-3) by simp
  qed
qed

section \<open>The operations on what has been received\<close>

text \<open>An open receiver, and the bytes that are waiting: those in the ring before those in the FIFO.\<close>

definition rx_open :: "serial \<Rightarrow> bool" where
  "rx_open s \<longleftrightarrow> (\<exists>u. sdev s = Some u \<and> rx_enabled u \<and> buf_ok (rx_buffer u))"

definition rx_pending :: "serial \<Rightarrow> u8 list" where
  "rx_pending s = (case sdev s of None \<Rightarrow> [] | Some u \<Rightarrow> rx_items (rx_buffer u) @ rx_fifo s)"

definition rx_limit :: "serial \<Rightarrow> nat" where
  "rx_limit s = (case sdev s of None \<Rightarrow> 0 | Some u \<Rightarrow> rx_size (rx_buffer u) - 1)"

definition rx_lost :: "serial \<Rightarrow> bool" where
  "rx_lost s \<longleftrightarrow> (case sdev s of None \<Rightarrow> False | Some u \<Rightarrow> rx_overrun u)"

lemma rx_openE:
  assumes "rx_open s"
  obtains u where "sdev s = Some u" "rx_enabled u" "buf_ok (rx_buffer u)" "rx_pending s = rx_items (rx_buffer u) @ rx_fifo s"
    "rx_limit s = rx_size (rx_buffer u) - 1" "rx_lost s = rx_overrun u"
  using assms by (auto simp: rx_open_def rx_pending_def rx_limit_def rx_lost_def)

lemma uart_read_ok:
  assumes "rx_open s"
  shows "\<exists>s1. uart_read n s = Some (take n (rx_pending s), s1) \<and> rx_open s1 \<and> rx_pending s1 = drop n (rx_pending s) \<and>
    rx_limit s1 = rx_limit s \<and> rx_lost s1 = rx_lost s \<and> usis s1 = usis s"
proof -
  from assms obtain u where u: "sdev s = Some u" "rx_enabled u" "buf_ok (rx_buffer u)" "rx_pending s = rx_items (rx_buffer u) @ rx_fifo s"
    "rx_limit s = rx_size (rx_buffer u) - 1" "rx_lost s = rx_overrun u" by (rule rx_openE)
  from read_loop_ok [OF u(3), of "[]" n "rx_fifo s"] u show ?thesis
    by (auto simp: uart_read_def rx_open_def rx_pending_def rx_limit_def rx_lost_def)
qed

lemma copy_ok:
  assumes "sdev s = Some u" and "rx_enabled u" and "buf_ok (rx_buffer u)"
  shows "\<exists>u1 s1. uart_rx_copy_fifo_to_buffer u s = Some (u1, s1) \<and> sdev s1 = Some u1 \<and> rx_enabled u1 \<and> buf_ok (rx_buffer u1) \<and>
    rx_size (rx_buffer u1) = rx_size (rx_buffer u) \<and> rx_fifo s1 = [] \<and> usis s1 = usis s \<and> intr s1 = intr s \<and>
    rx_items (rx_buffer u1) = drop (length (rx_pending s) - rx_limit s) (rx_pending s) \<and>
    rx_overrun u1 = (rx_overrun u \<or> rx_limit s < length (rx_pending s))"
proof -
  from copy_fifo_ok [OF assms(3), of "rx_fifo s"] obtain b where c: "copy_fifo (rx_fifo s) (rx_buffer u) =
      Some (rx_size (rx_buffer u) \<le> rx_buffer_available (rx_buffer u) + length (rx_fifo s) \<and> rx_fifo s \<noteq> [], b)"
    "buf_ok b" "rx_size b = rx_size (rx_buffer u)"
    "rx_items b = drop (rx_buffer_available (rx_buffer u) + length (rx_fifo s) - (rx_size (rx_buffer u) - 1)) (rx_items (rx_buffer u) @ rx_fifo s)"
    by blast
  have p: "length (rx_pending s) = rx_buffer_available (rx_buffer u) + length (rx_fifo s)" "rx_limit s = rx_size (rx_buffer u) - 1"
    "rx_pending s = rx_items (rx_buffer u) @ rx_fifo s" using assms(1) by (simp_all add: rx_pending_def rx_limit_def)
  have "(rx_size (rx_buffer u) \<le> rx_buffer_available (rx_buffer u) + length (rx_fifo s) \<and> rx_fifo s \<noteq> []) \<longleftrightarrow> rx_limit s < length (rx_pending s)"
    using rx_available_bound [OF assms(3)] p by (cases "rx_fifo s") auto
  then show ?thesis using c assms p unfolding uart_rx_copy_fifo_to_buffer_def by (simp add: Let_def)
qed

lemma uart_isr_ok:
  assumes "rx_open s"
  shows "\<exists>s1. uart_isr s = Some s1 \<and> rx_open s1 \<and> rx_limit s1 = rx_limit s \<and> (rx_lost s \<longrightarrow> rx_lost s1) \<and> intr s1 = intr s \<and> usis s1 = 0 \<and>
    (rx_pending s1 = rx_pending s \<or> rx_pending s1 = drop (length (rx_pending s) - rx_limit s) (rx_pending s) \<and>
       (rx_limit s < length (rx_pending s) \<longrightarrow> rx_lost s1))"
proof -
  from assms obtain u where u: "sdev s = Some u" "rx_enabled u" "buf_ok (rx_buffer u)" "rx_pending s = rx_items (rx_buffer u) @ rx_fifo s"
    "rx_limit s = rx_size (rx_buffer u) - 1" "rx_lost s = rx_overrun u" by (rule rx_openE)
  show ?thesis
  proof (cases "bit (usis s) UIFF")
    case True
    from copy_ok [OF u(1-3)] obtain u1 s1 where c: "uart_rx_copy_fifo_to_buffer u s = Some (u1, s1)" "sdev s1 = Some u1" "rx_enabled u1"
      "buf_ok (rx_buffer u1)" "rx_size (rx_buffer u1) = rx_size (rx_buffer u)" "rx_fifo s1 = []" "usis s1 = usis s" "intr s1 = intr s"
      "rx_items (rx_buffer u1) = drop (length (rx_pending s) - rx_limit s) (rx_pending s)"
      "rx_overrun u1 = (rx_overrun u \<or> rx_limit s < length (rx_pending s))" by blast
    show ?thesis using u(1,2,5,6) c True
      by (auto simp: uart_isr_def rx_open_def rx_pending_def rx_limit_def rx_lost_def Let_def)
  next
    case False
    then show ?thesis using u by (auto simp: uart_isr_def rx_open_def rx_pending_def rx_limit_def rx_lost_def Let_def)
  qed
qed

lemma uart_peek_char_ok:
  assumes "rx_open s" and "0 < rx_limit s"
  shows "\<exists>s1. uart_peek_char s = Some (case rx_pending s1 of [] \<Rightarrow> - 1 | d # _ \<Rightarrow> uint d, s1) \<and> rx_open s1 \<and> rx_limit s1 = rx_limit s \<and>
    (rx_lost s \<longrightarrow> rx_lost s1) \<and> (rx_pending s1 = rx_pending s \<or> rx_pending s1 = drop (length (rx_pending s) - rx_limit s) (rx_pending s) \<and>
       (rx_limit s < length (rx_pending s) \<longrightarrow> rx_lost s1))"
proof -
  from assms(1) obtain u where u: "sdev s = Some u" "rx_enabled u" "buf_ok (rx_buffer u)" "rx_pending s = rx_items (rx_buffer u) @ rx_fifo s"
    "rx_limit s = rx_size (rx_buffer u) - 1" "rx_lost s = rx_overrun u" by (rule rx_openE)
  have first: "rpos (rx_buffer v) < length (rx_data (rx_buffer v))"
    "rx_data (rx_buffer v) ! rpos (rx_buffer v) = hd (rx_items (rx_buffer v))"
    if "buf_ok (rx_buffer v)" "rx_buffer_available (rx_buffer v) \<noteq> 0" for v
    using that nth_rx_items [of 0 "rx_buffer v"] by (simp_all add: buf_ok_def hd_conv_nth flip: length_0_conv)
  have ne: "rx_items (rx_buffer v) = hd (rx_items (rx_buffer v)) # tl (rx_items (rx_buffer v))"
    if "rx_buffer_available (rx_buffer v) \<noteq> 0" for v using that by (simp flip: length_0_conv)
  consider (none) "rx_available (rx_buffer u) (rx_fifo s) = 0" | (sw) "rx_buffer_available (rx_buffer u) \<noteq> 0"
    | (hw) "rx_buffer_available (rx_buffer u) = 0" "rx_available (rx_buffer u) (rx_fifo s) \<noteq> 0" by blast
  then show ?thesis
  proof cases
    case none
    then have "rx_pending s = []" using u(4) by (simp add: rx_available_def flip: length_0_conv)
    then show ?thesis using u none by (auto simp: uart_peek_char_def uart_peek_char_unsafe_def rx_open_def rx_pending_def rx_limit_def rx_lost_def)
  next
    case sw
    obtain d ds where d: "rx_items (rx_buffer u) = d # ds" using ne [OF sw] by blast
    then have "uart_peek_char s = Some (uint d, s\<lparr>intr := True\<rparr>)"
      using u(1,2) sw first [OF u(3) sw] by (simp add: uart_peek_char_def uart_peek_char_unsafe_def rx_available_def)
    then show ?thesis using u d by (auto simp: rx_open_def rx_pending_def rx_limit_def rx_lost_def)
  next
    case hw
    from copy_ok [OF u(1-3)] obtain u1 s1 where c: "uart_rx_copy_fifo_to_buffer u s = Some (u1, s1)" "sdev s1 = Some u1" "rx_enabled u1"
      "buf_ok (rx_buffer u1)" "rx_size (rx_buffer u1) = rx_size (rx_buffer u)" "rx_fifo s1 = []"
      "rx_items (rx_buffer u1) = drop (length (rx_pending s) - rx_limit s) (rx_pending s)"
      "rx_overrun u1 = (rx_overrun u \<or> rx_limit s < length (rx_pending s))" by blast
    have "length (rx_pending s) \<noteq> 0" using hw u(4) by (simp add: rx_available_def)
    then have "length (rx_pending s) - (length (rx_pending s) - rx_limit s) \<noteq> 0" using assms(2) by linarith
    then have av: "rx_buffer_available (rx_buffer u1) \<noteq> 0" using c(7) by (metis length_rx_items length_drop)
    have "uart_peek_char s = Some (uint (hd (rx_items (rx_buffer u1))), s1\<lparr>intr := True\<rparr>)"
      using u(1,2) hw c(1) first [OF c(4) av] by (simp add: uart_peek_char_def uart_peek_char_unsafe_def)
    moreover have "rx_pending (s1\<lparr>intr := True\<rparr>) = rx_items (rx_buffer u1)" using c(2,6) by (simp add: rx_pending_def)
    moreover have "rx_open (s1\<lparr>intr := True\<rparr>)" "rx_limit (s1\<lparr>intr := True\<rparr>) = rx_limit s" "rx_lost (s1\<lparr>intr := True\<rparr>) = rx_overrun u1"
      using c(2-5) u(5) by (simp_all add: rx_open_def rx_limit_def rx_lost_def)
    ultimately show ?thesis using ne [OF av] c(7,8) u(6) by (intro exI [of _ "s1\<lparr>intr := True\<rparr>"]) (auto split: list.split)
  qed
qed

text \<open>Taking at most \<open>n\<close> bytes through the peek interface.\<close>

definition peek_take :: "nat \<Rightarrow> uart \<Rightarrow> serial \<Rightarrow> (u8 list \<times> serial) option" where
  "peek_take n u s =
     (case uart_peek_available u s of None \<Rightarrow> None
      | Some (k, s1) \<Rightarrow>
          (case sdev s1 of None \<Rightarrow> None
           | Some u1 \<Rightarrow> let m = min n k in Some (take m (uart_peek_buffer u1), uart_peek_consume m u1 s1)))"

lemma peek_take_ok:
  assumes "rx_open s" and "sdev s = Some u"
  shows "\<exists>s1 d. peek_take n u s = Some (d, s1) \<and> rx_open s1 \<and> rx_limit s1 = rx_limit s \<and> (rx_lost s \<longrightarrow> rx_lost s1) \<and>
    (rx_limit s < length (rx_pending s) \<longrightarrow> rx_lost s1) \<and>
    d @ rx_pending s1 = drop (length (rx_pending s) - rx_limit s) (rx_pending s)"
proof -
  have u: "rx_enabled u" "buf_ok (rx_buffer u)" "rx_lost s = rx_overrun u" "rx_limit s = rx_size (rx_buffer u) - 1"
    using assms by (auto simp: rx_open_def rx_lost_def rx_limit_def)
  from copy_ok [OF assms(2) u(1,2)] obtain u1 s1 where c: "uart_rx_copy_fifo_to_buffer u s = Some (u1, s1)" "sdev s1 = Some u1" "rx_enabled u1"
    "buf_ok (rx_buffer u1)" "rx_size (rx_buffer u1) = rx_size (rx_buffer u)" "rx_fifo s1 = []"
    "rx_items (rx_buffer u1) = drop (length (rx_pending s) - rx_limit s) (rx_pending s)"
    "rx_overrun u1 = (rx_overrun u \<or> rx_limit s < length (rx_pending s))" by blast
  let ?b = "rx_buffer u1"
  define k where "k = min n (if wpos ?b < rpos ?b then rx_size ?b - rpos ?b else wpos ?b - rpos ?b)"
  have i: "rpos ?b < rx_size ?b" "wpos ?b < rx_size ?b" using c(4) by (simp_all add: buf_ok_def)
  have k: "k \<le> rx_buffer_available ?b" "rpos ?b + k \<le> rx_size ?b" using i by (auto simp: k_def rx_buffer_available_def)
  have pos: "(if rx_size ?b \<le> rpos ?b + k then rpos ?b + k - rx_size ?b else rpos ?b + k) = (rpos ?b + k) mod rx_size ?b"
    using k(2) i by auto
  let ?s = "uart_peek_consume k u1 (s1\<lparr>intr := True\<rparr>)"
  have "peek_take n u s = Some (take k (rx_items ?b), ?s)"
    using c(1,2) rx_linear [OF c(4) k] by (simp add: peek_take_def uart_peek_available_def uart_peek_buffer_def Let_def k_def)
  moreover note sk = rx_skip [OF c(4) k(1)]
  have "rx_open ?s" "rx_pending ?s = drop k (rx_items ?b)" "rx_limit ?s = rx_limit s" "rx_lost ?s = rx_overrun u1"
    using sk c(3,5,6) u(4) unfolding uart_peek_consume_def Let_def pos
    by (simp_all add: rx_open_def rx_pending_def rx_limit_def rx_lost_def)
  moreover have "take k (rx_items ?b) @ drop k (rx_items ?b) = drop (length (rx_pending s) - rx_limit s) (rx_pending s)"
    unfolding append_take_drop_id by (rule c(7))
  moreover have "rx_lost s \<longrightarrow> rx_overrun u1" "rx_limit s < length (rx_pending s) \<longrightarrow> rx_overrun u1" using c(8) u(3) by simp_all
  ultimately show ?thesis by (intro exI [of _ ?s] exI [of _ "take k (rx_items ?b)"]) (simp only: simp_thms)
qed

section \<open>Resizing\<close>

lemma resize_fill_ok:
  "buf_ok b \<Longrightarrow> \<exists>ds b1. resize_fill n b fifo = Some (ds, b1) \<and> (if fifo = [] then ds = take n (rx_items b) else length ds = n)"
proof (induction n arbitrary: b)
  case (Suc n)
  show ?case
  proof (cases "rx_buffer_available b = 0")
    case True
    then have "rx_items b = []" by (simp flip: length_0_conv)
    then show ?thesis using Suc.IH [OF Suc.prems] True by (auto simp: rx_available_def uart_read_char_unsafe_def)
  next
    case False
    let ?b = "b\<lparr>rpos := (rpos b + 1) mod rx_size b\<rparr>"
    have "1 \<le> rx_buffer_available b" using False by simp
    note sk = rx_skip [OF Suc.prems this]
    have "rx_items b ! 0 = rx_data b ! rpos b" using nth_rx_items [of 0 b] False Suc.prems by (simp add: buf_ok_def)
    moreover have ne: "rx_items b \<noteq> []" using False by (simp flip: length_0_conv)
    ultimately have it: "rx_items b = rx_data b ! rpos b # rx_items ?b" using sk(2) ne by (cases "rx_items b") auto
    have "uart_read_char_unsafe b = Some (uint (rx_data b ! rpos b), ?b)"
      using False Suc.prems by (simp add: uart_read_char_unsafe_def buf_ok_def)
    then show ?thesis using Suc.IH [OF sk(1)] False it by (auto simp: rx_available_def)
  qed
qed auto

lemma uart_resize_ok:
  assumes "rx_open s" and "rx_limit s \<noteq> n - 1" and "0 < n" and "length new_buf = n"
  shows "\<exists>s1. uart_resize_rx_buffer (Some new_buf) n s = Some (n, s1) \<and> rx_open s1 \<and> rx_limit s1 = n - 1 \<and> rx_fifo s1 = rx_fifo s \<and>
    rx_pending s1 = (if rx_fifo s = [] \<and> length (rx_pending s) < n then rx_pending s else rx_fifo s)"
proof -
  from assms(1) obtain u where u: "sdev s = Some u" "rx_enabled u" "buf_ok (rx_buffer u)" "rx_pending s = rx_items (rx_buffer u) @ rx_fifo s"
    "rx_limit s = rx_size (rx_buffer u) - 1" by (rule rx_openE)
  from resize_fill_ok [OF u(3)] obtain ds b where r: "resize_fill n (rx_buffer u) (rx_fifo s) = Some (ds, b)"
    "if rx_fifo s = [] then ds = take n (rx_items (rx_buffer u)) else length ds = n" by blast
  let ?w = "if length ds = n then 0 else length ds"
  let ?b = "\<lparr>rx_size = n, rpos = 0, wpos = ?w, rx_data = ds @ drop (length ds) new_buf\<rparr>"
  have len: "length ds \<le> n" using r(2) by (auto split: if_splits)
  have "rx_size (rx_buffer u) \<noteq> n" using assms(2) u(5) by auto
  then have res: "uart_resize_rx_buffer (Some new_buf) n s = Some (n, s\<lparr>sdev := Some (u\<lparr>rx_buffer := ?b\<rparr>), intr := True\<rparr>)"
    using u(1,2) r(1) by (simp add: uart_resize_rx_buffer_def)
  have k: "buf_ok ?b" using len assms(3,4) by (auto simp: buf_ok_def)
  have items: "rx_items ?b = (if length ds = n then [] else ds)"
  proof (rule nth_equalityI)
    show "length (rx_items ?b) = length (if length ds = n then [] else ds)" by (simp add: rx_buffer_available_def)
    fix i assume "i < length (rx_items ?b)"
    then show "rx_items ?b ! i = (if length ds = n then [] else ds) ! i"
      using len by (auto simp: nth_rx_items rx_buffer_available_def nth_append split: if_splits)
  qed
  have "rx_items ?b @ rx_fifo s = (if rx_fifo s = [] \<and> length (rx_pending s) < n then rx_pending s else rx_fifo s)"
    using r(2) u(4) unfolding items by (auto simp: min_def split: if_splits)
  then show ?thesis using res k u(2) unfolding rx_open_def rx_limit_def rx_pending_def by simp
qed

end
