(* ===== verification/Uart_Session.thy ===== *)
theory Uart_Session
  imports Uart_Rx "HOL-Library.Sublist"
begin

text \<open>
  The receiver over any sequence of arrivals, interrupts and reads.  The locale \<open>byte_stream\<close> is the contract of a
  receiver that may drop bytes but then says so; it is interpreted on the steps of the driver.
\<close>

section \<open>Receivers\<close>

fun stream_run :: "('e \<Rightarrow> 's \<Rightarrow> (u8 list \<times> 's) option) \<Rightarrow> 'e list \<Rightarrow> 's \<Rightarrow> (u8 list \<times> 's) option" where
  "stream_run step [] s = Some ([], s)"
| "stream_run step (e # es) s =
     (case step e s of None \<Rightarrow> None
      | Some (d, s1) \<Rightarrow> map_option (\<lambda>(ds, s2). (d @ ds, s2)) (stream_run step es s1))"

locale byte_stream =
  fixes ok :: "'s \<Rightarrow> bool" and pending :: "'s \<Rightarrow> u8 list" and lost :: "'s \<Rightarrow> bool"
    and step :: "'e \<Rightarrow> 's \<Rightarrow> (u8 list \<times> 's) option" and arrives :: "'e \<Rightarrow> u8 list"
  assumes step_law: "ok s \<Longrightarrow> \<exists>d s1. step e s = Some (d, s1) \<and> ok s1 \<and> (lost s \<longrightarrow> lost s1) \<and>
    subseq (d @ pending s1) (pending s @ arrives e) \<and> (\<not> lost s1 \<longrightarrow> d @ pending s1 = pending s @ arrives e)"
begin

lemma run_stream:
  "ok s \<Longrightarrow> \<exists>d s1. stream_run step es s = Some (d, s1) \<and> ok s1 \<and> (lost s \<longrightarrow> lost s1) \<and>
    subseq (d @ pending s1) (pending s @ concat (map arrives es)) \<and>
    (\<not> lost s1 \<longrightarrow> d @ pending s1 = pending s @ concat (map arrives es))"
proof (induction es arbitrary: s)
  case (Cons e es)
  from step_law [OF Cons.prems, of e] obtain d s1 where t: "step e s = Some (d, s1)" "ok s1" "lost s \<longrightarrow> lost s1"
    "subseq (d @ pending s1) (pending s @ arrives e)" "\<not> lost s1 \<longrightarrow> d @ pending s1 = pending s @ arrives e" by blast
  from Cons.IH [OF t(2)] obtain ds s2 where u: "stream_run step es s1 = Some (ds, s2)" "ok s2" "lost s1 \<longrightarrow> lost s2"
    "subseq (ds @ pending s2) (pending s1 @ concat (map arrives es))"
    "\<not> lost s2 \<longrightarrow> ds @ pending s2 = pending s1 @ concat (map arrives es)" by blast
  have "subseq (d @ ds @ pending s2) (d @ pending s1 @ concat (map arrives es))" using u(4) by (rule subseq_append' [THEN iffD2])
  moreover have "subseq ((d @ pending s1) @ concat (map arrives es)) ((pending s @ arrives e) @ concat (map arrives es))"
    using t(4) by (simp only: subseq_append)
  ultimately have "subseq (d @ ds @ pending s2) (pending s @ arrives e @ concat (map arrives es))"
    by (simp add: subseq_order.trans)
  moreover have "\<not> lost s2 \<longrightarrow> d @ ds @ pending s2 = pending s @ arrives e @ concat (map arrives es)"
    using t(5) u(3,5) by (metis append.assoc)
  ultimately show ?case using t(1-3) u(1-3) by auto
qed simp

end

section \<open>The steps of the driver\<close>

text \<open>Bytes arrive with status bits of the hardware's choice; an interrupt is taken while it is enabled.\<close>

datatype rx_event = Arrive u8 u32 | Isr | Read nat | ReadChar | Peek | PeekTake nat

fun rx_arrives :: "rx_event \<Rightarrow> u8 list" where
  "rx_arrives (Arrive d st) = [d]"
| "rx_arrives _ = []"

fun rx_step :: "rx_event \<Rightarrow> serial \<Rightarrow> (u8 list \<times> serial) option" where
  "rx_step (Arrive d st) s = Some ([], s\<lparr>rx_fifo := rx_fifo s @ [d], usis := usis s OR st\<rparr>)"
| "rx_step Isr s = (if intr s then map_option (\<lambda>s1. ([], s1)) (uart_isr s) else Some ([], s))"
| "rx_step (Read n) s = uart_read n s"
| "rx_step ReadChar s = map_option (\<lambda>(r, s1). (if r = - 1 then [] else [word_of_int r], s1)) (uart_read_char s)"
| "rx_step Peek s = map_option (\<lambda>(r, s1). ([], s1)) (uart_peek_char s)"
| "rx_step (PeekTake n) s = (case sdev s of None \<Rightarrow> None | Some u \<Rightarrow> peek_take n u s)"

definition rx_ready :: "serial \<Rightarrow> bool" where
  "rx_ready s \<longleftrightarrow> rx_open s \<and> 0 < rx_limit s"

lemma drop_step:
  assumes "d @ p1 = p \<or> d @ p1 = drop (length p - n) p \<and> (n < length p \<longrightarrow> l)"
  shows "subseq (d @ p1) p \<and> (\<not> l \<longrightarrow> d @ p1 = p)"
  using assms by (auto intro: suffix_imp_subseq suffix_drop)

lemma rx_step_law:
  assumes r: "rx_ready s"
  shows "\<exists>d s1. rx_step e s = Some (d, s1) \<and> rx_ready s1 \<and> (rx_lost s \<longrightarrow> rx_lost s1) \<and>
    subseq (d @ rx_pending s1) (rx_pending s @ rx_arrives e) \<and> (\<not> rx_lost s1 \<longrightarrow> d @ rx_pending s1 = rx_pending s @ rx_arrives e)"
proof -
  have op: "rx_open s" "0 < rx_limit s" using r by (simp_all add: rx_ready_def)
  show ?thesis
  proof (cases e)
    case (Arrive d st)
    then show ?thesis using r by (auto simp: rx_ready_def rx_open_def rx_limit_def rx_lost_def rx_pending_def)
  next
    case Isr
    show ?thesis
    proof (cases "intr s")
      case True
      from uart_isr_ok [OF op(1)] obtain s1 where i: "uart_isr s = Some s1" "rx_open s1" "rx_limit s1 = rx_limit s" "rx_lost s \<longrightarrow> rx_lost s1"
        "rx_pending s1 = rx_pending s \<or> rx_pending s1 = drop (length (rx_pending s) - rx_limit s) (rx_pending s) \<and>
          (rx_limit s < length (rx_pending s) \<longrightarrow> rx_lost s1)" by blast
      from drop_step [of "[]", simplified, OF i(5)] i op True Isr show ?thesis by (simp add: rx_ready_def)
    qed (use r Isr in simp)
  next
    case (Read n)
    from uart_read_ok [OF op(1), of n] op Read show ?thesis by (auto simp: rx_ready_def)
  next
    case ReadChar
    from uart_read_ok [OF op(1), of 1] obtain s1 where u: "uart_read 1 s = Some (take 1 (rx_pending s), s1)" "rx_open s1"
      "rx_pending s1 = drop 1 (rx_pending s)" "rx_limit s1 = rx_limit s" "rx_lost s1 = rx_lost s" by blast
    have "uint (x :: u8) \<noteq> - 1" for x using uint_ge_0 [of x] by linarith
    then show ?thesis using u op ReadChar by (cases "rx_pending s") (auto simp: uart_read_char_def rx_ready_def)
  next
    case Peek
    from uart_peek_char_ok [OF op] obtain s1 r where i: "uart_peek_char s = Some (r, s1)" "rx_open s1" "rx_limit s1 = rx_limit s"
      "rx_lost s \<longrightarrow> rx_lost s1" "rx_pending s1 = rx_pending s \<or> rx_pending s1 = drop (length (rx_pending s) - rx_limit s) (rx_pending s) \<and>
          (rx_limit s < length (rx_pending s) \<longrightarrow> rx_lost s1)" by blast
    from drop_step [of "[]", simplified, OF i(5)] i op Peek show ?thesis by (simp add: rx_ready_def)
  next
    case (PeekTake n)
    obtain u where u: "sdev s = Some u" using op(1) by (auto simp: rx_open_def)
    from peek_take_ok [OF op(1) u, of n] obtain s1 d where i: "peek_take n u s = Some (d, s1)" "rx_open s1" "rx_limit s1 = rx_limit s"
      "rx_lost s \<longrightarrow> rx_lost s1" "rx_limit s < length (rx_pending s) \<longrightarrow> rx_lost s1"
      "d @ rx_pending s1 = drop (length (rx_pending s) - rx_limit s) (rx_pending s)" by blast
    from drop_step [OF disjI2 [OF conjI [OF i(6,5)]]] i op u PeekTake show ?thesis by (simp add: rx_ready_def)
  qed
qed

interpretation rx: byte_stream rx_ready rx_pending rx_lost rx_step rx_arrives
  by unfold_locales (rule rx_step_law)


text \<open>An empty receiver with a ring of four bytes.\<close>

definition small_serial :: serial where
  "small_serial = \<lparr>sdev = Some \<lparr>uart_nr = 0, baud_rate = 9600, rx_enabled = True, tx_enabled = True, rx_overrun = False, rx_error = False,
     rx_pin = 3, tx_pin = 1, rx_buffer = \<lparr>rx_size = 4, rpos = 3, wpos = 3, rx_data = [0, 0, 0, 0]\<rparr>\<rparr>, rx_fifo = [], usis = 0, intr = True\<rparr>"

lemma small_ready: "rx_ready small_serial" "rx_pending small_serial = []" "\<not> rx_lost small_serial"
  by (auto simp: rx_ready_def rx_open_def rx_limit_def rx_pending_def rx_lost_def small_serial_def buf_ok_def rx_items_def rx_buffer_available_def)


text \<open>
  C35: Resizing the receive buffer keeps what is waiting only when the hardware FIFO is empty and all of it fits; otherwise every byte of the old
  ring is lost: bytes in the FIFO make the loop store values that were never received until the new ring counts as empty.
\<close>

theorem uart_resize_exact:
  assumes "rx_ready s" and "rx_limit s \<noteq> n - 1" and "1 < n" and "length new_buf = n"
  shows "\<exists>s1. uart_resize_rx_buffer (Some new_buf) n s = Some (n, s1) \<and> rx_ready s1 \<and> rx_limit s1 = n - 1 \<and>
    rx_pending s1 = (if rx_fifo s = [] \<and> length (rx_pending s) < n then rx_pending s else rx_fifo s)"
  using uart_resize_ok [of s n new_buf] assms by (auto simp: rx_ready_def)

text \<open>Two bytes in the ring and one in the FIFO: a ring of 256 bytes would have room, but only the last byte is left.\<close>

definition busy_serial :: serial where
  "busy_serial = small_serial\<lparr>sdev := map_option (\<lambda>u. u\<lparr>rx_buffer := \<lparr>rx_size = 4, rpos = 0, wpos = 2, rx_data = [1, 2, 0, 0]\<rparr>\<rparr>) (sdev small_serial),
     rx_fifo := [3]\<rparr>"

theorem uart_resize_exact_witness:
  "rx_pending busy_serial = [1, 2, 3] \<and>
   (\<exists>s1. uart_resize_rx_buffer (Some (replicate 256 0)) 256 busy_serial = Some (256, s1) \<and> rx_pending s1 = [3])"
proof -
  have b: "rx_ready busy_serial" "rx_pending busy_serial = [1, 2, 3]" "rx_fifo busy_serial = [3]" "rx_limit busy_serial = 3"
    by (auto simp: rx_ready_def rx_open_def rx_limit_def rx_pending_def busy_serial_def small_serial_def buf_ok_def rx_items_def
        rx_buffer_available_def upt_rec)
  show ?thesis using uart_resize_exact [OF b(1), of 256 "replicate 256 0"] b(2-4) by auto
qed

text \<open>
  \<open>uart_rx_available\<close> counts all that is waiting when nothing happens between its two looks; with an interrupt between them it can count
  nothing although a byte is waiting.
\<close>

lemma uart_rx_available_quiet: "rx_open s \<Longrightarrow> uart_rx_available s s = length (rx_pending s)"
  by (auto simp: rx_open_def uart_rx_available_def rx_pending_def)

lemma uart_rx_available_interrupted:
  "\<exists>s1. uart_isr (small_serial\<lparr>rx_fifo := [9], usis := 1\<rparr>) = Some s1 \<and>
    uart_rx_available (small_serial\<lparr>rx_fifo := [9], usis := 1\<rparr>) s1 = 0 \<and> rx_pending s1 = [9]"
  by (simp add: uart_isr_def uart_rx_available_def rx_pending_def small_serial_def UIFF_def UIOF_def UIFR_def UIPE_def UITO_def bit_0
      uart_rx_copy_fifo_to_buffer_def rx_put_def rx_buffer_available_def rx_items_def Let_def)

text \<open>A byte the debugger passes on has the effect of an arrival and an interrupt.\<close>

lemma uart_isr_handle_data_ok:
  assumes "rx_open s" and "rx_fifo s = []"
  shows "\<exists>s1. uart_isr_handle_data d s = Some s1 \<and> rx_open s1 \<and> rx_limit s1 = rx_limit s \<and>
    rx_pending s1 = drop (length (rx_pending s @ [d]) - rx_limit s) (rx_pending s @ [d]) \<and>
    (rx_limit s < length (rx_pending s @ [d]) \<longrightarrow> rx_lost s1)"
proof -
  from assms(1) obtain u where u: "sdev s = Some u" "rx_enabled u" "buf_ok (rx_buffer u)" "rx_pending s = rx_items (rx_buffer u) @ rx_fifo s"
    "rx_limit s = rx_size (rx_buffer u) - 1" by (rule rx_openE)
  from rx_put_ok [OF u(3), of d] obtain b where "rx_put d (rx_buffer u) = Some (rx_size (rx_buffer u) \<le> rx_buffer_available (rx_buffer u) + 1, b)"
    "buf_ok b" "rx_size b = rx_size (rx_buffer u)"
    "rx_items b = drop (length (rx_items (rx_buffer u) @ [d]) - (rx_size (rx_buffer u) - 1)) (rx_items (rx_buffer u) @ [d])" by blast
  then show ?thesis using u assms(2)
    by (auto simp: uart_isr_handle_data_def rx_open_def rx_limit_def rx_pending_def rx_lost_def)
qed

end
