(* ===== verification/Uart_Config.thy ===== *)
theory Uart_Config
  imports Uart_Session
begin

text \<open>
  The rest of \<open>cores/esp8266/uart.cpp\<close>: opening and closing the port, its pins, the transmitter and the baud rates.  \<open>port\<close> adds to
  the receiver the registers, the pin functions, whether the debugger stub controls the port and the bytes handed to the transmitter or
  to the stub.  The waiting for room in the transmit FIFO, which the hardware empties, is left out.
\<close>

section \<open>State\<close>

datatype pin_function = INPUT | SPECIAL | FUNCTION_0 | FUNCTION_4

record port = serial +
  conf0 :: u32
  conf1 :: u32
  usie :: u32
  divider :: u32
  attached :: bool
  ioswap :: bool
  pin_mode :: "int \<Rightarrow> pin_function"
  gdb :: bool
  tx_out :: "u8 list"
  gdb_out :: "u8 list"

definition UART0 :: int where "UART0 = 0"
definition UART1 :: int where "UART1 = 1"
definition UART_RX_ONLY :: int where "UART_RX_ONLY = 1"
definition UART_TX_ONLY :: int where "UART_TX_ONLY = 2"
definition UCTXRST :: nat where "UCTXRST = 18"
definition UCRXRST :: nat where "UCRXRST = 17"
definition ESP8266_CLOCK :: u32 where "ESP8266_CLOCK = 80000000"

definition pinMode :: "int \<Rightarrow> pin_function \<Rightarrow> port \<Rightarrow> port" where
  "pinMode p m s = s\<lparr>pin_mode := (pin_mode s)(p := m)\<rparr>"

section \<open>Interrupt handler\<close>

definition uart_start_isr :: "port \<Rightarrow> port" where
  "uart_start_isr s =
     (case sdev s of None \<Rightarrow> s
      | Some u \<Rightarrow>
          if \<not> rx_enabled u then s
          else if gdb s then s\<lparr>attached := True\<rparr>
          else s\<lparr>conf1 := push_bit 0 16, usis := 0, attached := True, intr := True,
                 usie := push_bit UIFF 1 OR push_bit UIOF 1 OR push_bit UIFR 1 OR push_bit UIPE 1 OR push_bit UITO 1\<rparr>)"

definition uart_stop_isr :: "port \<Rightarrow> port" where
  "uart_stop_isr s =
     (case sdev s of None \<Rightarrow> s
      | Some u \<Rightarrow>
          if \<not> rx_enabled u then s
          else if gdb s then s\<lparr>attached := False\<rparr>
          else s\<lparr>intr := False, conf1 := 0, usis := 0, usie := 0, attached := False\<rparr>)"

section \<open>Transmitter\<close>

definition uart_do_write_char :: "u8 \<Rightarrow> port \<Rightarrow> port" where
  "uart_do_write_char c s = s\<lparr>tx_out := tx_out s @ [c]\<rparr>"

definition uart_write_char :: "u8 \<Rightarrow> port \<Rightarrow> nat \<times> port" where
  "uart_write_char c s =
     (case sdev s of None \<Rightarrow> (0, s)
      | Some u \<Rightarrow>
          if \<not> tx_enabled u then (0, s)
          else if gdb s \<and> uart_nr u = UART0 then (1, s\<lparr>gdb_out := gdb_out s @ [c]\<rparr>)
          else (1, uart_do_write_char c s))"

definition uart_write :: "u8 list \<Rightarrow> port \<Rightarrow> nat \<times> port" where
  "uart_write buf s =
     (case sdev s of None \<Rightarrow> (0, s)
      | Some u \<Rightarrow>
          if \<not> tx_enabled u then (0, s)
          else if gdb s \<and> uart_nr u = UART0 then (0, s\<lparr>gdb_out := gdb_out s @ buf\<rparr>)
          else (length buf, fold uart_do_write_char buf s))"

section \<open>Registers\<close>

definition uart_flush :: "port \<Rightarrow> port" where
  "uart_flush s =
     (case sdev s of None \<Rightarrow> s
      | Some u \<Rightarrow>
          let tmp = (if rx_enabled u then push_bit UCRXRST 1 else 0) OR (if tx_enabled u then push_bit UCTXRST 1 else 0);
              s1 = (if rx_enabled u then s\<lparr>sdev := Some (u\<lparr>rx_buffer := (rx_buffer u)\<lparr>rpos := 0, wpos := 0\<rparr>\<rparr>), intr := True\<rparr> else s)
          in if \<not> gdb s \<or> uart_nr u \<noteq> UART0
             then s1\<lparr>conf0 := (conf0 s1 OR tmp) AND NOT tmp, rx_fifo := (if rx_enabled u then [] else rx_fifo s1)\<rparr>
             else s1)"

text \<open>A division by zero is \<open>None\<close>.\<close>

definition uart_set_baudrate :: "int \<Rightarrow> port \<Rightarrow> port option" where
  "uart_set_baudrate baud s =
     (case sdev s of None \<Rightarrow> Some s
      | Some u \<Rightarrow> let b = (word_of_int baud :: u32) in
          if b = 0 then None
          else Some (s\<lparr>sdev := Some (u\<lparr>baud_rate := baud\<rparr>), divider := ESP8266_CLOCK div b\<rparr>))"

definition uart_get_baudrate :: "port \<Rightarrow> int" where
  "uart_get_baudrate s = (case sdev s of None \<Rightarrow> 0 | Some u \<Rightarrow> baud_rate u)"

definition MODE2WIDTH :: "u32 \<Rightarrow> u32" where "MODE2WIDTH m = drop_bit 2 (m mod 16) + 5"
definition MODE2STOP :: "u32 \<Rightarrow> u32" where "MODE2STOP m = drop_bit 5 m + 1"
definition MODE2PARITY :: "u32 \<Rightarrow> u32" where "MODE2PARITY m = m mod 4"

definition uart_get_bit_length :: "port \<Rightarrow> u8" where
  "uart_get_bit_length s = ucast (MODE2WIDTH (conf0 s) + MODE2PARITY (conf0 s) + MODE2STOP (conf0 s) + 1)"

section \<open>Opening and closing\<close>

text \<open>\<open>mem\<close> is the object \<open>malloc\<close> returns for the port, with its arbitrary contents, \<open>mem_rx\<close> whether there was memory for the
  ring's header and \<open>mem_data\<close> the array for its data.  A failure returns early, with the interrupt disabled.\<close>

definition uart_init :: "int \<Rightarrow> int \<Rightarrow> u32 \<Rightarrow> int \<Rightarrow> int \<Rightarrow> nat \<Rightarrow> bool \<Rightarrow> uart option \<Rightarrow> bool \<Rightarrow> u8 list option \<Rightarrow>
    port \<Rightarrow> port option" where
  "uart_init nr baud config mode txpin size_rx invert mem mem_rx mem_data s =
     (case mem of None \<Rightarrow> Some (s\<lparr>sdev := None\<rparr>)
      | Some u0 \<Rightarrow>
          let u = u0\<lparr>uart_nr := nr, rx_overrun := False, rx_error := False\<rparr> in
          (case (if nr = UART0
                 then let s1 = s\<lparr>intr := False, attached := (if gdb s then attached s else False)\<rparr>;
                          rxe = (mode \<noteq> UART_TX_ONLY);
                          txe = (mode \<noteq> UART_RX_ONLY);
                          u1 = u\<lparr>rx_enabled := rxe, tx_enabled := txe, rx_pin := (if rxe then 3 else 255)\<rparr>
                      in if rxe \<and> (\<not> mem_rx \<or> mem_data = None) then (None, s1)
                         else let u2 = (if rxe then u1\<lparr>rx_buffer := \<lparr>rx_size = size_rx, rpos = 0, wpos = 0, rx_data = the mem_data\<rparr>\<rparr> else u1);
                                  s2 = (if rxe then pinMode (rx_pin u2) SPECIAL s1 else s1)
                              in if txe then (let t = (if txpin = 2 then 2 else 1) in
                                   (Some (u2\<lparr>tx_pin := t\<rparr>), (pinMode t (if txpin = 2 then FUNCTION_4 else FUNCTION_0) s2)\<lparr>ioswap := False\<rparr>))
                                 else (Some (u2\<lparr>tx_pin := 255\<rparr>), s2\<lparr>ioswap := False\<rparr>)
                 else if nr = UART1
                 then let txe = (mode \<noteq> UART_RX_ONLY);
                          u1 = u\<lparr>rx_enabled := False, tx_enabled := txe, rx_pin := 255, tx_pin := (if txe then 2 else 255)\<rparr>
                      in (Some u1, if txe then pinMode 2 SPECIAL s else s)
                 else (None, s)) of
             (None, s1) \<Rightarrow> Some (s1\<lparr>sdev := None\<rparr>)
           | (Some u1, s1) \<Rightarrow>
               (case uart_set_baudrate baud (s1\<lparr>sdev := Some u1\<rparr>) of None \<Rightarrow> None
                | Some s2 \<Rightarrow>
                    let s3 = s2\<lparr>conf0 := (if invert then config OR 0x1F80000 else config)\<rparr>;
                        s4 = (if \<not> gdb s3 \<or> nr \<noteq> UART0 then (uart_flush s3)\<lparr>conf1 := 0, usis := 0, usie := 0\<rparr> else s3);
                        s5 = (if nr = UART0
                              then let s6 = (if rx_enabled u1 then uart_start_isr s4 else s4)
                                   in if gdb s6 then s6\<lparr>intr := True\<rparr> else s6
                              else s4)
                    in Some s5)))"

definition uart_uninit :: "port \<Rightarrow> port" where
  "uart_uninit s =
     (case sdev s of None \<Rightarrow> s
      | Some u \<Rightarrow>
          let s1 = uart_stop_isr s;
              s2 = (if tx_enabled u \<and> (\<not> gdb s \<or> uart_nr u \<noteq> UART0) \<and> tx_pin u \<in> {1, 2, 15} then pinMode (tx_pin u) INPUT s1 else s1);
              s3 = (if rx_enabled u \<and> \<not> gdb s \<and> rx_pin u \<in> {3, 13} then pinMode (rx_pin u) INPUT s2 else s2)
          in s3\<lparr>sdev := None\<rparr>)"

section \<open>Pins\<close>

definition move_tx :: "int \<Rightarrow> pin_function \<Rightarrow> uart \<times> port \<Rightarrow> uart \<times> port" where
  "move_tx p m us = (case us of (u, s) \<Rightarrow> if tx_enabled u then (u\<lparr>tx_pin := p\<rparr>, pinMode p m (pinMode (tx_pin u) INPUT s)) else (u, s))"

definition move_rx :: "int \<Rightarrow> pin_function \<Rightarrow> uart \<times> port \<Rightarrow> uart \<times> port" where
  "move_rx p m us = (case us of (u, s) \<Rightarrow> if rx_enabled u then (u\<lparr>rx_pin := p\<rparr>, pinMode p m (pinMode (rx_pin u) INPUT s)) else (u, s))"

definition uart_swap :: "int \<Rightarrow> port \<Rightarrow> bool \<times> port" where
  "uart_swap p s =
     (case sdev s of None \<Rightarrow> (False, s)
      | Some u \<Rightarrow>
          if uart_nr u = UART0
          then if (tx_pin u = 1 \<or> tx_pin u = 2) \<and> tx_enabled u \<or> rx_pin u = 3 \<and> rx_enabled u
               then (case move_rx 13 FUNCTION_4 (move_tx 15 FUNCTION_4 (u, s)) of
                       (u1, s1) \<Rightarrow> (True, s1\<lparr>sdev := Some u1, ioswap := True\<rparr>))
               else (case move_rx 3 SPECIAL (move_tx (if p = 2 then 2 else 1) (if p = 2 then FUNCTION_4 else SPECIAL) (u, s)) of
                       (u1, s1) \<Rightarrow> (True, s1\<lparr>sdev := Some u1, ioswap := False\<rparr>))
          else (False, s))"

definition uart_set_tx :: "int \<Rightarrow> port \<Rightarrow> bool \<times> port" where
  "uart_set_tx p s =
     (case sdev s of None \<Rightarrow> (False, s)
      | Some u \<Rightarrow>
          if uart_nr u = UART0 \<and> tx_enabled u
          then if tx_pin u = p then (True, s)
               else if p = 1 \<or> p = 2
               then (case move_tx p (if p = 1 then SPECIAL else FUNCTION_4) (u, s) of (u1, s1) \<Rightarrow> (True, s1\<lparr>sdev := Some u1\<rparr>))
               else (False, s)
          else (False, s))"

text \<open>The first half of \<open>uart_set_pins\<close> moves the transmit pin, the second the receive pin.\<close>

definition set_pins_tx :: "int \<Rightarrow> int \<Rightarrow> uart \<Rightarrow> port \<Rightarrow> bool \<times> port" where
  "set_pins_tx tx rx u s =
     (if tx_enabled u \<and> tx_pin u \<noteq> tx
      then if rx = 13 \<and> tx = 15 then uart_swap 15 s
           else if rx = 3 \<and> (tx = 1 \<or> tx = 2)
           then if rx_pin u \<noteq> rx then uart_swap tx s else uart_set_tx tx s
           else (False, s)
      else (True, s))"

definition set_pins_rx :: "int \<Rightarrow> int \<Rightarrow> uart \<Rightarrow> port \<Rightarrow> bool \<times> port" where
  "set_pins_rx tx rx u s =
     (if rx_enabled u \<and> rx_pin u \<noteq> rx then if rx = 13 \<and> tx = 15 then uart_swap 15 s else (False, s) else (True, s))"

definition uart_set_pins :: "int \<Rightarrow> int \<Rightarrow> port \<Rightarrow> bool \<times> port" where
  "uart_set_pins tx rx s =
     (case sdev s of None \<Rightarrow> (False, s)
      | Some u \<Rightarrow>
          if uart_nr u \<noteq> UART0 then (False, s)
          else (case set_pins_tx tx rx u s of
             (False, s1) \<Rightarrow> (False, s1)
           | (True, s1) \<Rightarrow> (case sdev s1 of None \<Rightarrow> (False, s1) | Some u1 \<Rightarrow> set_pins_rx tx rx u1 s1)))"

section \<open>Finding the baud rate\<close>

definition default_rates :: "int list" where
  "default_rates = [300, 600, 1200, 2400, 4800, 9600, 19200, 38400, 57600, 74880, 115200, 230400, 256000, 460800, 921600, 1843200, 3686400]"

text \<open>The loop from the index of \<open>hi\<close>: \<open>lo\<close> is the entry before it, and the last entry of the table is not looked at.\<close>

fun nearest_rate :: "int \<Rightarrow> int \<Rightarrow> int list \<Rightarrow> int" where
  "nearest_rate b lo [] = lo"
| "nearest_rate b lo [hi] = hi"
| "nearest_rate b lo (hi # x # xs) = (if b \<le> hi then if b - lo < hi - b then lo else hi else nearest_rate b hi (x # xs))"

text \<open>\<open>divisor\<close> is what the ROM's measurement returns, \<open>doTrigger\<close> whether the next call starts a new one.\<close>

definition uart_detect_baudrate :: "int \<Rightarrow> bool \<Rightarrow> int \<times> bool" where
  "uart_detect_baudrate divisor doTrigger =
     (if divisor = 0 then (0, False)
      else let baudrate = sgn divisor * (80 * 1000000 div \<bar>divisor\<bar>)
           in (nearest_rate baudrate (hd default_rates) (tl default_rates), True))"

section \<open>Pins: what is granted is set\<close>

definition pins_ok :: "port \<Rightarrow> bool" where
  "pins_ok s \<longleftrightarrow> (case sdev s of None \<Rightarrow> True
     | Some u \<Rightarrow> uart_nr u = UART0 \<longrightarrow>
         (if tx_enabled u then tx_pin u \<in> {1, 2, 15} else tx_pin u = 255) \<and> (if rx_enabled u then rx_pin u \<in> {3, 13} else rx_pin u = 255) \<and>
         (tx_enabled u \<and> rx_enabled u \<longrightarrow> (tx_pin u = 15 \<longleftrightarrow> rx_pin u = 13)) \<and>
         (ioswap s \<longleftrightarrow> tx_pin u = 15 \<or> rx_pin u = 13))"

lemmas pin_defs = pins_ok_def uart_swap_def uart_set_tx_def move_tx_def move_rx_def pinMode_def

lemma uart_swap_pins: "pins_ok s \<Longrightarrow> pins_ok (snd (uart_swap p s))"
  by (auto simp: pin_defs split: option.splits if_splits)

lemma uart_set_tx_pins: "pins_ok s \<Longrightarrow> p \<noteq> 15 \<Longrightarrow> \<not> ioswap s \<Longrightarrow> pins_ok (snd (uart_set_tx p s))"
  by (auto simp: pin_defs split: option.splits if_splits)

text \<open>
  C36: On a port that receives and transmits \<open>uart_set_pins\<close> grants exactly the pairs (1, 3), (2, 3) and (15, 13), from whatever pair is in use,
  and then uses the pair asked for, with the port's pins swapped in the hardware when it is the last one; any other request changes nothing.
\<close>

theorem uart_pins_exact:
  assumes u: "sdev s = Some u" "uart_nr u = UART0" "tx_enabled u" "rx_enabled u" and p: "pins_ok s"
  shows "\<exists>u1 s1. uart_set_pins tx rx s = ((tx, rx) \<in> {(1, 3), (2, 3), (15, 13)}, s1) \<and> sdev s1 = Some u1 \<and> rx_buffer u1 = rx_buffer u \<and>
    (if (tx, rx) \<in> {(1, 3), (2, 3), (15, 13)} then tx_pin u1 = tx \<and> rx_pin u1 = rx \<and> pins_ok s1 else s1 = s)"
proof -
  have pins: "(tx_pin u, rx_pin u) \<in> {(1, 3), (2, 3), (15, 13)}" "ioswap s \<longleftrightarrow> tx_pin u = 15"
    using u p by (auto simp: pins_ok_def)
  consider "tx_pin u = 1" "rx_pin u = 3" | "tx_pin u = 2" "rx_pin u = 3" | "tx_pin u = 15" "rx_pin u = 13" using pins by auto
  then show ?thesis
    by cases (use u pins(2) in \<open>auto simp: uart_set_pins_def set_pins_tx_def set_pins_rx_def pin_defs UART0_def\<close>)
qed

definition open_port :: port where
  "open_port = \<lparr>sdev = sdev small_serial, rx_fifo = [], usis = 0, intr = True, conf0 = 0x1c, conf1 = 16, usie = 0x11d, divider = 8333,
     attached = True, ioswap = False, pin_mode = (\<lambda>_. INPUT)(1 := FUNCTION_0, 3 := SPECIAL), gdb = False, tx_out = [], gdb_out = []\<rparr>"

theorem uart_pins_exact_witness:
  "\<exists>u1 s1. uart_set_pins 15 13 open_port = (True, s1) \<and> sdev s1 = Some u1 \<and> tx_pin u1 = 15 \<and> rx_pin u1 = 13 \<and> pins_ok s1"
proof -
  let ?u = "the (sdev open_port)"
  have "sdev open_port = Some ?u" "uart_nr ?u = UART0" "tx_enabled ?u" "rx_enabled ?u" "pins_ok open_port"
    by (simp_all add: open_port_def small_serial_def UART0_def pins_ok_def)
  from uart_pins_exact [OF this, of 15 13] show ?thesis by auto
qed

text \<open>On a port that only transmits the request for pins (2, 3) is granted and pin 15 is used.\<close>

lemma uart_pins_tx_only:
  "\<exists>u1 s1. uart_set_pins 2 3 (open_port\<lparr>sdev := Some ((the (sdev open_port))\<lparr>rx_enabled := False, rx_pin := 255\<rparr>)\<rparr>) = (True, s1) \<and>
    sdev s1 = Some u1 \<and> tx_pin u1 = 15"
  by (simp add: uart_set_pins_def set_pins_tx_def set_pins_rx_def uart_swap_def move_tx_def move_rx_def pinMode_def open_port_def
      small_serial_def UART0_def)

text \<open>\<open>uart_set_tx\<close> does not look whether the port is swapped: pin 1 transmits while the hardware is still switched to pins 15 and 13.\<close>

lemma uart_set_tx_swapped:
  "\<exists>u1 s1. uart_set_tx 1 (snd (uart_set_pins 15 13 open_port)) = (True, s1) \<and> sdev s1 = Some u1 \<and> tx_pin u1 = 1 \<and> rx_pin u1 = 13 \<and> ioswap s1"
  by (simp add: uart_set_pins_def set_pins_tx_def set_pins_rx_def uart_set_tx_def uart_swap_def move_tx_def move_rx_def pinMode_def open_port_def
      small_serial_def UART0_def)

section \<open>Writing, frame length\<close>

lemma uart_write_all:
  assumes "sdev s = Some u" and "tx_enabled u" and "\<not> (gdb s \<and> uart_nr u = UART0)"
  shows "uart_write buf s = (length buf, s\<lparr>tx_out := tx_out s @ buf\<rparr>)"
proof -
  have "fold uart_do_write_char buf t = t\<lparr>tx_out := tx_out t @ buf\<rparr>" for t
    by (induction buf arbitrary: t) (simp_all add: uart_do_write_char_def)
  then show ?thesis using assms by (auto simp: uart_write_def)
qed

text \<open>With the debugger in control all bytes are passed on and the result is 0, where \<open>uart_write_char\<close> returns 1.\<close>

lemma uart_write_gdb:
  assumes "sdev s = Some u" and "tx_enabled u" and "gdb s" and "uart_nr u = UART0"
  shows "uart_write buf s = (0, s\<lparr>gdb_out := gdb_out s @ buf\<rparr>)" and "fst (uart_write_char c s) = 1"
  using assms by (simp_all add: uart_write_def uart_write_char_def)

text \<open>A frame 8E1 has one start, eight data, one parity and one stop bit.\<close>

lemma bit_length_8n1: "conf0 s = 0x1c \<Longrightarrow> uart_get_bit_length s = 10"
  by (simp add: uart_get_bit_length_def MODE2WIDTH_def MODE2PARITY_def MODE2STOP_def)

lemma bit_length_8e1: "conf0 s = 0x1e \<Longrightarrow> uart_get_bit_length s = 12"
  by (simp add: uart_get_bit_length_def MODE2WIDTH_def MODE2PARITY_def MODE2STOP_def)

section \<open>The nearest rate\<close>

lemma nearest_rate_in: "nearest_rate b lo xs \<in> set (lo # xs)"
  by (induction b lo xs rule: nearest_rate.induct) auto

lemma nearest_rate_best:
  "sorted (lo # xs) \<Longrightarrow> \<exists>h \<in> set (butlast xs). b \<le> h \<Longrightarrow> r \<in> set (lo # xs) \<Longrightarrow> \<bar>b - nearest_rate b lo xs\<bar> \<le> \<bar>b - r\<bar>"
proof (induction b lo xs arbitrary: r rule: nearest_rate.induct)
  case (3 b lo hi x xs)
  show ?case
  proof (cases "b \<le> hi")
    case True
    have "r = lo \<or> hi \<le> r" "lo \<le> hi" using "3.prems"(1,3) by auto
    then show ?thesis using True by auto
  next
    case False
    then have e: "\<exists>h \<in> set (butlast (x # xs)). b \<le> h" using "3.prems"(2) by auto
    have s: "sorted (hi # x # xs)" "lo \<le> hi" using "3.prems"(1) by simp_all
    have "\<bar>b - nearest_rate b hi (x # xs)\<bar> \<le> \<bar>b - (if r = lo then hi else r)\<bar>"
      using "3.prems"(3) by (intro "3.IH" [OF False s(1) e]) auto
    then show ?thesis using False s(2) by (auto split: if_splits)
  qed
qed auto

lemma nearest_rate_beyond: "xs \<noteq> [] \<Longrightarrow> \<forall>h \<in> set (butlast xs). h < b \<Longrightarrow> nearest_rate b lo xs = last xs"
  by (induction b lo xs rule: nearest_rate.induct) auto

text \<open>Up to 1843200 baud the result is the nearest rate of the table; beyond it is the last one, however far.\<close>

lemma detect_nearest:
  assumes "0 < d" and "80000000 div d \<le> 1843200" and "r \<in> set default_rates"
  shows "\<bar>80000000 div d - fst (uart_detect_baudrate d t)\<bar> \<le> \<bar>80000000 div d - r\<bar>"
proof -
  have "\<exists>h \<in> set (butlast (tl default_rates)). 80000000 div d \<le> h" using assms(2) by (simp add: default_rates_def)
  moreover have "sorted (hd default_rates # tl default_rates)" by (simp add: default_rates_def)
  moreover have "default_rates = hd default_rates # tl default_rates" by (simp add: default_rates_def)
  ultimately have "\<bar>80000000 div d - nearest_rate (80000000 div d) (hd default_rates) (tl default_rates)\<bar> \<le> \<bar>80000000 div d - r\<bar>"
    using nearest_rate_best assms(3) by metis
  then show ?thesis using assms(1) by (simp add: uart_detect_baudrate_def)
qed

lemma detect_two_megabaud: "fst (uart_detect_baudrate 40 t) = 3686400"
  by (simp add: uart_detect_baudrate_def default_rates_def)

section \<open>Opening and closing\<close>

text \<open>A closed port has its interrupt off and its handler taken away, unless the debugger holds the port.\<close>

lemma uart_uninit_closes: "sdev s = Some u \<Longrightarrow> rx_enabled u \<Longrightarrow> \<not> gdb s \<Longrightarrow>
    sdev (uart_uninit s) = None \<and> \<not> intr (uart_uninit s) \<and> \<not> attached (uart_uninit s) \<and> usie (uart_uninit s) = 0"
  by (auto simp: uart_uninit_def uart_stop_isr_def pinMode_def Let_def)

text \<open>
  When \<open>uart_init\<close> opens port 0 for both directions, the receiver is ready and empty with the interrupt enabled and its handler attached, the
  transmitter uses pin 1 or 2 and the receiver pin 3; without memory the port stays closed.
\<close>

lemma uart_init_opens:
  assumes "1 < n" and "\<forall>d. mem_data = Some d \<longrightarrow> length d = n" and "0 < baud" and "baud < 2 ^ 31" and "\<not> gdb s"
  shows "\<exists>s1. uart_init 0 baud config 0 txpin n invert mem mem_rx mem_data s = Some s1 \<and>
    (if mem = None \<or> \<not> mem_rx \<or> mem_data = None then sdev s1 = None
     else rx_ready (serial.truncate s1) \<and> rx_pending (serial.truncate s1) = [] \<and> \<not> rx_lost (serial.truncate s1) \<and> intr s1 \<and> attached s1 \<and>
       pins_ok s1 \<and> (\<exists>u. sdev s1 = Some u \<and> tx_enabled u \<and> tx_pin u = (if txpin = 2 then 2 else 1) \<and> rx_pin u = 3))"
proof (cases "mem = None \<or> \<not> mem_rx \<or> mem_data = None")
  case True
  then show ?thesis by (cases mem) (auto simp: uart_init_def UART0_def UART_TX_ONLY_def Let_def)
next
  case False
  then obtain u d where m: "mem = Some u" "mem_data = Some d" "mem_rx" "length d = n" using assms(2) by auto
  have "uint (word_of_int baud :: u32) = baud" using assms(3,4) by (simp add: take_bit_int_eq_self unsigned_of_int)
  then have b: "(word_of_int baud :: u32) \<noteq> 0" using assms(3) by auto
  show ?thesis
    using m b assms(1,5) unfolding uart_init_def
    by (simp add: UART0_def UART_TX_ONLY_def UART_RX_ONLY_def uart_set_baudrate_def uart_flush_def uart_start_isr_def pinMode_def Let_def
        rx_ready_def rx_open_def rx_limit_def rx_pending_def rx_lost_def serial.truncate_def buf_ok_def rx_items_def rx_buffer_available_def pins_ok_def)
qed

end
