(* ===== verification/Dns_Server.thy ===== *)
theory Dns_Server
  imports Prelude
begin

text \<open>
  The DNS server of a captive portal, \<open>libraries/DNSServer/src/DNSServer.cpp\<close>: it answers queries for its own domain with the
  address of the access point and passes others on to another server.  A packet is a list of bytes, the header its first
  twelve; a pointer into the packet is the list of bytes from there to its end, a pointer into a string the characters from there
  with the terminating zero.  A read past the end of either is \<open>None\<close>.  The UDP socket is outside: what is sent is appended to
  \<open>dns_sent\<close>.
\<close>

section \<open>State\<close>

record requester =
  rq_ip :: u32
  rq_port :: u16
  rq_id :: u16

datatype DNSReplyCode = NoError | FormError | ServerFailure | NonExistentDomain | NotImplemented | Refused | YXDomain | YXRRSet | NXRRSet

fun reply_code :: "DNSReplyCode \<Rightarrow> u8" where
  "reply_code NoError = 0"
| "reply_code FormError = 1"
| "reply_code ServerFailure = 2"
| "reply_code NonExistentDomain = 3"
| "reply_code NotImplemented = 4"
| "reply_code Refused = 5"
| "reply_code YXDomain = 6"
| "reply_code YXRRSet = 7"
| "reply_code NXRRSet = 8"

record dns_server =
  domainName :: "u8 list"
  dns_ip :: u32
  que :: "requester list option"
  dns_ttl :: u32
  errorReplyCode :: DNSReplyCode
  forwarder :: bool
  resolvedIP :: "u8 list"
  dns_port :: u16
  dns_ids :: u32
  listening :: bool
  dns_sent :: "(u32 \<times> u16 \<times> u8 list) list"

definition IANA_DNS_PORT :: u16 where "IANA_DNS_PORT = 53"
definition MAX_DNS_PACKETSIZE :: nat where "MAX_DNS_PACKETSIZE = 512"
definition DNS_HEADER_SIZE :: nat where "DNS_HEADER_SIZE = 12"
definition kDNSSQueSize :: nat where "kDNSSQueSize = 8"

text \<open>\<open>IPAddress::isSet\<close>: neither any address nor none.\<close>

definition ip_isSet :: "u32 \<Rightarrow> bool" where
  "ip_isSet ip \<longleftrightarrow> ip \<noteq> 0 \<and> ip \<noteq> 0xffffffff"

definition swap16 :: "u16 \<Rightarrow> u8 list" where
  "swap16 w = [ucast (drop_bit 8 w), ucast w]"

section \<open>Configuration\<close>

definition ascii_lower :: "u8 \<Rightarrow> u8" where
  "ascii_lower c = (if 65 \<le> c \<and> c \<le> 90 then c + 32 else c)"

definition www :: "u8 list" where "www = [119, 119, 119]"

definition downcaseAndRemoveWwwPrefix :: "u8 list \<Rightarrow> u8 list" where
  "downcaseAndRemoveWwwPrefix d =
     (let e = map ascii_lower d in if take 4 e = www @ [46] then drop 4 e else e)"

text \<open>\<open>seed\<close> is what \<open>random\<close> returns at a cold start, where the old value of \<open>_ids\<close> is not used.\<close>

definition dns_new :: "u16 option \<Rightarrow> u32 \<Rightarrow> dns_server \<Rightarrow> dns_server" where
  "dns_new seed old s =
     s\<lparr>domainName := [], dns_ip := 0, que := None, dns_ttl := htonl 60, errorReplyCode := NonExistentDomain, listening := False,
       dns_ids := (case seed of Some r \<Rightarrow> ucast r | None \<Rightarrow> old) + of_nat kDNSSQueSize\<rparr>"

definition disableForwarder :: "u8 list \<Rightarrow> bool \<Rightarrow> dns_server \<Rightarrow> dns_server" where
  "disableForwarder name freeResources s =
     (let s1 = s\<lparr>forwarder := False\<rparr>;
          s2 = (if name \<noteq> [] then s1\<lparr>domainName := downcaseAndRemoveWwwPrefix name\<rparr> else s1)
      in if freeResources then s2\<lparr>dns_ip := 0, que := None\<rparr> else s2)"

text \<open>\<open>mem\<close> is the array \<open>new\<close> returns, with its arbitrary contents.\<close>

definition enableForwarder :: "requester list option \<Rightarrow> u8 list \<Rightarrow> u32 \<Rightarrow> dns_server \<Rightarrow> bool \<times> dns_server" where
  "enableForwarder mem name ip s =
     (let s1 = disableForwarder name False s;
          s2 = (if ip_isSet ip then s1\<lparr>dns_ip := ip\<rparr> else s1);
          s3 = (if ip_isSet (dns_ip s2)
                then let s4 = (if que s2 = None then s2\<lparr>que := map_option (map (\<lambda>r. r\<lparr>rq_ip := 0\<rparr>)) mem\<rparr> else s2)
                     in if que s4 \<noteq> None then s4\<lparr>forwarder := True\<rparr> else s4
                else s2)
      in (forwarder s3, s3))"

definition dns_start :: "requester list option \<Rightarrow> bool \<Rightarrow> u16 \<Rightarrow> u8 list \<Rightarrow> u8 list \<Rightarrow> u32 \<Rightarrow> dns_server \<Rightarrow> bool \<times> dns_server" where
  "dns_start mem udp_ok port name ip dns s =
     (let s1 = s\<lparr>dns_port := (if port \<noteq> 0 then port else IANA_DNS_PORT), resolvedIP := take 4 ip\<rparr>
      in case enableForwarder mem name dns s1 of (fwd, s2) \<Rightarrow>
        if \<not> fwd \<and> (ip_isSet dns \<or> ip_isSet (dns_ip s2)) then (False, s2)
        else (udp_ok, s2\<lparr>listening := udp_ok\<rparr>))"

definition setErrorReplyCode :: "DNSReplyCode \<Rightarrow> dns_server \<Rightarrow> dns_server" where
  "setErrorReplyCode c s = s\<lparr>errorReplyCode := c\<rparr>"

definition setTTL :: "u32 \<Rightarrow> dns_server \<Rightarrow> dns_server" where "setTTL t s = s\<lparr>dns_ttl := htonl t\<rparr>"
definition getTTL :: "dns_server \<Rightarrow> u32" where "getTTL s = htonl (dns_ttl s)"

definition dns_stop :: "dns_server \<Rightarrow> dns_server" where
  "dns_stop s = disableForwarder [] True (s\<lparr>listening := False\<rparr>)"

section \<open>Replies\<close>

definition dns_send :: "u32 \<times> u16 \<Rightarrow> u8 list \<Rightarrow> dns_server \<Rightarrow> dns_server" where
  "dns_send to d s = s\<lparr>dns_sent := dns_sent s @ [(fst to, snd to, d)]\<rparr>"

text \<open>The header as bytes: identification, two bytes of flags, four counts.\<close>

definition answer_header :: "u8 list \<Rightarrow> u8 list" where
  "answer_header h = take 2 h @ [h ! 2 OR 0x80, h ! 3] @ [0, 1, 0, 1, 0, 0, 0, 0]"

definition error_header :: "DNSReplyCode \<Rightarrow> bool \<Rightarrow> u8 list \<Rightarrow> u8 list" where
  "error_header rcode question h =
     take 2 h @ [h ! 2 OR 0x80, (h ! 3 AND 0xf0) OR reply_code rcode] @ [0, if question then 1 else 0, 0, 0, 0, 0, 0, 0]"

definition replyWithIP :: "u32 \<times> u16 \<Rightarrow> u8 list \<Rightarrow> u8 list \<Rightarrow> dns_server \<Rightarrow> dns_server" where
  "replyWithIP to h query s =
     dns_send to (answer_header h @ query @ swap16 (0xC000 OR of_nat DNS_HEADER_SIZE) @ swap16 1 @ swap16 1 @ bytes_of (dns_ttl s) @
       swap16 4 @ resolvedIP s) s"

definition replyWithError :: "u32 \<times> u16 \<Rightarrow> u8 list \<Rightarrow> DNSReplyCode \<Rightarrow> u8 list option \<Rightarrow> dns_server \<Rightarrow> dns_server" where
  "replyWithError to h rcode query s =
     dns_send to (error_header rcode (query \<noteq> None) h @ (case query of None \<Rightarrow> [] | Some q \<Rightarrow> q)) s"

section \<open>Queries\<close>

text \<open>The walk over the labels of the question; \<open>None\<close> is a label that does not fit in the packet.\<close>

function skip_labels :: "u8 list \<Rightarrow> u8 list option" where
  "skip_labels [] = Some []"
| "skip_labels (l # q) =
     (if l = 0 then Some (l # q)
      else if length (l # q) < unat l + 1 then None
      else skip_labels (drop (unat l) q))"
  by pat_completeness auto
termination by (relation "measure length") (simp_all add: less_Suc_eq_le)

text \<open>The comparison of one label with the domain: whether it agreed, and the two pointers.\<close>

fun match_label :: "nat \<Rightarrow> u8 list \<Rightarrow> u8 list \<Rightarrow> (bool \<times> u8 list \<times> u8 list) option" where
  "match_label 0 q m = Some (True, q, m)"
| "match_label (Suc n) (c # q) (d # m) = (if ascii_lower c \<noteq> d then Some (False, c # q, d # m) else match_label n q m)"
| "match_label (Suc n) _ _ = None"

datatype name_match = Name_matches | Label_differs | Name_differs

lemma match_label_shorter: "match_label n q m = Some (b, q1, m1) \<Longrightarrow> length q1 \<le> length q"
  by (induction n q m rule: match_label.induct) (auto split: if_splits)

function match_name :: "u8 list \<Rightarrow> u8 list \<Rightarrow> name_match option" where
  "match_name [] m = None"
| "match_name (l # q) m =
     (if l = 0 then Some Name_differs
      else case match_label (unat l) q m of
          None \<Rightarrow> None
        | Some (False, q1, m1) \<Rightarrow> Some Label_differs
        | Some (True, q1, m1) \<Rightarrow>
            (case (q1, m1) of
               (x # _, y # m2) \<Rightarrow>
                 if x = 0 \<and> y = 0 then Some Name_matches
                 else if y \<noteq> 46 then Some Name_differs
                 else match_name q1 m2
             | _ \<Rightarrow> None))"
  by pat_completeness auto
termination by (relation "measure (length \<circ> fst)") (auto dest!: match_label_shorter)

text \<open>A leading \<open>www\<close> of the name asked for is skipped.\<close>

definition skip_www :: "u8 list \<Rightarrow> u8 list option" where
  "skip_www q =
     (case q of [] \<Rightarrow> None
      | l # r \<Rightarrow> if l = 3 then if length r < 3 then None else if map ascii_lower (take 3 r) = www then Some (drop 3 r) else Some q
               else Some q)"

text \<open>The result says whether the request is to be passed on.\<close>

definition respondToRequest :: "u32 \<times> u16 \<Rightarrow> u8 list \<Rightarrow> dns_server \<Rightarrow> (bool \<times> dns_server) option" where
  "respondToRequest from buf s =
     (if length buf < DNS_HEADER_SIZE then None
      else
        let h = take DNS_HEADER_SIZE buf; query = drop DNS_HEADER_SIZE buf in
        if bit (h ! 2) 7 then Some (False, s)
        else if take_bit 4 (drop_bit 3 (h ! 2)) \<noteq> 0 then Some (False, replyWithError from h NotImplemented None s)
        else if take 2 (drop 4 h) \<noteq> swap16 1 then Some (False, replyWithError from h FormError None s)
        else if take 6 (drop 6 h) \<noteq> [0, 0, 0, 0, 0, 0] then Some (False, replyWithError from h FormError None s)
        else
          (case skip_labels query of None \<Rightarrow> Some (False, replyWithError from h FormError None s)
           | Some start \<Rightarrow>
               if length start < 5 then Some (False, replyWithError from h FormError None s)
               else
                 let qtype = take 2 (drop 1 start); qclass = take 2 (drop 3 start);
                     q = take (length query - length start + 5) query in
                 if qclass \<noteq> swap16 255 \<and> qclass \<noteq> swap16 1 then Some (False, replyWithError from h NonExistentDomain (Some q) s)
                 else if qtype \<noteq> swap16 1 \<and> qtype \<noteq> swap16 255 then Some (False, replyWithError from h NonExistentDomain (Some q) s)
                 else if domainName s = []
                 then if forwarder s then Some (True, s) else Some (False, replyWithError from h (errorReplyCode s) (Some q) s)
                 else if domainName s = [42] then Some (False, replyWithIP from h q s)
                 else
                   (case skip_www query of None \<Rightarrow> None
                    | Some name \<Rightarrow>
                        (case match_name name (domainName s @ [0]) of None \<Rightarrow> None
                         | Some Name_matches \<Rightarrow> Some (False, replyWithIP from h q s)
                         | Some Label_differs \<Rightarrow>
                             if forwarder s then Some (True, s) else Some (False, replyWithError from h (errorReplyCode s) (Some q) s)
                         | Some Name_differs \<Rightarrow> Some (False, replyWithError from h (errorReplyCode s) (Some q) s)))))"

section \<open>Forwarding\<close>

definition packet_id :: "u8 list \<Rightarrow> u16" where
  "packet_id d = ucast (d ! 0) OR push_bit 8 (ucast (d ! 1))"

definition with_id :: "u16 \<Rightarrow> u8 list \<Rightarrow> u8 list" where
  "with_id x d = [ucast x, ucast (drop_bit 8 x)] @ drop 2 d"

text \<open>The test of the identification is done on integers: the difference may be negative.\<close>

definition forwardReply :: "u8 list \<Rightarrow> dns_server \<Rightarrow> dns_server" where
  "forwardReply buf s =
     (case que s of None \<Rightarrow> s
      | Some qs \<Rightarrow>
          if \<not> forwarder s then s
          else
            let x = packet_id buf in
            if int kDNSSQueSize \<le> uint (ucast (dns_ids s) :: u16) - uint x then s
            else
              let i = unat (x AND of_nat (kDNSSQueSize - 1)); r = qs ! i in
              if rq_ip r = 0 then s
              else (dns_send (rq_ip r, rq_port r) (with_id (rq_id r) buf) s)\<lparr>que := Some (qs[i := r\<lparr>rq_ip := 0\<rparr>])\<rparr>)"

definition forwardRequest :: "u32 \<times> u16 \<Rightarrow> u8 list \<Rightarrow> dns_server \<Rightarrow> dns_server" where
  "forwardRequest from buf s =
     (case que s of None \<Rightarrow> s
      | Some qs \<Rightarrow>
          if \<not> forwarder s \<or> \<not> ip_isSet (dns_ip s) then s
          else
            let ids = dns_ids s + 1; i = unat (ids AND of_nat (kDNSSQueSize - 1)) in
            (dns_send (dns_ip s, IANA_DNS_PORT) (with_id (ucast ids) buf) s)
              \<lparr>dns_ids := ids, que := Some (qs[i := \<lparr>rq_ip = fst from, rq_port = snd from, rq_id = packet_id buf\<rparr>])\<rparr>)"

text \<open>One packet that has arrived; \<open>mem\<close> is whether there is memory for it.\<close>

definition processNextRequest :: "bool \<Rightarrow> u32 \<times> u16 \<Rightarrow> u8 list \<Rightarrow> dns_server \<Rightarrow> dns_server option" where
  "processNextRequest mem from buf s =
     (if length buf = 0 \<or> MAX_DNS_PACKETSIZE < length buf \<or> length buf < DNS_HEADER_SIZE \<or> \<not> mem then Some s
      else if ip_isSet (dns_ip s) \<and> fst from = dns_ip s then Some (forwardReply buf s)
      else case respondToRequest from buf s of
          None \<Rightarrow> None
        | Some (True, s1) \<Rightarrow> Some (forwardRequest from buf s1)
        | Some (False, s1) \<Rightarrow> Some s1)"

end
