(* ===== verification/Dns_Names.thy ===== *)
theory Dns_Names
  imports Dns_Server
begin

text \<open>
  What the server does with a question: the name in it as a list of labels, and the comparison of the name with the domain as an
  equality of texts.
\<close>

section \<open>Names\<close>

fun put_name :: "u8 list list \<Rightarrow> u8 list" where
  "put_name [] = [0]"
| "put_name (l # ls) = of_nat (length l) # l @ put_name ls"

fun dotted :: "u8 list list \<Rightarrow> u8 list" where
  "dotted [] = []"
| "dotted [l] = l"
| "dotted (l # ls) = l @ 46 # dotted ls"

text \<open>Labels have 1 to 255 bytes; in a proper name none of the bytes is zero.\<close>

definition labels_ok :: "u8 list list \<Rightarrow> bool" where
  "labels_ok ls \<longleftrightarrow> (\<forall>l \<in> set ls. l \<noteq> [] \<and> length l < 256)"

definition labels_clean :: "u8 list list \<Rightarrow> bool" where
  "labels_clean ls \<longleftrightarrow> (\<forall>l \<in> set ls. 0 \<notin> set l)"

lemma labels_Cons [simp]: "labels_ok (l # ls) \<longleftrightarrow> l \<noteq> [] \<and> length l < 256 \<and> labels_ok ls"
  "labels_clean (l # ls) \<longleftrightarrow> 0 \<notin> set l \<and> labels_clean ls" "labels_ok []" "labels_clean []"
  by (auto simp: labels_ok_def labels_clean_def)

lemma length_byte: "length l < 256 \<Longrightarrow> unat (of_nat (length l) :: u8) = length l"
  by (simp add: unat_of_nat)

lemma length_byte_0: "l \<noteq> [] \<Longrightarrow> length l < 256 \<Longrightarrow> (of_nat (length l) :: u8) \<noteq> 0"
  using length_byte [of l] by (metis length_0_conv unat_0)

lemma length_put_name: "length (put_name ls) = length (concat ls) + length ls + 1"
  by (induction ls) simp_all

text \<open>The walk over the labels finds the end of every name, and only names and cut off packets get past it.\<close>

lemma skip_labels_put: "labels_ok ls \<Longrightarrow> skip_labels (put_name ls @ r) = Some (0 # r)"
  by (induction ls) (simp_all add: length_byte length_byte_0)

lemma skip_labels_name:
  "skip_labels q = Some (x # r) \<Longrightarrow> x = 0 \<and> (\<exists>ls. labels_ok ls \<and> q = put_name ls @ r)"
proof (induction q rule: skip_labels.induct)
  case (2 l q)
  show ?case
  proof (cases "l = 0")
    case True
    then show ?thesis using "2.prems" by (auto intro: exI [of _ "[]"])
  next
    case False
    then have fit: "unat l \<le> length q" "skip_labels (drop (unat l) q) = Some (x # r)" using "2.prems" by (auto split: if_splits)
    then obtain ls where ls: "x = 0" "labels_ok ls" "drop (unat l) q = put_name ls @ r" using "2.IH" [OF False] by auto
    let ?l = "take (unat l) q"
    have n: "length ?l = unat l" "unat l < 256" "unat l \<noteq> 0" using fit(1) False unat_bound [of l] by (auto simp: unat_eq_0)
    have "q = ?l @ put_name ls @ r" by (subst ls(3) [symmetric]) simp
    moreover have "labels_ok (?l # ls)" using n ls(2) by (metis labels_Cons(1) list.size(3))
    ultimately show ?thesis using ls(1) n(1) by (intro conjI exI [of _ "?l # ls"]) simp_all
  qed
qed simp

section \<open>Comparing\<close>

definition lower :: "u8 list \<Rightarrow> u8 list" where "lower = map ascii_lower"

lemma lower_0: "ascii_lower c = 0 \<longleftrightarrow> c = 0"
proof -
  have "c = 0xE0" if "c + 32 = 0" using that by (simp add: eq_neg_iff_add_eq_0 [symmetric])
  then show ?thesis by (auto simp: ascii_lower_def)
qed

lemma match_label_clean:
  "0 \<notin> set l \<Longrightarrow> \<exists>q1 m1. match_label (length l) (l @ q) (d @ [0]) = Some (take (length l) d = lower l, q1, m1) \<and>
     (take (length l) d = lower l \<longrightarrow> q1 = q \<and> m1 = drop (length l) d @ [0])"
proof (induction l arbitrary: d)
  case (Cons c l)
  show ?case
  proof (cases d)
    case Nil
    then show ?thesis using Cons.prems lower_0 [of c] by (simp add: lower_def)
  next
    case (Cons x d1)
    then show ?thesis using Cons.IH [of d1] Cons.prems by (auto simp: lower_def)
  qed
qed (simp add: lower_def)

lemma lower_dotted: "ls \<noteq> [] \<Longrightarrow> lower (dotted (l # ls)) = lower l @ 46 # lower (dotted ls)"
  by (cases ls) (simp_all add: lower_def ascii_lower_def)

lemma match_name_clean:
  "labels_ok ls \<Longrightarrow> labels_clean ls \<Longrightarrow> 0 \<notin> set d \<Longrightarrow> \<exists>v. match_name (put_name ls @ r) (d @ [0]) = Some v \<and>
     (v = Name_matches \<longleftrightarrow> ls \<noteq> [] \<and> lower (dotted ls) = d)"
proof (induction ls arbitrary: d)
  case (Cons l ls)
  have l: "l \<noteq> []" "length l < 256" "0 \<notin> set l" using Cons.prems by simp_all
  from match_label_clean [OF l(3), of "put_name ls @ r" d] obtain q1 m1 where
    m: "match_label (length l) (l @ put_name ls @ r) (d @ [0]) = Some (take (length l) d = lower l, q1, m1)"
    "take (length l) d = lower l \<longrightarrow> q1 = put_name ls @ r \<and> m1 = drop (length l) d @ [0]" by blast
  note len = length_byte [OF l(2)] length_byte_0 [OF l(1,2)]
  show ?case
  proof (cases "take (length l) d = lower l")
    case False
    have "take (length l) (lower (dotted (l # ls))) = lower l" by (cases ls) (simp_all add: lower_def)
    then have "lower (dotted (l # ls)) \<noteq> d" using False by auto
    then show ?thesis using m False len by simp
  next
    case True
    then have lb: "length l \<le> length d" by (metis length_map length_take lower_def min.cobounded1)
    obtain d1 where d: "d = lower l @ d1" "drop (length l) d = d1" using True by (metis append_take_drop_id)
    have q1: "q1 = put_name ls @ r" "m1 = d1 @ [0]" using m(2) True d(2) by simp_all
    have hd0: "\<exists>x q2. put_name ls @ r = x # q2 \<and> (x = 0 \<longleftrightarrow> ls = [])"
      using Cons.prems by (cases ls) (auto simp: length_byte_0)
    then obtain x q2 where x: "put_name ls @ r = x # q2" "x = 0 \<longleftrightarrow> ls = []" by blast
    show ?thesis
    proof (cases d1)
      case Nil
      then show ?thesis using m(1) True len q1 x d(1) lower_dotted [of ls l] by (cases "ls = []") simp_all
    next
      case (Cons y d2)
      show ?thesis
      proof (cases "y = 46")
        case False
        have "lower (dotted (l # ls)) \<noteq> d" using False Cons d(1) lower_dotted [of ls l] by (cases "ls = []") simp_all
        moreover have "y \<noteq> 0" using Cons.prems(3) d(1) Cons by auto
        ultimately show ?thesis using m(1) True len q1 x Cons False by simp
      next
        case dot: True
        have "match_name (put_name (l # ls) @ r) (d @ [0]) = match_name (put_name ls @ r) (d2 @ [0])"
          using m(1) True len q1 x Cons dot by simp
        moreover have "lower (dotted (l # ls)) = d \<longleftrightarrow> ls \<noteq> [] \<and> lower (dotted ls) = d2"
          using d(1) Cons dot lower_dotted [of ls l] by (cases "ls = []") simp_all
        ultimately show ?thesis using Cons.IH [of d2] Cons.prems d(1) Cons by simp
      qed
    qed
  qed
qed simp

text \<open>The name without a leading \<open>www\<close>.\<close>

definition strip_www :: "u8 list list \<Rightarrow> u8 list list" where
  "strip_www ls = (case ls of l # ls1 \<Rightarrow> if lower l = www then ls1 else ls | [] \<Rightarrow> [])"

lemma skip_www_put:
  assumes "labels_ok ls"
  shows "skip_www (put_name ls @ r) = Some (put_name (strip_www ls) @ r)"
proof (cases ls)
  case (Cons l ls1)
  have l: "length l < 256" using assms Cons by simp
  have three: "(of_nat (length l) :: u8) = 3 \<longleftrightarrow> length l = 3"
  proof
    assume "(of_nat (length l) :: u8) = 3"
    then have "unat (of_nat (length l) :: u8) = unat (3 :: u8)" by simp
    then show "length l = 3" using length_byte [OF l] by simp
  qed simp
  have "length l = 3" if "lower l = www"
  proof -
    have "length (lower l) = length www" using that by simp
    then show ?thesis by (simp add: lower_def www_def)
  qed
  then show ?thesis using three Cons by (auto simp: skip_www_def strip_www_def lower_def)
qed (simp add: skip_www_def strip_www_def)

lemma strip_www_ok: "labels_ok ls \<Longrightarrow> labels_ok (strip_www ls)" "labels_clean ls \<Longrightarrow> labels_clean (strip_www ls)"
  by (cases ls; simp add: strip_www_def)+

section \<open>Questions\<close>

text \<open>The header of a query with one question and nothing else.\<close>

definition plain_query :: "u8 list \<Rightarrow> bool" where
  "plain_query h \<longleftrightarrow> length h = DNS_HEADER_SIZE \<and> \<not> bit (h ! 2) 7 \<and> take_bit 4 (drop_bit 3 (h ! 2)) = 0 \<and>
     drop 4 h = [0, 1, 0, 0, 0, 0, 0, 0]"

definition address_question :: "u8 list \<Rightarrow> u8 list \<Rightarrow> bool" where
  "address_question qt qc \<longleftrightarrow> (qt = [0, 1] \<or> qt = [0, 255]) \<and> (qc = [0, 1] \<or> qc = [0, 255])"

lemma respond_question:
  assumes h: "plain_query h" and ls: "labels_ok ls" and q: "address_question qt qc" and d: "domainName s \<noteq> []" "domainName s \<noteq> [42]"
  defines "query \<equiv> put_name ls @ qt @ qc"
  shows "respondToRequest from (h @ query @ rest) s =
    (case match_name (put_name (strip_www ls) @ qt @ qc @ rest) (domainName s @ [0]) of None \<Rightarrow> None
     | Some Name_matches \<Rightarrow> Some (False, replyWithIP from h query s)
     | Some Label_differs \<Rightarrow>
         if forwarder s then Some (True, s) else Some (False, replyWithError from h (errorReplyCode s) (Some query) s)
     | Some Name_differs \<Rightarrow> Some (False, replyWithError from h (errorReplyCode s) (Some query) s))"
proof -
  have len: "length h = 12" "length qt = 2" "length qc = 2" using h q by (auto simp: plain_query_def address_question_def DNS_HEADER_SIZE_def)
  have hd: "take 2 (drop 4 h) = swap16 1" "take 6 (drop 6 h) = [0, 0, 0, 0, 0, 0]"
  proof -
    have "drop 6 h = drop 2 (drop 4 h)" by simp
    also have "\<dots> = drop 2 [0, 1, 0, 0, 0, 0, 0, 0]" using h by (simp only: plain_query_def)
    finally show "take 2 (drop 4 h) = swap16 1" "take 6 (drop 6 h) = [0, 0, 0, 0, 0, 0]" using h by (simp_all add: plain_query_def swap16_def)
  qed
  have parse: "skip_labels (query @ rest) = Some (0 # qt @ qc @ rest)"
    using skip_labels_put [OF ls, of "qt @ qc @ rest"] by (simp add: query_def)
  have cut: "take (length (query @ rest) - length (0 # qt @ qc @ rest) + 5) (query @ rest) = query"
    by (simp add: query_def len length_put_name)
  have fields: "take 2 (drop 1 (0 # qt @ qc @ rest)) = qt" "take 2 (drop 3 (0 # qt @ qc @ rest)) = qc"
    using len by (simp_all add: numeral_3_eq_3 numeral_2_eq_2)
  have sup: "qc = swap16 255 \<or> qc = swap16 1" "qt = swap16 1 \<or> qt = swap16 255" using q by (auto simp: address_question_def swap16_def)
  have buf: "take DNS_HEADER_SIZE (h @ query @ rest) = h" "drop DNS_HEADER_SIZE (h @ query @ rest) = query @ rest"
    using len by (simp_all add: DNS_HEADER_SIZE_def)
  have www: "skip_www (query @ rest) = Some (put_name (strip_www ls) @ qt @ qc @ rest)"
    using skip_www_put [OF ls, of "qt @ qc @ rest"] by (simp add: query_def)
  have "\<not> length (h @ query @ rest) < DNS_HEADER_SIZE" "\<not> length (0 # qt @ qc @ rest) < 5" using len by (simp_all add: DNS_HEADER_SIZE_def)
  then show ?thesis
    unfolding respondToRequest_def Let_def buf parse option.case cut fields hd www
    using h sup d by (auto simp only: plain_query_def if_False if_True simp_thms)
qed

end
