(* ===== verification/Dns_Session.thy ===== *)
theory Dns_Session
  imports Dns_Names
begin

text \<open>
  What a client sees of the DNS server: which questions get the address of the access point, that every packet is dealt
  with, and that the answers to forwarded questions come back to those who asked.
\<close>

section \<open>Answers\<close>

definition clean_domain :: "dns_server \<Rightarrow> bool" where
  "clean_domain s \<longleftrightarrow> 0 \<notin> set (domainName s)"


text \<open>A query for the address of \<open>A.b\<close> by a client 7, to a server for \<open>a.b\<close>.\<close>

definition query_header :: "u8 list" where
  "query_header = [0x12, 0x34, 1, 0, 0, 1, 0, 0, 0, 0, 0, 0]"

definition portal :: dns_server where
  "portal = \<lparr>domainName = [97, 46, 98], dns_ip = 8, que = Some (replicate 8 \<lparr>rq_ip = 0, rq_port = 0, rq_id = 0\<rparr>), dns_ttl = htonl 60,
     errorReplyCode = NonExistentDomain, forwarder = True, resolvedIP = [192, 168, 4, 1], dns_port = 53, dns_ids = 0xffff, listening = True, dns_sent = []\<rparr>"

lemma query_header_plain: "plain_query query_header"
  by (simp add: plain_query_def query_header_def DNS_HEADER_SIZE_def bit_iff_odd drop_bit_eq_div take_bit_eq_mod)


text \<open>A name whose first label is only the beginning of the domain's is refused, although the server forwards other names.\<close>

lemma dns_prefix_refused:
  assumes "plain_query h" and "labels_ok ls" and "labels_clean ls" and "address_question qt qc" and "strip_www ls = l # ls1"
    and "domainName s = lower l @ y # d" and "y \<noteq> 46" and "y \<noteq> 0"
  defines "query \<equiv> put_name ls @ qt @ qc"
  shows "respondToRequest from (h @ query @ rest) s = Some (False, replyWithError from h (errorReplyCode s) (Some query) s)"
proof -
  have l: "l \<noteq> []" "length l < 256" "0 \<notin> set l" using strip_www_ok [of ls] assms(2,3,5) by simp_all
  have "length (lower l) = length l" by (simp add: lower_def)
  then have d: "domainName s \<noteq> []" "domainName s \<noteq> [42]" "take (length l) (domainName s) = lower l" "drop (length l) (domainName s) = y # d"
    using assms(6) l(1) by (auto simp: append_eq_Cons_conv lower_def)
  from match_label_clean [OF l(3), of "put_name ls1 @ qt @ qc @ rest" "domainName s"] d(3,4)
  have m: "match_label (length l) (l @ put_name ls1 @ qt @ qc @ rest) (domainName s @ [0]) = Some (True, put_name ls1 @ qt @ qc @ rest, (y # d) @ [0])"
    by auto
  obtain x q where x: "put_name ls1 @ qt @ qc @ rest = x # q" by (cases ls1) auto
  have "match_name (put_name (strip_www ls) @ qt @ qc @ rest) (domainName s @ [0]) = Some Name_differs"
    using m assms(7,8) length_byte [OF l(2)] length_byte_0 [OF l(1,2)] unfolding assms(5) x by (simp add: x)
  then show ?thesis unfolding query_def respond_question [OF assms(1,2,4) d(1,2)] by simp
qed

text \<open>A zero byte in a label agrees with the end of the domain, and the comparison goes on behind it.\<close>

lemma dns_zero_byte:
  "respondToRequest (7, 1000) (query_header @ [4, 97, 46, 98, 0, 0, 0, 1, 0, 1]) portal = None"
  by code_simp

section \<open>Every packet\<close>

definition clean_question :: "u8 list \<Rightarrow> bool" where
  "clean_question buf \<longleftrightarrow> (\<forall>ls r. labels_ok ls \<longrightarrow> drop DNS_HEADER_SIZE buf = put_name ls @ r \<longrightarrow> labels_clean ls)"

definition quiet :: "dns_server \<Rightarrow> dns_server \<Rightarrow> bool" where
  "quiet s s1 \<longleftrightarrow> s1\<lparr>dns_sent := dns_sent s\<rparr> = s"

text \<open>At most one packet, to \<open>to\<close>.\<close>

definition sends_one :: "u32 \<times> u16 \<Rightarrow> dns_server \<Rightarrow> dns_server \<Rightarrow> bool" where
  "sends_one to s s1 \<longleftrightarrow> (\<exists>d. dns_sent s1 = dns_sent s @ [(fst to, snd to, d)])"

lemma reply_sends [simp]: "sends_one from s (replyWithError from h c q s)" "sends_one from s (replyWithIP from h d s)"
  by (simp_all add: sends_one_def replyWithError_def replyWithIP_def dns_send_def)

definition dealt_with :: "u32 \<times> u16 \<Rightarrow> dns_server \<Rightarrow> (bool \<times> dns_server) option \<Rightarrow> bool" where
  "dealt_with from s res \<longleftrightarrow> (\<exists>b s1. res = Some (b, s1) \<and> (s1 = s \<or> \<not> b \<and> sends_one from s s1))"

lemma dealt_with_intros:
  "dealt_with from s (Some (b, s))" "dealt_with from s (Some (False, replyWithError from h c q s))"
  "dealt_with from s (Some (False, replyWithIP from h d s))"
  "dealt_with from s r1 \<Longrightarrow> dealt_with from s r2 \<Longrightarrow> dealt_with from s (if cond then r1 else r2)"
  by (auto simp: dealt_with_def intro: exI [of _ False])

lemma slot_index:
  assumes "4 \<le> LENGTH('a)"
  shows "unat ((x :: 'a::len word) AND 7) = unat x mod 8"
proof -
  have "(7 :: 'a word) = mask 3" by (simp add: mask_eq_exp_minus_1)
  then have "x AND 7 = take_bit 3 x" by (simp add: take_bit_eq_mask)
  then show ?thesis by (simp add: unat_take_bit)
qed

definition que_ok :: "dns_server \<Rightarrow> bool" where
  "que_ok s \<longleftrightarrow> (\<forall>qs. que s = Some qs \<longrightarrow> length qs = kDNSSQueSize)"

lemma respond_total:
  assumes "DNS_HEADER_SIZE \<le> length buf" and "clean_question buf" and "clean_domain s"
  shows "dealt_with from s (respondToRequest from buf s)"
proof -
  have len: "\<not> length buf < DNS_HEADER_SIZE" using assms(1) by simp
  have named: "\<exists>v. match_name (put_name (strip_www ls) @ r) (domainName s @ [0]) = Some v"
    if "labels_ok ls" "drop DNS_HEADER_SIZE buf = put_name ls @ r" for ls r
    using match_name_clean [OF strip_www_ok(1) [OF that(1)] strip_www_ok(2), of "domainName s" r] that assms(2,3)
    by (auto simp: clean_question_def clean_domain_def)
  show ?thesis
  proof (cases "skip_labels (drop DNS_HEADER_SIZE buf)")
    case None
    then show ?thesis unfolding respondToRequest_def Let_def None option.case if_not_P [OF len] by (intro dealt_with_intros)
  next
    case (Some start)
    show ?thesis
    proof (cases "length start < 5")
      case True
      then show ?thesis
        unfolding respondToRequest_def Let_def Some option.case if_not_P [OF len] if_P [OF True] by (intro dealt_with_intros)
    next
      case False
      then obtain x r where "start = x # r" by (cases start) auto
      with skip_labels_name Some obtain ls where ls: "labels_ok ls" "drop DNS_HEADER_SIZE buf = put_name ls @ r" by metis
      from named [OF ls] obtain v where v: "match_name (put_name (strip_www ls) @ r) (domainName s @ [0]) = Some v" by blast
      have w: "skip_www (drop DNS_HEADER_SIZE buf) = Some (put_name (strip_www ls) @ r)" unfolding ls(2) by (rule skip_www_put [OF ls(1)])
      show ?thesis
        unfolding respondToRequest_def Let_def Some option.case if_not_P [OF len] w v
        by (cases v; simp only: name_match.case; intro dealt_with_intros)
    qed
  qed
qed



section \<open>Forwarding\<close>

text \<open>Packets that reach a forwarder after a question was passed on: further questions, and replies from the other server.\<close>

datatype dns_event = Ask "u32 \<times> u16" "u8 list" | Reply "u8 list"

fun dns_step :: "dns_event \<Rightarrow> dns_server \<Rightarrow> dns_server" where
  "dns_step (Ask from d) s = forwardRequest from d s"
| "dns_step (Reply d) s = forwardReply d s"

definition asks :: "dns_event list \<Rightarrow> nat" where
  "asks es = length (filter (\<lambda>e. case e of Ask f d \<Rightarrow> True | Reply d \<Rightarrow> False) es)"

lemma asks_simps [simp]: "asks [] = 0" "asks (Ask f d # es) = asks es + 1" "asks (Reply d # es) = asks es"
  by (simp_all add: asks_def)

text \<open>The slot of the identification \<open>x\<close> holds \<open>r\<close>; \<open>n\<close> further questions have been passed on.\<close>

definition waiting :: "u32 \<Rightarrow> requester \<Rightarrow> nat \<Rightarrow> dns_server \<Rightarrow> bool" where
  "waiting x r n s \<longleftrightarrow> forwarder s \<and> ip_isSet (dns_ip s) \<and> dns_ids s = x + of_nat n \<and>
     (\<exists>qs. que s = Some qs \<and> length qs = kDNSSQueSize \<and> qs ! (unat x mod 8) = r)"

lemma unat_add_mod8: "unat (x + of_nat n :: u32) mod 8 = (unat x + n) mod 8"
proof -
  have "unat (x + of_nat n :: u32) = (unat x + n) mod 2 ^ 32" by (simp add: unat_word_ariths unat_of_nat mod_simps)
  then show ?thesis by (simp add: mod_mod_cancel)
qed

lemma slot_apart:
  assumes "0 < k" and "k < 8"
  shows "(a + k) mod 8 \<noteq> a mod (8 :: nat)"
proof
  assume "(a + k) mod 8 = a mod 8"
  then have "8 dvd k" using mod_eq_dvd_iff_nat [of a "a + k" 8] by simp
  then show False using assms dvd_imp_le by fastforce
qed

lemma waiting_ask:
  assumes "waiting x r n s" and "n + 1 < 8"
  shows "waiting x r (n + 1) (forwardRequest from d s)"
proof -
  obtain qs where q: "forwarder s" "ip_isSet (dns_ip s)" "dns_ids s = x + of_nat n" "que s = Some qs" "length qs = 8" "qs ! (unat x mod 8) = r"
    using assms(1) by (auto simp: waiting_def kDNSSQueSize_def)
  let ?i = "unat (dns_ids s + 1) mod 8"
  have ids: "dns_ids s + 1 = x + of_nat (n + 1)" using q(3) by simp
  have "?i = (unat x + (n + 1)) mod 8" unfolding ids by (rule unat_add_mod8)
  then have ne: "?i \<noteq> unat x mod 8" using slot_apart [of "n + 1" "unat x"] assms(2) by simp
  let ?r = "\<lparr>rq_ip = fst from, rq_port = snd from, rq_id = packet_id d\<rparr>"
  have seven: "of_nat (kDNSSQueSize - 1) = (7 :: u32)" by (simp add: kDNSSQueSize_def)
  have slot: "unat ((dns_ids s + 1) AND 7) = ?i" by (rule slot_index) simp
  define qs1 where "qs1 = qs[?i := ?r]"
  have f: "forwardRequest from d s = (dns_send (dns_ip s, IANA_DNS_PORT) (with_id (ucast (dns_ids s + 1)) d) s)
      \<lparr>dns_ids := dns_ids s + 1, que := Some qs1\<rparr>"
    unfolding forwardRequest_def Let_def q(4) option.case seven slot qs1_def using q(1,2) by simp
  have "qs1 ! (unat x mod 8) = r" "length qs1 = 8" using ne q(5,6) unfolding qs1_def by (metis nth_list_update_neq, simp)
  then show ?thesis unfolding f ids using q(1,2) by (simp add: waiting_def kDNSSQueSize_def dns_send_def)
qed

lemma waiting_reply:
  assumes "waiting x r n s" and "unat (packet_id d) mod 8 \<noteq> unat x mod 8"
  shows "waiting x r n (forwardReply d s)"
proof -
  obtain qs where q: "forwarder s" "ip_isSet (dns_ip s)" "dns_ids s = x + of_nat n" "que s = Some qs" "length qs = 8" "qs ! (unat x mod 8) = r"
    using assms(1) by (auto simp: waiting_def kDNSSQueSize_def)
  then show ?thesis using assms(2)
    by (simp add: waiting_def forwardReply_def dns_send_def Let_def slot_index kDNSSQueSize_def)
qed

definition replies_elsewhere :: "u32 \<Rightarrow> dns_event list \<Rightarrow> bool" where
  "replies_elsewhere x es \<longleftrightarrow> (\<forall>d. Reply d \<in> set es \<longrightarrow> unat (packet_id d) mod 8 \<noteq> unat x mod 8)"

lemma waiting_run:
  "waiting x r n s \<Longrightarrow> n + asks es < 8 \<Longrightarrow> replies_elsewhere x es \<Longrightarrow> waiting x r (n + asks es) (fold dns_step es s)"
proof (induction es arbitrary: n s)
  case (Cons e es)
  have el: "replies_elsewhere x es" using Cons.prems(3) by (simp add: replies_elsewhere_def)
  show ?case
  proof (cases e)
    case (Ask f d)
    then show ?thesis using Cons.IH [OF waiting_ask [OF Cons.prems(1)] _ el] Cons.prems(2) by simp
  next
    case (Reply d)
    then have "unat (packet_id d) mod 8 \<noteq> unat x mod 8" using Cons.prems(3) by (simp add: replies_elsewhere_def)
    then show ?thesis using Cons.IH [OF waiting_reply [OF Cons.prems(1)] _ el] Cons.prems(2) Reply by simp
  qed
qed simp

lemma waiting_answered:
  assumes w: "waiting x r n s" and n: "n < 8" and d: "packet_id d = ucast x" and r: "rq_ip r \<noteq> 0"
  shows "dns_sent (forwardReply d s) = dns_sent s @ [(rq_ip r, rq_port r, with_id (rq_id r) d)]"
proof -
  obtain qs where q: "forwarder s" "dns_ids s = x + of_nat n" "que s = Some qs" "length qs = 8" "qs ! (unat x mod 8) = r"
    using w by (auto simp: waiting_def kDNSSQueSize_def)
  have u: "unat (ucast y :: u16) = unat y mod 65536" for y :: u32 by (simp add: unsigned_ucast_eq take_bit_eq_mod)
  have "unat (x + of_nat n :: u32) = (unat x + n) mod 2 ^ 32" by (simp add: unat_word_ariths unat_of_nat mod_simps)
  then have "unat (ucast (dns_ids s) :: u16) = (unat x + n) mod 65536" unfolding u q(2) by (simp add: mod_mod_cancel)
  moreover have "(unat x + n) mod 65536 \<le> unat x mod 65536 + n"
    using mod_less_eq_dividend [of "unat x mod 65536 + n" 65536] by (simp add: mod_simps)
  ultimately have "unat (ucast (dns_ids s) :: u16) < unat (packet_id d) + 8" using n unfolding d u by simp
  then have id: "\<not> int kDNSSQueSize \<le> uint (ucast (dns_ids s) :: u16) - uint (packet_id d)"
    unfolding kDNSSQueSize_def uint_nat by linarith
  have "unat (packet_id d AND 7) = unat x mod 8" unfolding d by (simp add: slot_index u mod_mod_cancel)
  then have "qs ! unat (packet_id d AND of_nat (kDNSSQueSize - 1)) = r" using q(5) by (simp add: kDNSSQueSize_def)
  then show ?thesis using q(1,3) r id by (simp add: forwardReply_def dns_send_def Let_def)
qed



text \<open>
  C40: The test that should drop replies to questions that were not asked lately lets every identification above the counter through: a
  reply with an identification the server never gave out is sent to a waiting client, as the answer to its question.
\<close>

theorem dns_forged_reply:
  assumes "forwarder s" and "que s = Some qs" and "uint (ucast (dns_ids s) :: u16) < uint (packet_id d)"
    and "r = qs ! (unat (packet_id d) mod 8)" and "rq_ip r \<noteq> 0"
  shows "dns_sent (forwardReply d s) = dns_sent s @ [(rq_ip r, rq_port r, with_id (rq_id r) d)]"
proof -
  have "\<not> int kDNSSQueSize \<le> uint (ucast (dns_ids s) :: u16) - uint (packet_id d)" using assms(3) by (simp add: kDNSSQueSize_def)
  moreover have "unat (packet_id d AND of_nat (kDNSSQueSize - 1)) = unat (packet_id d) mod 8"
    using slot_index [of "packet_id d"] by (simp add: kDNSSQueSize_def)
  ultimately show ?thesis using assms(1,2,4,5) by (simp add: forwardReply_def dns_send_def Let_def)
qed

definition asked_portal :: dns_server where
  "asked_portal = portal\<lparr>dns_ids := 0x101, que := Some (replicate 8 \<lparr>rq_ip = 7, rq_port = 1000, rq_id = 0x3412\<rparr>)\<rparr>"

theorem dns_forged_reply_witness:
  "dns_sent (forwardReply [0, 0x77, 6, 6] asked_portal) = [(7, 1000, [0x12, 0x34, 6, 6])]"
proof -
  have a: "forwarder asked_portal" "que asked_portal = Some (replicate 8 \<lparr>rq_ip = 7, rq_port = 1000, rq_id = 0x3412\<rparr>)"
    "uint (ucast (dns_ids asked_portal) :: u16) < uint (packet_id [0, 0x77, 6, 6])" "dns_sent asked_portal = []"
    by (simp_all add: asked_portal_def portal_def packet_id_def)
  have "\<lparr>rq_ip = (7 :: u32), rq_port = (1000 :: u16), rq_id = (0x3412 :: u16)\<rparr> =
      replicate 8 \<lparr>rq_ip = 7, rq_port = 1000, rq_id = 0x3412\<rparr> ! (unat (packet_id [0, 0x77, 6, 6]) mod 8)" by simp
  from dns_forged_reply [OF a(1-3) this] show ?thesis by (simp add: a(4) with_id_def)
qed

section \<open>Configuration\<close>

text \<open>What the theorems ask of the server holds from its start on.\<close>

lemma enable_keeps:
  assumes "que_ok s" and "clean_domain s" and "\<forall>m. mem = Some m \<longrightarrow> length m = kDNSSQueSize" and "0 \<notin> set name"
  shows "que_ok (snd (enableForwarder mem name ip s)) \<and> clean_domain (snd (enableForwarder mem name ip s))"
proof -
  have "0 \<notin> set (map ascii_lower name)" using assms(4) lower_0 by (metis imageE set_map)
  moreover have "0 \<notin> set (drop 4 e)" if "0 \<notin> set e" for e :: "u8 list" using that by (meson in_set_dropD)
  ultimately have "0 \<notin> set (downcaseAndRemoveWwwPrefix name)" by (simp add: downcaseAndRemoveWwwPrefix_def Let_def)
  then show ?thesis using assms(1-3) by (auto simp: enableForwarder_def disableForwarder_def que_ok_def clean_domain_def Let_def)
qed

lemma enable_result:
  "fst (enableForwarder mem name ip s) = forwarder (snd (enableForwarder mem name ip s))"
  "ip_isSet ip \<Longrightarrow> dns_ip (snd (enableForwarder mem name ip s)) = ip"
  by (simp_all add: enableForwarder_def disableForwarder_def Let_def)

lemma dns_start_ok:
  assumes "que_ok s" and "clean_domain s" and "\<forall>m. mem = Some m \<longrightarrow> length m = kDNSSQueSize" and "0 \<notin> set name"
    and "dns_start mem udp port name ip dns s = (True, s1)"
  shows "que_ok s1 \<and> clean_domain s1 \<and> listening s1 \<and> (ip_isSet dns \<longrightarrow> forwarder s1 \<and> dns_ip s1 = dns)"
proof -
  let ?s = "s\<lparr>dns_port := (if port \<noteq> 0 then port else IANA_DNS_PORT), resolvedIP := take 4 ip\<rparr>"
  obtain fwd s2 where e: "enableForwarder mem name dns ?s = (fwd, s2)" by force
  have "que_ok ?s" "clean_domain ?s" using assms(1,2) by (simp_all add: que_ok_def clean_domain_def)
  from enable_keeps [where ip = dns, OF this assms(3,4)] have k: "que_ok s2 \<and> clean_domain s2" by (simp add: e)
  have f: "fwd = forwarder s2" "ip_isSet dns \<Longrightarrow> dns_ip s2 = dns"
    using enable_result [where mem = mem and name = name and ip = dns and s = ?s] e by simp_all
  have s1: "udp" "s2\<lparr>listening := udp\<rparr> = s1" "\<not> (\<not> fwd \<and> (ip_isSet dns \<or> ip_isSet (dns_ip s2)))"
    using assms(5) unfolding dns_start_def Let_def e prod.case by (auto split: if_splits)
  show ?thesis using k f s1 by (auto simp: que_ok_def clean_domain_def)
qed

end
