(* ===== verification/Spec2Isabelle.thy ===== *)
theory Spec2Isabelle
  imports Prelude Umm_Allocator Gdb_Safety Cbuf Base64 Update_Boot Dhcp_Session Recurrent Uart_Config Dns_Session
begin

text \<open>
  \<^bold>\<open>A verification library of the ESP8266 Arduino core\<close>

  The program is the Arduino core for the ESP8266: a boot loader that starts the application found in the SPI flash, the
  C++ runtime a sketch is linked with (memory allocator, strings, buffers, timers and scheduled functions, the serial driver, flash
  access, over-the-air updates, the DHCP server of the access point) and libraries around it (a GDB stub, a DNS server).  The library follows the sources function by function; names are those of the
  source, with a suffix or prefix where HOL uses the name already.

  \<^bold>\<open>Conventions.\<close>  A struct or class is a record and its methods take the record and return it updated.  Machine
  integers are words (\<open>u8\<close>, \<open>u16\<close>, \<open>u32\<close>) where the code does arithmetic on their width, and naturals with the
  wrap-around written out where they are offsets and lengths.  An access outside an object, an endless loop and a call that
  does not return are the value \<open>None\<close>; an error the code reports is its return value.  Code that is not in the repository
  (mask ROM, vendor SDK, submodules) is a record of functions that the definitions take as an argument; what the code
  relies on is a named predicate on that record (\<open>nor_flash\<close>, \<open>sdk_nor\<close>), shown to be satisfiable by the
  witnesses, which use a flash chip in memory.  Debug output, LEDs and watchdog calls are left out, or are entries of a log
  where their order matters.

  \<^bold>\<open>Prelude.\<close>  The word types, the little-endian view of words as bytes and the collections \<open>byte_simps\<close>,
  \<open>mask_simps\<close> and \<open>heap_simps\<close>.

  \<^bold>\<open>Boot loader\<close> (\<open>src/bootloaders/eboot\<close>).  \<open>Eboot_Command\<close> models the mailbox in RTC memory
  (\<open>eboot_command.c\<close>): the record \<open>eboot_command\<close>, its CRC and read, write and clear; the locale \<open>mailbox\<close> is the contract
  of a mailbox and is interpreted on them.  \<open>Flash_Area\<close> models \<open>flash.h\<close> and \<open>flash.c\<close>: image headers and \<open>SPIEraseAreaEx\<close>
  over the ROM's flash routines.  \<open>Eboot\<close> models \<open>eboot.c\<close>: \<open>load_app_from_flash_raw\<close>, \<open>copy_raw\<close>, which copies, inflates or verifies,
  and \<open>main\<close>, whose outcome is a jump to an entry point, a reset or the final endless loop.  The lemmas show that
  commands survive the mailbox and damage inside a byte is noticed, that exactly the sectors of an area are erased, that a
  copy installs the image and verifying finds a bad one, that the sections of an image are loaded, and that a command is
  carried out once and the chip never hangs.

  \<^bold>\<open>Heap\<close> (\<open>src/cores/esp8266/umm_malloc\<close>).  \<open>Umm_Heap\<close> has the context record \<open>umm_heap_context\<close>, the block fields
  and their accessors; \<open>Chains\<close> describes the free list and the list of blocks by the lists and sets of their members;
  \<open>Umm_Blocks\<close>, \<open>Umm_Malloc\<close> and \<open>Umm_Bytes\<close>/\<open>Umm_Realloc\<close> model \<open>umm_malloc.cpp\<close> in the order of the file, \<open>Umm_Free\<close> holds
  the contracts of allocation and release, \<open>Umm_Info\<close> (with \<open>Sqrt32\<close>) models \<open>umm_info.c\<close>, \<open>Umm_Integrity\<close>
  \<open>umm_integrity.c\<close>, \<open>Umm_Poison\<close> \<open>umm_poison.c\<close>.  \<open>heap_ok\<close> is the invariant over ghost values for the blocks and the
  free list.  Every operation keeps it, ends, leaves the data of the other blocks alone and does what it promises: best fit, no
  failure while a block is large enough, complete merging on release.  The locale \<open>allocator\<close> in \<open>Umm_Allocator\<close> is the
  contract of a heap towards its users; it is interpreted on these operations and gives the property for sequences of calls.

  \<^bold>\<open>Debugger stub\<close> (\<open>src/libraries/GDBStub\<close>).  \<open>Gdb_Packet\<close> models hex numbers, packets and the receiver, \<open>Gdb_Stub\<close>
  the commands, the command loop, the break- and watchpoint routines of \<open>gdbstub-entry.S\<close> and the exception and
  interrupt handlers, on the record \<open>gdbstub\<close>.  Input is a list of bytes; a receiver that runs out of it waits.  \<open>Gdb_Session\<close>
  shows what a session does with the packets a debugger sends, \<open>Gdb_Safety\<close> what holds for any input: the locale
  \<open>session_invariant\<close> turns an invariant of the parts into one of the loop and the handlers and is interpreted for the memory
  and the interrupt state.

  \<^bold>\<open>Strings and buffers\<close> (\<open>src/cores/esp8266\<close>).  \<open>Wstring\<close> and \<open>Wstring_Search\<close> model \<open>WString.cpp\<close>: the
  two storage forms of \<open>String\<close>, the editing operations (locale \<open>text_store\<close>: a string refines a bounded text), comparison,
  search and replacement, every access checked.  \<open>Cbuf\<close> models \<open>cbuf.cpp\<close>, a ring that refines a bounded queue
  (locale \<open>byte_queue\<close>).  \<open>Base64\<close> models \<open>libb64\<close> and \<open>base64.cpp\<close>, coder and decoder as machines stepped by one
  character, the round trip and the building of the text in a \<open>String\<close>.

  \<^bold>\<open>Flash access and updates.\<close>  \<open>Esp_Flash\<close> models the flash routines of \<open>Esp.cpp\<close> over those of the SDK: any
  alignment, pages, the read-modify-write of PUYA chips.  \<open>Updater\<close> models \<open>Updater.cpp\<close> on the record \<open>updater\<close>, which
  contains the flash and the RTC memory; callbacks are events of \<open>u_log\<close>.  The invariant of a running update (\<open>receiving\<close>)
  says that the flash behind the sketch holds the bytes received so far.  \<open>Update_Boot\<close> composes it with the boot loader: what
  an update stages is what the next start installs.  The application writes the mailbox with its own copy of the boot
  loader's code (\<open>core_esp8266_eboot_command.cpp\<close>), so both sides use \<open>Eboot_Command\<close>.

  \<^bold>\<open>DHCP server\<close> (\<open>LwipDhcpServer.cpp\<close>, \<open>LwipDhcpServer.h\<close>).  \<open>Dhcp_Message\<close> has the packet, the options buffer and
  the option reader, \<open>Dhcp_Pool\<close> the lease table (\<open>dhcps_pool\<close>, the linked list as a HOL list) and the record \<open>dhcp_server\<close>,
  \<open>Dhcp_Server\<close> the replies, the packet handler and the start and stop of the service.  lwIP, the station interface, the
  allocator and the custom option handler are the record \<open>dhcp_env\<close>; an access outside a message is \<open>None\<close>.
  \<open>Dhcp_Options\<close> relates reader and writer to the list of options in a message, \<open>Dhcp_Leases\<close> holds the invariant of the table
  (distinct clients, distinct addresses inside the range, a sorted list), \<open>Dhcp_Range\<close> the range chosen at the start,
  \<open>Dhcp_Requests\<close> what one packet does, \<open>Dhcp_Session\<close> the handshake, whole sessions and how a client outside the range breaks
  the distinctness of addresses.

  \<^bold>\<open>DNS server\<close> (\<open>src/libraries/DNSServer\<close>).  \<open>Dns_Server\<close> models \<open>DNSServer.cpp\<close> on packets as bytes, with every read of
  a packet or of the domain checked; \<open>Dns_Names\<close> relates the walk over a name to its list of labels and the comparison to an equality of
  texts; \<open>Dns_Session\<close> shows which questions are answered, that every packet is dealt with and that forwarded questions come back.

  \<^bold>\<open>Timers and scheduled functions.\<close>  \<open>Polled_Timeout\<close> models \<open>PolledTimeout.h\<close>: timers polled with a counter that wraps
  around.  \<open>Schedule\<close> and \<open>Recurrent\<close> model \<open>Schedule.cpp\<close> at the level of its list nodes: \<open>queue_ok\<close> and \<open>recur_ok\<close> describe
  the linked lists by the lists of their nodes, and a run of the functions is related to what had been accepted before it.

  \<^bold>\<open>Serial driver\<close> (\<open>uart.cpp\<close>).  \<open>Uart_Rx\<close> models the receiver: ring, hardware FIFO, interrupt handlers and the ways to
  read; \<open>Uart_Session\<close> runs it over arrivals, interrupts and reads (locale \<open>byte_stream\<close>: a receiver that says when it drops
  bytes); \<open>Uart_Config\<close> models opening, pins, transmission and baud rates on the record \<open>port\<close>, which extends the receiver's state.

  \<^bold>\<open>Bounds and fuel.\<close>  One walk, \<open>grain_walk\<close>, takes a bound on the nodes it visits; a bound not below the length of the list
  is enough.  No other definition uses fuel.  Loops are structural or have a measure; walks of the free list, the runs of
  scheduled functions and the reading and writing loops are \<open>partial_function (option)\<close>, and their theorems state that they return \<open>Some\<close> on the states the
  program reaches.  Heaps have at most \<open>0x7fff\<close> blocks, updates at most \<open>2 ^ 30\<close> bytes (the flash has \<open>2 ^ 24\<close>).

  \<^bold>\<open>Not modelled.\<close>  Code whose content is the timing of the hardware (I2C, waveform and timer drivers),
  glue to the binary SDK and to lwIP, BearSSL and the file systems (submodules or vendored), the formatting functions of the C
  library, the multi-heap build of the allocator, the assembly that saves registers around the debugger, and the other
  network services over sockets.  The list of components in the manifest gives the reason for each.
\<close>

end
